(* ===== verification/Prelude.thy ===== *)
theory Prelude
  imports Main "HOL-Library.Word" "HOL-Library.Monad_Syntax"
begin

text \<open>
  What the components share: the machine integers of the code, the result type of its
  fallible calls, and the list lemmas used by more than one component.

  The code's \<open>u8\<close> and \<open>u32\<close> are words of that width.  A \<open>usize\<close> that counts
  elements of a vector is a \<open>nat\<close>: it is bounded by the memory that holds the vector.
  A \<open>Result\<close> is a sum, \<open>Inl\<close> the error; a loop that may run forever returns an option
  around it, \<open>None\<close> standing for "does not return".
\<close>

section \<open>Machine integers\<close>

type_synonym u8 = "8 word"
type_synonym u32 = "32 word"
type_synonym bytes = "8 word list"

section \<open>Results\<close>

type_synonym ('e, 'a) result = "'e + 'a"

text \<open>The \<open>?\<close> operator of the code on a result, and on a result that may not come.\<close>

definition bind_ok :: "('e, 'a) result \<Rightarrow> ('a \<Rightarrow> ('e, 'b) result) \<Rightarrow> ('e, 'b) result" where
  "bind_ok r f = (case r of Inl e \<Rightarrow> Inl e | Inr a \<Rightarrow> f a)"

definition bind_run ::
  "('e, 'a) result option \<Rightarrow> ('a \<Rightarrow> ('e, 'b) result option) \<Rightarrow> ('e, 'b) result option" where
  "bind_run r f = (case r of None \<Rightarrow> None | Some (Inl e) \<Rightarrow> Some (Inl e) | Some (Inr a) \<Rightarrow> f a)"

lemma bind_ok_simps [simp]:
  "bind_ok (Inl e) f = Inl e"
  "bind_ok (Inr a) f = f a"
  by (simp_all add: bind_ok_def)

lemma bind_run_simps [simp]:
  "bind_run None f = None"
  "bind_run (Some (Inl e)) f = Some (Inl e)"
  "bind_run (Some (Inr a)) f = f a"
  by (simp_all add: bind_run_def)

lemma bind_run_ok_iff:
  "bind_run r f = Some (Inr b) \<longleftrightarrow> (\<exists>a. r = Some (Inr a) \<and> f a = Some (Inr b))"
  by (auto simp: bind_run_def split: option.splits sum.splits)

lemma bind_run_returns:
  "\<exists>a. r = Some a \<Longrightarrow> (\<And>a. r = Some (Inr a) \<Longrightarrow> \<exists>b. f a = Some b) \<Longrightarrow> \<exists>b. bind_run r f = Some b"
  by (auto simp: bind_run_def split: option.splits sum.splits)

section \<open>Vectors without duplicates\<close>

text \<open>The code's \<open>if !v.contains(&x) { v.push(x) }\<close>.\<close>

definition push_new :: "'a \<Rightarrow> 'a list \<Rightarrow> 'a list" where
  "push_new x xs = (if x \<in> set xs then xs else xs @ [x])"

lemma set_push_new [simp]: "set (push_new x xs) = insert x (set xs)"
  by (auto simp: push_new_def)

lemma distinct_push_new [simp]: "distinct (push_new x xs) = distinct xs"
  by (auto simp: push_new_def)

section \<open>Lemma collections\<close>

named_theorems gre_simps \<open>grammar elements and cursors\<close>
named_theorems page_simps \<open>the paged store and its block tables\<close>
named_theorems radix_simps \<open>radix tree arenas\<close>

end
