(* ===== verification/Grammar_Utf8.thy ===== *)
theory Grammar_Utf8
  imports Prelude
begin

unbundle bit_operations_syntax

text \<open>
  The two UTF-8 decoders of \<^verbatim>\<open>crates/frink-models/src/grammar/utf8.rs\<close>.  A cursor into
  the byte slice that only moves forward is the list of the bytes from it on; the end of
  the list plays the role of the \<open>0\<close> that \<open>byte_at\<close> returns past the end.

  The lemmas show that the piece decoder inverts the standard encoding, and that cutting a
  well-formed byte string into pieces anywhere, in the middle of a character too, decodes
  to the same code points.
\<close>

section \<open>State and tables\<close>

record partial_utf8 =
  pu_value :: u32
  pu_n_remain :: int

definition partial_utf8_default :: partial_utf8 where
  "partial_utf8_default = \<lparr>pu_value = 0, pu_n_remain = 0\<rparr>"

definition char_lookup :: "nat list" where
  "char_lookup = [1, 1, 1, 1, 1, 1, 1, 1, 1, 1, 1, 1, 2, 2, 3, 4]"

definition piece_lookup :: "int list" where
  "piece_lookup = [1, 1, 1, 1, 1, 1, 1, 1, 0, 0, 0, 0, 2, 2, 3, 4]"

definition byte_at :: "bytes \<Rightarrow> nat \<Rightarrow> u8" where
  "byte_at src i = (if i < length src then src ! i else 0)"

section \<open>\<open>decode_char\<close>: one code point of the grammar text\<close>

function decode_char_loop :: "bytes \<Rightarrow> nat \<Rightarrow> nat \<Rightarrow> u32 \<Rightarrow> u32 \<times> nat" where
  "decode_char_loop src p stop value =
     (if p < stop \<and> byte_at src p \<noteq> 0
      then decode_char_loop src (Suc p) stop
             (push_bit 6 value + ucast (byte_at src p AND 0x3F))
      else (value, p))"
  by pat_completeness auto
termination
  by (relation "measure (\<lambda>(src, p, stop, value). stop - p)") auto

declare decode_char_loop.simps [simp del]

definition decode_char :: "bytes \<Rightarrow> nat \<Rightarrow> u32 \<times> nat" where
  "decode_char src pos =
     (let first_byte = byte_at src pos;
          len = char_lookup ! unat (drop_bit 4 first_byte);
          mask = push_bit (8 - len) 1 - 1 :: u32
      in decode_char_loop src (pos + 1) (pos + len) (ucast first_byte AND mask))"

section \<open>\<open>decode_piece\<close>: a token piece, continuing a partial sequence\<close>

text \<open>
  The first loop continues the sequence carried in; \<open>None\<close> is its early return on a byte
  that is not a continuation byte.
\<close>

fun continue_partial :: "bytes \<Rightarrow> u32 \<Rightarrow> int \<Rightarrow> (bytes \<times> u32 \<times> int) option" where
  "continue_partial [] value n_remain = Some ([], value, n_remain)"
| "continue_partial (b # bs) value n_remain =
     (if b \<noteq> 0 \<and> 0 < n_remain
      then if drop_bit 6 b \<noteq> 2 then None
           else continue_partial bs (push_bit 6 value + ucast (b AND 0x3F)) (n_remain - 1)
      else Some (b # bs, value, n_remain))"

text \<open>The inner loop of the second one: it does not look at the top bits of the bytes.\<close>

fun take_continuations :: "bytes \<Rightarrow> u32 \<Rightarrow> int \<Rightarrow> bytes \<times> u32 \<times> int" where
  "take_continuations [] value n_remain = ([], value, n_remain)"
| "take_continuations (b # bs) value n_remain =
     (if b \<noteq> 0 \<and> 0 < n_remain
      then take_continuations bs (push_bit 6 value + ucast (b AND 0x3F)) (n_remain - 1)
      else (b # bs, value, n_remain))"

lemma take_continuations_0 [simp]: "take_continuations bs v 0 = (bs, v, 0)"
  by (cases bs) auto

lemma take_continuations_length:
  "take_continuations bs v n = (bs', v', n') \<Longrightarrow> length bs' \<le> length bs"
  by (induction bs v n rule: take_continuations.induct) (auto split: if_splits)

definition lead_remaining :: "u8 \<Rightarrow> int" where
  "lead_remaining b = piece_lookup ! unat (drop_bit 4 b) - 1"

definition lead_value :: "u8 \<Rightarrow> int \<Rightarrow> u32" where
  "lead_value b n_remain = ucast b AND (push_bit (nat (7 - n_remain)) 1 - 1)"

function decode_sequences ::
  "bytes \<Rightarrow> u32 \<Rightarrow> int \<Rightarrow> u32 list \<Rightarrow> u32 list \<times> partial_utf8" where
  "decode_sequences [] value n_remain cps =
     (cps @ [0], \<lparr>pu_value = value, pu_n_remain = n_remain\<rparr>)"
| "decode_sequences (b # bs) value n_remain cps =
     (if b = 0 then (cps @ [0], \<lparr>pu_value = value, pu_n_remain = n_remain\<rparr>)
      else
        let n_remain = lead_remaining b in
        if n_remain < 0 then ([0], \<lparr>pu_value = 0, pu_n_remain = n_remain\<rparr>)
        else
          let (bs', value', n_remain') = take_continuations bs (lead_value b n_remain) n_remain
          in decode_sequences bs' value' n_remain'
               (if n_remain' = 0 then cps @ [value'] else cps))"
  by pat_completeness auto
termination
  by (relation "measure (\<lambda>(bs, v, n, cps). length bs)")
     (auto dest: take_continuations_length [OF sym] simp: le_imp_less_Suc)

declare decode_sequences.simps(2) [simp del]

definition decode_piece :: "bytes \<Rightarrow> partial_utf8 \<Rightarrow> u32 list \<times> partial_utf8" where
  "decode_piece src partial_start =
     (case continue_partial src (pu_value partial_start) (pu_n_remain partial_start) of
        None \<Rightarrow> ([0], \<lparr>pu_value = 0, pu_n_remain = - 1\<rparr>)
      | Some (bs, value, n_remain) \<Rightarrow>
          decode_sequences bs value n_remain
            (if 0 < pu_n_remain partial_start \<and> n_remain = 0 then [value] else []))"

section \<open>Specification: one byte at a time\<close>

text \<open>
  The decoder as an automaton that reads one byte per step and refuses everything that is
  not UTF-8 by its lead-byte table: what a piece decoder promises, without the loops.
\<close>

fun feed_byte :: "u32 \<times> int \<Rightarrow> u8 \<Rightarrow> (u32 list \<times> u32 \<times> int) option" where
  "feed_byte (v, n) b =
     (if b = 0 then None
      else if 0 < n then
        (if drop_bit 6 b \<noteq> 2 then None
         else let v' = push_bit 6 v + ucast (b AND 0x3F)
              in Some (if n = 1 then [v'] else [], v', n - 1))
      else
        let n' = lead_remaining b; v' = lead_value b n'
        in if n' < 0 then None else Some (if n' = 0 then [v'] else [], v', n'))"

declare feed_byte.simps [simp del]

fun feed_bytes :: "u32 \<times> int \<Rightarrow> bytes \<Rightarrow> (u32 list \<times> u32 \<times> int) option" where
  "feed_bytes st [] = Some ([], st)"
| "feed_bytes st (b # bs) =
     (case feed_byte st b of None \<Rightarrow> None
      | Some (out, st') \<Rightarrow>
          (case feed_bytes st' bs of None \<Rightarrow> None
           | Some (outs, st'') \<Rightarrow> Some (out @ outs, st'')))"

lemma feed_bytes_append:
  "feed_bytes st (as @ bs) =
     (case feed_bytes st as of None \<Rightarrow> None
      | Some (o1, st1) \<Rightarrow>
          (case feed_bytes st1 bs of None \<Rightarrow> None | Some (o2, st2) \<Rightarrow> Some (o1 @ o2, st2)))"
  by (induction as arbitrary: st) (auto split: option.splits prod.splits)

lemma feed_byte_nonneg:
  "feed_byte (v, n) b = Some (out, v', n') \<Longrightarrow> 0 \<le> n'"
  by (auto simp: feed_byte.simps Let_def split: if_splits)

lemma feed_bytes_nonneg:
  "feed_bytes (v, n) bs = Some (out, v', n') \<Longrightarrow> 0 \<le> n \<Longrightarrow> 0 \<le> n'"
proof (induction bs arbitrary: v n out)
  case (Cons b bs)
  then show ?case
    by (auto split: option.splits prod.splits dest: feed_byte_nonneg)
qed simp

text \<open>Both loops over continuation bytes follow the automaton to the end of the character.\<close>

lemma take_continuations_feed:
  assumes "feed_bytes (v, n) bs = Some (out, st)" and "0 \<le> n"
    and "take_continuations bs v n = (bs', v', n')"
  shows "\<exists>out'. feed_bytes (v', n') bs' = Some (out', st)
           \<and> out = (if 0 < n \<and> n' = 0 then [v'] else []) @ out'
           \<and> (bs' = [] \<or> n' = 0) \<and> 0 \<le> n'"
  using assms
proof (induction bs v n arbitrary: out rule: take_continuations.induct)
  case (1 v n)
  then show ?case by auto
next
  case (2 b bs v n)
  show ?case
  proof (cases "b \<noteq> 0 \<and> 0 < n")
    case True
    with 2 show ?thesis
      by (auto simp: feed_byte.simps Let_def split: option.splits prod.splits if_splits)
  next
    case False
    with "2.prems" have "b \<noteq> 0"
      by (auto simp: feed_byte.simps)
    with False "2.prems" show ?thesis by auto
  qed
qed

lemma continue_partial_feed:
  assumes "feed_bytes (v, n) bs = Some (out, st)" and "0 \<le> n"
  shows "continue_partial bs v n = Some (take_continuations bs v n)"
  using assms
proof (induction bs v n arbitrary: out rule: take_continuations.induct)
  case (2 b bs v n)
  then show ?case
    by (auto simp: feed_byte.simps Let_def split: option.splits prod.splits if_splits)
qed simp

lemma decode_sequences_feed:
  assumes "feed_bytes (v, n) bs = Some (out, v', n')" and "n = 0 \<or> bs = []"
  shows "decode_sequences bs v n cps = (cps @ out @ [0], \<lparr>pu_value = v', pu_n_remain = n'\<rparr>)"
  using assms
proof (induction bs v n cps arbitrary: out rule: decode_sequences.induct)
  case (1 v n cps)
  then show ?case by simp
next
  case (2 b bs v n cps)
  then have n: "n = 0" and b: "b \<noteq> 0"
    by (auto simp: feed_byte.simps)
  define m where "m = lead_remaining b"
  define w where "w = lead_value b m"
  from "2.prems"(1) n b obtain out1 where
    m: "\<not> m < 0" and rest: "feed_bytes (w, m) bs = Some (out1, v', n')"
    and out: "out = (if m = 0 then [w] else []) @ out1"
    by (auto simp: feed_byte.simps Let_def m_def w_def split: option.splits prod.splits if_splits)
  obtain bs1 v1 n1 where tc: "take_continuations bs w m = (bs1, v1, n1)"
    by (cases "take_continuations bs w m")
  from take_continuations_feed [OF rest _ tc] m obtain out2 where
    f: "feed_bytes (v1, n1) bs1 = Some (out2, v', n')"
    and o1: "out1 = (if 0 < m \<and> n1 = 0 then [v1] else []) @ out2"
    and fin: "bs1 = [] \<or> n1 = 0"
    by auto
  have step: "decode_sequences (b # bs) v n cps
      = decode_sequences bs1 v1 n1 (if n1 = 0 then cps @ [v1] else cps)"
    using b m tc by (simp add: decode_sequences.simps(2) Let_def m_def w_def)
  have ih: "decode_sequences bs1 v1 n1 (if n1 = 0 then cps @ [v1] else cps)
      = ((if n1 = 0 then cps @ [v1] else cps) @ out2 @ [0], \<lparr>pu_value = v', pu_n_remain = n'\<rparr>)"
    using "2.IH" [OF b m_def m tc [symmetric, unfolded w_def] refl refl f] fin by auto
  have "m = 0 \<Longrightarrow> bs1 = bs \<and> v1 = w \<and> n1 = 0"
    using tc by auto
  with m step ih out o1 show ?case by auto
qed

lemma decode_piece_feed:
  assumes "feed_bytes (pu_value p, pu_n_remain p) bs = Some (out, v, n)"
    and "0 \<le> pu_n_remain p"
  shows "decode_piece bs p = (out @ [0], \<lparr>pu_value = v, pu_n_remain = n\<rparr>)"
proof -
  obtain bs1 v1 n1 where
    tc: "take_continuations bs (pu_value p) (pu_n_remain p) = (bs1, v1, n1)"
    by (cases "take_continuations bs (pu_value p) (pu_n_remain p)")
  from take_continuations_feed [OF assms tc] obtain out' where
    "feed_bytes (v1, n1) bs1 = Some (out', v, n)"
    "out = (if 0 < pu_n_remain p \<and> n1 = 0 then [v1] else []) @ out'"
    "bs1 = [] \<or> n1 = 0"
    by auto
  with continue_partial_feed [OF assms] tc show ?thesis
    by (auto simp: decode_piece_def decode_sequences_feed)
qed

section \<open>The standard encoding\<close>

text \<open>
  UTF-8 as RFC 3629 lays it out: one to four bytes, the payload split into six-bit groups.
\<close>

definition utf8_encode :: "u32 \<Rightarrow> bytes" where
  "utf8_encode c =
     (if c < 0x80 then [ucast c]
      else if c < 0x800 then [0xC0 OR ucast (drop_bit 6 c), 0x80 OR (ucast c AND 0x3F)]
      else if c < 0x10000 then
        [0xE0 OR ucast (drop_bit 12 c), 0x80 OR (ucast (drop_bit 6 c) AND 0x3F),
         0x80 OR (ucast c AND 0x3F)]
      else
        [0xF0 OR ucast (drop_bit 18 c), 0x80 OR (ucast (drop_bit 12 c) AND 0x3F),
         0x80 OR (ucast (drop_bit 6 c) AND 0x3F), 0x80 OR (ucast c AND 0x3F)])"

definition code_point :: "u32 \<Rightarrow> bool" where
  "code_point c \<longleftrightarrow> c \<noteq> 0 \<and> c < 0x110000"

lemma less8: "n < (8::nat) \<longleftrightarrow> n = 0 \<or> n = 1 \<or> n = 2 \<or> n = 3 \<or> n = 4 \<or> n = 5 \<or> n = 6 \<or> n = 7"
  by auto

lemma bit_consts:
  "bit (0x3F :: u8) n \<longleftrightarrow> n < 6" "bit (0x80 :: u8) n \<longleftrightarrow> n = 7" 
  "bit (0xC0 :: u8) n \<longleftrightarrow> n = 6 \<or> n = 7"
  "bit (0xE0 :: u8) n \<longleftrightarrow> n = 5 \<or> n = 6 \<or> n = 7" 
  "bit (0xF0 :: u8) n \<longleftrightarrow> n = 4 \<or> n = 5 \<or> n = 6 \<or> n = 7" 
  "bit (2 :: u8) n \<longleftrightarrow> n = 1"
  by (cases "n < 8"; auto simp: less8 dest: bit_imp_le_length)+

lemmas word_bits = bit_or_iff bit_and_iff bit_drop_bit_eq bit_push_bit_iff bit_unsigned_iff bit_consts

declare bit_numeral_word_iff [simp del]

lemma cont_top: "drop_bit 6 (0x80 OR (x AND 0x3F) :: u8) = 2"
  by (rule bit_eqI) (auto simp: word_bits)

lemma cont_low: "(0x80 OR (x AND 0x3F) :: u8) AND 0x3F = x AND 0x3F"
  by (rule bit_eqI) (auto simp: word_bits)

lemma cont_ne0: "(0x80 OR x :: u8) \<noteq> 0"
proof
  assume "0x80 OR x = 0"
  then have "bit (0x80 OR x :: u8) 7 = bit (0::u8) 7" by simp
  then show False by (simp add: word_bits)
qed

lemma shift_add: "push_bit 6 (v::u32) + ucast (x AND 0x3F :: u8) = push_bit 6 v OR ucast (x AND 0x3F)"
  by (rule disjunctive_add) (auto simp: word_bits)

lemma bit_less: "unat c < 2 ^ k \<Longrightarrow> bit (c :: u32) n \<Longrightarrow> n < k"
proof (rule ccontr)
  assume a: "unat c < 2 ^ k" "bit c n" "\<not> n < k"
  then have "(2::nat) ^ k \<le> 2 ^ n" by simp
  with a(1) have lt: "unat c < 2 ^ n" by (rule order_less_le_trans)
  have "bit (unat c) n" using a(2) by (simp add: bit_unsigned_iff)
  with lt show False by (simp add: bit_iff_odd)
qed

lemma lead_remaining_range:
  "unat b < 128 \<Longrightarrow> lead_remaining b = 0"
  "192 \<le> unat b \<Longrightarrow> unat b < 224 \<Longrightarrow> lead_remaining b = 1"
  "224 \<le> unat b \<Longrightarrow> unat b < 240 \<Longrightarrow> lead_remaining b = 2"
  "240 \<le> unat b \<Longrightarrow> lead_remaining b = 3"
proof -
  have d: "unat (drop_bit 4 b) = unat b div 16" by (simp only: unat_drop_bit_eq) (simp add: drop_bit_eq_div)
  have b: "unat b < 256" using unsigned_less [of b] by simp
  show "unat b < 128 \<Longrightarrow> lead_remaining b = 0"
  proof -
    assume "unat b < 128"
    then have "unat b div 16 \<in> {0,1,2,3,4,5,6,7}" by auto
    then show ?thesis by (auto simp: lead_remaining_def piece_lookup_def d)
  qed
  show "192 \<le> unat b \<Longrightarrow> unat b < 224 \<Longrightarrow> lead_remaining b = 1"
  proof -
    assume "192 \<le> unat b" "unat b < 224"
    then have "unat b div 16 \<in> {12, 13}" by auto
    then show ?thesis by (auto simp: lead_remaining_def piece_lookup_def d)
  qed
  show "224 \<le> unat b \<Longrightarrow> unat b < 240 \<Longrightarrow> lead_remaining b = 2"
  proof -
    assume "224 \<le> unat b" "unat b < 240"
    then have "unat b div 16 \<in> {14}" by auto
    then show ?thesis by (auto simp: lead_remaining_def piece_lookup_def d)
  qed
  show "240 \<le> unat b \<Longrightarrow> lead_remaining b = 3"
  proof -
    assume "240 \<le> unat b"
    with b have "unat b div 16 \<in> {15}" by auto
    then show ?thesis by (auto simp: lead_remaining_def piece_lookup_def d)
  qed
qed

lemma lead_value_bit: "bit (lead_value b m) n \<longleftrightarrow> n < nat (7 - m) \<and> bit b n"
proof -
  have "push_bit k 1 - 1 = (mask k :: u32)" for k
    by (simp add: mask_eq_exp_minus_1 push_bit_of_1)
  then show ?thesis
    by (auto simp: lead_value_def word_bits bit_mask_iff dest: bit_imp_le_length)
qed

lemma or_unat:
  assumes "unat (y :: u8) < 2 ^ k" and "\<And>n. bit (x :: u8) n \<Longrightarrow> k \<le> n" and "unat x + 2 ^ k \<le> 256"
  shows "unat (x OR y) = unat x + unat y"
proof -
  have yb: "bit y n \<Longrightarrow> n < k" for n
  proof (rule ccontr)
    assume a: "bit y n" "\<not> n < k"
    then have "(2::nat) ^ k \<le> 2 ^ n" by simp
    with assms(1) have lt: "unat y < 2 ^ n" by (rule order_less_le_trans)
    have "bit (unat y) n" using a(1) by (simp add: bit_unsigned_iff)
    with lt show False by (simp add: bit_iff_odd)
  qed
  have "x OR y = x + y"
    by (rule disjunctive_add [symmetric]) (use yb assms(2) leD in blast)
  moreover have "unat x + unat y < 256" using assms(1,3) by simp
  ultimately show ?thesis by (simp add: unat_word_ariths)
qed

lemma unat_cut: "unat (ucast (drop_bit k (c :: u32)) :: u8) = unat c div 2 ^ k mod 256"
  by (simp only: unsigned_ucast_eq unat_drop_bit_eq) (simp add: drop_bit_eq_div take_bit_eq_mod)

lemma cut_bits: "bit (ucast (drop_bit k (c :: u32)) :: u8) n \<longleftrightarrow> n < 8 \<and> bit c (k + n)"
  by (simp add: word_bits)

lemma feed_lead:
  "b \<noteq> 0 \<Longrightarrow> 0 \<le> lead_remaining b \<Longrightarrow>
   feed_byte (v, 0) b = Some (if lead_remaining b = 0 then [lead_value b 0] else [], lead_value b (lead_remaining b), lead_remaining b)"
  by (auto simp: feed_byte.simps Let_def)

lemma feed_cont:
  "0 < n \<Longrightarrow> feed_byte (v, n) (0x80 OR (x AND 0x3F)) = 
    (let v' = push_bit 6 v OR ucast (x AND 0x3F) in Some (if n = 1 then [v'] else [], v', n - 1))"
  by (simp add: feed_byte.simps cont_top cont_low cont_ne0 shift_add)

lemma cont_bits: "ucast ((ucast (y :: u32) :: u8) AND 0x3F) = (take_bit 6 y :: u32)"
  by (rule bit_eqI) (auto simp: word_bits bit_take_bit_iff)

lemma join_bits:
  "push_bit 6 (drop_bit (6 + k) c) OR take_bit 6 (drop_bit k c) = drop_bit k (c :: u32)"
proof (rule bit_word_eqI)
  fix n assume "n < LENGTH(32)"
  then show "bit (push_bit 6 (drop_bit (6 + k) c) OR take_bit 6 (drop_bit k c)) n
      = bit (drop_bit k c) n"
    by (cases "6 \<le> n") (auto simp: word_bits bit_take_bit_iff add.assoc)
qed

lemma lead_bits:
  assumes "unat c div 2 ^ k < 2 ^ j" and "j \<le> nat (7 - m)" and "0 \<le> m"
    and "\<And>n. bit (x :: u8) n \<Longrightarrow> nat (7 - m) \<le> n"
  shows "lead_value (x OR ucast (drop_bit k (c :: u32))) m = drop_bit k c"
proof -
  have "unat (drop_bit k c) < 2 ^ j"
    using assms(1) by (simp only: unat_drop_bit_eq) (simp add: drop_bit_eq_div)
  from bit_less [OF this] have top: "bit c (k + n) \<Longrightarrow> n < j" for n
    by (simp add: bit_drop_bit_eq)
  show ?thesis
  by (rule bit_eqI) (use assms(2-4) top in \<open>force simp: lead_value_bit word_bits\<close>)
qed

lemma lead_ok:
  assumes "unat c div 2 ^ k < 2 ^ j" and "j \<le> nat (7 - m)" and "0 \<le> m"
    and "\<And>n. bit (x :: u8) n \<Longrightarrow> nat (7 - m) \<le> n" and "unat x + 2 ^ j \<le> 256" and "x \<noteq> 0"
    and "\<And>b. unat x \<le> unat b \<Longrightarrow> unat b < unat x + 2 ^ j \<Longrightarrow> lead_remaining b = m"
  shows "feed_byte (v, 0) (x OR ucast (drop_bit k (c :: u32)))
    = Some (if m = 0 then [drop_bit k c] else [], drop_bit k c, m)"
proof -
  let ?b = "x OR ucast (drop_bit k c) :: u8"
  have j: "(2::nat) ^ j \<le> 2 ^ 8" using assms(5) by simp
  then have uy: "unat (ucast (drop_bit k c) :: u8) < 2 ^ j"
    using assms(1) unat_cut [of k c] by simp
  have "unat ?b = unat x + unat (ucast (drop_bit k c) :: u8)"
    by (rule or_unat [OF uy _ assms(5)]) (use assms(2,4) in fastforce)
  with uy assms(6) have r: "lead_remaining ?b = m" and "?b \<noteq> 0"
    by (auto intro!: assms(7) simp: unat_eq_zero)
  moreover have "lead_value ?b m = drop_bit k c"
    by (rule lead_bits [OF assms(1-4)])
  ultimately show ?thesis
    using feed_lead [of ?b v] assms(3) by auto
qed

lemma encode1: "c < 0x80 \<Longrightarrow> c \<noteq> 0 \<Longrightarrow> feed_bytes (v, 0) [ucast (c::u32)] = Some ([c], c, 0)"
proof -
  assume c: "c < 0x80" "c \<noteq> 0"
  have u: "unat c < 2 ^ 7" using c by (simp add: word_less_nat_alt)
  have ub: "unat (ucast c :: u8) = unat c" using unat_cut [of 0 c] u by simp
  have z: "(ucast c :: u8) \<noteq> 0" using ub c by (metis unat_0 unat_eq_zero)
  have l: "lead_remaining (ucast c) = 0" using ub u by (intro lead_remaining_range) simp
  have "lead_value (0 OR ucast (drop_bit 0 c)) 0 = drop_bit 0 c"
    by (rule lead_bits [where j = 7]) (use u in auto)
  then show ?thesis using feed_lead [OF z, of v] l by simp
qed

lemma encode_lead2: "c < 0x800 \<Longrightarrow>
  feed_byte (v, 0) (0xC0 OR ucast (drop_bit 6 (c :: u32))) = Some ([], drop_bit 6 c, 1)"
  using lead_ok [where j = 5 and k = 6 and m = 1 and c = c and x = "0xC0" and v = v]
  by (force simp: word_less_nat_alt bit_consts lead_remaining_range)

lemma encode2: "c < 0x800 \<Longrightarrow>
  feed_bytes (v, 0) [0xC0 OR ucast (drop_bit 6 (c::u32)), 0x80 OR (ucast c AND 0x3F)] = Some ([c], c, 0)"
proof -
  assume "c < 0x800"
  from encode_lead2 [OF this] show ?thesis using join_bits [of 0 c] by (simp add: feed_cont cont_bits)
qed

lemma encode_lead3: "c < 0x10000 \<Longrightarrow>
  feed_byte (v, 0) (0xE0 OR ucast (drop_bit 12 (c :: u32))) = Some ([], drop_bit 12 c, 2)"
  using lead_ok [where j = 4 and k = 12 and m = 2 and c = c and x = "0xE0" and v = v]
  by (force simp: word_less_nat_alt bit_consts lead_remaining_range)

lemma encode3: "c < 0x10000 \<Longrightarrow>
  feed_bytes (v, 0) [0xE0 OR ucast (drop_bit 12 (c::u32)), 0x80 OR (ucast (drop_bit 6 c) AND 0x3F),
    0x80 OR (ucast c AND 0x3F)] = Some ([c], c, 0)"
proof -
  assume "c < 0x10000"
  from encode_lead3 [OF this] show ?thesis using join_bits [of 6 c] join_bits [of 0 c] by (simp add: feed_cont cont_bits Let_def)
qed

lemma encode_lead4: "c < 0x110000 \<Longrightarrow>
  feed_byte (v, 0) (0xF0 OR ucast (drop_bit 18 (c :: u32))) = Some ([], drop_bit 18 c, 3)"
  using lead_ok [where j = 3 and k = 18 and m = 3 and c = c and x = "0xF0" and v = v]
  by (force simp: word_less_nat_alt bit_consts lead_remaining_range)

lemma encode4: "c < 0x110000 \<Longrightarrow>
  feed_bytes (v, 0) [0xF0 OR ucast (drop_bit 18 (c::u32)), 0x80 OR (ucast (drop_bit 12 c) AND 0x3F),
    0x80 OR (ucast (drop_bit 6 c) AND 0x3F), 0x80 OR (ucast c AND 0x3F)] = Some ([c], c, 0)"
proof -
  assume "c < 0x110000"
  from encode_lead4 [OF this] show ?thesis using join_bits [of 12 c] join_bits [of 6 c] join_bits [of 0 c]
    by (simp add: feed_cont cont_bits Let_def)
qed

lemma feed_encode: "code_point c \<Longrightarrow> feed_bytes (v, 0) (utf8_encode c) = Some ([c], c, 0)"
  unfolding code_point_def utf8_encode_def
  using encode1 [of c v] encode2 [of c v] encode3 [of c v] encode4 [of c v]
  by (simp add: not_less)

lemma feed_encodes:
  "\<forall>c \<in> set cs. code_point c \<Longrightarrow>
   feed_bytes (v, 0) (concat (map utf8_encode cs)) = Some (cs, if cs = [] then v else last cs, 0)"
  by (induction cs arbitrary: v) (auto simp: feed_bytes_append feed_encode)


section \<open>\<open>decode_char\<close> reads the standard encoding\<close>

lemma byte_at_drop: "drop p src = b # bs \<Longrightarrow> byte_at src p = b \<and> drop (Suc p) src = bs"
  by (metis byte_at_def drop_Suc drop_eq_Nil2 list.discI list.sel(3) not_le nth_via_drop tl_drop)

lemma decode_loop_feed:
  "feed_bytes (v, int (length ds)) ds = Some (out, w, 0) \<Longrightarrow> drop p src = ds @ rest \<Longrightarrow>
     decode_char_loop src p (p + length ds) v = (w, p + length ds)"
proof (induction ds arbitrary: v p out)
  case Nil
  then show ?case by (simp add: decode_char_loop.simps)
next
  case (Cons b ds)
  have at: "byte_at src p = b" "drop (Suc p) src = ds @ rest"
    using byte_at_drop [of p src b "ds @ rest"] Cons.prems(2) by simp_all
  let ?v = "push_bit 6 v + ucast (b AND 0x3F)"
  from Cons.prems(1) obtain out' where b: "b \<noteq> 0"
    and feed: "feed_bytes (?v, int (length ds)) ds = Some (out', w, 0)"
    by (auto simp: feed_byte.simps Let_def split: if_splits option.splits)
  with Cons.IH [OF feed at(2)] at(1) show ?case
    by (simp add: decode_char_loop.simps [of src p])
qed

lemma char_lookup_lead: "0 \<le> lead_remaining b \<Longrightarrow> char_lookup ! unat (drop_bit 4 b) = nat (lead_remaining b) + 1"
proof -
  have "unat (drop_bit 4 b) < 16"
    using unsigned_less [where 'a = nat and w = b]
    by (simp only: unat_drop_bit_eq) (simp add: drop_bit_eq_div less_mult_imp_div_less)
  moreover have "\<forall>i \<in> set [0..<16]. 0 \<le> piece_lookup ! i - 1 \<longrightarrow> char_lookup ! i = nat (piece_lookup ! i - 1) + 1"
    by code_simp
  ultimately show "0 \<le> lead_remaining b \<Longrightarrow> char_lookup ! unat (drop_bit 4 b) = nat (lead_remaining b) + 1"
    by (simp add: lead_remaining_def)
qed

lemma decode_char_feed:
  assumes "feed_byte (0, 0) b = Some (o1, v, int (length ds))"
    and "feed_bytes (0, 0) (b # ds) = Some (out, w, 0)" and "drop p src = (b # ds) @ rest"
  shows "decode_char src p = (w, p + length (b # ds))"
proof -
  have at: "byte_at src p = b" "drop (Suc p) src = ds @ rest"
    using byte_at_drop [of p src b "ds @ rest"] assms(3) by simp_all
  from assms(1,2) obtain o2 where ds: "feed_bytes (v, int (length ds)) ds = Some (o2, w, 0)"
    by (auto split: option.splits)
  have lead: "lead_remaining b = int (length ds)" "v = lead_value b (int (length ds))"
    using assms(1) by (auto simp: feed_byte.simps Let_def split: if_splits)
  then have len: "char_lookup ! unat (drop_bit 4 b) = Suc (length ds)" using char_lookup_lead [of b] by simp
  have "nat (7 - int (length ds)) = 8 - Suc (length ds)" by simp
  then have "v = ucast b AND push_bit (8 - Suc (length ds)) 1 - 1"
    using lead(2) by (simp only: lead_value_def)
  with decode_loop_feed [OF ds at(2)] show ?thesis
    by (simp only: decode_char_def Let_def at(1) len) simp
qed

lemma decode_char_encode:
  assumes "code_point c" "drop p src = utf8_encode c @ rest"
  shows "decode_char src p = (c, p + length (utf8_encode c))"
proof -
  note feed = feed_encode [OF assms(1), of 0]
  have step: ?thesis if "utf8_encode c = b # ds" "feed_byte (0, 0) b = Some (o1, v, int (length ds))"
    for b ds o1 v
    using decode_char_feed [OF that(2)] feed assms(2) unfolding that(1) by blast
  consider (1) "c < 0x80" | (2) "\<not> c < 0x80" "c < 0x800" | (3) "\<not> c < 0x80" "\<not> c < 0x800" "c < 0x10000"
    | (4) "\<not> c < 0x80" "\<not> c < 0x800" "\<not> c < 0x10000" "c < 0x110000"
    using assms(1) by (auto simp: code_point_def)
  then show ?thesis
  proof cases
    case 1
    have "utf8_encode c = [ucast c]" using 1 by (simp add: utf8_encode_def)
    moreover from this feed obtain o1 where "feed_byte (0, 0) (ucast c) = Some (o1, c, int (length ([] :: bytes)))"
      by (auto split: option.splits)
    ultimately show ?thesis by (rule step)
  next
    case 2
    then show ?thesis using encode_lead2 [of c 0] by (intro step) (auto simp: utf8_encode_def)
  next
    case 3
    then show ?thesis using encode_lead3 [of c 0] by (intro step) (auto simp: utf8_encode_def)
  next
    case 4
    then show ?thesis using encode_lead4 [of c 0] by (intro step) (auto simp: utf8_encode_def)
  qed
qed

section \<open>What the piece decoder promises\<close>

lemma decode_sequences_terminated: "\<exists>cs. fst (decode_sequences bs v n cps) = cs @ [0]"
proof (induction bs v n cps rule: decode_sequences.induct)
  case (2 b bs v n cps)
  then show ?case
    by (auto simp: decode_sequences.simps(2) Let_def split: prod.split)
qed simp

lemma decode_piece_terminated: "\<exists>cs. fst (decode_piece bs p) = cs @ [0]"
  using decode_sequences_terminated
  by (auto simp: decode_piece_def split: option.split prod.split)

lemma decode_piece_nonempty [simp]: "fst (decode_piece bs p) \<noteq> []"
  using decode_piece_terminated [of bs p] by auto

text \<open>
  A generation is a sequence of pieces, each decoded from the partial sequence the one
  before it left (\<open>accept_bytes\<close> and \<open>accept_token\<close> in machine.rs).
\<close>

fun decode_pieces :: "bytes list \<Rightarrow> partial_utf8 \<Rightarrow> u32 list \<times> partial_utf8" where
  "decode_pieces [] p = ([], p)"
| "decode_pieces (piece # pieces) p =
     (let (cps, p') = decode_piece piece p; (cps', p'') = decode_pieces pieces p'
      in (butlast cps @ cps', p''))"

lemma decode_pieces_feed:
  "feed_bytes (v, n) (concat pieces) = Some (out, v', n') \<Longrightarrow> 0 \<le> n \<Longrightarrow>
   decode_pieces pieces \<lparr>pu_value = v, pu_n_remain = n\<rparr>
     = (out, \<lparr>pu_value = v', pu_n_remain = n'\<rparr>)"
proof (induction pieces arbitrary: v n out)
  case (Cons piece pieces)
  from Cons.prems(1) obtain o1 v1 n1 o2 where
    a: "feed_bytes (v, n) piece = Some (o1, v1, n1)"
    and b: "feed_bytes (v1, n1) (concat pieces) = Some (o2, v', n')" and "out = o1 @ o2"
    by (auto simp: feed_bytes_append split: option.splits prod.splits)
  moreover have "decode_piece piece \<lparr>pu_value = v, pu_n_remain = n\<rparr>
      = (o1 @ [0], \<lparr>pu_value = v1, pu_n_remain = n1\<rparr>)"
    by (rule decode_piece_feed) (use a Cons.prems(2) in simp_all)
  moreover note Cons.IH [OF b feed_bytes_nonneg [OF a Cons.prems(2)]]
  ultimately show ?case by simp
qed simp

text \<open>
  The piece decoder inverts UTF-8: the encoding of any sequence of code points decodes
  to exactly these code points followed by the terminating 0, with nothing pending.
\<close>

theorem decode_piece_roundtrip:
  assumes "\<forall>c \<in> set cs. code_point c"
  shows "decode_piece (concat (map utf8_encode cs)) partial_utf8_default
    = (cs @ [0], \<lparr>pu_value = (if cs = [] then 0 else last cs), pu_n_remain = 0\<rparr>)"
  using decode_piece_feed [of partial_utf8_default] feed_encodes [OF assms, of 0]
  by (simp add: partial_utf8_default_def)

text \<open>
  Token boundaries do not matter: however the UTF-8 bytes of a text are cut into token
  pieces, in the middle of a character too, decoding the pieces one after the other, each
  from the partial sequence of the one before, gives the text's code points.
\<close>

theorem decode_pieces_any_split:
  assumes "\<forall>c \<in> set cs. code_point c"
    and "concat pieces = concat (map utf8_encode cs)"
  shows "decode_pieces pieces partial_utf8_default
    = (cs, \<lparr>pu_value = (if cs = [] then 0 else last cs), pu_n_remain = 0\<rparr>)"
  using decode_pieces_feed [of 0 0 pieces] feed_encodes [OF assms(1), of 0] assms(2)
  by (simp add: partial_utf8_default_def)

text \<open>A well-formed run of whole characters is consumed whatever follows it.\<close>

lemma take_continuations_prefix:
  assumes "feed_bytes (v, n) good = Some (out, w, 0)" and "0 \<le> n"
  shows "\<exists>good' v' out'. take_continuations (good @ rest) v n = (good' @ rest, v', 0)
    \<and> feed_bytes (v', 0) good' = Some (out', w, 0) \<and> out = (if 0 < n then [v'] else []) @ out'
    \<and> length good' \<le> length good"
  using assms
proof (induction good arbitrary: v n out)
  case (Cons b bs)
  show ?case
  proof (cases "n = 0")
    case True
    with Cons.prems show ?thesis by auto
  next
    case False
    with Cons.prems obtain o2 where b: "b \<noteq> 0" "drop_bit 6 b = 2"
      and rest: "feed_bytes (push_bit 6 v + ucast (b AND 0x3F), n - 1) bs = Some (o2, w, 0)"
      and out: "out = (if n = 1 then [push_bit 6 v + ucast (b AND 0x3F)] else []) @ o2"
      by (auto simp: feed_byte.simps Let_def split: option.splits prod.splits if_splits)
    show ?thesis
      using Cons.IH [OF rest] False Cons.prems(2) b out
      by (cases "n = 1") (auto intro: le_SucI)
  qed
qed auto

lemma decode_sequences_prefix:
  "feed_bytes (v, 0) good = Some (out, w, 0) \<Longrightarrow>
   decode_sequences (good @ rest) v 0 cps = decode_sequences rest w 0 (cps @ out)"
proof (induction "length good" arbitrary: good v cps out rule: less_induct)
  case less
  show ?case
  proof (cases good)
    case Nil
    with less.prems show ?thesis by simp
  next
    case (Cons b bs)
    define m where "m = lead_remaining b"
    from less.prems Cons obtain o1 where b: "b \<noteq> 0" "\<not> m < 0"
      and rest: "feed_bytes (lead_value b m, m) bs = Some (o1, w, 0)"
      and out: "out = (if m = 0 then [lead_value b m] else []) @ o1"
      by (auto simp: feed_byte.simps Let_def m_def split: option.splits prod.splits if_splits)
    from take_continuations_prefix [OF rest, of "rest"] b obtain good' v' o2 where
      tc: "take_continuations (bs @ rest) (lead_value b m) m = (good' @ rest, v', 0)"
      and f: "feed_bytes (v', 0) good' = Some (o2, w, 0)"
      and o1: "o1 = (if 0 < m then [v'] else []) @ o2" and len: "length good' \<le> length bs"
      by auto
    have "m = 0 \<Longrightarrow> v' = lead_value b m"
      using tc by auto
    moreover have "decode_sequences (good' @ rest) v' 0 (cps @ [v'])
        = decode_sequences rest w 0 ((cps @ [v']) @ o2)"
      by (rule less.hyps [OF _ f]) (use Cons len in simp)
    ultimately show ?thesis
      using b tc out o1
      by (auto simp: Cons decode_sequences.simps(2) Let_def m_def [symmetric])
  qed
qed

lemma lead_remaining_continuation: "0x80 \<le> b \<Longrightarrow> b < 0xC0 \<Longrightarrow> lead_remaining b = - 1"
proof -
  assume "0x80 \<le> b" "b < 0xC0"
  then have "unat b div 16 \<in> {8, 9, 10, 11}"
    by (auto simp: word_le_nat_alt word_less_nat_alt)
  moreover have "unat (drop_bit 4 b) = unat b div 16"
    by (simp only: unat_drop_bit_eq) (simp add: drop_bit_eq_div)
  ultimately show ?thesis
    by (auto simp: lead_remaining_def piece_lookup_def)
qed

text \<open>
  Malformed input never advances a parse: a piece that does not continue the character
  it was due to continue, or that holds a byte no character starts with at a character
  boundary, decodes to no code point at all, whatever well-formed text stands before the
  bad byte, and is marked invalid.
\<close>

theorem decode_piece_invalid:
  assumes "\<forall>c \<in> set cs. code_point c"
    and "0 < pu_n_remain p \<and> cs = [] \<and> b \<noteq> 0 \<and> drop_bit 6 b \<noteq> 2
       \<or> pu_n_remain p = 0 \<and> 0x80 \<le> b \<and> b < 0xC0"
  shows "decode_piece (concat (map utf8_encode cs) @ b # rest) p
       = ([0], \<lparr>pu_value = 0, pu_n_remain = - 1\<rparr>)"
  using assms(2)
proof
  assume n: "pu_n_remain p = 0 \<and> 0x80 \<le> b \<and> b < 0xC0"
  have "continue_partial xs v 0 = Some (xs, v, 0)" for xs v
    by (cases xs) auto
  moreover have "b \<noteq> 0" using n by auto
  ultimately show ?thesis
    using decode_sequences_prefix [OF feed_encodes [OF assms(1)], where rest = "b # rest" and cps = "[]"]
      lead_remaining_continuation n
    by (simp add: decode_piece_def decode_sequences.simps(2))
qed (simp add: decode_piece_def)

end
