(* ===== verification/Std_Utf8.thy ===== *)
theory Std_Utf8
  imports Grammar_Utf8
begin

unbundle bit_operations_syntax

text \<open>
  The part of Rust's standard library the code leans on for text: \<^verbatim>\<open>std::str::from_utf8\<close>
  with the \<open>valid_up_to\<close> and \<open>error_len\<close> of its error.  It follows the documented table of
  well-formed byte sequences (no overlong forms, no surrogates, nothing above U+10FFFF); an
  input that ends inside a sequence has no \<open>error_len\<close>.
\<close>

datatype utf8_step = Whole nat | Truncated | Malformed nat

definition is_cont :: "u8 \<Rightarrow> bool" where
  "is_cont b \<longleftrightarrow> 0x80 \<le> b \<and> b \<le> 0xBF"

definition second_ok :: "u8 \<Rightarrow> u8 \<Rightarrow> bool" where
  "second_ok first b \<longleftrightarrow>
     (if first = 0xE0 then 0xA0 \<le> b \<and> b \<le> 0xBF
      else if first = 0xED then 0x80 \<le> b \<and> b \<le> 0x9F
      else if first = 0xF0 then 0x90 \<le> b \<and> b \<le> 0xBF
      else if first = 0xF4 then 0x80 \<le> b \<and> b \<le> 0x8F
      else is_cont b)"

definition char_width :: "u8 \<Rightarrow> nat" where
  "char_width b =
     (if b < 0x80 then 1 else if b < 0xC2 then 0 else if b < 0xE0 then 2
      else if b < 0xF0 then 3 else if b < 0xF5 then 4 else 0)"

text \<open>The bytes of a sequence after the second: \<open>k\<close> more are due, \<open>n\<close> have been read.\<close>

fun check_conts :: "nat \<Rightarrow> nat \<Rightarrow> bytes \<Rightarrow> utf8_step" where
  "check_conts n 0 bs = Whole n"
| "check_conts n (Suc k) [] = Truncated"
| "check_conts n (Suc k) (b # bs) =
     (if is_cont b then check_conts (Suc n) k bs else Malformed n)"

fun first_char :: "bytes \<Rightarrow> utf8_step" where
  "first_char [] = Truncated"
| "first_char (b # bs) =
     (let w = char_width b in
      if w = 0 then Malformed 1
      else if w = 1 then Whole 1
      else case bs of [] \<Rightarrow> Truncated
        | c # cs \<Rightarrow> if second_ok b c then check_conts 2 (w - 2) cs else Malformed 1)"

lemma check_conts_Whole: "check_conts n k bs = Whole m \<Longrightarrow> m = n + k \<and> k \<le> length bs"
  by (induction n k bs rule: check_conts.induct) (auto split: if_splits)

lemma first_char_Whole: "first_char bs = Whole m \<Longrightarrow> 0 < m \<and> m \<le> length bs \<and> m \<le> 4"
  by (cases bs)
     (auto simp: Let_def char_width_def split: if_splits list.splits dest!: check_conts_Whole)

lemma check_conts_Malformed: "check_conts n k bs = Malformed m \<Longrightarrow> n \<le> m \<and> m < n + k"
  by (induction n k bs rule: check_conts.induct) (auto split: if_splits)

lemma first_char_Malformed: "first_char bs = Malformed m \<Longrightarrow> 0 < m \<and> m \<le> 3 \<and> bs \<noteq> []"
  by (cases bs)
     (auto simp: Let_def char_width_def split: if_splits list.splits dest!: check_conts_Malformed)

text \<open>\<open>None\<close> is \<open>Ok\<close>; \<open>Some (valid_up_to, error_len)\<close> is the error.\<close>

function from_utf8 :: "nat \<Rightarrow> bytes \<Rightarrow> (nat \<times> nat option) option" where
  "from_utf8 done bs =
     (if bs = [] then None
      else case first_char bs of
        Whole w \<Rightarrow> from_utf8 (done + w) (drop w bs)
      | Truncated \<Rightarrow> Some (done, None)
      | Malformed n \<Rightarrow> Some (done, Some n))"
  by pat_completeness auto
termination
  by (relation "measure (\<lambda>(n, bs). length bs)") (auto dest: first_char_Whole)

declare from_utf8.simps [simp del]

text \<open>The longest valid prefix, as the code takes it with \<open>valid_up_to\<close>.\<close>

definition valid_prefix :: "bytes \<Rightarrow> bytes" where
  "valid_prefix bs = (case from_utf8 0 bs of None \<Rightarrow> bs | Some (n, _) \<Rightarrow> take n bs)"

lemma from_utf8_bound: "from_utf8 n bs = Some (v, e) \<Longrightarrow> n \<le> v \<and> v \<le> n + length bs"
proof (induction n bs rule: from_utf8.induct)
  case (1 n bs)
  show ?case
    using "1.prems" "1.IH"
    by (auto simp: from_utf8.simps [of n bs] split: if_splits utf8_step.splits
        dest!: first_char_Whole)
qed

lemma length_valid_prefix: "length (valid_prefix bs) \<le> length bs"
  by (auto simp: valid_prefix_def split: option.split)

lemma valid_prefix_take: "valid_prefix bs = take (length (valid_prefix bs)) bs"
  by (auto simp: valid_prefix_def min_def split: option.split)

end
