(* ===== verification/Grammar_Element.thy ===== *)
theory Grammar_Element
  imports Std_Utf8
begin

text \<open>
  The compiled form of a grammar (\<^verbatim>\<open>grammar/element.rs\<close>) and the engine's errors
  (\<^verbatim>\<open>grammar/error.rs\<close>): element kinds, elements, rules, and the cursor into them.

  A rule is a flat list of elements, its alternates separated by \<open>GreAlt\<close>, its end marked
  by \<open>GreEnd\<close>.  A cursor is a pair of rule number and index, ordered lexicographically.
  A stack of cursors is a list whose head is the code's \<open>last()\<close>.
\<close>

section \<open>Element kinds\<close>

datatype gre_type =
    GreEnd
  | GreAlt
  | GreRuleRef
  | GreChar
  | GreCharNot
  | GreCharRngUpper
  | GreCharAlt
  | GreCharAny
  | GreToken
  | GreTokenNot

text \<open>The discriminants, which are also the derived order.\<close>

fun gre_code :: "gre_type \<Rightarrow> nat" where
  "gre_code GreEnd = 0"
| "gre_code GreAlt = 1"
| "gre_code GreRuleRef = 2"
| "gre_code GreChar = 3"
| "gre_code GreCharNot = 4"
| "gre_code GreCharRngUpper = 5"
| "gre_code GreCharAlt = 6"
| "gre_code GreCharAny = 7"
| "gre_code GreToken = 8"
| "gre_code GreTokenNot = 9"

lemma gre_code_inject [simp]: "gre_code a = gre_code b \<longleftrightarrow> a = b"
  by (cases a; cases b) simp_all

instantiation gre_type :: linorder
begin

definition less_eq_gre_type :: "gre_type \<Rightarrow> gre_type \<Rightarrow> bool" where
  "less_eq_gre_type a b \<longleftrightarrow> gre_code a \<le> gre_code b"

definition less_gre_type :: "gre_type \<Rightarrow> gre_type \<Rightarrow> bool" where
  "less_gre_type a b \<longleftrightarrow> gre_code a < gre_code b"

instance
  by standard (auto simp: less_eq_gre_type_def less_gre_type_def)

end

definition is_char_element :: "gre_type \<Rightarrow> bool" where
  "is_char_element t \<longleftrightarrow> t \<in> {GreChar, GreCharNot, GreCharAlt, GreCharRngUpper, GreCharAny}"

definition is_stack_terminal :: "gre_type \<Rightarrow> bool" where
  "is_stack_terminal t \<longleftrightarrow> t \<in> {GreChar, GreCharNot, GreCharAny, GreToken, GreTokenNot}"

section \<open>Elements and rules\<close>

record grammar_element =
  ge_type :: gre_type
  ge_value :: u32

definition mk_elem :: "gre_type \<Rightarrow> u32 \<Rightarrow> grammar_element" where
  "mk_elem t v = \<lparr>ge_type = t, ge_value = v\<rparr>"

lemma mk_elem_simps [simp]:
  "ge_type (mk_elem t v) = t" "ge_value (mk_elem t v) = v"
  "mk_elem t v = mk_elem t' v' \<longleftrightarrow> t = t' \<and> v = v'"
  by (simp_all add: mk_elem_def)

definition is_end_of_sequence :: "grammar_element \<Rightarrow> bool" where
  "is_end_of_sequence e \<longleftrightarrow> ge_type e = GreEnd \<or> ge_type e = GreAlt"

type_synonym grammar_rule = "grammar_element list"

section \<open>Cursors and stacks\<close>

datatype rule_pos = RulePos (rp_rule: nat) (rp_index: nat)

instantiation rule_pos :: linorder
begin

definition less_eq_rule_pos :: "rule_pos \<Rightarrow> rule_pos \<Rightarrow> bool" where
  "less_eq_rule_pos p q \<longleftrightarrow>
     rp_rule p < rp_rule q \<or> rp_rule p = rp_rule q \<and> rp_index p \<le> rp_index q"

definition less_rule_pos :: "rule_pos \<Rightarrow> rule_pos \<Rightarrow> bool" where
  "less_rule_pos p q \<longleftrightarrow>
     rp_rule p < rp_rule q \<or> rp_rule p = rp_rule q \<and> rp_index p < rp_index q"

instance
  by standard (auto simp: less_eq_rule_pos_def less_rule_pos_def rule_pos.expand)

end

definition rp_advance :: "rule_pos \<Rightarrow> nat \<Rightarrow> rule_pos" where
  "rp_advance p n = RulePos (rp_rule p) (rp_index p + n)"

definition rp_next :: "rule_pos \<Rightarrow> rule_pos" where
  "rp_next p = RulePos (rp_rule p) (rp_index p + 1)"

lemma rp_simps [simp, gre_simps]:
  "rp_rule (rp_next p) = rp_rule p" "rp_index (rp_next p) = Suc (rp_index p)"
  "rp_rule (rp_advance p n) = rp_rule p" "rp_index (rp_advance p n) = rp_index p + n"
  by (simp_all add: rp_next_def rp_advance_def)

type_synonym grammar_stack = "rule_pos list"

section \<open>Errors\<close>

text \<open>
  The names carry the bytes of the source text; the piece of \<open>NoViableStack\<close> is kept as the
  bytes, without the lossy rendering of the message.
\<close>

datatype grammar_error =
    Syntax string nat bytes
  | UndefinedRule bytes nat
  | MissingRoot bytes
  | LeftRecursion nat "bytes option"
  | RepetitionTooLarge int int nat
  | TokenNeedsVocabulary bytes nat
  | TokenNotSingle bytes nat
  | NoViableStack bytes
  | TriggerPatternInvalid bytes string
  | TriggerPatternFailed bytes string
  | LazyWithoutTriggers
  | AwaitingTrigger
  | Internal string

definition rest_clip :: nat where
  "rest_clip = 40"

definition syntax_error :: "string \<Rightarrow> bytes \<Rightarrow> nat \<Rightarrow> grammar_error" where
  "syntax_error expected src offset =
     (let start = min offset (length src);
          stop = min (start + rest_clip) (length src)
      in Syntax expected start (valid_prefix (take (stop - start) (drop start src))))"

section \<open>Looking up an element\<close>

text \<open>\<open>elem\<close> of machine.rs: out of range it is an \<open>GreEnd\<close>.\<close>

definition elem :: "grammar_rule list \<Rightarrow> rule_pos \<Rightarrow> grammar_element" where
  "elem rules pos =
     (if rp_rule pos < length rules \<and> rp_index pos < length (rules ! rp_rule pos)
      then rules ! rp_rule pos ! rp_index pos else mk_elem GreEnd 0)"

definition ends :: "grammar_rule list \<Rightarrow> rule_pos \<Rightarrow> bool" where
  "ends rules pos = is_end_of_sequence (elem rules pos)"

lemma elem_in_range:
  "ge_type (elem rules pos) \<noteq> GreEnd \<Longrightarrow>
     rp_rule pos < length rules \<and> rp_index pos < length (rules ! rp_rule pos)"
  by (auto simp: elem_def split: if_splits)

lemma not_ends_in_range:
  "\<not> ends rules pos \<Longrightarrow>
     rp_rule pos < length rules \<and> rp_index pos < length (rules ! rp_rule pos)"
  by (rule elem_in_range) (auto simp: ends_def is_end_of_sequence_def)

text \<open>How much of its rule lies after a cursor: what the walks over a rule use up.\<close>

definition rule_left :: "grammar_rule list \<Rightarrow> rule_pos \<Rightarrow> nat" where
  "rule_left rules pos = length (rules ! rp_rule pos) - rp_index pos"

lemma rule_left_less:
  "rp_rule q = rp_rule p \<Longrightarrow> rp_index p < rp_index q \<Longrightarrow> ge_type (elem rules q) \<noteq> GreEnd \<Longrightarrow>
   rule_left rules q < rule_left rules p"
  using elem_in_range [of rules q] by (auto simp: rule_left_def)

lemma rule_left_less':
  "rp_rule q = rp_rule p \<Longrightarrow> rp_index p < rp_index q \<Longrightarrow> \<not> ends rules p \<Longrightarrow>
   rule_left rules q < rule_left rules p"
  using not_ends_in_range [of rules p] by (auto simp: rule_left_def)

end
