(* ===== verification/Grammar_Match.thy ===== *)
theory Grammar_Match
  imports Grammar_Element
begin

unbundle bit_operations_syntax

text \<open>
  The three element tests of \<^verbatim>\<open>grammar/machine.rs\<close>: a code point against a character class,
  a partial UTF-8 sequence against a class, a token id against a token element.

  A class is the run of elements from its first one over every \<open>GreCharAlt\<close>; an element
  followed by \<open>GreCharRngUpper\<close> is a range.  The lemmas read a class off as a set of
  intervals and show that both tests decide membership in it.
\<close>

section \<open>The code\<close>

definition is_positive :: "gre_type \<Rightarrow> bool" where
  "is_positive t \<longleftrightarrow> t = GreChar \<or> t = GreCharAny"

definition is_class_start :: "gre_type \<Rightarrow> bool" where
  "is_class_start t \<longleftrightarrow> is_positive t \<or> t = GreCharNot"

text \<open>One turn of the loop: the element under the cursor, and the cursor after it.\<close>

definition class_next :: "grammar_rule list \<Rightarrow> rule_pos \<Rightarrow> rule_pos" where
  "class_next rules pos =
     (if ge_type (elem rules (rp_next pos)) = GreCharRngUpper then rp_advance pos 2
      else rp_next pos)"

definition class_hit :: "grammar_rule list \<Rightarrow> rule_pos \<Rightarrow> u32 \<Rightarrow> bool" where
  "class_hit rules pos chr =
     (let cur = elem rules pos; nxt = elem rules (rp_next pos) in
      if ge_type nxt = GreCharRngUpper then ge_value cur \<le> chr \<and> chr \<le> ge_value nxt
      else if ge_type cur = GreCharAny then True
      else ge_value cur = chr)"

lemma class_next_rule [simp]: "rp_rule (class_next rules pos) = rp_rule pos"
  by (simp add: class_next_def)

lemma class_next_index: "rp_index pos < rp_index (class_next rules pos)"
  by (simp add: class_next_def)

lemma class_next_decreases:
  "ge_type (elem rules (class_next rules pos)) = GreCharAlt \<Longrightarrow>
   rule_left rules (class_next rules pos) < rule_left rules pos"
  by (rule rule_left_less) (simp_all add: class_next_index)

function match_char_loop ::
  "grammar_rule list \<Rightarrow> rule_pos \<Rightarrow> u32 \<Rightarrow> bool \<Rightarrow> bool \<times> rule_pos" where
  "match_char_loop rules pos chr found =
     (let found = (found \<or> class_hit rules pos chr);
          pos = class_next rules pos
      in if ge_type (elem rules pos) \<noteq> GreCharAlt then (found, pos)
         else match_char_loop rules pos chr found)"
  by pat_completeness auto
termination
  by (relation "measure (\<lambda>(rules, pos, chr, found). rule_left rules pos)")
     (auto simp: class_next_decreases)

declare match_char_loop.simps [simp del]

definition match_char ::
  "grammar_rule list \<Rightarrow> rule_pos \<Rightarrow> u32 \<Rightarrow> (grammar_error, bool \<times> rule_pos) result" where
  "match_char rules pos chr =
     (let first = ge_type (elem rules pos) in
      if \<not> is_class_start first then
        Inl (Internal ''match_char called on an element that is not a character class'')
      else let (found, pos) = match_char_loop rules pos chr False
           in Inr (found = is_positive first, pos))"

text \<open>
  \<open>low\<close> and \<open>high\<close>: the code points a partial sequence can still become.  The shift is
  that of a \<open>u32\<close>: bits above the 32nd are lost.
\<close>

definition partial_low :: "partial_utf8 \<Rightarrow> u32" where
  "partial_low p =
     (let low = push_bit (nat (pu_n_remain p * 6)) (pu_value p) in
      if low = 0 then
        (if pu_n_remain p = 2 then push_bit 11 1
         else if pu_n_remain p = 3 then push_bit 16 1 else low)
      else low)"

definition partial_high :: "partial_utf8 \<Rightarrow> u32" where
  "partial_high p =
     push_bit (nat (pu_n_remain p * 6)) (pu_value p)
       OR (push_bit (nat (pu_n_remain p * 6)) 1 - 1)"

text \<open>What one element says: \<open>None\<close> is "go on".\<close>

definition partial_hit ::
  "grammar_rule list \<Rightarrow> rule_pos \<Rightarrow> u32 \<Rightarrow> u32 \<Rightarrow> bool \<Rightarrow> bool option" where
  "partial_hit rules pos low high is_pos =
     (let cur = elem rules pos; nxt = elem rules (rp_next pos) in
      if ge_type nxt = GreCharRngUpper then
        (if ge_value cur \<le> high \<and> low \<le> ge_value nxt then Some is_pos else None)
      else if ge_type cur = GreCharAny then Some True
      else if low \<le> ge_value cur \<and> ge_value cur \<le> high then Some is_pos
      else None)"

function match_partial_loop ::
  "grammar_rule list \<Rightarrow> rule_pos \<Rightarrow> u32 \<Rightarrow> u32 \<Rightarrow> bool \<Rightarrow> bool" where
  "match_partial_loop rules pos low high is_pos =
     (case partial_hit rules pos low high is_pos of
        Some b \<Rightarrow> b
      | None \<Rightarrow>
          let pos = class_next rules pos
          in if ge_type (elem rules pos) \<noteq> GreCharAlt then \<not> is_pos
             else match_partial_loop rules pos low high is_pos)"
  by pat_completeness auto
termination
  by (relation "measure (\<lambda>(rules, pos, low, high, is_pos). rule_left rules pos)")
     (auto simp: class_next_decreases)

declare match_partial_loop.simps [simp del]

definition match_partial_char ::
  "grammar_rule list \<Rightarrow> rule_pos \<Rightarrow> partial_utf8 \<Rightarrow> (grammar_error, bool) result" where
  "match_partial_char rules pos p =
     (let first = ge_type (elem rules pos) in
      if \<not> is_class_start first then
        Inl (Internal ''match_partial_char called on an element that is not a character class'')
      else if pu_n_remain p < 0 \<or> pu_n_remain p = 1 \<and> pu_value p < 2 then Inr False
      else if 3 < pu_n_remain p then Inr False
      else Inr (match_partial_loop rules pos (partial_low p) (partial_high p) (is_positive first)))"

definition match_token :: "grammar_element \<Rightarrow> u32 \<Rightarrow> bool" where
  "match_token e token =
     (case ge_type e of
        GreToken \<Rightarrow> ge_value e = token
      | GreTokenNot \<Rightarrow> ge_value e \<noteq> token
      | _ \<Rightarrow> False)"

section \<open>A class as a list of intervals\<close>

text \<open>The specification: the entries of the class at a cursor, as inclusive intervals.\<close>

definition entry_interval :: "grammar_rule list \<Rightarrow> rule_pos \<Rightarrow> u32 \<times> u32" where
  "entry_interval rules pos =
     (let cur = elem rules pos; nxt = elem rules (rp_next pos) in
      if ge_type nxt = GreCharRngUpper then (ge_value cur, ge_value nxt)
      else if ge_type cur = GreCharAny then (0, - 1)
      else (ge_value cur, ge_value cur))"

function class_intervals :: "grammar_rule list \<Rightarrow> rule_pos \<Rightarrow> (u32 \<times> u32) list" where
  "class_intervals rules pos =
     entry_interval rules pos #
     (if ge_type (elem rules (class_next rules pos)) \<noteq> GreCharAlt then []
      else class_intervals rules (class_next rules pos))"
  by pat_completeness auto
termination
  by (relation "measure (\<lambda>(rules, pos). rule_left rules pos)") (auto simp: class_next_decreases)

function class_end :: "grammar_rule list \<Rightarrow> rule_pos \<Rightarrow> rule_pos" where
  "class_end rules pos =
     (if ge_type (elem rules (class_next rules pos)) \<noteq> GreCharAlt then class_next rules pos
      else class_end rules (class_next rules pos))"
  by pat_completeness auto
termination
  by (relation "measure (\<lambda>(rules, pos). rule_left rules pos)") (auto simp: class_next_decreases)

declare class_intervals.simps [simp del] class_end.simps [simp del]

definition in_class :: "grammar_rule list \<Rightarrow> rule_pos \<Rightarrow> u32 \<Rightarrow> bool" where
  "in_class rules pos chr \<longleftrightarrow>
     ((\<exists>(lo, hi) \<in> set (class_intervals rules pos). lo \<le> chr \<and> chr \<le> hi)
        = is_positive (ge_type (elem rules pos)))"

lemma class_hit_interval:
  "class_hit rules pos chr \<longleftrightarrow>
     fst (entry_interval rules pos) \<le> chr \<and> chr \<le> snd (entry_interval rules pos)"
  by (auto simp: class_hit_def entry_interval_def Let_def word_order.extremum)

lemma match_char_loop_eq:
  "match_char_loop rules pos chr found =
     (found \<or> (\<exists>(lo, hi) \<in> set (class_intervals rules pos). lo \<le> chr \<and> chr \<le> hi),
      class_end rules pos)"
proof (induction rules pos chr found rule: match_char_loop.induct)
  case (1 rules pos chr found)
  then show ?case
    by (auto simp: Let_def match_char_loop.simps [of rules pos] class_intervals.simps [of rules pos]
        class_end.simps [of rules pos] class_hit_interval split: prod.splits)
qed

lemma match_char_eq:
  "match_char rules pos chr =
     (if is_class_start (ge_type (elem rules pos))
      then Inr (in_class rules pos chr, class_end rules pos)
      else Inl (Internal ''match_char called on an element that is not a character class''))"
  by (auto simp: match_char_def match_char_loop_eq in_class_def Let_def)

text \<open>
  \<open>match_char\<close> decides membership in the character class at the cursor, and leaves the
  cursor just past the class whatever the character: the negation of a class applies to the
  union of its entries, once.
\<close>

theorem match_char_correct:
  "match_char rules pos chr =
     (if is_class_start (ge_type (elem rules pos))
      then Inr (in_class rules pos chr, class_end rules pos)
      else Inl (Internal ''match_char called on an element that is not a character class''))"
  by (rule match_char_eq)

lemma class_end_rule [simp]: "rp_rule (class_end rules pos) = rp_rule pos"
proof (induction rules pos rule: class_end.induct)
  case (1 rules pos)
  then show ?case by (simp add: class_end.simps [of rules pos])
qed

lemma class_end_index: "rp_index pos < rp_index (class_end rules pos)"
proof (induction rules pos rule: class_end.induct)
  case (1 rules pos)
  then show ?case
    using class_next_index [of pos rules] by (auto simp: class_end.simps [of rules pos])
qed

text \<open>
  A class is well formed when its ranges are not upside down and \<open>.\<close> is not negated: what
  the parser produces for every class whose ranges the author wrote in order.
\<close>

definition class_ordered :: "grammar_rule list \<Rightarrow> rule_pos \<Rightarrow> bool" where
  "class_ordered rules pos \<longleftrightarrow>
     (\<forall>(lo, hi) \<in> set (class_intervals rules pos). lo \<le> hi)"

lemma match_partial_loop_eq:
  assumes "ge_type (elem rules pos) = GreCharAny \<longrightarrow> is_pos"
  shows "match_partial_loop rules pos low high is_pos =
     ((\<exists>(lo, hi) \<in> set (class_intervals rules pos). lo \<le> high \<and> low \<le> hi) = is_pos)"
  using assms
proof (induction rules pos low high is_pos rule: match_partial_loop.induct)
  case (1 rules pos low high is_pos)
  have hit: "partial_hit rules pos low high is_pos =
     (if fst (entry_interval rules pos) \<le> high \<and> low \<le> snd (entry_interval rules pos)
      then Some is_pos else None)"
    using "1.prems" by (auto simp: partial_hit_def entry_interval_def Let_def)
  show ?case
    using "1.IH" hit
    by (auto simp: Let_def match_partial_loop.simps [of rules pos]
        class_intervals.simps [of rules pos] split: prod.splits)
qed

lemma low_le_high:
  assumes "0 \<le> pu_n_remain p" "pu_n_remain p \<le> 3"
  shows "partial_low p \<le> partial_high p"
proof -
  have "pu_n_remain p \<in> {0, 1, 2, 3}" using assms by auto
  then show ?thesis
    by (auto simp: partial_low_def partial_high_def Let_def le_word_or2 push_bit_of_1)
qed

text \<open>The code points a partial sequence can still become.\<close>

definition completions :: "partial_utf8 \<Rightarrow> u32 set" where
  "completions p = {partial_low p .. partial_high p}"

lemma match_partial_char_eq:
  assumes "is_class_start (ge_type (elem rules pos))" and "class_ordered rules pos"
    and "0 \<le> pu_n_remain p" and "pu_n_remain p \<le> 3"
    and "\<not> (pu_n_remain p = 1 \<and> pu_value p < 2)"
  shows "match_partial_char rules pos p = Inr
     (if is_positive (ge_type (elem rules pos))
      then \<exists>c \<in> completions p. in_class rules pos c
      else \<forall>c \<in> completions p. in_class rules pos c)"
proof -
  let ?low = "partial_low p" and ?high = "partial_high p"
  have "(\<exists>(lo, hi) \<in> set (class_intervals rules pos). lo \<le> ?high \<and> ?low \<le> hi) \<longleftrightarrow>
     (\<exists>c \<in> completions p. \<exists>(lo, hi) \<in> set (class_intervals rules pos). lo \<le> c \<and> c \<le> hi)"
   (is "?L \<longleftrightarrow> ?R")
  proof
    assume ?L
    then obtain lo hi where i: "(lo, hi) \<in> set (class_intervals rules pos)"
      and o: "lo \<le> ?high" "?low \<le> hi" by auto
    then have "lo \<le> hi" using assms(2) by (auto simp: class_ordered_def)
    with i o low_le_high [OF assms(3,4)] show ?R
      by (intro bexI [of _ "max lo ?low"]) (auto simp: completions_def max_def)
  next
    assume ?R
    then obtain c lo hi where "(lo, hi) \<in> set (class_intervals rules pos)" "lo \<le> c" "c \<le> hi"
      and "?low \<le> c" "c \<le> ?high" by (auto simp: completions_def)
    then show ?L by (intro bexI [of _ "(lo, hi)"]) (auto intro: order_trans)
  qed
  then show ?thesis
    using assms(1,3-5)
    by (auto simp: match_partial_char_def Let_def match_partial_loop_eq is_class_start_def
        is_positive_def in_class_def)
qed

text \<open>
  Continuation bytes keep the bits read so far and shift them up six at a time.
\<close>

lemma feed_conts:
  assumes "feed_bytes (v, int (Suc n)) bs = Some (out, w, 0)" and "length bs = Suc n"
  shows "out = [w] \<and> (\<forall>i < 32. 6 * Suc n \<le> i \<longrightarrow> bit w i = bit v (i - 6 * Suc n))"
  using assms
proof (induction n arbitrary: v bs out)
  case 0
  then obtain b where "bs = [b]" by (auto simp: length_Suc_conv)
  with 0 show ?case
    by (auto simp: feed_byte.simps Let_def shift_add word_bits split: if_splits)
next
  case (Suc n)
  then obtain b bs' where bs: "bs = b # bs'" and len: "length bs' = Suc n"
    by (auto simp: length_Suc_conv)
  define v' where "v' = push_bit 6 v OR ucast (b AND 0x3F)"
  from Suc.prems(1) obtain out' where "feed_bytes (v', int (Suc n)) bs' = Some (out', w, 0)"
    and out: "out = out'"
    by (auto simp: bs feed_byte.simps Let_def shift_add v'_def split: option.splits prod.splits if_splits)
  from Suc.IH [OF this(1) len]
  have ih: "out' = [w]" "\<And>i. i < 32 \<Longrightarrow> 6 * Suc n \<le> i \<Longrightarrow> bit w i = bit v' (i - 6 * Suc n)"
    by auto
  have "bit v' (i - 6 * Suc n) = bit v (i - 6 * Suc (Suc n))"
    if "i < 32" "6 * Suc (Suc n) \<le> i" for i
  proof -
    from that(2) obtain j where "i = 6 * Suc (Suc n) + j" by (auto simp: le_iff_add)
    then show ?thesis using that(1) by (simp add: v'_def word_bits)
  qed
  with ih out show ?case by simp
qed

lemma completion_bounds:
  assumes "feed_bytes (pu_value p, pu_n_remain p) bs = Some ([c], c, 0)"
    and "0 < pu_n_remain p" and "int (length bs) = pu_n_remain p"
  shows "c \<le> partial_high p"
proof -
  obtain n where n: "pu_n_remain p = int (Suc n)" "length bs = Suc n"
    using assms(2,3) by (metis gr0_implies_Suc of_nat_0_less_iff of_nat_eq_iff)
  have bits: "\<And>i. i < 32 \<Longrightarrow> 6 * Suc n \<le> i \<Longrightarrow> bit c i = bit (pu_value p) (i - 6 * Suc n)"
    using feed_conts [of "pu_value p" n bs "[c]" c] assms(1) n by simp
  have s: "nat (pu_n_remain p * 6) = 6 * Suc n" using n by simp
  have high: "partial_high p = push_bit (6 * Suc n) (pu_value p) OR mask (6 * Suc n)"
    by (simp add: partial_high_def s mask_eq_exp_minus_1 push_bit_of_1)
  have "c OR mask (6 * Suc n) = partial_high p"
  proof (rule bit_word_eqI)
    fix i assume "i < LENGTH(32)"
    then show "bit (c OR mask (6 * Suc n)) i = bit (partial_high p) i"
      using bits [of i] by (cases "6 * Suc n \<le> i") (auto simp: high word_bits bit_mask_iff)
  qed
  then show ?thesis by (metis le_word_or2)
qed

text \<open>
  What \<open>match_partial_char\<close> decides, exactly: for a positive class, whether some code
  point that the partial sequence can still become is in the class; for a negated class,
  whether all of them are.
\<close>

theorem match_partial_char_exact:
  assumes "is_class_start (ge_type (elem rules pos))" and "class_ordered rules pos"
    and "0 \<le> pu_n_remain p" and "pu_n_remain p \<le> 3"
    and "\<not> (pu_n_remain p = 1 \<and> pu_value p < 2)"
  shows "match_partial_char rules pos p = Inr
     (if is_positive (ge_type (elem rules pos))
      then \<exists>c \<in> completions p. in_class rules pos c
      else \<forall>c \<in> completions p. in_class rules pos c)"
  by (rule match_partial_char_eq [OF assms])

text \<open>
  Masking never loses a split character of a positive class: if some continuation of the
  partial sequence decodes to a code point of the class, the partial sequence is kept.
\<close>

theorem match_partial_char_keeps_viable:
  assumes "is_positive (ge_type (elem rules pos))" and "class_ordered rules pos"
    and "0 < pu_n_remain p" and "pu_n_remain p \<le> 3" and "\<not> (pu_n_remain p = 1 \<and> pu_value p < 2)"
    and "feed_bytes (pu_value p, pu_n_remain p) bs = Some ([c], c, 0)"
    and "int (length bs) = pu_n_remain p" and "partial_low p \<le> c"
    and "match_char rules pos c = Inr (True, after)"
  shows "match_partial_char rules pos p = Inr True"
proof -
  have "c \<in> completions p"
    using completion_bounds [OF assms(6,3,7)] assms(8) by (simp add: completions_def)
  moreover have "in_class rules pos c"
    using assms(9) by (auto simp: match_char_correct split: if_splits)
  ultimately show ?thesis
    using match_partial_char_eq [OF _ assms(2) _ assms(4,5)] assms(1,3)
    by (auto simp: is_class_start_def)
qed

text \<open>
  A negated class does lose split characters.  After the byte C3 the class \<open>[^e]\<close>, written with the
  accented letter U+00E9, is reported as impossible to satisfy, although the next
  byte A8 completes U+00E8, which the class accepts.
\<close>

theorem negated_class_drops_viable_partial:
  fixes not_e :: "grammar_rule list"
  defines "not_e \<equiv> [[mk_elem GreCharNot 0xE9, mk_elem GreEnd 0]]"
  shows "\<exists>p. decode_piece [0xC3] partial_utf8_default = ([0], p)
    \<and> match_partial_char not_e (RulePos 0 0) p = Inr False
    \<and> fst (decode_piece [0xA8] p) = [0xE8, 0]
    \<and> match_char not_e (RulePos 0 0) 0xE8 = Inr (True, RulePos 0 1)"
proof -
  let ?p = "\<lparr>pu_value = 3, pu_n_remain = 1\<rparr> :: partial_utf8"
  have "decode_piece [0xC3] partial_utf8_default = ([0], ?p)"
    by (simp add: decode_piece_def partial_utf8_default_def decode_sequences.simps
        lead_remaining_def piece_lookup_def lead_value_def)
  moreover have "match_partial_char not_e (RulePos 0 0) ?p = Inr False"
    by (simp add: not_e_def match_partial_char_def match_partial_loop.simps partial_hit_def
        elem_def is_class_start_def is_positive_def partial_low_def partial_high_def rp_next_def
        class_next_def)
  moreover have "fst (decode_piece [0xA8] ?p) = [0xE8, 0]"
    by (simp add: decode_piece_def)
  moreover have "match_char not_e (RulePos 0 0) 0xE8 = Inr (True, RulePos 0 1)"
    by (simp add: not_e_def match_char_def match_char_loop.simps class_hit_def class_next_def
        elem_def is_class_start_def is_positive_def rp_next_def)
  ultimately show ?thesis by blast
qed

end
