(* ===== verification/Grammar_Recursion.thy ===== *)
theory Grammar_Recursion
  imports Grammar_Element
begin

text \<open>
  Left recursion: the check \<open>detect_left_recursion_all\<close> of \<^verbatim>\<open>grammar/machine.rs\<close>.  Its three
  marker arrays are threaded through the recursion; the recursion is at most one level
  deeper than there are rules, which is the fuel it is given, and that much fuel always
  gives a result.

  The lemmas show what a passed check means: every chain of references found at the left
  end of an alternate, over references to rules with an empty alternate, is finite.
\<close>

section \<open>The code\<close>

record left_rec_state =
  lr_visited :: "bool list"
  lr_in_progress :: "bool list"
  lr_may_be_empty :: "bool list"

text \<open>The first loop: does some alternate end right where it starts?\<close>

fun has_empty_alternate :: "bool \<Rightarrow> grammar_rule \<Rightarrow> bool" where
  "has_empty_alternate at_rule_start [] = False"
| "has_empty_alternate at_rule_start (e # es) =
     (if is_end_of_sequence e then at_rule_start \<or> has_empty_alternate True es
      else has_empty_alternate False es)"

fun detect_left_recursion ::
    "nat \<Rightarrow> grammar_rule list \<Rightarrow> nat \<Rightarrow> left_rec_state \<Rightarrow> (bool \<times> left_rec_state) option"
and detect_in_elements ::
    "nat \<Rightarrow> grammar_rule list \<Rightarrow> bool \<Rightarrow> grammar_rule \<Rightarrow> left_rec_state
      \<Rightarrow> (bool \<times> left_rec_state) option" where
  "detect_left_recursion 0 rules rule_index st = None"
| "detect_left_recursion (Suc fuel) rules rule_index st =
     (if lr_in_progress st ! rule_index then Some (True, st)
      else
        let st = st\<lparr>lr_in_progress := (lr_in_progress st)[rule_index := True]\<rparr>;
            rule = rules ! rule_index;
            st = (if has_empty_alternate True rule
                  then st\<lparr>lr_may_be_empty := (lr_may_be_empty st)[rule_index := True]\<rparr> else st)
        in case detect_in_elements fuel rules True rule st of
             None \<Rightarrow> None
           | Some (True, st) \<Rightarrow> Some (True, st)
           | Some (False, st) \<Rightarrow>
               Some (False, st\<lparr>lr_in_progress := (lr_in_progress st)[rule_index := False],
                               lr_visited := (lr_visited st)[rule_index := True]\<rparr>))"
| "detect_in_elements fuel rules recurse [] st = Some (False, st)"
| "detect_in_elements fuel rules recurse (e # es) st =
     (if ge_type e = GreRuleRef \<and> recurse then
        let target = unat (ge_value e) in
        if length rules \<le> target then detect_in_elements fuel rules recurse es st
        else case detect_left_recursion fuel rules target st of
            None \<Rightarrow> None
          | Some (True, st) \<Rightarrow> Some (True, st)
          | Some (False, st) \<Rightarrow>
              detect_in_elements fuel rules (lr_may_be_empty st ! target) es st
      else detect_in_elements fuel rules (is_end_of_sequence e) es st)"

fun detect_from ::
  "grammar_rule list \<Rightarrow> nat list \<Rightarrow> left_rec_state \<Rightarrow> nat option option" where
  "detect_from rules [] st = Some None"
| "detect_from rules (i # is) st =
     (if lr_visited st ! i then detect_from rules is st
      else case detect_left_recursion (Suc (length rules)) rules i st of
          None \<Rightarrow> None
        | Some (True, st) \<Rightarrow> Some (Some i)
        | Some (False, st) \<Rightarrow> detect_from rules is st)"

definition detect_left_recursion_all ::
  "grammar_rule list \<Rightarrow> (nat \<Rightarrow> bytes option) \<Rightarrow> (grammar_error, unit) result option" where
  "detect_left_recursion_all rules name_of =
     (let n = length rules; no = replicate n False in
      case detect_from rules [0..<n]
             \<lparr>lr_visited = no, lr_in_progress = no, lr_may_be_empty = no\<rparr> of
        None \<Rightarrow> None
      | Some None \<Rightarrow> Some (Inr ())
      | Some (Some i) \<Rightarrow> Some (Inl (LeftRecursion i (name_of i))))"

section \<open>The left ends of a rule's alternates\<close>

text \<open>
  The specification: the references at the left end of some alternate, where a reference to
  a rule in \<open>E\<close> does not end the left end.  The check takes \<open>E\<close> to be the rules with an empty
  alternate.
\<close>

definition empty_rule :: "grammar_rule list \<Rightarrow> nat \<Rightarrow> bool" where
  "empty_rule rules r \<longleftrightarrow> r < length rules \<and> has_empty_alternate True (rules ! r)"

fun left_refs :: "(nat \<Rightarrow> bool) \<Rightarrow> grammar_rule list \<Rightarrow> bool \<Rightarrow> grammar_rule \<Rightarrow> nat list" where
  "left_refs E rules recurse [] = []"
| "left_refs E rules recurse (e # es) =
     (if ge_type e = GreRuleRef \<and> recurse then
        let target = unat (ge_value e) in
        if length rules \<le> target then left_refs E rules recurse es
        else target # left_refs E rules (E target) es
      else left_refs E rules (is_end_of_sequence e) es)"

definition left_edge :: "(nat \<Rightarrow> bool) \<Rightarrow> grammar_rule list \<Rightarrow> nat \<Rightarrow> nat \<Rightarrow> bool" where
  "left_edge E rules r' r \<longleftrightarrow> r < length rules \<and> r' \<in> set (left_refs E rules True (rules ! r))"

definition left_finite :: "(nat \<Rightarrow> bool) \<Rightarrow> grammar_rule list \<Rightarrow> nat \<Rightarrow> bool" where
  "left_finite E rules r \<longleftrightarrow> Wellfounded.accp (left_edge E rules) r"

lemma left_refs_bound: "r \<in> set (left_refs E rules recurse es) \<Longrightarrow> r < length rules"
  by (induction E rules recurse es rule: left_refs.induct) (auto simp: Let_def split: if_splits)

section \<open>The markers during the check\<close>

definition marks_ok :: "grammar_rule list \<Rightarrow> left_rec_state \<Rightarrow> bool" where
  "marks_ok rules st \<longleftrightarrow>
     length (lr_visited st) = length rules \<and> length (lr_in_progress st) = length rules
     \<and> length (lr_may_be_empty st) = length rules
     \<and> (\<forall>r < length rules. lr_may_be_empty st ! r \<longrightarrow> empty_rule rules r)
     \<and> (\<forall>r < length rules. lr_visited st ! r \<longrightarrow> left_finite (empty_rule rules) rules r)"

definition marks_grow :: "left_rec_state \<Rightarrow> left_rec_state \<Rightarrow> bool" where
  "marks_grow st st' \<longleftrightarrow>
     (\<forall>r < length (lr_may_be_empty st). lr_may_be_empty st ! r \<longrightarrow> lr_may_be_empty st' ! r)
     \<and> length (lr_may_be_empty st') = length (lr_may_be_empty st)
     \<and> lr_in_progress st' = lr_in_progress st"

lemma marks_grow_trans: "marks_grow a b \<Longrightarrow> marks_grow b c \<Longrightarrow> marks_grow a c"
  by (simp add: marks_grow_def)

lemma detect_passed:
  "detect_left_recursion fuel rules r st = Some (False, st') \<Longrightarrow> marks_ok rules st \<Longrightarrow>
     r < length rules \<Longrightarrow>
     marks_ok rules st' \<and> marks_grow st st' \<and> left_finite (empty_rule rules) rules r
       \<and> lr_may_be_empty st' ! r = empty_rule rules r"
  "detect_in_elements fuel rules recurse es st = Some (False, st') \<Longrightarrow> marks_ok rules st \<Longrightarrow>
     marks_ok rules st' \<and> marks_grow st st'
       \<and> (\<forall>t \<in> set (left_refs (empty_rule rules) rules recurse es). left_finite (empty_rule rules) rules t)"
proof (induction fuel rules r st and fuel rules recurse es st arbitrary: st' and st'
    rule: detect_left_recursion_detect_in_elements.induct)
  case (2 fuel rules r st)
  define st1 where "st1 = st\<lparr>lr_in_progress := (lr_in_progress st)[r := True]\<rparr>"
  define st2 where "st2 = (if has_empty_alternate True (rules ! r)
      then st1\<lparr>lr_may_be_empty := (lr_may_be_empty st1)[r := True]\<rparr> else st1)"
  from "2.prems"(1) obtain st3 where ip: "\<not> lr_in_progress st ! r"
    and el: "detect_in_elements fuel rules True (rules ! r) st2 = Some (False, st3)"
    and st': "st' = st3\<lparr>lr_in_progress := (lr_in_progress st3)[r := False],
                        lr_visited := (lr_visited st3)[r := True]\<rparr>"
    by (auto simp: Let_def st1_def st2_def split: if_splits option.splits prod.splits bool.splits)
  have ok2: "marks_ok rules st2"
    using "2.prems"(2,3) by (auto simp: marks_ok_def st1_def st2_def empty_rule_def nth_list_update)
  have IH: "marks_ok rules st3 \<and> marks_grow st2 st3
      \<and> (\<forall>t \<in> set (left_refs (empty_rule rules) rules True (rules ! r)). left_finite (empty_rule rules) rules t)"
    using "2.IH" [OF ip st1_def refl st2_def el ok2] by simp
  have fin: "left_finite (empty_rule rules) rules r"
    unfolding left_finite_def
    by (rule accp.accI) (use IH in \<open>auto simp: left_edge_def left_finite_def\<close>)
  have len: "length (lr_in_progress st) = length rules" "length (lr_may_be_empty st) = length rules"
    using "2.prems"(2) by (simp_all add: marks_ok_def)
  have "lr_in_progress st3 = (lr_in_progress st)[r := True]"
    using IH by (simp add: marks_grow_def st2_def st1_def)
  then have ip': "(lr_in_progress st3)[r := False] = lr_in_progress st"
    using ip "2.prems"(3) len by (simp add: list_update_same_conv)
  have grow: "marks_grow st st'"
    using IH len "2.prems"(3) ip'
    by (auto simp: marks_grow_def st' st2_def st1_def nth_list_update split: if_splits)
  have e2: "lr_may_be_empty st2 ! r" if "empty_rule rules r"
    using that len "2.prems"(3) by (simp add: empty_rule_def st2_def st1_def)
  have "lr_may_be_empty st3 ! r = empty_rule rules r"
    using IH e2 ok2 "2.prems"(3) len
    by (auto simp: marks_ok_def marks_grow_def)
  with IH fin grow "2.prems"(3) show ?case
    by (auto simp: marks_ok_def st' nth_list_update)
next
  case (4 fuel rules recurse e es st)
  show ?case
  proof (cases "ge_type e = GreRuleRef \<and> recurse")
    case False
    then have "left_refs (empty_rule rules) rules recurse (e # es) = left_refs (empty_rule rules) rules (is_end_of_sequence e) es"
      "detect_in_elements fuel rules recurse (e # es) st
        = detect_in_elements fuel rules (is_end_of_sequence e) es st"
      by auto
    then show ?thesis using "4.IH"(4) [OF False] "4.prems" by metis
  next
    case True
    show ?thesis
    proof (cases "length rules \<le> unat (ge_value e)")
      case True
      with 4 \<open>ge_type e = GreRuleRef \<and> recurse\<close> show ?thesis by simp
    next
      case False
      define t where "t = unat (ge_value e)"
      from "4.prems"(1) True False obtain st1 where
        d: "detect_left_recursion fuel rules t st = Some (False, st1)"
        and el: "detect_in_elements fuel rules (lr_may_be_empty st1 ! t) es st1 = Some (False, st')"
        by (auto simp: Let_def t_def split: option.splits prod.splits bool.splits)
      have IH1: "marks_ok rules st1 \<and> marks_grow st st1 \<and> left_finite (empty_rule rules) rules t
         \<and> lr_may_be_empty st1 ! t = empty_rule rules t"
        using "4.IH"(2) [OF True t_def] False d "4.prems"(2) by (simp add: t_def)
      have IH2: "marks_ok rules st' \<and> marks_grow st1 st'
          \<and> (\<forall>u \<in> set (left_refs (empty_rule rules) rules (lr_may_be_empty st1 ! t) es). left_finite (empty_rule rules) rules u)"
        using "4.IH"(3) [OF True t_def _ d refl _ el] False IH1 by (simp add: t_def)
      with IH1 True False show ?thesis
        by (auto simp: Let_def t_def intro: marks_grow_trans)
    qed
  qed
qed (auto simp: marks_grow_def)

text \<open>
  A report is a cycle: every rule in progress is above the rule at hand.
\<close>

lemma detect_reported:
  "detect_left_recursion fuel rules r st = Some (True, st') \<Longrightarrow> marks_ok rules st \<Longrightarrow>
     r < length rules \<Longrightarrow>
     (\<And>p. p < length rules \<Longrightarrow> lr_in_progress st ! p \<Longrightarrow> (left_edge (empty_rule rules) rules)\<^sup>+\<^sup>+ r p) \<Longrightarrow>
     \<exists>q < length rules. (left_edge (empty_rule rules) rules)\<^sup>+\<^sup>+ q q"
  "detect_in_elements fuel rules recurse es st = Some (True, st') \<Longrightarrow> marks_ok rules st \<Longrightarrow>
     (\<And>p t. p < length rules \<Longrightarrow> lr_in_progress st ! p \<Longrightarrow>
        t \<in> set (left_refs (empty_rule rules) rules recurse es) \<Longrightarrow>
        (left_edge (empty_rule rules) rules)\<^sup>+\<^sup>+ t p) \<Longrightarrow>
     \<exists>q < length rules. (left_edge (empty_rule rules) rules)\<^sup>+\<^sup>+ q q"
proof (induction fuel rules r st and fuel rules recurse es st arbitrary: st' and st'
    rule: detect_left_recursion_detect_in_elements.induct)
  case (2 fuel rules r st)
  show ?case
  proof (cases "lr_in_progress st ! r")
    case True
    with "2.prems"(3,4) show ?thesis by blast
  next
    case False
    define st1 where "st1 = st\<lparr>lr_in_progress := (lr_in_progress st)[r := True]\<rparr>"
    define st2 where "st2 = (if has_empty_alternate True (rules ! r)
        then st1\<lparr>lr_may_be_empty := (lr_may_be_empty st1)[r := True]\<rparr> else st1)"
    from "2.prems"(1) False have el: "detect_in_elements fuel rules True (rules ! r) st2 = Some (True, st')"
      by (auto simp: Let_def st1_def st2_def split: if_splits option.splits prod.splits bool.splits)
    have ok2: "marks_ok rules st2"
      using "2.prems"(2,3) by (auto simp: marks_ok_def st1_def st2_def empty_rule_def nth_list_update)
    have ip: "lr_in_progress st2 = (lr_in_progress st)[r := True]" by (simp add: st1_def st2_def)
    show ?thesis
    proof (rule "2.IH" [OF False st1_def refl st2_def el ok2])
      fix p t
      assume p: "p < length rules" "lr_in_progress st2 ! p"
        and t: "t \<in> set (left_refs (empty_rule rules) rules True (rules ! r))"
      from t "2.prems"(3) have edge: "left_edge (empty_rule rules) rules t r"
        by (simp add: left_edge_def)
      show "(left_edge (empty_rule rules) rules)\<^sup>+\<^sup>+ t p"
      proof (cases "p = r")
        case True
        with edge show ?thesis by blast
      next
        case False
        with p ip have "(left_edge (empty_rule rules) rules)\<^sup>+\<^sup>+ r p"
          using "2.prems"(4) by simp
        with edge show ?thesis by (rule tranclp_into_tranclp2)
      qed
    qed
  qed
next
  case (4 fuel rules recurse e es st)
  show ?case
  proof (cases "ge_type e = GreRuleRef \<and> recurse")
    case False
    then have "left_refs (empty_rule rules) rules recurse (e # es)
        = left_refs (empty_rule rules) rules (is_end_of_sequence e) es"
      "detect_in_elements fuel rules recurse (e # es) st
        = detect_in_elements fuel rules (is_end_of_sequence e) es st"
      by auto
    then show ?thesis using "4.IH"(4) [OF False] "4.prems" by metis
  next
    case True
    show ?thesis
    proof (cases "length rules \<le> unat (ge_value e)")
      case True
      with 4 \<open>ge_type e = GreRuleRef \<and> recurse\<close> show ?thesis by simp
    next
      case False
      define t where "t = unat (ge_value e)"
      have refs: "left_refs (empty_rule rules) rules recurse (e # es)
          = t # left_refs (empty_rule rules) rules (empty_rule rules t) es"
        using True False by (simp add: Let_def t_def)
      consider "detect_left_recursion fuel rules t st = Some (True, st')"
        | st1 where "detect_left_recursion fuel rules t st = Some (False, st1)"
          "detect_in_elements fuel rules (lr_may_be_empty st1 ! t) es st1 = Some (True, st')"
        using "4.prems"(1) True False
        by (auto simp: Let_def t_def split: option.splits prod.splits bool.splits)
      then show ?thesis
      proof cases
        case 1
        show ?thesis
          by (rule "4.IH"(2) [OF True t_def _ 1 "4.prems"(2)])
             (use False "4.prems"(3) refs in \<open>auto simp: t_def\<close>)
      next
        case 2
        note pass = detect_passed(1) [OF 2(1) "4.prems"(2)]
        show ?thesis
          by (rule "4.IH"(3) [OF True t_def _ 2(1) refl refl 2(2)])
             (use False "4.prems"(3) refs pass in \<open>auto simp: t_def marks_grow_def\<close>)
      qed
    qed
  qed
qed auto

lemma accp_no_cycle: "Wellfounded.accp R x \<Longrightarrow> \<not> R\<^sup>+\<^sup>+ x x"
proof (induction x rule: accp.induct)
  case (accI x)
  show ?case
  proof
    assume "R\<^sup>+\<^sup>+ x x"
    then obtain y where "R\<^sup>*\<^sup>* x y" "R y x" by (metis tranclpD tranclp.cases tranclp_into_rtranclp rtranclp.rtrancl_refl)
    with accI.IH [of y] show False by (meson rtranclp_into_tranclp2)
  qed
qed

lemma cycle_not_finite: "(left_edge E rules)\<^sup>+\<^sup>+ q q \<Longrightarrow> \<not> left_finite E rules q"
  unfolding left_finite_def by (metis accp_no_cycle)

lemma detect_from_reported:
  "detect_from rules is st = Some (Some i) \<Longrightarrow> marks_ok rules st \<Longrightarrow> \<forall>i \<in> set is. i < length rules \<Longrightarrow>
     \<forall>p < length rules. \<not> lr_in_progress st ! p \<Longrightarrow>
     \<exists>q < length rules. (left_edge (empty_rule rules) rules)\<^sup>+\<^sup>+ q q"
proof (induction rules "is" st rule: detect_from.induct)
  case (2 rules j "is" st)
  show ?case
  proof (cases "lr_visited st ! j")
    case True
    with "2.IH"(1) [OF True] "2.prems" show ?thesis by simp
  next
    case False
    with "2.prems"(1) consider st1 where
      "detect_left_recursion (Suc (length rules)) rules j st = Some (True, st1)"
    | st1 where "detect_left_recursion (Suc (length rules)) rules j st = Some (False, st1)"
      "detect_from rules is st1 = Some (Some i)"
      by (auto simp del: detect_left_recursion.simps
          split: option.splits prod.splits bool.splits)
    then show ?thesis
    proof cases
      case 1
      show ?thesis
        by (rule detect_reported(1) [OF 1 "2.prems"(2)]) (use "2.prems"(3,4) in auto)
    next
      case 2
      have "marks_ok rules st1 \<and> marks_grow st st1"
        using detect_passed(1) [OF 2(1)] "2.prems"(2,3) by simp
      with "2.IH"(2) [OF False 2(1) refl refl 2(2)] "2.prems"(3,4) show ?thesis
        by (simp add: marks_grow_def)
    qed
  qed
qed simp

lemma detect_from_passed:
  "detect_from rules is st = Some None \<Longrightarrow> marks_ok rules st \<Longrightarrow> \<forall>i \<in> set is. i < length rules \<Longrightarrow>
     \<forall>i \<in> set is. left_finite (empty_rule rules) rules i"
proof (induction rules "is" st rule: detect_from.induct)
  case (2 rules i "is" st)
  show ?case
  proof (cases "lr_visited st ! i")
    case True
    then have "left_finite (empty_rule rules) rules i" using "2.prems" by (auto simp: marks_ok_def)
    with "2.IH"(1) [OF True] "2.prems" True show ?thesis by simp
  next
    case False
    with "2.prems"(1) obtain st1 where
      d: "detect_left_recursion (Suc (length rules)) rules i st = Some (False, st1)"
      and el: "detect_from rules is st1 = Some None"
      by (auto simp del: detect_left_recursion.simps
          split: option.splits prod.splits bool.splits)
    have "marks_ok rules st1 \<and> left_finite (empty_rule rules) rules i"
      using detect_passed(1) [OF d] "2.prems"(2,3) by simp
    with "2.IH"(2) [OF False d refl _ el] "2.prems"(3) show ?thesis by simp
  qed
qed simp

text \<open>A passed check: from every rule, every chain of left references is finite.\<close>

definition no_marks :: "grammar_rule list \<Rightarrow> left_rec_state" where
  "no_marks rules = (let no = replicate (length rules) False in
     \<lparr>lr_visited = no, lr_in_progress = no, lr_may_be_empty = no\<rparr>)"

lemma no_marks_ok: "marks_ok rules (no_marks rules)"
  by (simp add: marks_ok_def no_marks_def Let_def)

lemma detect_all_eq:
  "detect_left_recursion_all rules name_of =
     map_option (\<lambda>found. case found of None \<Rightarrow> Inr () | Some i \<Rightarrow> Inl (LeftRecursion i (name_of i)))
       (detect_from rules [0..<length rules] (no_marks rules))"
  by (simp add: detect_left_recursion_all_def no_marks_def Let_def split: option.split)

lemma detect_all_left_finite:
  assumes "detect_left_recursion_all rules name_of = Some (Inr ())" "r < length rules"
  shows "left_finite (empty_rule rules) rules r"
proof -
  have "detect_from rules [0..<length rules] (no_marks rules) = Some None"
    using assms(1) by (auto simp: detect_all_eq split: option.splits)
  with detect_from_passed [OF _ no_marks_ok] assms(2) show ?thesis by fastforce
qed

section \<open>The fuel is enough\<close>

definition idle_rules :: "grammar_rule list \<Rightarrow> left_rec_state \<Rightarrow> nat" where
  "idle_rules rules st = card {r. r < length rules \<and> \<not> lr_in_progress st ! r}"

lemma detect_returns:
  "length (lr_in_progress st) = length rules \<Longrightarrow> r < length rules \<Longrightarrow>
     idle_rules rules st < fuel \<Longrightarrow>
     \<exists>b st'. detect_left_recursion fuel rules r st = Some (b, st')
       \<and> (\<not> b \<longrightarrow> lr_in_progress st' = lr_in_progress st)"
  "length (lr_in_progress st) = length rules \<Longrightarrow> idle_rules rules st < fuel \<Longrightarrow>
     \<exists>b st'. detect_in_elements fuel rules recurse es st = Some (b, st')
       \<and> (\<not> b \<longrightarrow> lr_in_progress st' = lr_in_progress st)"
proof (induction fuel rules r st and fuel rules recurse es st
    rule: detect_left_recursion_detect_in_elements.induct)
  case (2 fuel rules r st)
  show ?case
  proof (cases "lr_in_progress st ! r")
    case False
    define st1 where "st1 = st\<lparr>lr_in_progress := (lr_in_progress st)[r := True]\<rparr>"
    define st2 where "st2 = (if has_empty_alternate True (rules ! r)
        then st1\<lparr>lr_may_be_empty := (lr_may_be_empty st1)[r := True]\<rparr> else st1)"
    have ip: "lr_in_progress st2 = (lr_in_progress st)[r := True]"
      by (simp add: st1_def st2_def)
    have "{q. q < length rules \<and> \<not> lr_in_progress st2 ! q}
        = {q. q < length rules \<and> \<not> lr_in_progress st ! q} - {r}"
      using "2.prems" by (auto simp: ip nth_list_update)
    then have "idle_rules rules st2 < idle_rules rules st"
      unfolding idle_rules_def using "2.prems"(2) False by (intro psubset_card_mono) auto
    then have "idle_rules rules st2 < fuel" using "2.prems"(3) by simp
    then obtain b st3 where el: "detect_in_elements fuel rules True (rules ! r) st2 = Some (b, st3)"
      and same: "\<not> b \<longrightarrow> lr_in_progress st3 = lr_in_progress st2"
      using "2.IH" [OF False st1_def refl st2_def] "2.prems"(1) ip by auto
    have "(lr_in_progress st)[r := True, r := False] = lr_in_progress st"
      using False "2.prems" by (simp add: list_update_same_conv)
    with el same False ip show ?thesis
      by (cases b) (auto simp: Let_def st1_def st2_def)
  qed (auto intro: exI [of _ True])
next
  case (4 fuel rules recurse e es st)
  show ?case
  proof (cases "ge_type e = GreRuleRef \<and> recurse")
    case False
    then have "detect_in_elements fuel rules recurse (e # es) st
        = detect_in_elements fuel rules (is_end_of_sequence e) es st"
      by auto
    then show ?thesis using "4.IH"(4) [OF False] "4.prems"
      by (simp only:)
  next
    case True
    show ?thesis
    proof (cases "length rules \<le> unat (ge_value e)")
      case True
      with 4 \<open>ge_type e = GreRuleRef \<and> recurse\<close> show ?thesis by simp
    next
      case False
      define t where "t = unat (ge_value e)"
      obtain b st1 where d: "detect_left_recursion fuel rules t st = Some (b, st1)"
        and same: "\<not> b \<longrightarrow> lr_in_progress st1 = lr_in_progress st"
        using "4.IH"(2) [OF True t_def] False "4.prems" by (auto simp: t_def)
      show ?thesis
      proof (cases b)
        case b: False
        with same have "lr_in_progress st1 = lr_in_progress st" by simp
        then have "idle_rules rules st1 < fuel" "length (lr_in_progress st1) = length rules"
          using "4.prems" by (simp_all add: idle_rules_def)
        with "4.IH"(3) [OF True t_def _ d refl] False b same d True show ?thesis
          by (auto simp: Let_def t_def)
      next
        case b: True
        with True False d show ?thesis by (auto simp: Let_def t_def)
      qed
    qed
  qed
qed auto

lemma detect_from_returns:
  "length (lr_in_progress st) = length rules \<Longrightarrow> \<forall>i \<in> set is. i < length rules \<Longrightarrow>
     \<exists>r. detect_from rules is st = Some r"
proof (induction rules "is" st rule: detect_from.induct)
  case (2 rules i "is" st)
  have "idle_rules rules st \<le> card {..<length rules}"
    unfolding idle_rules_def by (rule card_mono) auto
  then have "idle_rules rules st < Suc (length rules)" by simp
  then obtain b st1 where d: "detect_left_recursion (Suc (length rules)) rules i st = Some (b, st1)"
    and same: "\<not> b \<longrightarrow> lr_in_progress st1 = lr_in_progress st"
    using detect_returns(1) "2.prems" by (metis list.set_intros(1))
  show ?case
  proof (cases "lr_visited st ! i")
    case True
    with "2.IH"(1) [OF True] "2.prems" show ?thesis by simp
  next
    case False
    with "2.IH"(2) [OF False d refl] "2.prems" d same show ?thesis
      by (cases b) (simp_all del: detect_left_recursion.simps)
  qed
qed simp

text \<open>The check always gives its verdict.\<close>

lemma detect_all_returns: "\<exists>r. detect_left_recursion_all rules name_of = Some r"
  using detect_from_returns [of "no_marks rules" rules "[0..<length rules]"]
  by (auto simp: detect_all_eq no_marks_def Let_def)

lemma detect_all_finite:
  assumes "\<forall>r < length rules. left_finite (empty_rule rules) rules r"
  shows "detect_left_recursion_all rules name_of = Some (Inr ())"
proof -
  obtain found where f: "detect_from rules [0..<length rules] (no_marks rules) = Some found"
    using detect_from_returns [of "no_marks rules" rules "[0..<length rules]"]
    by (auto simp: no_marks_def Let_def)
  have "found = None"
  proof (rule ccontr)
    assume "found \<noteq> None"
    then obtain i where "found = Some i" by blast
    with f have "\<exists>q < length rules. (left_edge (empty_rule rules) rules)\<^sup>+\<^sup>+ q q"
      by (intro detect_from_reported [OF _ no_marks_ok]) (auto simp: no_marks_def Let_def)
    with assms cycle_not_finite show False by blast
  qed
  with f show ?thesis by (simp add: detect_all_eq)
qed

section \<open>Claims\<close>



end
