(* ===== verification/Grammar_Lazy.thy ===== *)
theory Grammar_Lazy
  imports Grammar_Element
begin

text \<open>
  Lazy grammars: the trigger state of \<^verbatim>\<open>grammar/lazy.rs\<close>.  The regular-expression
  engine (\<^verbatim>\<open>fancy_regex\<close>, a third-party crate) is a parameter: how a pattern is
  compiled, what a compiled pattern captures in a text, and how a literal is escaped.
  Capture group 0 is the whole match.

  The lemmas show that the incremental state is the history of the tokens seen, and that
  what is replayed when a trigger fires is the generated text from the match on, cut where
  the tokens were cut.
\<close>

section \<open>The engine and a trigger pattern\<close>

type_synonym captures = "(nat \<times> nat) option list"

record 'rx regex_engine =
  rx_compile :: "bytes \<Rightarrow> (string, 'rx) result"
  rx_captures :: "'rx \<Rightarrow> bytes \<Rightarrow> (string, captures option) result"
  rx_escape :: "bytes \<Rightarrow> bytes"

record 'rx trigger_pattern =
  tp_pattern :: bytes
  tp_search :: 'rx
  tp_full :: "'rx option"

definition compile_pattern ::
  "'rx regex_engine \<Rightarrow> bytes \<Rightarrow> (grammar_error, 'rx) result" where
  "compile_pattern eng pattern =
     (case rx_compile eng pattern of
        Inl reason \<Rightarrow> Inl (TriggerPatternInvalid pattern reason)
      | Inr re \<Rightarrow> Inr re)"

definition caret :: u8 where "caret = 0x5E"
definition dollar :: u8 where "dollar = 0x24"

definition starts_with :: "bytes \<Rightarrow> u8 \<Rightarrow> bool" where
  "starts_with s c \<longleftrightarrow> s \<noteq> [] \<and> hd s = c"

definition ends_with :: "bytes \<Rightarrow> u8 \<Rightarrow> bool" where
  "ends_with s c \<longleftrightarrow> s \<noteq> [] \<and> last s = c"

text \<open>The text of \<open>\A(?:pattern)\z\<close>.\<close>

definition whole_buffer :: "bytes \<Rightarrow> bytes" where
  "whole_buffer pattern = [0x5C, 0x41, 0x28, 0x3F, 0x3A] @ pattern @ [0x29, 0x5C, 0x7A]"

definition trigger_pattern_new ::
  "'rx regex_engine \<Rightarrow> bytes \<Rightarrow> (grammar_error, 'rx trigger_pattern) result" where
  "trigger_pattern_new eng pattern =
     bind_ok (compile_pattern eng pattern) (\<lambda>search.
       if starts_with pattern caret \<and> ends_with pattern dollar
       then bind_ok (compile_pattern eng (whole_buffer pattern)) (\<lambda>full.
              Inr \<lparr>tp_pattern = pattern, tp_search = search, tp_full = Some full\<rparr>)
       else Inr \<lparr>tp_pattern = pattern, tp_search = search, tp_full = None\<rparr>)"

definition pattern_captures ::
  "'rx regex_engine \<Rightarrow> 'rx trigger_pattern \<Rightarrow> 'rx \<Rightarrow> bytes
    \<Rightarrow> (grammar_error, captures option) result" where
  "pattern_captures eng p re input =
     (case rx_captures eng re input of
        Inl reason \<Rightarrow> Inl (TriggerPatternFailed (tp_pattern p) reason)
      | Inr caps \<Rightarrow> Inr caps)"

fun first_group :: "captures \<Rightarrow> nat option" where
  "first_group [] = None"
| "first_group (None # gs) = first_group gs"
| "first_group (Some (s, e) # gs) = (if s < e then Some s else first_group gs)"

definition start_of_match :: "captures \<Rightarrow> nat" where
  "start_of_match caps =
     (case first_group (tl caps) of
        Some s \<Rightarrow> s
      | None \<Rightarrow> (case caps of Some (s, e) # _ \<Rightarrow> s | _ \<Rightarrow> 0))"

definition find_in_search ::
  "'rx regex_engine \<Rightarrow> 'rx trigger_pattern \<Rightarrow> bytes \<Rightarrow> (grammar_error, nat option) result" where
  "find_in_search eng p input =
     bind_ok (pattern_captures eng p (tp_search p) input) (\<lambda>caps.
       Inr (map_option start_of_match caps))"

definition pattern_find ::
  "'rx regex_engine \<Rightarrow> 'rx trigger_pattern \<Rightarrow> bytes \<Rightarrow> (grammar_error, nat option) result" where
  "pattern_find eng p input =
     (case tp_full p of
        None \<Rightarrow> find_in_search eng p input
      | Some full \<Rightarrow>
          bind_ok (pattern_captures eng p full input) (\<lambda>caps.
            case caps of
              Some c \<Rightarrow> Inr (Some (start_of_match c))
            | None \<Rightarrow> find_in_search eng p input))"

section \<open>The trigger set\<close>

record 'rx lazy_triggers =
  lt_tokens :: "u32 list"
  lt_patterns :: "'rx trigger_pattern list"
  lt_mandatory :: bool

definition lazy_triggers_new :: "'rx lazy_triggers" where
  "lazy_triggers_new = \<lparr>lt_tokens = [], lt_patterns = [], lt_mandatory = False\<rparr>"

definition mandatory :: "'rx lazy_triggers \<Rightarrow> 'rx lazy_triggers" where
  "mandatory t = t\<lparr>lt_mandatory := True\<rparr>"

definition with_token :: "u32 \<Rightarrow> 'rx lazy_triggers \<Rightarrow> 'rx lazy_triggers" where
  "with_token token t = t\<lparr>lt_tokens := lt_tokens t @ [token]\<rparr>"

definition with_pattern ::
  "'rx regex_engine \<Rightarrow> bytes \<Rightarrow> 'rx lazy_triggers \<Rightarrow> (grammar_error, 'rx lazy_triggers) result" where
  "with_pattern eng pattern t =
     bind_ok (trigger_pattern_new eng pattern) (\<lambda>p. Inr (t\<lparr>lt_patterns := lt_patterns t @ [p]\<rparr>))"

definition with_word ::
  "'rx regex_engine \<Rightarrow> bytes \<Rightarrow> 'rx lazy_triggers \<Rightarrow> (grammar_error, 'rx lazy_triggers) result" where
  "with_word eng word t =
     bind_ok (trigger_pattern_new eng (rx_escape eng word)) (\<lambda>p.
       Inr (t\<lparr>lt_patterns := lt_patterns t @ [p]\<rparr>))"

definition anchored :: "bytes \<Rightarrow> bytes" where
  "anchored pattern =
     (if pattern = [] then [caret, dollar]
      else (if starts_with pattern caret then [] else [caret]) @ pattern
             @ (if ends_with pattern dollar then [] else [dollar]))"

definition with_full_pattern ::
  "'rx regex_engine \<Rightarrow> bytes \<Rightarrow> 'rx lazy_triggers \<Rightarrow> (grammar_error, 'rx lazy_triggers) result" where
  "with_full_pattern eng pattern t =
     bind_ok (trigger_pattern_new eng (anchored pattern)) (\<lambda>p.
       Inr (t\<lparr>lt_patterns := lt_patterns t @ [p]\<rparr>))"

definition triggers_is_empty :: "'rx lazy_triggers \<Rightarrow> bool" where
  "triggers_is_empty t \<longleftrightarrow> lt_tokens t = [] \<and> lt_patterns t = []"

section \<open>The state of a waiting grammar\<close>

datatype trigger_step = Awaiting | Fired "(u32 \<times> bytes) list"

record 'rx lazy_state =
  lz_triggers :: "'rx lazy_triggers"
  lz_awaiting :: bool
  lz_buffer :: bytes
  lz_spans :: "(u32 \<times> nat \<times> nat) list"

definition lazy_state_new :: "'rx lazy_triggers \<Rightarrow> 'rx lazy_state" where
  "lazy_state_new t = \<lparr>lz_triggers = t, lz_awaiting = True, lz_buffer = [], lz_spans = []\<rparr>"

definition fire :: "'rx lazy_state \<Rightarrow> 'rx lazy_state" where
  "fire st = st\<lparr>lz_awaiting := False, lz_buffer := [], lz_spans := []\<rparr>"

fun find_first ::
  "'rx regex_engine \<Rightarrow> 'rx trigger_pattern list \<Rightarrow> bytes \<Rightarrow> (grammar_error, nat option) result" where
  "find_first eng [] text = Inr None"
| "find_first eng (p # ps) text =
     bind_ok (pattern_find eng p text) (\<lambda>at.
       case at of Some n \<Rightarrow> Inr (Some n) | None \<Rightarrow> find_first eng ps text)"

definition find_trigger ::
  "'rx regex_engine \<Rightarrow> 'rx lazy_state \<Rightarrow> (grammar_error, nat option) result" where
  "find_trigger eng st =
     (if lt_patterns (lz_triggers st) = [] then Inr None
      else find_first eng (lt_patterns (lz_triggers st)) (valid_prefix (lz_buffer st)))"

definition replay_span :: "bytes \<Rightarrow> nat \<Rightarrow> u32 \<times> nat \<times> nat \<Rightarrow> (u32 \<times> bytes) list" where
  "replay_span buffer at span =
     (case span of (tok, tok_start, tok_end) \<Rightarrow>
        if tok_end \<le> at then []
        else let from = max tok_start at in [(tok, take (tok_end - from) (drop from buffer))])"

text \<open>The state is returned in every case: an error leaves the token in the buffer.\<close>

definition observe ::
  "'rx regex_engine \<Rightarrow> u32 \<Rightarrow> bytes \<Rightarrow> 'rx lazy_state
    \<Rightarrow> (grammar_error, trigger_step) result \<times> 'rx lazy_state" where
  "observe eng token piece st =
     (if token \<in> set (lt_tokens (lz_triggers st)) then (Inr (Fired [(token, piece)]), fire st)
      else
        let start = length (lz_buffer st);
            st = st\<lparr>lz_buffer := lz_buffer st @ piece\<rparr>;
            st = st\<lparr>lz_spans := lz_spans st @ [(token, start, length (lz_buffer st))]\<rparr>
        in case find_trigger eng st of
             Inl e \<Rightarrow> (Inl e, st)
           | Inr None \<Rightarrow> (Inr Awaiting, st)
           | Inr (Some at) \<Rightarrow>
               (Inr (Fired (concat (map (replay_span (lz_buffer st) at) (lz_spans st)))), fire st))"

section \<open>The state as a history\<close>

text \<open>
  The specification knows the tokens seen, with their pieces, and nothing else.  \<open>cut_at\<close>
  drops the first bytes of their concatenation, and the tokens that end there or before.
\<close>

type_synonym history = "(u32 \<times> bytes) list"

definition history_text :: "history \<Rightarrow> bytes" where
  "history_text h = concat (map snd h)"

fun spans_from :: "nat \<Rightarrow> history \<Rightarrow> (u32 \<times> nat \<times> nat) list" where
  "spans_from n [] = []"
| "spans_from n ((tok, piece) # h) =
     (tok, n, n + length piece) # spans_from (n + length piece) h"

fun cut_at :: "nat \<Rightarrow> history \<Rightarrow> history" where
  "cut_at n [] = []"
| "cut_at n ((tok, piece) # h) =
     (if length piece \<le> n then cut_at (n - length piece) h else (tok, drop n piece) # h)"

definition spec_observe ::
  "'rx regex_engine \<Rightarrow> 'rx lazy_triggers \<Rightarrow> u32 \<Rightarrow> bytes \<Rightarrow> history
    \<Rightarrow> (grammar_error, trigger_step) result" where
  "spec_observe eng t token piece h =
     (if token \<in> set (lt_tokens t) then Inr (Fired [(token, piece)])
      else let h = h @ [(token, piece)] in
        bind_ok (find_first eng (lt_patterns t) (valid_prefix (history_text h))) (\<lambda>found.
          Inr (case found of None \<Rightarrow> Awaiting | Some at \<Rightarrow> Fired (cut_at at h))))"

definition records :: "'rx lazy_state \<Rightarrow> history \<Rightarrow> bool" where
  "records st h \<longleftrightarrow>
     lz_awaiting st \<and> lz_buffer st = history_text h \<and> lz_spans st = spans_from 0 h"

definition spent :: "'rx lazy_state \<Rightarrow> bool" where
  "spent st \<longleftrightarrow> \<not> lz_awaiting st \<and> lz_buffer st = [] \<and> lz_spans st = []"

lemma history_text_simps [simp]:
  "history_text [] = []"
  "history_text ((tok, piece) # h) = piece @ history_text h"
  "history_text (h @ h') = history_text h @ history_text h'"
  by (simp_all add: history_text_def)

lemma spans_from_append:
  "spans_from n (h @ h') = spans_from n h @ spans_from (n + length (history_text h)) h'"
  by (induction n h rule: spans_from.induct) (simp_all add: add.assoc)

lemma replay_span_simps [simp]:
  "replay_span b at (tok, s, e) =
     (if e \<le> at then [] else [(tok, take (e - max s at) (drop (max s at) b))])"
  by (simp add: replay_span_def Let_def)

text \<open>Past the cut every span is replayed whole.\<close>

lemma replay_past:
  "at < n \<Longrightarrow> n = length pre \<Longrightarrow>
   concat (map (replay_span (pre @ history_text h) at) (spans_from n h)) = h"
proof (induction n h arbitrary: pre rule: spans_from.induct)
  case (2 n tok piece h)
  have "concat (map (replay_span ((pre @ piece) @ history_text h) at)
      (spans_from (n + length piece) h)) = h"
    by (rule "2.IH") (use "2.prems" in auto)
  with "2.prems" show ?case by simp
qed simp

lemma replay_cut:
  "n = length pre \<Longrightarrow> n \<le> at \<Longrightarrow>
   concat (map (replay_span (pre @ history_text h) at) (spans_from n h)) = cut_at (at - n) h"
proof (induction n h arbitrary: pre rule: spans_from.induct)
  case (2 n tok piece h)
  show ?case
  proof (cases "n + length piece \<le> at")
    case True
    have "concat (map (replay_span ((pre @ piece) @ history_text h) at)
        (spans_from (n + length piece) h)) = cut_at (at - (n + length piece)) h"
      by (rule "2.IH") (use "2.prems" True in auto)
    with "2.prems" True show ?thesis by auto
  next
    case False
    have "concat (map (replay_span ((pre @ piece) @ history_text h) at)
        (spans_from (n + length piece) h)) = h"
      by (rule replay_past) (use "2.prems" False in auto)
    with "2.prems" False show ?thesis by (auto simp: max_def)
  qed
qed simp

lemma history_text_cut: "history_text (cut_at n h) = drop n (history_text h)"
  by (induction n h rule: cut_at.induct) auto

lemma find_trigger_eq:
  "find_trigger eng st = find_first eng (lt_patterns (lz_triggers st)) (valid_prefix (lz_buffer st))"
  by (simp add: find_trigger_def)

lemma records_new: "records (lazy_state_new t) []"
  by (simp add: records_def lazy_state_new_def)

lemma observe_spec:
  assumes "records st h"
  shows "fst (observe eng token piece st) = spec_observe eng (lz_triggers st) token piece h"
  using assms replay_cut [of 0 "[]" _ "h @ [(token, piece)]"]
  by (simp add: observe_def spec_observe_def records_def find_trigger_eq Let_def
      spans_from_append split: option.splits sum.splits)

lemma observe_state:
  assumes "records st h"
  shows "lz_triggers (snd (observe eng token piece st)) = lz_triggers st"
    and "(\<exists>replay. fst (observe eng token piece st) = Inr (Fired replay))
           \<Longrightarrow> spent (snd (observe eng token piece st))"
    and "\<nexists>replay. fst (observe eng token piece st) = Inr (Fired replay)
           \<Longrightarrow> records (snd (observe eng token piece st)) (h @ [(token, piece)])"
proof -
  let ?f = "find_first eng (lt_patterns (lz_triggers st)) (valid_prefix (history_text h @ piece))"
  consider "token \<in> set (lt_tokens (lz_triggers st))"
    | e where "token \<notin> set (lt_tokens (lz_triggers st))" "?f = Inl e"
    | "token \<notin> set (lt_tokens (lz_triggers st))" "?f = Inr None"
    | at where "token \<notin> set (lt_tokens (lz_triggers st))" "?f = Inr (Some at)"
    by (metis option.exhaust sum.exhaust)
  then have "lz_triggers (snd (observe eng token piece st)) = lz_triggers st \<and>
      (if \<exists>replay. fst (observe eng token piece st) = Inr (Fired replay)
       then spent (snd (observe eng token piece st))
       else records (snd (observe eng token piece st)) (h @ [(token, piece)]))"
    using assms
    by cases (simp_all add: observe_def records_def spent_def fire_def find_trigger_eq Let_def
        spans_from_append)
  then show "lz_triggers (snd (observe eng token piece st)) = lz_triggers st"
    "(\<exists>replay. fst (observe eng token piece st) = Inr (Fired replay))
       \<Longrightarrow> spent (snd (observe eng token piece st))"
    "\<nexists>replay. fst (observe eng token piece st) = Inr (Fired replay)
       \<Longrightarrow> records (snd (observe eng token piece st)) (h @ [(token, piece)])"
    by (auto split: if_splits)
qed

section \<open>Claims\<close>

text \<open>The trigger buffer and its byte spans are a faithful history: one observed token
  gives exactly what the specification over the token history gives (a trigger token fires
  alone and discards the history; otherwise the first pattern that matches the valid prefix
  of the whole accumulated text fires, and the history from the match on is replayed, the
  straddling token cut), and the new state records the longer history, or is spent for good
  once a trigger fired.\<close>

theorem observe_refines_history:
  assumes "records st h" "observe eng token piece st = (r, st')"
  shows "r = spec_observe eng (lz_triggers st) token piece h
    \<and> lz_triggers st' = lz_triggers st
    \<and> (case r of Inr (Fired replay) \<Rightarrow> spent st' | _ \<Rightarrow> records st' (h @ [(token, piece)]))"
  using observe_spec [OF assms(1), of eng token piece] observe_state [OF assms(1), of eng token piece]
    assms(2)
  by (auto split: sum.split trigger_step.split)

text \<open>An engine for the witnesses: a compiled pattern is a literal, found at its first occurrence.\<close>

fun find_literal :: "bytes \<Rightarrow> nat \<Rightarrow> bytes \<Rightarrow> nat option" where
  "find_literal lit n [] = (if lit = [] then Some n else None)"
| "find_literal lit n (b # bs) =
     (if take (length lit) (b # bs) = lit then Some n else find_literal lit (Suc n) bs)"

definition literal_engine :: "bytes regex_engine" where
  "literal_engine =
     \<lparr>rx_compile = Inr,
      rx_captures = (\<lambda>lit text. Inr (map_option (\<lambda>n. [Some (n, n + length lit)])
        (find_literal lit 0 text))),
      rx_escape = id\<rparr>"

definition literal_triggers :: "bytes \<Rightarrow> bytes lazy_triggers" where
  "literal_triggers lit = \<lparr>lt_tokens = [99],
     lt_patterns = [\<lparr>tp_pattern = lit, tp_search = lit, tp_full = None\<rparr>], lt_mandatory = False\<rparr>"

text \<open>What the grammar is fed when a pattern fires is exactly the generated text from the
  match start on: the replayed pieces concatenate to it, none of the text before it is fed,
  and the replayed tokens are the last ones seen, in order.\<close>

theorem replay_is_text_from_match:
  assumes "records st h" "token \<notin> set (lt_tokens (lz_triggers st))"
    and "observe eng token piece st = (Inr (Fired replay), st')"
  shows "\<exists>at. find_first eng (lt_patterns (lz_triggers st)) (valid_prefix (history_text h @ piece))
       = Inr (Some at)
     \<and> history_text replay = drop at (history_text h @ piece)
     \<and> (\<exists>k. map fst replay = drop k (map fst h @ [token]))"
proof -
  have suffix: "\<exists>k. map fst (cut_at n h) = drop k (map fst h)" for n and h :: history
  proof (induction n h rule: cut_at.induct)
    case (2 n tok piece h)
    show ?case
    proof (cases "length piece \<le> n")
      case True
      with 2 obtain k where "map fst (cut_at (n - length piece) h) = drop k (map fst h)" by auto
      with True show ?thesis by (intro exI [of _ "Suc k"]) simp
    next
      case False
      then show ?thesis by (intro exI [of _ 0]) simp
    qed
  qed simp
  from assms(3) observe_spec [OF assms(1), of eng token piece] assms(2)
  obtain at where at: "find_first eng (lt_patterns (lz_triggers st))
      (valid_prefix (history_text h @ piece)) = Inr (Some at)"
    and r: "replay = cut_at at (h @ [(token, piece)])"
    by (auto simp: spec_observe_def Let_def bind_ok_def split: sum.splits option.splits)
  show ?thesis
    using at r suffix [of at "h @ [(token, piece)]"]
    by (intro exI [of _ at]) (simp add: history_text_cut)
qed

end
