(* ===== verification/Worklist.thy ===== *)
theory Worklist
  imports Prelude
begin

text \<open>
  The interface of a depth-first expansion loop with a seen set: an item is expanded into
  more items, or is settled and collected without duplicates, or is an error.  The loop may
  run forever, so it returns an option.  The locale states the loop by its unfolding
  equations and by the induction over the runs that return; its lemmas say when it returns
  and what it has collected.  The stack machine's
  \<open>advance_stack\<close> is an instance (theory \<open>Grammar_Machine\<close>).
\<close>

locale worklist =
  fixes expands :: "'a \<Rightarrow> bool"
    and settles :: "'a \<Rightarrow> bool"
    and succs :: "'a \<Rightarrow> 'a list"
    and fault :: 'e
    and run :: "'a list \<Rightarrow> 'a set \<Rightarrow> 'a list \<Rightarrow> ('e, 'a list) result option"
  assumes run_Nil: "run [] seen acc = Some (Inr acc)"
    and run_seen: "x \<in> seen \<Longrightarrow> run (x # todo) seen acc = run todo seen acc"
    and run_expand: "x \<notin> seen \<Longrightarrow> expands x \<Longrightarrow>
      run (x # todo) seen acc = run (succs x @ todo) (insert x seen) acc"
    and run_settle: "x \<notin> seen \<Longrightarrow> settles x \<Longrightarrow>
      run (x # todo) seen acc = run todo (insert x seen) (push_new x acc)"
    and run_fault: "x \<notin> seen \<Longrightarrow> \<not> expands x \<Longrightarrow> \<not> settles x \<Longrightarrow>
      run (x # todo) seen acc = Some (Inl fault)"
    and run_only: "\<And>P todo seen acc r. run todo seen acc = Some r \<Longrightarrow>
      (\<And>seen acc. P [] seen acc (Inr acc)) \<Longrightarrow>
      (\<And>x todo seen acc r. x \<in> seen \<Longrightarrow> P todo seen acc r \<Longrightarrow> P (x # todo) seen acc r) \<Longrightarrow>
      (\<And>x todo seen acc r. x \<notin> seen \<Longrightarrow> expands x \<Longrightarrow>
        P (succs x @ todo) (insert x seen) acc r \<Longrightarrow> P (x # todo) seen acc r) \<Longrightarrow>
      (\<And>x todo seen acc r. x \<notin> seen \<Longrightarrow> settles x \<Longrightarrow>
        P todo (insert x seen) (push_new x acc) r \<Longrightarrow> P (x # todo) seen acc r) \<Longrightarrow>
      (\<And>x todo seen acc. x \<notin> seen \<Longrightarrow> \<not> expands x \<Longrightarrow> \<not> settles x \<Longrightarrow>
        P (x # todo) seen acc (Inl fault)) \<Longrightarrow> P todo seen acc r"
    and exclusive: "\<not> (expands x \<and> settles x)"
begin

definition child :: "'a \<Rightarrow> 'a \<Rightarrow> bool" where
  "child y x \<longleftrightarrow> expands x \<and> y \<in> set (succs x)"

text \<open>Items whose expansion cannot go on forever.\<close>

definition bounded :: "'a \<Rightarrow> bool" where
  "bounded x \<longleftrightarrow> Wellfounded.accp child x"

text \<open>What an item leads to: items reached from it by expansion.\<close>

inductive leads :: "'a \<Rightarrow> 'a \<Rightarrow> bool" where
  here: "leads x x"
| expand: "expands x \<Longrightarrow> y \<in> set (succs x) \<Longrightarrow> leads y z \<Longrightarrow> leads x z"

lemma bounded_succ: "bounded x \<Longrightarrow> expands x \<Longrightarrow> y \<in> set (succs x) \<Longrightarrow> bounded y"
  unfolding bounded_def by (erule accp_downward) (simp add: child_def)

lemma boundedI: "(\<And>y. expands x \<Longrightarrow> y \<in> set (succs x) \<Longrightarrow> bounded y) \<Longrightarrow> bounded x"
  unfolding bounded_def by (rule accp.accI) (simp add: child_def)

lemma run_induct_item:
  assumes "bounded x"
    and "\<And>seen acc. P todo seen acc"
    and seen: "\<And>x todo seen acc. x \<in> seen \<Longrightarrow> P todo seen acc \<Longrightarrow> P (x # todo) seen acc"
    and expand: "\<And>x todo seen acc. x \<notin> seen \<Longrightarrow> expands x \<Longrightarrow>
      P (succs x @ todo) (insert x seen) acc \<Longrightarrow> P (x # todo) seen acc"
    and settle: "\<And>x todo seen acc. x \<notin> seen \<Longrightarrow> settles x \<Longrightarrow>
      P todo (insert x seen) (push_new x acc) \<Longrightarrow> P (x # todo) seen acc"
    and fault: "\<And>x todo seen acc. x \<notin> seen \<Longrightarrow> \<not> expands x \<Longrightarrow> \<not> settles x \<Longrightarrow>
      P (x # todo) seen acc"
  shows "P (x # todo) seen acc"
  using assms(1) assms(2) unfolding bounded_def
proof (induction x arbitrary: todo seen acc rule: accp.induct)
  case (accI x todo seen acc)
  have more: "P (ys @ todo) seen acc" if "expands x" "set ys \<subseteq> set (succs x)" for ys seen acc
    using that
  proof (induction ys arbitrary: seen acc)
    case Nil
    then show ?case using accI.prems by simp
  next
    case (Cons y ys seen acc)
    have "child y x" using Cons.prems by (simp add: child_def)
    moreover have "\<And>seen acc. P (ys @ todo) seen acc"
      using Cons by simp
    ultimately show ?case using accI.IH by simp
  qed
  show ?case
  proof (cases "x \<in> seen")
    case True
    then show ?thesis by (rule seen) (rule accI.prems)
  next
    case False
    consider "expands x" | "settles x" | "\<not> expands x" "\<not> settles x" by blast
    then show ?thesis
    proof cases
      case 1
      show ?thesis by (rule expand [OF False 1]) (rule more [OF 1 subset_refl])
    next
      case 2
      show ?thesis by (rule settle [OF False 2]) (rule accI.prems)
    next
      case 3
      show ?thesis by (rule fault [OF False 3])
    qed
  qed
qed

text \<open>Induction over the loop, for a worklist of bounded items.\<close>

lemma run_induct:
  assumes "\<And>x. x \<in> set todo \<Longrightarrow> bounded x"
    and "\<And>seen acc. P [] seen acc"
    and "\<And>x todo seen acc. x \<in> seen \<Longrightarrow> P todo seen acc \<Longrightarrow> P (x # todo) seen acc"
    and "\<And>x todo seen acc. x \<notin> seen \<Longrightarrow> expands x \<Longrightarrow>
      P (succs x @ todo) (insert x seen) acc \<Longrightarrow> P (x # todo) seen acc"
    and "\<And>x todo seen acc. x \<notin> seen \<Longrightarrow> settles x \<Longrightarrow>
      P todo (insert x seen) (push_new x acc) \<Longrightarrow> P (x # todo) seen acc"
    and "\<And>x todo seen acc. x \<notin> seen \<Longrightarrow> \<not> expands x \<Longrightarrow> \<not> settles x \<Longrightarrow>
      P (x # todo) seen acc"
  shows "P todo seen acc"
  using assms(1)
proof (induction todo arbitrary: seen acc)
  case Nil
  show ?case by (rule assms(2))
next
  case (Cons x todo seen acc)
  have "bounded x" using Cons.prems by simp
  then show ?case
  proof (rule run_induct_item [where P = P])
    show "P todo seen acc" for seen acc
      by (rule Cons.IH) (use Cons.prems in simp)
  qed (rule assms(3-6); assumption)+
qed

lemma run_returns:
  assumes "\<And>x. x \<in> set todo \<Longrightarrow> bounded x"
  shows "\<exists>r. run todo seen acc = Some r"
  by (rule run_induct [where P = "\<lambda>todo seen acc. \<exists>r. run todo seen acc = Some r", OF assms])
     (simp_all add: run_Nil run_seen run_expand run_settle run_fault)

text \<open>
  The invariant of the loop: everything seen is collected if it settles, and has its
  successors seen or waiting if it expands.
\<close>

definition covered :: "'a list \<Rightarrow> 'a set \<Rightarrow> 'a list \<Rightarrow> bool" where
  "covered todo seen acc \<longleftrightarrow>
     (\<forall>x \<in> seen. (settles x \<longrightarrow> x \<in> set acc)
        \<and> (expands x \<longrightarrow> set (succs x) \<subseteq> seen \<union> set todo))"

lemma run_closes:
  assumes "run todo seen acc = Some (Inr acc')" "covered todo seen acc"
  shows "\<exists>seen'. seen \<union> set todo \<subseteq> seen' \<and> covered [] seen' acc' \<and> set acc \<subseteq> set acc'"
proof -
  define P where "P todo seen acc r \<longleftrightarrow> (r = Inr acc' \<longrightarrow> covered todo seen acc \<longrightarrow>
      (\<exists>seen'. seen \<union> set todo \<subseteq> seen' \<and> covered [] seen' acc' \<and> set acc \<subseteq> set acc'))"
    for todo seen acc and r :: "('e, 'a list) result"
  have "P todo seen acc (Inr acc')"
  proof (rule run_only [where P = P, OF assms(1)])
    fix x todo seen acc and r :: "('e, 'a list) result"
    assume x: "expands x" and IH: "P (succs x @ todo) (insert x seen) acc r"
    have "covered (x # todo) seen acc \<Longrightarrow> covered (succs x @ todo) (insert x seen) acc"
      using x exclusive [of x] by (auto simp: covered_def)
    with IH show "P (x # todo) seen acc r" by (auto simp: P_def)
  next
    fix x todo seen acc and r :: "('e, 'a list) result"
    assume x: "settles x" and IH: "P todo (insert x seen) (push_new x acc) r"
    have "covered (x # todo) seen acc \<Longrightarrow> covered todo (insert x seen) (push_new x acc)"
      using x exclusive [of x] by (auto simp: covered_def)
    with IH show "P (x # todo) seen acc r" by (auto simp: P_def)
  next
    fix x todo seen acc and r :: "('e, 'a list) result"
    assume x: "x \<in> seen" and IH: "P todo seen acc r"
    have "covered (x # todo) seen acc \<Longrightarrow> covered todo seen acc"
      using x by (auto simp: covered_def)
    with IH x show "P (x # todo) seen acc r" by (auto simp: P_def)
  qed (auto simp: P_def)
  with assms(2) show ?thesis by (simp add: P_def)
qed

lemma covered_leads: "leads x y \<Longrightarrow> covered [] seen acc \<Longrightarrow> x \<in> seen \<Longrightarrow> y \<in> seen"
  by (induction rule: leads.induct) (auto simp: covered_def)

text \<open>Nothing is collected that the worklist does not lead to.\<close>

lemma run_sound:
  assumes "run todo seen acc = Some (Inr acc')" "y \<in> set acc'"
  shows "y \<in> set acc \<or> (\<exists>x \<in> set todo. leads x y \<and> settles y)"
proof -
  have "r = Inr acc' \<longrightarrow> y \<in> set acc \<or> (\<exists>x \<in> set todo. leads x y \<and> settles y)"
    if "run todo seen acc = Some r" for r
    by (rule run_only [where P = "\<lambda>todo seen acc r. r = Inr acc' \<longrightarrow>
         y \<in> set acc \<or> (\<exists>x \<in> set todo. leads x y \<and> settles y)", OF that])
       (use assms(2) in \<open>auto intro: leads.intros\<close>)
  from this [OF assms(1)] show ?thesis by simp
qed

text \<open>The result: what was collected before, and what the worklist leads to and settles.\<close>

lemma run_result:
  assumes "run todo {} acc = Some (Inr acc')"
  shows "set acc' = set acc \<union> {y. \<exists>x \<in> set todo. leads x y \<and> settles y}"
proof -
  have "covered todo {} acc" by (simp add: covered_def)
  from run_closes [OF assms this] obtain seen' where
    s: "set todo \<subseteq> seen'" "covered [] seen' acc'" "set acc \<subseteq> set acc'" by auto
  have "y \<in> set acc'" if "x \<in> set todo" "leads x y" "settles y" for x y
    using covered_leads [OF that(2) s(2)] that s(1,2) by (auto simp: covered_def)
  with s(3) run_sound [OF assms] show ?thesis by blast
qed

lemma run_distinct:
  assumes "run todo seen acc = Some (Inr acc')" "distinct acc"
  shows "distinct acc'"
proof -
  have "r = Inr acc' \<longrightarrow> distinct acc \<longrightarrow> distinct acc'" if "run todo seen acc = Some r" for r
    by (rule run_only [where P = "\<lambda>todo seen acc r. r = Inr acc' \<longrightarrow>
         distinct acc \<longrightarrow> distinct acc'", OF that]) auto
  from this [OF assms(1)] assms(2) show ?thesis by simp
qed

text \<open>The only error is the fault of an item, and a run without faulty items has none.\<close>

lemma run_no_fault:
  assumes "run todo seen acc = Some r"
    and "\<And>x y. x \<in> set todo \<Longrightarrow> leads x y \<Longrightarrow> expands y \<or> settles y"
  shows "\<exists>acc'. r = Inr acc'"
proof -
  have "(\<forall>x \<in> set todo. \<forall>y. leads x y \<longrightarrow> expands y \<or> settles y) \<longrightarrow> (\<exists>acc'. r = Inr acc')"
    by (rule run_only [where P = "\<lambda>todo seen acc r.
         (\<forall>x \<in> set todo. \<forall>y. leads x y \<longrightarrow> expands y \<or> settles y) \<longrightarrow> (\<exists>acc'. r = Inr acc')",
         OF assms(1)])
       (auto intro: leads.intros)
  with assms(2) show ?thesis by blast
qed

end

end
