(* ===== verification/Grammar_Machine.thy ===== *)
theory Grammar_Machine
  imports Grammar_Match Grammar_Recursion Grammar_Lazy Worklist
begin

text \<open>
  The pushdown machine of \<^verbatim>\<open>grammar/machine.rs\<close>: \<open>advance_stack\<close>, the accept
  operations, and the checked construction.  Every operation that runs \<open>advance_stack\<close> may
  fail to return and so gives an option; the operations on the grammar give the grammar
  back with the result, changed as far as the code had changed it.

  \<open>advance_stack\<close> is an instance of the worklist interface; its lemmas say when it returns
  and what it collects.
\<close>

section \<open>\<open>advance_stack\<close>\<close>

text \<open>The inner loop: on to the end of the alternate.\<close>

function skip_to_end :: "grammar_rule list \<Rightarrow> rule_pos \<Rightarrow> rule_pos" where
  "skip_to_end rules pos = (if ends rules pos then pos else skip_to_end rules (rp_next pos))"
  by pat_completeness auto
termination
  by (relation "measure (\<lambda>(rules, pos). rule_left rules pos)") (auto intro: rule_left_less')

declare skip_to_end.simps [simp del]

lemma skip_to_end_ends: "ends rules (skip_to_end rules pos)"
  by (induction rules pos rule: skip_to_end.induct) (simp add: skip_to_end.simps)

lemma skip_to_end_rule [simp]: "rp_rule (skip_to_end rules pos) = rp_rule pos"
  by (induction rules pos rule: skip_to_end.induct) (simp add: skip_to_end.simps)

lemma skip_to_end_index: "rp_index pos \<le> rp_index (skip_to_end rules pos)"
proof (induction rules pos rule: skip_to_end.induct)
  case (1 rules pos)
  then show ?case by (cases "ends rules pos") (simp_all add: skip_to_end.simps [of rules pos])
qed

lemma alternates_decreases:
  "ge_type (elem rules (skip_to_end rules pos)) = GreAlt \<Longrightarrow>
     rule_left rules (rp_next (skip_to_end rules pos)) < rule_left rules pos"
  using elem_in_range [of rules "skip_to_end rules pos"] skip_to_end_index [of pos rules]
  by (simp add: rule_left_def) linarith

text \<open>The starts of the alternates from a position on.\<close>

function alternates :: "grammar_rule list \<Rightarrow> rule_pos \<Rightarrow> rule_pos list" where
  "alternates rules subpos =
     subpos # (let stop = skip_to_end rules subpos in
       if ge_type (elem rules stop) = GreAlt then alternates rules (rp_next stop) else [])"
  by pat_completeness auto
termination
  by (relation "measure (\<lambda>(rules, pos). rule_left rules pos)") (auto intro: alternates_decreases)

declare alternates.simps [simp del]

text \<open>Push a position unless its sequence is over.\<close>

definition resume :: "grammar_rule list \<Rightarrow> rule_pos \<Rightarrow> grammar_stack \<Rightarrow> grammar_stack" where
  "resume rules pos below = (if ends rules pos then below else pos # below)"

text \<open>The stacks pushed for a reference at the top, in the order of the pushes.\<close>

definition expand_ref :: "grammar_rule list \<Rightarrow> rule_pos \<Rightarrow> grammar_stack \<Rightarrow> grammar_stack list" where
  "expand_ref rules pos below =
     map (\<lambda>subpos. resume rules subpos (resume rules (rp_next pos) below))
       (alternates rules (RulePos (unat (ge_value (elem rules pos))) 0))"

definition rest_fault :: grammar_error where
  "rest_fault =
     Internal ''parse stack came to rest on END, ALT, CHAR_ALT or CHAR_RNG_UPPER''"

text \<open>The work vector is a list whose head is its \<open>last()\<close>.\<close>

partial_function (option) advance_loop ::
  "grammar_rule list \<Rightarrow> grammar_stack list \<Rightarrow> grammar_stack set \<Rightarrow> grammar_stack list
    \<Rightarrow> (grammar_error, grammar_stack list) result option" where
  [code]: "advance_loop rules todo seen new_stacks =
     (case todo of
        [] \<Rightarrow> Some (Inr new_stacks)
      | curr_stack # todo \<Rightarrow>
          if curr_stack \<in> seen then advance_loop rules todo seen new_stacks
          else case curr_stack of
            [] \<Rightarrow> advance_loop rules todo (insert curr_stack seen) (push_new curr_stack new_stacks)
          | pos # below \<Rightarrow>
              if ge_type (elem rules pos) = GreRuleRef
              then advance_loop rules (rev (expand_ref rules pos below) @ todo)
                     (insert curr_stack seen) new_stacks
              else if is_stack_terminal (ge_type (elem rules pos))
              then advance_loop rules todo (insert curr_stack seen) (push_new curr_stack new_stacks)
              else Some (Inl rest_fault))"

definition advance_stack ::
  "grammar_rule list \<Rightarrow> grammar_stack \<Rightarrow> grammar_stack list
    \<Rightarrow> (grammar_error, grammar_stack list) result option" where
  "advance_stack rules stack new_stacks = advance_loop rules [stack] {} new_stacks"

section \<open>Advancing over a code point\<close>

definition accept_chr ::
  "grammar_rule list \<Rightarrow> u32 \<Rightarrow> grammar_stack \<Rightarrow> grammar_stack list
    \<Rightarrow> (grammar_error, grammar_stack list) result option" where
  "accept_chr rules chr stack new_stacks =
     (case stack of
        [] \<Rightarrow> Some (Inr new_stacks)
      | pos # below \<Rightarrow>
          if ge_type (elem rules pos) \<in> {GreToken, GreTokenNot} then Some (Inr new_stacks)
          else bind_run (Some (match_char rules pos chr)) (\<lambda>(matched, after).
            if matched then advance_stack rules (resume rules after below) new_stacks
            else Some (Inr new_stacks)))"

fun accept_chr_each ::
  "grammar_rule list \<Rightarrow> u32 \<Rightarrow> grammar_stack list \<Rightarrow> grammar_stack list
    \<Rightarrow> (grammar_error, grammar_stack list) result option" where
  "accept_chr_each rules chr [] next_stacks = Some (Inr next_stacks)"
| "accept_chr_each rules chr (stack # stacks) next_stacks =
     bind_run (accept_chr rules chr stack next_stacks) (accept_chr_each rules chr stacks)"

section \<open>The grammar\<close>

record 'rx grammar =
  gr_rules :: "grammar_rule list"
  gr_stacks :: "grammar_stack list"
  gr_partial :: partial_utf8
  gr_lazy :: "'rx lazy_state option"

definition is_lazy :: "'rx grammar \<Rightarrow> bool" where
  "is_lazy g \<longleftrightarrow> gr_lazy g \<noteq> None"

definition is_awaiting_trigger :: "'rx grammar \<Rightarrow> bool" where
  "is_awaiting_trigger g \<longleftrightarrow> (case gr_lazy g of None \<Rightarrow> False | Some st \<Rightarrow> lz_awaiting st)"

definition trigger_buffer :: "'rx grammar \<Rightarrow> bytes" where
  "trigger_buffer g = (case gr_lazy g of None \<Rightarrow> [] | Some st \<Rightarrow> lz_buffer st)"

definition trigger_is_mandatory :: "'rx grammar \<Rightarrow> bool" where
  "trigger_is_mandatory g \<longleftrightarrow>
     (case gr_lazy g of None \<Rightarrow> False | Some st \<Rightarrow> lt_mandatory (lz_triggers st))"

definition allows_eog :: "'rx grammar \<Rightarrow> bool" where
  "allows_eog g \<longleftrightarrow>
     (if is_awaiting_trigger g then \<not> trigger_is_mandatory g else [] \<in> set (gr_stacks g))"

definition is_dead :: "'rx grammar \<Rightarrow> bool" where
  "is_dead g \<longleftrightarrow> gr_stacks g = []"

definition into_lazy ::
  "'rx grammar \<Rightarrow> 'rx lazy_triggers \<Rightarrow> (grammar_error, 'rx grammar) result" where
  "into_lazy g triggers =
     (if triggers_is_empty triggers then Inl LazyWithoutTriggers
      else Inr (g\<lparr>gr_lazy := Some (lazy_state_new triggers)\<rparr>))"

section \<open>Accepting\<close>

type_synonym 'rx accepted = "((grammar_error, unit) result \<times> 'rx grammar) option"

definition accept_codepoint :: "u32 \<Rightarrow> 'rx grammar \<Rightarrow> 'rx accepted" where
  "accept_codepoint chr g =
     (case accept_chr_each (gr_rules g) chr (gr_stacks g) [] of
        None \<Rightarrow> None
      | Some (Inl e) \<Rightarrow> Some (Inl e, g)
      | Some (Inr next_stacks) \<Rightarrow> Some (Inr (), g\<lparr>gr_stacks := next_stacks\<rparr>))"

fun accept_codepoints :: "u32 list \<Rightarrow> 'rx grammar \<Rightarrow> 'rx accepted" where
  "accept_codepoints [] g = Some (Inr (), g)"
| "accept_codepoints (cp # cps) g =
     (case accept_codepoint cp g of
        None \<Rightarrow> None
      | Some (Inl e, g) \<Rightarrow> Some (Inl e, g)
      | Some (Inr _, g) \<Rightarrow> accept_codepoints cps g)"

definition accept_bytes :: "bytes \<Rightarrow> 'rx grammar \<Rightarrow> 'rx accepted" where
  "accept_bytes piece g =
     (let (code_points, partial) = decode_piece piece (gr_partial g) in
      case accept_codepoints (butlast code_points) g of
        None \<Rightarrow> None
      | Some (Inl e, g) \<Rightarrow> Some (Inl e, g)
      | Some (Inr _, g) \<Rightarrow>
          let g = g\<lparr>gr_partial := partial\<rparr> in
          Some (if gr_stacks g = [] then Inl (NoViableStack piece) else Inr (), g))"

text \<open>The code points of a token over the stacks that come from one stack.\<close>

fun walk_chars ::
  "grammar_rule list \<Rightarrow> u32 list \<Rightarrow> grammar_stack list
    \<Rightarrow> (grammar_error, grammar_stack list) result option" where
  "walk_chars rules [] current = Some (Inr current)"
| "walk_chars rules (cp # cps) current =
     bind_run (accept_chr_each rules cp current []) (\<lambda>next_stacks.
       if next_stacks = [] then Some (Inr []) else walk_chars rules cps next_stacks)"

definition accept_stack ::
  "grammar_rule list \<Rightarrow> u32 \<Rightarrow> u32 list \<Rightarrow> grammar_stack \<Rightarrow> grammar_stack list
    \<Rightarrow> (grammar_error, grammar_stack list) result option" where
  "accept_stack rules token chars stack stacks_new =
     (case stack of
        [] \<Rightarrow> Some (Inr stacks_new)
      | pos # below \<Rightarrow>
          let top_elem = elem rules pos in
          if ge_type top_elem \<in> {GreToken, GreTokenNot}
          then if match_token top_elem token
               then advance_stack rules (resume rules (rp_next pos) below) stacks_new
               else Some (Inr stacks_new)
          else bind_run (walk_chars rules chars [stack]) (\<lambda>current.
                 Some (Inr (fold push_new current stacks_new))))"

fun accept_stacks ::
  "grammar_rule list \<Rightarrow> u32 \<Rightarrow> u32 list \<Rightarrow> grammar_stack list \<Rightarrow> grammar_stack list
    \<Rightarrow> (grammar_error, grammar_stack list) result option" where
  "accept_stacks rules token chars [] stacks_new = Some (Inr stacks_new)"
| "accept_stacks rules token chars (stack # stacks) stacks_new =
     bind_run (accept_stack rules token chars stack stacks_new)
       (accept_stacks rules token chars stacks)"

definition accept_token_now :: "u32 \<Rightarrow> bytes \<Rightarrow> 'rx grammar \<Rightarrow> 'rx accepted" where
  "accept_token_now token piece g =
     (let (code_points, partial) = decode_piece piece (gr_partial g) in
      case accept_stacks (gr_rules g) token (butlast code_points) (gr_stacks g) [] of
        None \<Rightarrow> None
      | Some (Inl e) \<Rightarrow> Some (Inl e, g)
      | Some (Inr stacks_new) \<Rightarrow>
          Some (if stacks_new = [] then Inl (NoViableStack piece) else Inr (),
                g\<lparr>gr_stacks := stacks_new, gr_partial := partial\<rparr>))"

fun accept_replay :: "(u32 \<times> bytes) list \<Rightarrow> 'rx grammar \<Rightarrow> 'rx accepted" where
  "accept_replay [] g = Some (Inr (), g)"
| "accept_replay ((tok, piece) # replay) g =
     (case accept_token_now tok piece g of
        None \<Rightarrow> None
      | Some (Inl e, g) \<Rightarrow> Some (Inl e, g)
      | Some (Inr _, g) \<Rightarrow> accept_replay replay g)"

definition accept_token ::
  "'rx regex_engine \<Rightarrow> u32 \<Rightarrow> bytes \<Rightarrow> 'rx grammar \<Rightarrow> 'rx accepted" where
  "accept_token eng token piece g =
     (if is_awaiting_trigger g then
        case gr_lazy g of
          None \<Rightarrow> Some (Inl (Internal ''lazy state vanished mid-accept''), g)
        | Some st \<Rightarrow>
            (case observe eng token piece st of
               (Inl e, st) \<Rightarrow> Some (Inl e, g\<lparr>gr_lazy := Some st\<rparr>)
             | (Inr Awaiting, st) \<Rightarrow> Some (Inr (), g\<lparr>gr_lazy := Some st\<rparr>)
             | (Inr (Fired replay), st) \<Rightarrow> accept_replay replay (g\<lparr>gr_lazy := Some st\<rparr>))
      else accept_token_now token piece g)"

definition eog_piece :: bytes where
  "eog_piece = [0x3C, 0x65, 0x6F, 0x67, 0x3E]"

definition accept_eog :: "'rx grammar \<Rightarrow> (grammar_error, unit) result" where
  "accept_eog g = (if allows_eog g then Inr () else Inl (NoViableStack eog_piece))"

section \<open>Construction\<close>

definition unnamed :: bytes where
  "unnamed = [0x3C, 0x75, 0x6E, 0x6E, 0x61, 0x6D, 0x65, 0x64, 0x3E]"

definition root_name :: bytes where
  "root_name = [0x72, 0x6F, 0x6F, 0x74]"

text \<open>The first rule that is not terminated, and the first reference that does not resolve.\<close>

fun first_unterminated :: "nat \<Rightarrow> grammar_rule list \<Rightarrow> nat option" where
  "first_unterminated i [] = None"
| "first_unterminated i (rule # rest) =
     (if rule \<noteq> [] \<and> ge_type (last rule) = GreEnd then first_unterminated (Suc i) rest else Some i)"

definition dangling :: "grammar_rule list \<Rightarrow> grammar_element \<Rightarrow> bool" where
  "dangling rules e \<longleftrightarrow>
     ge_type e = GreRuleRef
     \<and> (length rules \<le> unat (ge_value e) \<or> rules ! unat (ge_value e) = [])"

fun initial_stacks ::
  "grammar_rule list \<Rightarrow> rule_pos list \<Rightarrow> grammar_stack list
    \<Rightarrow> (grammar_error, grammar_stack list) result option" where
  "initial_stacks rules [] stacks = Some (Inr stacks)"
| "initial_stacks rules (pos # starts) stacks =
     bind_run (advance_stack rules (resume rules pos []) stacks) (initial_stacks rules starts)"

definition name_or :: "bytes \<Rightarrow> bytes option \<Rightarrow> bytes" where
  "name_or def n = (case n of None \<Rightarrow> def | Some s \<Rightarrow> s)"

definition from_rules ::
  "grammar_rule list \<Rightarrow> nat \<Rightarrow> (nat \<Rightarrow> bytes option)
    \<Rightarrow> (grammar_error, 'rx grammar) result option" where
  "from_rules rules start name_of =
     (case first_unterminated 0 rules of
        Some i \<Rightarrow> Some (Inl (UndefinedRule (name_or unnamed (name_of i)) i))
      | None \<Rightarrow>
      (case find (dangling rules) (concat rules) of
        Some e \<Rightarrow>
          let v = unat (ge_value e) in Some (Inl (UndefinedRule (name_or unnamed (name_of v)) v))
      | None \<Rightarrow>
        if length rules \<le> start then Some (Inl (MissingRoot (name_or root_name (name_of start))))
        else bind_run (detect_left_recursion_all rules name_of) (\<lambda>_.
          bind_run (initial_stacks rules (alternates rules (RulePos start 0)) []) (\<lambda>stacks.
            Some (Inr \<lparr>gr_rules = rules, gr_stacks = stacks,
                       gr_partial = partial_utf8_default, gr_lazy = None\<rparr>)))))"

section \<open>The worklist interface\<close>

definition top_expands :: "grammar_rule list \<Rightarrow> grammar_stack \<Rightarrow> bool" where
  "top_expands rules st \<longleftrightarrow> st \<noteq> [] \<and> ge_type (elem rules (hd st)) = GreRuleRef"

definition top_settles :: "grammar_rule list \<Rightarrow> grammar_stack \<Rightarrow> bool" where
  "top_settles rules st \<longleftrightarrow> st = [] \<or> is_stack_terminal (ge_type (elem rules (hd st)))"

definition top_succs :: "grammar_rule list \<Rightarrow> grammar_stack \<Rightarrow> grammar_stack list" where
  "top_succs rules st = rev (expand_ref rules (hd st) (tl st))"

lemma top_exclusive: "\<not> (top_expands rules st \<and> top_settles rules st)"
  by (auto simp: top_expands_def top_settles_def is_stack_terminal_def)

lemma advance_loop_Nil: "advance_loop rules [] seen acc = Some (Inr acc)"
  by (simp add: advance_loop.simps)

lemma advance_loop_Cons:
  "advance_loop rules (x # todo) seen acc =
     (if x \<in> seen then advance_loop rules todo seen acc
      else if top_expands rules x then advance_loop rules (top_succs rules x @ todo) (insert x seen) acc
      else if top_settles rules x then advance_loop rules todo (insert x seen) (push_new x acc)
      else Some (Inl rest_fault))"
  by (subst advance_loop.simps)
     (auto simp: top_expands_def top_settles_def top_succs_def is_stack_terminal_def split: list.split)

lemma advance_loop_only:
  assumes "advance_loop rules todo seen acc = Some r"
    and fin: "\<And>seen acc. P [] seen acc (Inr acc)"
    and seen: "\<And>x todo seen acc r. x \<in> seen \<Longrightarrow> P todo seen acc r \<Longrightarrow> P (x # todo) seen acc r"
    and expand: "\<And>x todo seen acc r. x \<notin> seen \<Longrightarrow> top_expands rules x \<Longrightarrow>
      P (top_succs rules x @ todo) (insert x seen) acc r \<Longrightarrow> P (x # todo) seen acc r"
    and settle: "\<And>x todo seen acc r. x \<notin> seen \<Longrightarrow> top_settles rules x \<Longrightarrow>
      P todo (insert x seen) (push_new x acc) r \<Longrightarrow> P (x # todo) seen acc r"
    and fault: "\<And>x todo seen acc. x \<notin> seen \<Longrightarrow> \<not> top_expands rules x \<Longrightarrow> \<not> top_settles rules x \<Longrightarrow>
      P (x # todo) seen acc (Inl rest_fault)"
  shows "P todo seen acc r"
proof -
  have "rules' = rules \<longrightarrow> P todo seen acc r" if "advance_loop rules' todo seen acc = Some r" for rules'
  proof (rule advance_loop.raw_induct [where P = "\<lambda>rules' todo seen acc r. rules' = rules \<longrightarrow> P todo seen acc r",
        OF _ that], goal_cases)
    case prems: (1 f rules' todo seen acc r)
    show ?case
    proof (intro impI, cases todo)
      assume "rules' = rules"
      case Nil
      with prems(2) fin show "P todo seen acc r" by auto
    next
      assume eq: "rules' = rules"
      case (Cons x rest)
      have IH: "f rules todo seen acc = Some r \<Longrightarrow> P todo seen acc r" for todo seen acc r
        using prems(1) by blast
      consider "x \<in> seen" | "x \<notin> seen" "top_expands rules x" | "x \<notin> seen" "top_settles rules x"
        | "x \<notin> seen" "\<not> top_expands rules x" "\<not> top_settles rules x" by blast
      then show "P todo seen acc r"
      proof cases
        case 1
        then show ?thesis using prems(2) Cons eq IH by (auto intro: seen)
      next
        case 2
        then have "f rules (top_succs rules x @ rest) (insert x seen) acc = Some r"
          using prems(2) Cons eq
          by (auto simp: top_expands_def top_succs_def split: list.splits)
        with 2 Cons IH show ?thesis by (auto intro: expand)
      next
        case 3
        then have "f rules rest (insert x seen) (push_new x acc) = Some r"
          using prems(2) Cons eq
          by (auto simp: top_settles_def is_stack_terminal_def split: list.splits)
        with 3 Cons IH show ?thesis by (auto intro: settle)
      next
        case 4
        then have "r = Inl rest_fault"
          using prems(2) Cons eq
          by (auto simp: top_settles_def top_expands_def split: list.splits)
        with 4 Cons show ?thesis by (auto intro: fault)
      qed
    qed
  qed
  with assms(1) show ?thesis by blast
qed

interpretation adv: worklist "top_expands rules" "top_settles rules" "top_succs rules"
    rest_fault "advance_loop rules" for rules
proof (unfold_locales, goal_cases)
  case (6 P todo seen acc r)
  then show ?case by (rule advance_loop_only)
qed (auto simp: advance_loop_Nil advance_loop_Cons top_exclusive dest: top_exclusive [THEN notE, OF conjI])

end
