(* ===== verification/Grammar_Language.thy ===== *)
theory Grammar_Language
  imports Grammar_Machine
begin

text \<open>
  What a compiled grammar means, and that the machine implements it.  The meaning is
  declarative: which words over characters and whole tokens the rest of a rule derives.
  The machine's stacks after some input are a finite representation of the words that may
  still follow, and accepting a character or a token is the derivative of that set.
\<close>

section \<open>The language of a rule table\<close>

datatype symbol = Chr u32 | Tok u32

inductive derives :: "grammar_rule list \<Rightarrow> rule_pos \<Rightarrow> symbol list \<Rightarrow> bool"
  for rules :: "grammar_rule list" where
  over: "ends rules pos \<Longrightarrow> derives rules pos []"
| char: "is_class_start (ge_type (elem rules pos)) \<Longrightarrow> in_class rules pos c \<Longrightarrow>
    derives rules (class_end rules pos) w \<Longrightarrow> derives rules pos (Chr c # w)"
| token: "ge_type (elem rules pos) \<in> {GreToken, GreTokenNot} \<Longrightarrow> match_token (elem rules pos) t \<Longrightarrow>
    derives rules (rp_next pos) w \<Longrightarrow> derives rules pos (Tok t # w)"
| reference: "ge_type (elem rules pos) = GreRuleRef \<Longrightarrow>
    start \<in> set (alternates rules (RulePos (unat (ge_value (elem rules pos))) 0)) \<Longrightarrow>
    derives rules start u \<Longrightarrow> derives rules (rp_next pos) v \<Longrightarrow> derives rules pos (u @ v)"

definition sentence :: "grammar_rule list \<Rightarrow> nat \<Rightarrow> symbol list \<Rightarrow> bool" where
  "sentence rules start w \<longleftrightarrow>
     (\<exists>pos \<in> set (alternates rules (RulePos start 0)). derives rules pos w)"

lemma ends_types:
  "ends rules pos \<Longrightarrow> ge_type (elem rules pos) \<noteq> GreRuleRef
     \<and> ge_type (elem rules pos) \<notin> {GreToken, GreTokenNot}
     \<and> \<not> is_class_start (ge_type (elem rules pos))"
  by (auto simp: ends_def is_end_of_sequence_def is_class_start_def is_positive_def)

lemma derives_over: "ends rules pos \<Longrightarrow> derives rules pos w \<longleftrightarrow> w = []"
  using ends_types by (auto elim: derives.cases intro: derives.over)

lemma derives_char:
  "is_class_start (ge_type (elem rules pos)) \<Longrightarrow>
   derives rules pos w \<longleftrightarrow>
     (\<exists>c v. w = Chr c # v \<and> in_class rules pos c \<and> derives rules (class_end rules pos) v)"
  using ends_types
  by (auto simp: is_class_start_def is_positive_def elim: derives.cases intro: derives.char)

lemma derives_token:
  "ge_type (elem rules pos) \<in> {GreToken, GreTokenNot} \<Longrightarrow>
   derives rules pos w \<longleftrightarrow>
     (\<exists>t v. w = Tok t # v \<and> match_token (elem rules pos) t \<and> derives rules (rp_next pos) v)"
  using ends_types [of rules pos]
  by (auto simp: is_class_start_def is_positive_def elim: derives.cases intro: derives.token)

lemma derives_reference:
  "ge_type (elem rules pos) = GreRuleRef \<Longrightarrow>
   derives rules pos w \<longleftrightarrow>
     (\<exists>start \<in> set (alternates rules (RulePos (unat (ge_value (elem rules pos))) 0)).
        \<exists>u v. w = u @ v \<and> derives rules start u \<and> derives rules (rp_next pos) v)"
  (is "_ \<Longrightarrow> _ \<longleftrightarrow> ?rhs")
proof
  assume pos: "ge_type (elem rules pos) = GreRuleRef"
  show "?rhs" if "derives rules pos w"
    using that
  proof cases
    case over
    then show ?thesis using ends_types [of rules pos] pos by simp
  qed (use pos in \<open>auto simp: is_class_start_def is_positive_def\<close>)
  show "derives rules pos w" if "?rhs"
    using that pos by (auto intro: derives.reference)
qed

section \<open>The language of a stack\<close>

fun stack_lang :: "grammar_rule list \<Rightarrow> grammar_stack \<Rightarrow> symbol list \<Rightarrow> bool" where
  "stack_lang rules [] w \<longleftrightarrow> w = []"
| "stack_lang rules (pos # below) w \<longleftrightarrow>
     (\<exists>u v. w = u @ v \<and> derives rules pos u \<and> stack_lang rules below v)"

definition stacks_lang :: "grammar_rule list \<Rightarrow> grammar_stack list \<Rightarrow> symbol list \<Rightarrow> bool" where
  "stacks_lang rules stacks w \<longleftrightarrow> (\<exists>st \<in> set stacks. stack_lang rules st w)"

definition live :: "grammar_rule list \<Rightarrow> grammar_stack \<Rightarrow> bool" where
  "live rules st \<longleftrightarrow> (\<forall>pos \<in> set st. \<not> ends rules pos)"

lemma live_simps [simp, gre_simps]:
  "live rules []" "live rules (pos # st) \<longleftrightarrow> \<not> ends rules pos \<and> live rules st"
  by (auto simp: live_def)

lemma live_resume [simp]: "live rules (resume rules pos st) = live rules st"
  by (simp add: resume_def)

lemma stack_lang_resume [simp]:
  "stack_lang rules (resume rules pos below) w =
     (\<exists>u v. w = u @ v \<and> derives rules pos u \<and> stack_lang rules below v)"
  by (auto simp: resume_def derives_over)

lemma stack_lang_expand:
  assumes "top_expands rules st"
  shows "stack_lang rules st w \<longleftrightarrow> (\<exists>s \<in> set (top_succs rules st). stack_lang rules s w)"
proof (cases st)
  case (Cons pos below)
  then have "ge_type (elem rules pos) = GreRuleRef" using assms by (simp add: top_expands_def)
  with Cons show ?thesis
    by (auto simp: top_succs_def expand_ref_def derives_reference) (metis append.assoc)+
qed (use assms in \<open>simp add: top_expands_def\<close>)

lemma live_succs: "live rules st \<Longrightarrow> s \<in> set (top_succs rules st) \<Longrightarrow> live rules s"
  by (cases st) (auto simp: top_succs_def expand_ref_def live_def resume_def split: if_splits)

lemma leads_live: "adv.leads rules x y \<Longrightarrow> live rules x \<Longrightarrow> live rules y"
  by (induction rule: adv.leads.induct) (auto intro: live_succs)

lemma leads_lang: "adv.leads rules x y \<Longrightarrow> stack_lang rules y w \<Longrightarrow> stack_lang rules x w"
  by (induction rule: adv.leads.induct) (auto simp: stack_lang_expand)

lemma settles_here:
  assumes "\<not> ends rules pos" "is_stack_terminal (ge_type (elem rules pos))"
    and "derives rules pos u" "stack_lang rules below v"
  shows "\<exists>y. adv.leads rules (resume rules pos below) y \<and> top_settles rules y
           \<and> stack_lang rules y (u @ v)"
proof (intro exI conjI)
  show "adv.leads rules (resume rules pos below) (pos # below)"
    using assms(1) by (simp add: resume_def adv.leads.here)
  show "top_settles rules (pos # below)" using assms(2) by (simp add: top_settles_def)
  show "stack_lang rules (pos # below) (u @ v)" using assms(3,4) by auto
qed

lemma settles_resume:
  assumes "derives rules pos u"
    and "\<exists>y. adv.leads rules below y \<and> top_settles rules y \<and> stack_lang rules y v"
  shows "\<exists>y. adv.leads rules (resume rules pos below) y \<and> top_settles rules y
           \<and> stack_lang rules y (u @ v)"
  using assms
proof (induction pos u arbitrary: below v rule: derives.induct)
  case (over pos)
  then show ?case by (simp add: resume_def)
next
  case (char pos c w)
  then have l: "stack_lang rules below v" using leads_lang by blast
  have "\<not> ends rules pos" "is_stack_terminal (ge_type (elem rules pos))"
    using char.hyps ends_types
    by (auto simp: is_class_start_def is_positive_def is_stack_terminal_def)
  moreover have "derives rules pos (Chr c # w)" by (rule derives.char) (rule char.hyps)+
  ultimately show ?case using l by (rule settles_here)
next
  case (token pos t w)
  then have l: "stack_lang rules below v" using leads_lang by blast
  have "\<not> ends rules pos" "is_stack_terminal (ge_type (elem rules pos))"
    using token.hyps ends_types by (auto simp: is_stack_terminal_def)
  moreover have "derives rules pos (Tok t # w)" by (rule derives.token) (rule token.hyps)+
  ultimately show ?case using l by (rule settles_here)
next
  case (reference pos start u u')
  have "\<exists>y. adv.leads rules (resume rules start (resume rules (rp_next pos) below)) y
      \<and> top_settles rules y \<and> stack_lang rules y (u @ u' @ v)"
    using reference.IH reference.prems by blast
  moreover have "\<not> ends rules pos" using reference.hyps ends_types by blast
  moreover have "resume rules start (resume rules (rp_next pos) below)
      \<in> set (top_succs rules (pos # below))"
    using reference.hyps by (auto simp: top_succs_def expand_ref_def)
  moreover have "top_expands rules (pos # below)"
    using reference.hyps by (simp add: top_expands_def)
  ultimately show ?case by (auto simp: resume_def intro: adv.leads.expand)
qed

lemma settles_exist:
  "live rules x \<Longrightarrow> stack_lang rules x w \<Longrightarrow>
     \<exists>y. adv.leads rules x y \<and> top_settles rules y \<and> stack_lang rules y w"
proof (induction x arbitrary: w)
  case Nil
  then show ?case
    by (intro exI [of _ "[]"]) (auto simp: top_settles_def intro: adv.leads.here)
next
  case (Cons pos x)
  then obtain u v where w: "w = u @ v" "derives rules pos u" "stack_lang rules x v" by auto
  with Cons have "\<exists>y. adv.leads rules x y \<and> top_settles rules y \<and> stack_lang rules y v" by simp
  from settles_resume [OF w(2) this] Cons.prems w(1) show ?case by (simp add: resume_def)
qed

section \<open>What \<open>advance_stack\<close> collects\<close>

definition rested :: "grammar_rule list \<Rightarrow> grammar_stack list \<Rightarrow> bool" where
  "rested rules stacks \<longleftrightarrow> (\<forall>st \<in> set stacks. live rules st \<and> top_settles rules st)"

lemma rested_Nil [simp]: "rested rules []"
  by (simp add: rested_def)

lemma stacks_lang_simps [simp]:
  "\<not> stacks_lang rules [] w"
  "stacks_lang rules (st # sts) w \<longleftrightarrow> stack_lang rules st w \<or> stacks_lang rules sts w"
  by (auto simp: stacks_lang_def)

lemma advance_stack_lang:
  assumes "advance_stack rules st acc = Some (Inr acc')" "live rules st"
  shows "stacks_lang rules acc' w \<longleftrightarrow> stacks_lang rules acc w \<or> stack_lang rules st w"
proof -
  have "set acc' = set acc \<union> {y. adv.leads rules st y \<and> top_settles rules y}"
    using adv.run_result [of rules "[st]" acc acc'] assms(1) by (simp add: advance_stack_def)
  then show ?thesis
    using settles_exist [OF assms(2), of w] leads_lang [of rules st]
    by (auto simp: stacks_lang_def)
qed

lemma advance_stack_rested:
  assumes "advance_stack rules st acc = Some (Inr acc')" "live rules st" "rested rules acc"
  shows "rested rules acc'"
proof -
  have "set acc' = set acc \<union> {y. adv.leads rules st y \<and> top_settles rules y}"
    using adv.run_result [of rules "[st]" acc acc'] assms(1) by (simp add: advance_stack_def)
  with assms(2,3) leads_live show ?thesis by (auto simp: rested_def)
qed

section \<open>Accepting is the derivative\<close>

text \<open>The words that may follow a character, and a token: a token is read as itself or as its
  code points; a piece without a whole code point must be followed by a character.\<close>

lemma live_below: "live rules (pos # below) \<Longrightarrow> live rules below"
  by simp

lemma split_head:
  "(\<exists>u v. w = u @ v \<and> (\<exists>x y. u = F x # y \<and> A x \<and> D y) \<and> S v) \<longleftrightarrow>
     (\<exists>x v. w = F x # v \<and> A x \<and> (\<exists>u y. v = u @ y \<and> D u \<and> S y))"
proof
  assume "\<exists>x v. w = F x # v \<and> A x \<and> (\<exists>u y. v = u @ y \<and> D u \<and> S y)"
  then obtain x u y where "w = (F x # u) @ y" "A x" "D u" "S y" by auto
  then show "\<exists>u v. w = u @ v \<and> (\<exists>x y. u = F x # y \<and> A x \<and> D y) \<and> S v" by blast
next
  assume "\<exists>u v. w = u @ v \<and> (\<exists>x y. u = F x # y \<and> A x \<and> D y) \<and> S v"
  then obtain v x y where "w = F x # (y @ v)" "A x" "D y" "S v" by auto
  then show "\<exists>x v. w = F x # v \<and> A x \<and> (\<exists>u y. v = u @ y \<and> D u \<and> S y)" by blast
qed

lemma stack_lang_char:
  "is_class_start (ge_type (elem rules pos)) \<Longrightarrow>
   stack_lang rules (pos # below) w \<longleftrightarrow>
     (\<exists>c v. w = Chr c # v \<and> in_class rules pos c
        \<and> stack_lang rules (resume rules (class_end rules pos) below) v)"
  by (simp only: stack_lang.simps stack_lang_resume derives_char split_head)

lemma stack_lang_token:
  "ge_type (elem rules pos) \<in> {GreToken, GreTokenNot} \<Longrightarrow>
   stack_lang rules (pos # below) w \<longleftrightarrow>
     (\<exists>t v. w = Tok t # v \<and> match_token (elem rules pos) t
        \<and> stack_lang rules (resume rules (rp_next pos) below) v)"
  by (simp only: stack_lang.simps stack_lang_resume derives_token split_head)

lemma top_kinds:
  assumes "top_settles rules st"
  obtains "st = []"
  | pos below where "st = pos # below" "is_class_start (ge_type (elem rules pos))"
  | pos below where "st = pos # below" "ge_type (elem rules pos) \<in> {GreToken, GreTokenNot}"
proof (cases st)
  case (Cons pos below)
  then have "is_class_start (ge_type (elem rules pos))
      \<or> ge_type (elem rules pos) \<in> {GreToken, GreTokenNot}"
    using assms
    by (auto simp: top_settles_def is_stack_terminal_def is_class_start_def is_positive_def)
  with Cons that show ?thesis by blast
qed (use that in blast)

lemma class_not_token:
  "is_class_start t \<Longrightarrow> t \<notin> {GreToken, GreTokenNot}"
  by (auto simp: is_class_start_def is_positive_def)

lemma accept_chr_step:
  assumes "accept_chr rules c st acc = Some (Inr acc')" "live rules st" "top_settles rules st"
    and "rested rules acc"
  shows "rested rules acc'
    \<and> (\<forall>w. stacks_lang rules acc' w \<longleftrightarrow> stacks_lang rules acc w \<or> stack_lang rules st (Chr c # w))"
  using assms(3)
proof (cases rule: top_kinds)
  case 1
  then show ?thesis using assms by (simp add: accept_chr_def)
next
  case (2 pos below)
  have l: "live rules (resume rules (class_end rules pos) below)" using assms(2) 2 by simp
  show ?thesis
  proof (cases "in_class rules pos c")
    case True
    then have a: "advance_stack rules (resume rules (class_end rules pos) below) acc = Some (Inr acc')"
      using assms(1) 2 class_not_token [OF 2(2)] by (simp add: accept_chr_def match_char_eq)
    from True show ?thesis
      using advance_stack_lang [OF a l] advance_stack_rested [OF a l assms(4)]
      by (simp add: 2(1) stack_lang_char [OF 2(2)] del: stack_lang.simps stack_lang_resume)
  next
    case False
    then show ?thesis using assms(1,4) 2 class_not_token [OF 2(2)]
      by (simp add: accept_chr_def match_char_eq stack_lang_char del: stack_lang.simps)
  qed
next
  case (3 pos below)
  then show ?thesis using assms(1,4)
    by (simp add: accept_chr_def stack_lang_token del: stack_lang.simps)
qed

lemma accept_chr_each_step:
  assumes "accept_chr_each rules c sts acc = Some (Inr acc')" "rested rules sts" "rested rules acc"
  shows "rested rules acc'
    \<and> (\<forall>w. stacks_lang rules acc' w \<longleftrightarrow> stacks_lang rules acc w \<or> stacks_lang rules sts (Chr c # w))"
  using assms
proof (induction sts arbitrary: acc)
  case (Cons st sts)
  from Cons.prems(1) obtain acc1 where a: "accept_chr rules c st acc = Some (Inr acc1)"
    and b: "accept_chr_each rules c sts acc1 = Some (Inr acc')"
    by (auto simp: bind_run_ok_iff)
  have "live rules st" "top_settles rules st" using Cons.prems(2) by (simp_all add: rested_def)
  note step = accept_chr_step [OF a this Cons.prems(3)]
  moreover have "rested rules sts" using Cons.prems(2) by (simp add: rested_def)
  ultimately show ?case using Cons.IH [OF b] by auto
qed simp

lemma walk_chars_step:
  assumes "walk_chars rules cps sts = Some (Inr sts')" "rested rules sts"
  shows "rested rules sts'
    \<and> (\<forall>w. stacks_lang rules sts' w \<longleftrightarrow> stacks_lang rules sts (map Chr cps @ w))"
  using assms
proof (induction cps arbitrary: sts)
  case (Cons cp cps)
  from Cons.prems(1) obtain nxt where a: "accept_chr_each rules cp sts [] = Some (Inr nxt)"
    and b: "(if nxt = [] then Some (Inr []) else walk_chars rules cps nxt) = Some (Inr sts')"
    by (auto simp: bind_run_ok_iff)
  note step = accept_chr_each_step [OF a Cons.prems(2) rested_Nil]
  show ?case
  proof (cases "nxt = []")
    case True
    with b step show ?thesis by simp
  next
    case False
    with b have "walk_chars rules cps nxt = Some (Inr sts')" by simp
    from Cons.IH [OF this] step show ?thesis by simp
  qed
qed simp

definition reading :: "u32 \<Rightarrow> u32 list \<Rightarrow> symbol list \<Rightarrow> symbol list \<Rightarrow> bool" where
  "reading token chars w full \<longleftrightarrow>
     full = Tok token # w
     \<or> full = map Chr chars @ w \<and> (chars \<noteq> [] \<or> (\<exists>c v. w = Chr c # v))"

lemma set_fold_push_new: "set (fold push_new xs acc) = set acc \<union> set xs"
  by (induction xs arbitrary: acc) auto

lemma stacks_lang_set: "set a = set b \<union> set c \<Longrightarrow>
    stacks_lang rules a w \<longleftrightarrow> stacks_lang rules b w \<or> stacks_lang rules c w"
  by (auto simp: stacks_lang_def)

lemma accept_stack_step:
  assumes "accept_stack rules t cs st acc = Some (Inr acc')" "live rules st" "top_settles rules st"
    and "rested rules acc"
  shows "rested rules acc'
    \<and> (\<forall>w. stacks_lang rules acc' w
          \<longleftrightarrow> stacks_lang rules acc w \<or> (\<exists>full. reading t cs w full \<and> stack_lang rules st full))"
  using assms(3)
proof (cases rule: top_kinds)
  case 1
  then show ?thesis using assms(1,4) by (auto simp: accept_stack_def reading_def)
next
  case (2 pos below)
  from assms(1) 2 class_not_token [OF 2(2)] obtain cur where
    w: "walk_chars rules cs [st] = Some (Inr cur)" and acc': "acc' = fold push_new cur acc"
    by (auto simp: accept_stack_def Let_def bind_run_ok_iff)
  have r: "rested rules [st]" using assms(2,3) by (simp add: rested_def)
  note step = walk_chars_step [OF w r]
  have set': "set acc' = set acc \<union> set cur" by (simp add: acc' set_fold_push_new)
  have "rested rules acc'" using step assms(4) set' by (auto simp: rested_def)
  moreover have "(\<exists>full. reading t cs w full \<and> stack_lang rules st full)
      \<longleftrightarrow> stack_lang rules st (map Chr cs @ w)" for w
    using 2(2) by (cases cs) (auto simp: reading_def 2(1) stack_lang_char simp del: stack_lang.simps
        stack_lang_resume)
  ultimately show ?thesis using step stacks_lang_set [OF set'] by simp
next
  case (3 pos below)
  have l: "live rules (resume rules (rp_next pos) below)" using assms(2) 3 by simp
  have tok: "(\<exists>full. reading t cs w full \<and> stack_lang rules st full)
      \<longleftrightarrow> stack_lang rules st (Tok t # w)" for w
    using 3(2) by (cases cs) (auto simp: reading_def 3(1) stack_lang_token simp del: stack_lang.simps
        stack_lang_resume)
  show ?thesis
  proof (cases "match_token (elem rules pos) t")
    case True
    then have a: "advance_stack rules (resume rules (rp_next pos) below) acc = Some (Inr acc')"
      using assms(1) 3 by (simp add: accept_stack_def Let_def)
    from True show ?thesis
      using advance_stack_lang [OF a l] advance_stack_rested [OF a l assms(4)]
      unfolding tok by (simp add: 3(1) stack_lang_token [OF 3(2)] del: stack_lang.simps stack_lang_resume)
  next
    case False
    then show ?thesis using assms(1,4) 3 unfolding tok
      by (simp add: accept_stack_def stack_lang_token del: stack_lang.simps)
  qed
qed

lemma accept_stacks_step:
  assumes "accept_stacks rules t cs sts acc = Some (Inr acc')" "rested rules sts" "rested rules acc"
  shows "rested rules acc'
    \<and> (\<forall>w. stacks_lang rules acc' w
          \<longleftrightarrow> stacks_lang rules acc w \<or> (\<exists>full. reading t cs w full \<and> stacks_lang rules sts full))"
  using assms
proof (induction sts arbitrary: acc)
  case (Cons st sts)
  from Cons.prems(1) obtain acc1 where a: "accept_stack rules t cs st acc = Some (Inr acc1)"
    and b: "accept_stacks rules t cs sts acc1 = Some (Inr acc')"
    by (auto simp: bind_run_ok_iff)
  have "live rules st" "top_settles rules st" using Cons.prems(2) by (simp_all add: rested_def)
  note step = accept_stack_step [OF a this Cons.prems(3)]
  moreover have "rested rules sts" using Cons.prems(2) by (simp add: rested_def)
  ultimately show ?case using Cons.IH [OF b] by auto
qed simp

section \<open>The operations as derivatives\<close>

text \<open>The abstraction: a live grammar stands for the words it still accepts.\<close>

definition represents :: "'rx grammar \<Rightarrow> symbol list set \<Rightarrow> bool" where
  "represents g L \<longleftrightarrow>
     rested (gr_rules g) (gr_stacks g)
     \<and> (\<forall>w. stacks_lang (gr_rules g) (gr_stacks g) w \<longleftrightarrow> w \<in> L)"

definition after_char :: "u32 \<Rightarrow> symbol list set \<Rightarrow> symbol list set" where
  "after_char c L = {w. Chr c # w \<in> L}"

definition after_token :: "u32 \<Rightarrow> u32 list \<Rightarrow> symbol list set \<Rightarrow> symbol list set" where
  "after_token token chars L = {w. \<exists>full. reading token chars w full \<and> full \<in> L}"

lemma stack_lang_Nil:
  assumes "top_settles rules st" shows "stack_lang rules st [] \<longleftrightarrow> st = []"
  using assms
  by (cases rule: top_kinds) (auto simp: derives_char derives_token)

lemma rested_eog: "rested rules sts \<Longrightarrow> [] \<in> set sts \<longleftrightarrow> stacks_lang rules sts []"
  unfolding rested_def stacks_lang_def by (metis stack_lang_Nil)

lemma represents_eog:
  "represents g L \<Longrightarrow> \<not> is_awaiting_trigger g \<Longrightarrow> allows_eog g \<longleftrightarrow> [] \<in> L"
  using rested_eog [of "gr_rules g" "gr_stacks g"] by (auto simp: allows_eog_def represents_def)

lemma represents_alive: "represents g L \<Longrightarrow> gr_stacks g = [] \<Longrightarrow> L = {}"
  by (auto simp: represents_def)

lemma accept_codepoint_represents:
  assumes "represents g L" "accept_codepoint c g = Some (r, g')"
  shows "gr_rules g' = gr_rules g \<and> gr_lazy g' = gr_lazy g \<and> gr_partial g' = gr_partial g
    \<and> (r = Inr () \<longrightarrow> represents g' (after_char c L))"
proof -
  have same: "gr_rules g' = gr_rules g \<and> gr_lazy g' = gr_lazy g \<and> gr_partial g' = gr_partial g"
    using assms(2) by (auto simp: accept_codepoint_def split: option.splits sum.splits)
  have "represents g' (after_char c L)" if "r = Inr ()"
  proof -
    from assms(2) that obtain nxt where
      a: "accept_chr_each (gr_rules g) c (gr_stacks g) [] = Some (Inr nxt)"
      and g': "g' = g\<lparr>gr_stacks := nxt\<rparr>"
      by (auto simp: accept_codepoint_def split: option.splits sum.splits)
    have "rested (gr_rules g) (gr_stacks g)" using assms(1) by (simp add: represents_def)
    from accept_chr_each_step [OF a this rested_Nil] assms(1) g' show ?thesis
      by (simp add: represents_def after_char_def)
  qed
  with same show ?thesis by blast
qed

lemma accept_codepoints_represents:
  "represents g L \<Longrightarrow> accept_codepoints cps g = Some (Inr (), g') \<Longrightarrow>
     gr_rules g' = gr_rules g \<and> gr_lazy g' = gr_lazy g
     \<and> represents g' {w. map Chr cps @ w \<in> L}"
proof (induction cps arbitrary: g L)
  case (Cons c cps)
  from Cons.prems(2) obtain g1 where a: "accept_codepoint c g = Some (Inr (), g1)"
    and b: "accept_codepoints cps g1 = Some (Inr (), g')"
    by (auto split: option.splits prod.splits sum.splits)
  from accept_codepoint_represents [OF Cons.prems(1) a]
  have "represents g1 (after_char c L)" "gr_rules g1 = gr_rules g" "gr_lazy g1 = gr_lazy g" by auto
  with Cons.IH [OF this(1) b] show ?case by (simp add: after_char_def)
qed simp

text \<open>The stacks only ever fail with an internal error.\<close>

definition internal_only :: "(grammar_error, 'a) result option \<Rightarrow> bool" where
  "internal_only r \<longleftrightarrow> (\<forall>e. r = Some (Inl e) \<longrightarrow> (\<exists>what. e = Internal what))"

lemma internal_only_simps [simp]:
  "internal_only None" "internal_only (Some (Inr a))" "internal_only (Some (Inl (Internal what)))"
  by (simp_all add: internal_only_def)

lemma internal_only_bind:
  "internal_only r \<Longrightarrow> (\<And>a. r = Some (Inr a) \<Longrightarrow> internal_only (f a)) \<Longrightarrow> internal_only (bind_run r f)"
  by (auto simp: internal_only_def bind_run_def split: option.splits sum.splits)

lemma internal_only_advance: "internal_only (advance_stack rules st acc)"
proof -
  have "\<forall>e. r = Inl e \<longrightarrow> (\<exists>what. e = Internal what)"
    if "advance_loop rules todo seen acc = Some r" for todo seen acc r
    by (rule adv.run_only [where P = "\<lambda>todo seen acc r. \<forall>e. r = Inl e \<longrightarrow> (\<exists>what. e = Internal what)",
          OF that]) (auto simp: rest_fault_def)
  then show ?thesis by (auto simp: internal_only_def advance_stack_def)
qed

lemma internal_only_accept_chr: "internal_only (accept_chr rules c st acc)"
  by (auto simp: accept_chr_def match_char_eq internal_only_advance split: list.split)

lemma internal_only_accept_chr_each: "internal_only (accept_chr_each rules c sts acc)"
  by (induction sts arbitrary: acc) (auto intro: internal_only_bind internal_only_accept_chr)

lemma internal_only_walk_chars: "internal_only (walk_chars rules cps sts)"
  by (induction cps arbitrary: sts) (auto intro!: internal_only_bind internal_only_accept_chr_each)

lemma internal_only_accept_stack: "internal_only (accept_stack rules t cps st acc)"
  by (auto simp: accept_stack_def Let_def internal_only_advance split: list.split
      intro!: internal_only_bind internal_only_walk_chars)

lemma internal_only_accept_stacks: "internal_only (accept_stacks rules t cps sts acc)"
  by (induction sts arbitrary: acc) (auto intro: internal_only_bind internal_only_accept_stack)

lemma accept_token_now_represents:
  assumes "represents g L" "accept_token_now token piece g = Some (r, g')"
    and "decode_piece piece (gr_partial g) = (cps, partial)"
    and "\<And>what. r \<noteq> Inl (Internal what)"
  shows "represents g' (after_token token (butlast cps) L) \<and> gr_partial g' = partial
    \<and> gr_rules g' = gr_rules g \<and> gr_lazy g' = gr_lazy g
    \<and> (r = Inr () \<or> r = Inl (NoViableStack piece) \<and> after_token token (butlast cps) L = {})"
proof -
  have "\<exists>nxt. accept_stacks (gr_rules g) token (butlast cps) (gr_stacks g) [] = Some (Inr nxt)"
    using assms(2-4) internal_only_accept_stacks [of "gr_rules g" token "butlast cps" "gr_stacks g" "[]"]
    by (auto simp: accept_token_now_def internal_only_def split: option.splits sum.splits)
  then obtain nxt where
    a: "accept_stacks (gr_rules g) token (butlast cps) (gr_stacks g) [] = Some (Inr nxt)" ..
  then have r: "r = (if nxt = [] then Inl (NoViableStack piece) else Inr ())"
    and g': "g' = g\<lparr>gr_stacks := nxt, gr_partial := partial\<rparr>"
    using assms(2,3) by (auto simp: accept_token_now_def)
  have "rested (gr_rules g) (gr_stacks g)" using assms(1) by (simp add: represents_def)
  note step = accept_stacks_step [OF a this rested_Nil]
  have rep: "represents g' (after_token token (butlast cps) L)"
    using step assms(1) g' by (simp add: represents_def after_token_def)
  have "after_token token (butlast cps) L = {}" if "nxt = []"
    by (rule represents_alive [OF rep]) (simp add: g' that)
  with rep r g' show ?thesis by simp
qed

lemma initial_stacks_lang:
  assumes "initial_stacks rules starts acc = Some (Inr acc')" "rested rules acc"
  shows "rested rules acc'
    \<and> (\<forall>w. stacks_lang rules acc' w
          \<longleftrightarrow> stacks_lang rules acc w \<or> (\<exists>pos \<in> set starts. derives rules pos w))"
  using assms
proof (induction starts arbitrary: acc)
  case (Cons pos starts)
  from Cons.prems(1) obtain acc1 where
    a: "advance_stack rules (resume rules pos []) acc = Some (Inr acc1)"
    and b: "initial_stacks rules starts acc1 = Some (Inr acc')"
    by (auto simp: bind_run_ok_iff)
  have l: "live rules (resume rules pos [])" by simp
  have "stack_lang rules (resume rules pos []) w \<longleftrightarrow> derives rules pos w" for w by simp
  with Cons.IH [OF b advance_stack_rested [OF a l Cons.prems(2)]] advance_stack_lang [OF a l]
  show ?case by auto
qed simp

lemma from_rules_represents:
  assumes "from_rules rules start name_of = Some (Inr g)"
  shows "gr_rules g = rules \<and> gr_lazy g = None \<and> gr_partial g = partial_utf8_default
    \<and> represents g {w. sentence rules start w}"
proof -
  from assms obtain stacks where
    a: "initial_stacks rules (alternates rules (RulePos start 0)) [] = Some (Inr stacks)"
    and g: "g = \<lparr>gr_rules = rules, gr_stacks = stacks, gr_partial = partial_utf8_default,
                 gr_lazy = None\<rparr>"
    by (auto simp: from_rules_def Let_def bind_run_ok_iff split: option.splits if_splits)
  from initial_stacks_lang [OF a] g show ?thesis by (simp add: represents_def sentence_def)
qed

text \<open>How a sequence of tokens may be read, from the partial sequence carried in.\<close>

fun reads :: "partial_utf8 \<Rightarrow> history \<Rightarrow> symbol list \<Rightarrow> symbol list \<Rightarrow> bool" where
  "reads partial [] w full \<longleftrightarrow> full = w"
| "reads partial ((token, piece) # h) w full \<longleftrightarrow>
     (let (cps, partial) = decode_piece piece partial in
      \<exists>mid. reads partial h w mid \<and> reading token (butlast cps) mid full)"

lemma accept_replay_represents:
  "represents g L \<Longrightarrow> accept_replay h g = Some (Inr (), g') \<Longrightarrow>
     gr_rules g' = gr_rules g \<and> gr_lazy g' = gr_lazy g
     \<and> represents g' {w. \<exists>full. reads (gr_partial g) h w full \<and> full \<in> L}"
proof (induction h g arbitrary: L rule: accept_replay.induct)
  case (2 tok piece replay g)
  from "2.prems"(2) obtain g1 where a: "accept_token_now tok piece g = Some (Inr (), g1)"
    and b: "accept_replay replay g1 = Some (Inr (), g')"
    by (auto split: option.splits prod.splits sum.splits)
  obtain cps partial where d: "decode_piece piece (gr_partial g) = (cps, partial)" by fastforce
  note one = accept_token_now_represents [OF "2.prems"(1) a d]
  from one have "represents g1 (after_token tok (butlast cps) L)" by simp
  note rest = "2.IH" [OF a refl _ this b]
  show ?case using one rest d
    by (simp add: after_token_def) (smt (verit) Collect_cong)
qed simp

section \<open>Sequences of tokens\<close>

fun accept_tokens :: "'rx regex_engine \<Rightarrow> history \<Rightarrow> 'rx grammar \<Rightarrow> 'rx accepted" where
  "accept_tokens eng [] g = Some (Inr (), g)"
| "accept_tokens eng ((tok, piece) # h) g =
     (case accept_token eng tok piece g of
        None \<Rightarrow> None
      | Some (Inl e, g) \<Rightarrow> Some (Inl e, g)
      | Some (Inr _, g) \<Rightarrow> accept_tokens eng h g)"

lemma accept_token_applied: "\<not> is_awaiting_trigger g \<Longrightarrow> accept_token eng t p g = accept_token_now t p g"
  by (simp add: accept_token_def)

lemma accept_token_now_lazy: "accept_token_now t p g = Some (r, g') \<Longrightarrow> gr_lazy g' = gr_lazy g"
  by (auto simp: accept_token_now_def split: prod.splits option.splits sum.splits)

lemma accept_replay_lazy: "accept_replay h g = Some (r, g') \<Longrightarrow> gr_lazy g' = gr_lazy g"
proof (induction h g rule: accept_replay.induct)
  case (2 tok piece h g)
  show ?case
  proof (cases "\<exists>g1. accept_token_now tok piece g = Some (Inr (), g1)")
    case True
    then obtain g1 where one: "accept_token_now tok piece g = Some (Inr (), g1)" ..
    with "2.prems" "2.IH" [OF one refl] accept_token_now_lazy [OF one] show ?thesis by simp
  next
    case False
    with "2.prems" have "accept_token_now tok piece g = Some (r, g')"
      by (auto split: option.splits prod.splits sum.splits)
    then show ?thesis by (rule accept_token_now_lazy)
  qed
qed simp

lemma awaiting_cong: "gr_lazy g' = gr_lazy g \<Longrightarrow> is_awaiting_trigger g' = is_awaiting_trigger g"
  by (simp add: is_awaiting_trigger_def)

lemma accept_tokens_replay: "\<not> is_awaiting_trigger g \<Longrightarrow> accept_tokens eng h g = accept_replay h g"
proof (induction h g rule: accept_replay.induct)
  case (2 tok piece h g)
  have "accept_tokens eng h g1 = accept_replay h g1"
    if "accept_token_now tok piece g = Some (Inr (), g1)" for g1
    using "2.IH" [OF that refl] awaiting_cong [OF accept_token_now_lazy [OF that]] "2.prems" by simp
  with "2.prems" show ?case
    by (auto simp: accept_token_applied split: option.split prod.split sum.split)
qed simp

text \<open>While a lazy grammar waits, tokens only go to the trigger history.\<close>

definition waiting :: "'rx grammar \<Rightarrow> history \<Rightarrow> 'rx grammar \<Rightarrow> bool" where
  "waiting g0 h g \<longleftrightarrow> (\<exists>st st0. gr_lazy g0 = Some st0 \<and> g = g0\<lparr>gr_lazy := Some st\<rparr>
     \<and> records st h \<and> lz_triggers st = lz_triggers st0)"

lemma waiting_step:
  assumes "waiting g0 h g" "accept_token eng t p g = Some (Inr (), g')" "is_awaiting_trigger g'"
  shows "waiting g0 (h @ [(t, p)]) g'"
proof -
  from assms(1) obtain st st0 where st: "gr_lazy g0 = Some st0" "g = g0\<lparr>gr_lazy := Some st\<rparr>"
      "records st h" "lz_triggers st = lz_triggers st0"
    by (auto simp: waiting_def)
  obtain r st' where o: "observe eng t p st = (r, st')" by fastforce
  have aw: "is_awaiting_trigger g" using st by (simp add: is_awaiting_trigger_def records_def)
  note os = observe_state [OF st(3), of eng t p, unfolded o fst_conv snd_conv]
  have "r = Inr Awaiting"
  proof (rule ccontr)
    assume "r \<noteq> Inr Awaiting"
    with assms(2) aw o st(2) obtain replay where r: "r = Inr (Fired replay)"
      and a: "accept_replay replay (g\<lparr>gr_lazy := Some st'\<rparr>) = Some (Inr (), g')"
      by (auto simp: accept_token_def split: sum.splits trigger_step.splits)
    have "\<not> lz_awaiting st'" using os(2) r by (simp add: spent_def)
    with assms(3) accept_replay_lazy [OF a] show False by (simp add: is_awaiting_trigger_def)
  qed
  with assms(2) aw o st(2) have "g' = g\<lparr>gr_lazy := Some st'\<rparr>"
    by (simp add: accept_token_def)
  with os(1,3) \<open>r = Inr Awaiting\<close> st show ?thesis by (auto simp: waiting_def)
qed

lemma waiting_run:
  "waiting g0 h0 g \<Longrightarrow> accept_tokens eng h g = Some (Inr (), g1) \<Longrightarrow> is_awaiting_trigger g1 \<Longrightarrow>
     waiting g0 (h0 @ h) g1"
proof (induction eng h g arbitrary: h0 rule: accept_tokens.induct)
  case (2 eng tok piece h g)
  from "2.prems"(2) obtain g' where a: "accept_token eng tok piece g = Some (Inr (), g')"
    and b: "accept_tokens eng h g' = Some (Inr (), g1)"
    by (auto split: option.splits prod.splits sum.splits)
  have aw: "is_awaiting_trigger g'"
  proof (rule ccontr)
    assume n: "\<not> is_awaiting_trigger g'"
    with b have "accept_replay h g' = Some (Inr (), g1)" by (simp add: accept_tokens_replay)
    from awaiting_cong [OF accept_replay_lazy [OF this]] n "2.prems"(3) show False by simp
  qed
  from "2.IH" [OF a refl _ waiting_step [OF "2.prems"(1) a aw] b "2.prems"(3)]
  show ?case by simp
qed simp

lemma waiting_fires:
  assumes "waiting g0 h g" "accept_token eng t p g = Some (Inr (), g')" "\<not> is_awaiting_trigger g'"
    and "represents g0 L"
  shows "\<exists>replay. spec_observe eng (lz_triggers (the (gr_lazy g0))) t p h = Inr (Fired replay)
    \<and> represents g' {w. \<exists>full. reads (gr_partial g0) replay w full \<and> full \<in> L}"
proof -
  from assms(1) obtain st st0 where st: "gr_lazy g0 = Some st0" "g = g0\<lparr>gr_lazy := Some st\<rparr>"
      "records st h" "lz_triggers st = lz_triggers st0"
    by (auto simp: waiting_def)
  obtain r st' where o: "observe eng t p st = (r, st')" by fastforce
  have aw: "is_awaiting_trigger g" using st by (simp add: is_awaiting_trigger_def records_def)
  note os = observe_state [OF st(3), of eng t p, unfolded o fst_conv snd_conv]
  have "r \<noteq> Inr Awaiting"
  proof
    assume r: "r = Inr Awaiting"
    with assms(2) aw o st(2) have "g' = g\<lparr>gr_lazy := Some st'\<rparr>" by (simp add: accept_token_def)
    moreover have "lz_awaiting st'" using os(3) r by (simp add: records_def)
    ultimately show False using assms(3) by (simp add: is_awaiting_trigger_def)
  qed
  with assms(2) aw o st(2) obtain replay where r: "r = Inr (Fired replay)"
    and a: "accept_replay replay (g\<lparr>gr_lazy := Some st'\<rparr>) = Some (Inr (), g')"
    by (auto simp: accept_token_def split: sum.splits trigger_step.splits)
  have "represents (g\<lparr>gr_lazy := Some st'\<rparr>) L"
    using assms(4) st(2) by (simp add: represents_def)
  from accept_replay_represents [OF this a] st(2)
  have "represents g' {w. \<exists>full. reads (gr_partial g0) replay w full \<and> full \<in> L}" by simp
  moreover have "spec_observe eng (lz_triggers (the (gr_lazy g0))) t p h = Inr (Fired replay)"
    using observe_spec [OF st(3), of eng t p] o r st by simp
  ultimately show ?thesis by blast
qed

section \<open>Claims\<close>

text \<open>A small table for the witnesses: \<open>root ::= "a" x\<close>, \<open>x ::= "b" | "c" | <[7]>\<close>.\<close>

definition sample_rules :: "grammar_rule list" where
  "sample_rules =
     [[mk_elem GreChar 0x61, mk_elem GreRuleRef 1, mk_elem GreEnd 0],
      [mk_elem GreChar 0x62, mk_elem GreAlt 0, mk_elem GreChar 0x63, mk_elem GreAlt 0,
       mk_elem GreToken 7, mk_elem GreEnd 0]]"

definition sample_grammar :: "bytes grammar" where
  "sample_grammar = \<lparr>gr_rules = sample_rules, gr_stacks = [[RulePos 0 0]],
     gr_partial = partial_utf8_default, gr_lazy = None\<rparr>"

lemma sample_from_rules: "from_rules sample_rules 0 (\<lambda>_. None) = Some (Inr sample_grammar)"
  by code_simp

text \<open>The machine recognises the language of its rule table: after any sequence of code
  points that is accepted, the viable stacks stand for exactly the words that complete it to
  a sentence, and end of generation is allowed exactly when the text so far is a sentence.\<close>

theorem machine_recognises:
  assumes "from_rules rules start name_of = Some (Inr g)"
    and "accept_codepoints cps g = Some (Inr (), g')"
  shows "(\<forall>w. stacks_lang rules (gr_stacks g') w \<longleftrightarrow> sentence rules start (map Chr cps @ w))
    \<and> (allows_eog g' \<longleftrightarrow> sentence rules start (map Chr cps))"
proof -
  note init = from_rules_represents [OF assms(1)]
  then have "represents g {w. sentence rules start w}" by blast
  note run = accept_codepoints_represents [OF this assms(2)]
  have "\<not> is_awaiting_trigger g'" using run init by (simp add: is_awaiting_trigger_def)
  from represents_eog [OF _ this] run have "allows_eog g' \<longleftrightarrow> sentence rules start (map Chr cps)"
    by (metis (mono_tags, lifting) append_Nil2 mem_Collect_eq)
  moreover have "stacks_lang rules (gr_stacks g') w \<longleftrightarrow> sentence rules start (map Chr cps @ w)" for w
    using run init unfolding represents_def by auto
  ultimately show ?thesis by blast
qed

text \<open>C16.  Accepting one token is the derivative of the language by that token, read either
  as the token itself or as its code points (a piece without a whole code point only leaves
  parses that expect a character); the token is refused exactly when nothing is left, and
  the partial sequence of the piece is carried on.\<close>

theorem accept_token_derivative:
  assumes "represents g L" "accept_token_now token piece g = Some (r, g')"
    and "decode_piece piece (gr_partial g) = (cps, partial)"
    and "\<And>what. r \<noteq> Inl (Internal what)"
  shows "represents g' (after_token token (butlast cps) L) \<and> gr_partial g' = partial
    \<and> gr_rules g' = gr_rules g
    \<and> (r = Inr () \<or> r = Inl (NoViableStack piece) \<and> after_token token (butlast cps) L = {})"
  using accept_token_now_represents [OF assms] by blast

theorem accept_token_derivative_witness:
  "after_token 7 [0x64] (after_token 3 [0x61] {w. sentence sample_rules 0 w}) \<noteq> {}"
proof -
  let ?p = "\<lparr>pu_value = 0x61, pu_n_remain = 0\<rparr>" and ?q = "\<lparr>pu_value = 0x64, pu_n_remain = 0\<rparr>"
  let ?g = "sample_grammar\<lparr>gr_stacks := [[RulePos 1 4], [RulePos 1 2], [RulePos 1 0]],
      gr_partial := ?p\<rparr>"
  let ?h = "?g\<lparr>gr_stacks := [[]], gr_partial := ?q\<rparr>"
  have r: "represents sample_grammar {w. sentence sample_rules 0 w}"
    using from_rules_represents [OF sample_from_rules] by blast
  have a: "accept_token_now 3 [0x61] sample_grammar = Some (Inr (), ?g)"
    "decode_piece [0x61] (gr_partial sample_grammar) = ([0x61, 0], ?p)"
    by code_simp+
  have b: "accept_token_now 7 [0x64] ?g = Some (Inr (), ?h)"
    "decode_piece [0x64] (gr_partial ?g) = ([0x64, 0], ?q)"
    by code_simp+
  have "represents ?g (after_token 3 [0x61] {w. sentence sample_rules 0 w})"
    using accept_token_derivative [OF r a] by simp
  from accept_token_derivative [OF this b]
  have "represents ?h (after_token 7 [0x64] (after_token 3 [0x61] {w. sentence sample_rules 0 w}))"
    by simp
  from represents_eog [OF this] show ?thesis
    by (auto simp: allows_eog_def is_awaiting_trigger_def sample_grammar_def)
qed



text \<open>C19.  A lazy grammar constrains exactly what it replays: while it waits its parse is
  untouched, and when a trigger fires on the accumulated history, generation may end exactly
  when some reading of the replayed tokens is a sentence.\<close>

theorem lazy_constrains_replay:
  assumes "from_rules rules start name_of = Some (Inr g)" "into_lazy g triggers = Inr gl"
    and "accept_tokens eng h gl = Some (Inr (), g1)" "is_awaiting_trigger g1"
    and "accept_token eng token piece g1 = Some (Inr (), g2)" "\<not> is_awaiting_trigger g2"
  shows "gr_stacks g1 = gr_stacks g
    \<and> (\<exists>replay. spec_observe eng triggers token piece h = Inr (Fired replay)
        \<and> (allows_eog g2 \<longleftrightarrow>
             (\<exists>full. reads partial_utf8_default replay [] full \<and> sentence rules start full)))"
proof -
  note init = from_rules_represents [OF assms(1)]
  have gl: "gl = g\<lparr>gr_lazy := Some (lazy_state_new triggers)\<rparr>"
    using assms(2) by (simp add: into_lazy_def split: if_splits)
  have "gl = gl\<lparr>gr_lazy := Some (lazy_state_new triggers)\<rparr>" by (simp add: gl)
  moreover have "gr_lazy gl = Some (lazy_state_new triggers)" by (simp add: gl)
  ultimately have "waiting gl [] gl"
    unfolding waiting_def using records_new [of triggers] by blast
  from waiting_run [OF this assms(3,4)] have w: "waiting gl h g1" by simp
  have "represents gl {w. sentence rules start w}"
    using init gl unfolding represents_def by auto
  from waiting_fires [OF w assms(5,6) this] obtain replay where
    replay: "spec_observe eng triggers token piece h = Inr (Fired replay)"
    and rep: "represents g2 {w. \<exists>full. reads partial_utf8_default replay w full \<and> sentence rules start full}"
    using init gl by (auto simp: lazy_state_new_def)
  have "gr_stacks g1 = gr_stacks g" using w gl by (auto simp: waiting_def)
  with replay represents_eog [OF rep assms(6)] show ?thesis by auto
qed

theorem lazy_constrains_replay_witness:
  "\<exists>full. reads partial_utf8_default [(2, [0x61, 0x62])] [] full \<and> sentence sample_rules 0 full"
proof -
  let ?t = "literal_triggers [0x61]"
  let ?gl = "sample_grammar\<lparr>gr_lazy := Some (lazy_state_new ?t)\<rparr>"
  have l: "into_lazy sample_grammar ?t = Inr ?gl"
    by (simp add: into_lazy_def triggers_is_empty_def literal_triggers_def)
  let ?g1 = "?gl\<lparr>gr_lazy := Some \<lparr>lz_triggers = ?t, lz_awaiting = True, lz_buffer = [0x7A],
      lz_spans = [(1, 0, 1)]\<rparr>\<rparr>"
  let ?g2 = "?gl\<lparr>gr_stacks := [[]], gr_partial := \<lparr>pu_value = 0x62, pu_n_remain = 0\<rparr>, gr_lazy := Some \<lparr>lz_triggers = ?t, lz_awaiting = False,
      lz_buffer = [], lz_spans = []\<rparr>\<rparr>"
  have one: "accept_tokens literal_engine [(1, [0x7A])] ?gl = Some (Inr (), ?g1)" by code_simp
  have two: "accept_token literal_engine 2 [0x7A, 0x61, 0x62] ?g1 = Some (Inr (), ?g2)" by code_simp
  have aw: "is_awaiting_trigger ?g1" "\<not> is_awaiting_trigger ?g2"
    by (simp_all add: is_awaiting_trigger_def)
  have obs: "spec_observe literal_engine ?t 2 [0x7A, 0x61, 0x62] [(1, [0x7A])]
      = Inr (Fired [(2, [0x61, 0x62])])" by code_simp
  have eog: "allows_eog ?g2" by (simp add: allows_eog_def is_awaiting_trigger_def)
  from lazy_constrains_replay [OF sample_from_rules l one aw(1) two aw(2)] obs eog
  show ?thesis by auto
qed

end
