(* ===== verification/Grammar_Total.thy ===== *)
theory Grammar_Total
  imports Grammar_Language
begin

text \<open>
  When the machine answers, and with what.  A well-shaped rule table (every class, reference
  and token where a sequence expects one, every reference resolved) never meets the internal
  errors.  If in addition the grammar has no left recursion, every operation returns.  The
  left-recursion check establishes that when every rule that can produce the empty word has an
  empty alternate; a rule table that passes the check and never returns is given for the rest.
\<close>

section \<open>Well-shaped rule tables\<close>

text \<open>Where in a rule we are: at the start of an item, after a class entry, after the end of
  a range.\<close>

datatype shape_state = Item | Entry | Upper

fun shaped :: "shape_state \<Rightarrow> grammar_rule \<Rightarrow> bool" where
  "shaped st [] = False"
| "shaped st (e # es) =
     (case ge_type e of
        GreEnd \<Rightarrow> es = []
      | GreAlt \<Rightarrow> shaped Item es
      | GreRuleRef \<Rightarrow> shaped Item es
      | GreChar \<Rightarrow> shaped Entry es
      | GreCharNot \<Rightarrow> shaped Entry es
      | GreCharRngUpper \<Rightarrow> st = Entry \<and> shaped Upper es
      | GreCharAlt \<Rightarrow> st \<noteq> Item \<and> shaped Entry es
      | GreCharAny \<Rightarrow> shaped Item es
      | GreToken \<Rightarrow> shaped Item es
      | GreTokenNot \<Rightarrow> shaped Item es)"

definition well_shaped :: "grammar_rule list \<Rightarrow> bool" where
  "well_shaped rules \<longleftrightarrow>
     (\<forall>rule \<in> set rules. shaped Item rule
        \<and> (\<forall>e \<in> set rule. ge_type e = GreRuleRef \<longrightarrow> unat (ge_value e) < length rules))"

lemma shaped_Item: "shaped Item es \<Longrightarrow> shaped st es"
  by (cases es) (auto split: gre_type.splits)

lemma shaped_not_Item:
  "shaped st (e # es) \<Longrightarrow> ge_type e \<noteq> GreCharAlt \<Longrightarrow> ge_type e \<noteq> GreCharRngUpper \<Longrightarrow>
     shaped Item (e # es)"
  by (auto split: gre_type.splits)

definition boundary :: "grammar_rule list \<Rightarrow> rule_pos \<Rightarrow> bool" where
  "boundary rules pos \<longleftrightarrow>
     rp_rule pos < length rules \<and> shaped Item (drop (rp_index pos) (rules ! rp_rule pos))"

definition inside :: "grammar_rule list \<Rightarrow> shape_state \<Rightarrow> rule_pos \<Rightarrow> bool" where
  "inside rules st pos \<longleftrightarrow>
     rp_rule pos < length rules \<and> shaped st (drop (rp_index pos) (rules ! rp_rule pos))"

lemma boundary_inside: "boundary rules pos \<Longrightarrow> inside rules st pos"
  by (simp add: boundary_def inside_def shaped_Item)

lemma inside_drop:
  assumes "inside rules st pos"
  shows "drop (rp_index pos) (rules ! rp_rule pos)
    = elem rules pos # drop (Suc (rp_index pos)) (rules ! rp_rule pos)"
proof -
  have "rp_index pos < length (rules ! rp_rule pos)"
  proof (rule ccontr)
    assume "\<not> rp_index pos < length (rules ! rp_rule pos)"
    with assms show False by (simp add: inside_def)
  qed
  with assms show ?thesis by (simp add: inside_def elem_def Cons_nth_drop_Suc)
qed

lemma inside_shaped:
  "inside rules st pos \<Longrightarrow>
     shaped st (elem rules pos # drop (Suc (rp_index pos)) (rules ! rp_rule pos))"
  using inside_drop [of rules st pos] by (simp add: inside_def)

lemma inside_next:
  assumes "inside rules st pos" "ge_type (elem rules pos) \<noteq> GreEnd"
  shows "\<exists>st'. inside rules st' (rp_next pos)"
  using inside_shaped [OF assms(1)] assms
  by (auto simp: inside_def split: gre_type.splits)

lemma boundary_next:
  assumes "inside rules st pos"
    and "ge_type (elem rules pos) \<in> {GreAlt, GreRuleRef, GreToken, GreTokenNot}"
  shows "boundary rules (rp_next pos)"
  using inside_shaped [OF assms(1)] assms by (auto simp: inside_def boundary_def)

lemma inside_boundary:
  assumes "inside rules st pos" "ge_type (elem rules pos) \<noteq> GreCharAlt"
    and "ge_type (elem rules pos) \<noteq> GreCharRngUpper"
  shows "boundary rules pos"
proof -
  have "shaped Item (elem rules pos # drop (Suc (rp_index pos)) (rules ! rp_rule pos))"
    using inside_shaped [OF assms(1)] assms(2,3) by (rule shaped_not_Item)
  with inside_drop [OF assms(1)] assms(1) show ?thesis by (simp add: inside_def boundary_def)
qed

lemma class_end_boundary:
  "inside rules Entry (rp_next pos) \<Longrightarrow> boundary rules (class_end rules pos)"
proof (induction rules pos rule: class_end.induct)
  case (1 rules pos)
  define nxt where "nxt = class_next rules pos"
  have in_nxt: "inside rules Entry nxt \<or> inside rules Upper nxt"
  proof (cases "ge_type (elem rules (rp_next pos)) = GreCharRngUpper")
    case True
    with inside_shaped [OF "1.prems"] "1.prems" show ?thesis
      by (simp add: nxt_def class_next_def inside_def)
  next
    case False
    with "1.prems" show ?thesis by (simp add: nxt_def class_next_def)
  qed
  have not_upper: "ge_type (elem rules nxt) \<noteq> GreCharRngUpper"
  proof
    assume u: "ge_type (elem rules nxt) = GreCharRngUpper"
    show False
    proof (cases "ge_type (elem rules (rp_next pos)) = GreCharRngUpper")
      case True
      with inside_shaped [OF "1.prems"] "1.prems" have "inside rules Upper nxt"
        by (simp add: nxt_def class_next_def inside_def)
      from inside_shaped [OF this] u show False by simp
    next
      case False
      with u show False by (simp add: nxt_def class_next_def)
    qed
  qed
  show ?case
  proof (cases "ge_type (elem rules nxt) = GreCharAlt")
    case True
    have "inside rules Entry (rp_next nxt)"
      using in_nxt inside_shaped [of rules Entry nxt] inside_shaped [of rules Upper nxt] True
      by (auto simp: inside_def)
    with "1.IH" True show ?thesis by (simp add: nxt_def class_end.simps [of rules pos])
  next
    case False
    then have "class_end rules pos = nxt" by (simp add: nxt_def class_end.simps [of rules pos])
    with in_nxt inside_boundary False not_upper show ?thesis by metis
  qed
qed

lemma boundary_class:
  assumes "boundary rules pos" "is_class_start (ge_type (elem rules pos))"
  shows "boundary rules (class_end rules pos)"
proof (rule class_end_boundary)
  show "inside rules Entry (rp_next pos)"
    using inside_shaped [OF boundary_inside [OF assms(1), of Item]] assms
    by (auto simp: is_class_start_def is_positive_def boundary_def inside_def intro: shaped_Item)
qed

lemma skip_inside: "inside rules st pos \<Longrightarrow> \<exists>st'. inside rules st' (skip_to_end rules pos)"
proof (induction rules pos arbitrary: st rule: skip_to_end.induct)
  case (1 rules pos)
  show ?case
  proof (cases "ends rules pos")
    case False
    then have "ge_type (elem rules pos) \<noteq> GreEnd" by (auto simp: ends_def is_end_of_sequence_def)
    from inside_next [OF "1.prems" this] "1.IH" [OF False] False show ?thesis
      by (auto simp: skip_to_end.simps [of rules pos])
  qed (use 1 in \<open>auto simp: skip_to_end.simps [of rules pos]\<close>)
qed

lemma alternates_boundary:
  "boundary rules pos \<Longrightarrow> \<forall>start \<in> set (alternates rules pos). boundary rules start"
proof (induction rules pos rule: alternates.induct)
  case (1 rules pos)
  obtain st where s: "inside rules st (skip_to_end rules pos)"
    using skip_inside boundary_inside [OF "1.prems"] by blast
  show ?case
  proof (cases "ge_type (elem rules (skip_to_end rules pos)) = GreAlt")
    case True
    then have "boundary rules (rp_next (skip_to_end rules pos))" using boundary_next [OF s] by simp
    with "1.IH" [OF refl True] "1.prems" True show ?thesis
      by (simp add: alternates.simps [of rules pos] Let_def)
  next
    case False
    with "1.prems" show ?thesis by (simp add: alternates.simps [of rules pos] Let_def)
  qed
qed

lemma boundary_start: "well_shaped rules \<Longrightarrow> r < length rules \<Longrightarrow> boundary rules (RulePos r 0)"
  by (simp add: well_shaped_def boundary_def)

lemma ref_in_range:
  assumes "well_shaped rules" "ge_type (elem rules pos) = GreRuleRef"
  shows "unat (ge_value (elem rules pos)) < length rules"
proof -
  from assms(2) have "rp_rule pos < length rules" "rp_index pos < length (rules ! rp_rule pos)"
    using elem_in_range [of rules pos] by auto
  then have "rules ! rp_rule pos \<in> set rules"
    and "rules ! rp_rule pos ! rp_index pos \<in> set (rules ! rp_rule pos)"
    and "elem rules pos = rules ! rp_rule pos ! rp_index pos"
    by (simp_all add: elem_def)
  with assms show ?thesis unfolding well_shaped_def by metis
qed

lemma boundary_type:
  assumes "boundary rules pos"
  shows "ends rules pos \<or> ge_type (elem rules pos) = GreRuleRef
    \<or> ge_type (elem rules pos) \<in> {GreToken, GreTokenNot}
    \<or> is_class_start (ge_type (elem rules pos))"
  using inside_shaped [OF boundary_inside [OF assms, of Item]]
  by (auto simp: ends_def is_end_of_sequence_def is_class_start_def is_positive_def
      split: gre_type.splits)

section \<open>No internal errors\<close>

definition grounded :: "grammar_rule list \<Rightarrow> grammar_stack \<Rightarrow> bool" where
  "grounded rules st \<longleftrightarrow> (\<forall>pos \<in> set st. boundary rules pos \<and> \<not> ends rules pos)"

lemma grounded_simps [simp, gre_simps]:
  "grounded rules []"
  "grounded rules (pos # st) \<longleftrightarrow> boundary rules pos \<and> \<not> ends rules pos \<and> grounded rules st"
  by (auto simp: grounded_def)

lemma grounded_resume: "boundary rules pos \<Longrightarrow> grounded rules st \<Longrightarrow> grounded rules (resume rules pos st)"
  by (simp add: resume_def)

lemma grounded_succs:
  assumes "well_shaped rules" "grounded rules st" "top_expands rules st" "s \<in> set (top_succs rules st)"
  shows "grounded rules s"
proof (cases st)
  case (Cons pos below)
  then have ref: "ge_type (elem rules pos) = GreRuleRef" using assms(3) by (simp add: top_expands_def)
  have "boundary rules pos" "grounded rules below" using assms(2) Cons by simp_all
  then have b: "boundary rules (rp_next pos)"
    using boundary_next [OF boundary_inside] ref by blast
  from assms(4) Cons obtain start where
    s: "s = resume rules start (resume rules (rp_next pos) below)"
    and start: "start \<in> set (alternates rules (RulePos (unat (ge_value (elem rules pos))) 0))"
    by (auto simp: top_succs_def expand_ref_def)
  have "boundary rules start"
    using alternates_boundary [OF boundary_start [OF assms(1) ref_in_range [OF assms(1) ref]]] start
    by blast
  with s b \<open>grounded rules below\<close> show ?thesis by (simp add: grounded_resume)
qed (use assms(3) in \<open>simp add: top_expands_def\<close>)

lemma grounded_leads:
  "adv.leads rules x y \<Longrightarrow> well_shaped rules \<Longrightarrow> grounded rules x \<Longrightarrow> grounded rules y"
  by (induction rule: adv.leads.induct) (auto intro: grounded_succs)

lemma grounded_top:
  assumes "grounded rules st" shows "top_expands rules st \<or> top_settles rules st"
proof (cases st)
  case (Cons pos below)
  with assms boundary_type [of rules pos] show ?thesis
    by (auto simp: top_expands_def top_settles_def is_stack_terminal_def is_class_start_def
        is_positive_def)
qed (simp add: top_settles_def)

definition all_grounded :: "grammar_rule list \<Rightarrow> grammar_stack list \<Rightarrow> bool" where
  "all_grounded rules sts \<longleftrightarrow> (\<forall>st \<in> set sts. grounded rules st \<and> top_settles rules st)"

lemma all_grounded_simps [simp, gre_simps]:
  "all_grounded rules []"
  "all_grounded rules (st # sts) \<longleftrightarrow> grounded rules st \<and> top_settles rules st \<and> all_grounded rules sts"
  by (auto simp: all_grounded_def)

text \<open>A run on stacks that stays without error and collects only grounded stacks.\<close>

definition safe_run :: "grammar_rule list \<Rightarrow> (grammar_error, grammar_stack list) result option \<Rightarrow> bool"
  where "safe_run rules r \<longleftrightarrow>
    (case r of None \<Rightarrow> True | Some (Inl e) \<Rightarrow> False | Some (Inr sts) \<Rightarrow> all_grounded rules sts)"

lemma safe_run_simps [simp]:
  "safe_run rules None" "safe_run rules (Some (Inr sts)) = all_grounded rules sts"
  "\<not> safe_run rules (Some (Inl e))"
  by (simp_all add: safe_run_def)

lemma safe_run_bind:
  "safe_run rules r \<Longrightarrow> (\<And>sts. r = Some (Inr sts) \<Longrightarrow> all_grounded rules sts \<Longrightarrow> safe_run rules (f sts))
     \<Longrightarrow> safe_run rules (bind_run r f)"
  by (auto simp: safe_run_def bind_run_def split: option.splits sum.splits)

lemma safe_advance:
  assumes "well_shaped rules" "grounded rules st" "all_grounded rules acc"
  shows "safe_run rules (advance_stack rules st acc)"
proof (cases "advance_stack rules st acc")
  case (Some r)
  then have run: "advance_loop rules [st] {} acc = Some r" by (simp add: advance_stack_def)
  obtain acc' where r: "r = Inr acc'"
    using adv.run_no_fault [OF run] grounded_leads [OF _ assms(1)] grounded_top assms(2) by force
  have "set acc' = set acc \<union> {y. adv.leads rules st y \<and> top_settles rules y}"
    using adv.run_result [of rules "[st]" acc acc'] run r by simp
  with assms grounded_leads have "all_grounded rules acc'" by (auto simp: all_grounded_def)
  with Some r show ?thesis by simp
qed simp

lemma safe_accept_chr:
  assumes "well_shaped rules" "grounded rules st" "top_settles rules st" "all_grounded rules acc"
  shows "safe_run rules (accept_chr rules c st acc)"
  using assms(3)
proof (cases rule: top_kinds)
  case (2 pos below)
  with assms have "grounded rules (resume rules (class_end rules pos) below)"
    by (auto intro!: grounded_resume boundary_class)
  with 2 assms class_not_token [OF 2(2)] show ?thesis
    by (simp add: accept_chr_def match_char_eq safe_advance)
qed (use assms in \<open>auto simp: accept_chr_def\<close>)

lemma safe_accept_chr_each:
  "well_shaped rules \<Longrightarrow> all_grounded rules sts \<Longrightarrow> all_grounded rules acc \<Longrightarrow>
     safe_run rules (accept_chr_each rules c sts acc)"
  by (induction sts arbitrary: acc) (auto intro: safe_run_bind safe_accept_chr)

lemma safe_walk_chars:
  "well_shaped rules \<Longrightarrow> all_grounded rules sts \<Longrightarrow> safe_run rules (walk_chars rules cps sts)"
  by (induction cps arbitrary: sts) (auto intro!: safe_run_bind safe_accept_chr_each)

lemma all_grounded_fold:
  "all_grounded rules xs \<Longrightarrow> all_grounded rules acc \<Longrightarrow> all_grounded rules (fold push_new xs acc)"
  by (auto simp: all_grounded_def set_fold_push_new)

lemma safe_accept_stack:
  assumes "well_shaped rules" "grounded rules st" "top_settles rules st" "all_grounded rules acc"
  shows "safe_run rules (accept_stack rules t cps st acc)"
  using assms(3)
proof (cases rule: top_kinds)
  case (2 pos below)
  have "safe_run rules (walk_chars rules cps [st])" using assms by (intro safe_walk_chars) auto
  with 2 assms(4) class_not_token [OF 2(2)] show ?thesis
    by (auto simp: accept_stack_def Let_def intro!: safe_run_bind all_grounded_fold)
next
  case (3 pos below)
  with assms(2) have "grounded rules (resume rules (rp_next pos) below)"
    by (auto intro!: grounded_resume boundary_next [OF boundary_inside])
  with 3 assms show ?thesis by (auto simp: accept_stack_def Let_def safe_advance)
qed (use assms in \<open>simp add: accept_stack_def\<close>)

lemma safe_accept_stacks:
  "well_shaped rules \<Longrightarrow> all_grounded rules sts \<Longrightarrow> all_grounded rules acc \<Longrightarrow>
     safe_run rules (accept_stacks rules t cps sts acc)"
  by (induction sts arbitrary: acc) (auto intro: safe_run_bind safe_accept_stack)

lemma safe_initial_stacks:
  "well_shaped rules \<Longrightarrow> \<forall>pos \<in> set starts. boundary rules pos \<Longrightarrow> all_grounded rules acc \<Longrightarrow>
     safe_run rules (initial_stacks rules starts acc)"
  by (induction starts arbitrary: acc) (auto intro!: safe_run_bind safe_advance grounded_resume)

definition healthy :: "'rx grammar \<Rightarrow> bool" where
  "healthy g \<longleftrightarrow> well_shaped (gr_rules g) \<and> all_grounded (gr_rules g) (gr_stacks g)"

lemma accept_token_now_healthy:
  assumes "healthy g" "accept_token_now t p g = Some (r, g')"
  shows "healthy g' \<and> (r = Inr () \<or> r = Inl (NoViableStack p))"
  using safe_accept_stacks [of "gr_rules g" "gr_stacks g" "[]" t "butlast (fst (decode_piece p (gr_partial g)))"]
    assms
  by (auto simp: accept_token_now_def healthy_def split: prod.splits option.splits sum.splits)

lemma from_rules_healthy:
  assumes "from_rules rules start name_of = Some (Inr g)" "well_shaped rules"
  shows "healthy g"
proof -
  from assms obtain stacks where
    a: "initial_stacks rules (alternates rules (RulePos start 0)) [] = Some (Inr stacks)"
    and g: "gr_rules g = rules" "gr_stacks g = stacks" and r: "start < length rules"
    by (auto simp: from_rules_def Let_def bind_run_ok_iff split: option.splits if_splits)
  have "safe_run rules (initial_stacks rules (alternates rules (RulePos start 0)) [])"
    using alternates_boundary [OF boundary_start [OF assms(2) r]] assms(2)
    by (intro safe_initial_stacks) auto
  with a g assms(2) show ?thesis by (simp add: healthy_def)
qed

lemma accept_replay_healthy:
  "healthy g \<Longrightarrow> accept_replay h g = Some (r, g') \<Longrightarrow>
     healthy g' \<and> (r = Inr () \<or> (\<exists>p. r = Inl (NoViableStack p)))"
proof (induction h g rule: accept_replay.induct)
  case (2 tok piece h g)
  show ?case
  proof (cases "\<exists>g1. accept_token_now tok piece g = Some (Inr (), g1)")
    case True
    then obtain g1 where one: "accept_token_now tok piece g = Some (Inr (), g1)" ..
    with "2.prems"(2) "2.IH" [OF one refl] accept_token_now_healthy [OF "2.prems"(1) one]
    show ?thesis by simp
  next
    case False
    with "2.prems"(2) have "accept_token_now tok piece g = Some (r, g')"
      by (auto split: option.splits prod.splits sum.splits)
    with accept_token_now_healthy [OF "2.prems"(1)] show ?thesis by blast
  qed
qed simp

section \<open>Termination\<close>

text \<open>A sequence all of whose items are references to rules in \<open>E\<close>.\<close>

function vanishes :: "(nat \<Rightarrow> bool) \<Rightarrow> grammar_rule list \<Rightarrow> rule_pos \<Rightarrow> bool" where
  "vanishes E rules pos \<longleftrightarrow>
     (if ends rules pos then True
      else if ge_type (elem rules pos) = GreRuleRef
              \<and> E (unat (ge_value (elem rules pos)))
      then vanishes E rules (rp_next pos) else False)"
  by pat_completeness auto
termination
  by (relation "measure (\<lambda>(E, rules, pos). rule_left rules pos)") (auto intro: rule_left_less')

declare vanishes.simps [simp del]

text \<open>A set of rules that holds every rule with an alternate that vanishes.\<close>

definition closed_empties :: "(nat \<Rightarrow> bool) \<Rightarrow> grammar_rule list \<Rightarrow> bool" where
  "closed_empties E rules \<longleftrightarrow>
     (\<forall>r < length rules. (\<exists>start \<in> set (alternates rules (RulePos r 0)). vanishes E rules start)
        \<longrightarrow> E r)"

definition stack_bounded :: "grammar_rule list \<Rightarrow> grammar_stack \<Rightarrow> bool" where
  "stack_bounded rules st = adv.bounded rules st"

definition rule_bounded :: "(nat \<Rightarrow> bool) \<Rightarrow> grammar_rule list \<Rightarrow> nat \<Rightarrow> bool" where
  "rule_bounded E rules r \<longleftrightarrow>
     (\<forall>start \<in> set (alternates rules (RulePos r 0)). \<forall>below.
        (E r \<longrightarrow> stack_bounded rules below)
          \<longrightarrow> stack_bounded rules (resume rules start below))"

lemma stack_bounded_leaf: "\<not> top_expands rules st \<Longrightarrow> stack_bounded rules st"
  unfolding stack_bounded_def by (rule adv.boundedI) simp

lemma stack_bounded_reference:
  assumes ref: "ge_type (elem rules pos) = GreRuleRef"
    and t: "rule_bounded E rules (unat (ge_value (elem rules pos)))"
    and rest: "E (unat (ge_value (elem rules pos))) \<Longrightarrow>
      stack_bounded rules (resume rules (rp_next pos) below)"
  shows "stack_bounded rules (pos # below)"
  unfolding stack_bounded_def
proof (rule adv.boundedI)
  fix y assume "y \<in> set (top_succs rules (pos # below))"
  then obtain start where
    y: "y = resume rules start (resume rules (rp_next pos) below)"
    and start: "start \<in> set (alternates rules (RulePos (unat (ge_value (elem rules pos))) 0))"
    by (auto simp: top_succs_def expand_ref_def)
  with t rest show "adv.bounded rules y" by (auto simp: rule_bounded_def stack_bounded_def)
qed

text \<open>The left end of a sequence, with what is below it bounded if the sequence vanishes.\<close>

lemma sequence_bounded:
  "(vanishes E rules pos \<Longrightarrow> stack_bounded rules below) \<Longrightarrow>
   (\<forall>e \<in> set (drop (rp_index pos) (rules ! rp_rule pos)).
      ge_type e = GreRuleRef \<longrightarrow> unat (ge_value e) < length rules) \<Longrightarrow>
   (\<And>t. t \<in> set (left_refs E rules True (drop (rp_index pos) (rules ! rp_rule pos))) \<Longrightarrow>
      rule_bounded E rules t) \<Longrightarrow>
   stack_bounded rules (resume rules pos below)"
proof (induction E rules pos rule: vanishes.induct)
  case (1 E rules pos)
  show ?case
  proof (cases "ends rules pos")
    case True
    with "1.prems"(1) show ?thesis by (simp add: resume_def vanishes.simps [of E rules pos])
  next
    case False
    show ?thesis
    proof (cases "ge_type (elem rules pos) = GreRuleRef")
      case ref: True
      define t where "t = unat (ge_value (elem rules pos))"
      have inr: "rp_rule pos < length rules" "rp_index pos < length (rules ! rp_rule pos)"
        using not_ends_in_range [OF False] by auto
      then have d: "drop (rp_index pos) (rules ! rp_rule pos)
          = elem rules pos # drop (Suc (rp_index pos)) (rules ! rp_rule pos)"
        by (simp add: elem_def Cons_nth_drop_Suc)
      have t: "t < length rules" using "1.prems"(2) d ref by (simp add: t_def)
      then have refs: "left_refs E rules True (drop (rp_index pos) (rules ! rp_rule pos))
          = t # left_refs E rules (E t) (drop (Suc (rp_index pos)) (rules ! rp_rule pos))"
        unfolding d using ref by (simp add: Let_def t_def)
      have "stack_bounded rules (pos # below)"
      proof (rule stack_bounded_reference [OF ref])
        show "rule_bounded E rules (unat (ge_value (elem rules pos)))"
          using "1.prems"(3) refs by (simp add: t_def)
        assume e: "E (unat (ge_value (elem rules pos)))"
        show "stack_bounded rules (resume rules (rp_next pos) below)"
        proof (rule "1.IH")
          show "vanishes E rules (rp_next pos) \<Longrightarrow> stack_bounded rules below"
            using "1.prems"(1) False ref e by (simp add: vanishes.simps [of E rules pos])
        qed (use False ref e "1.prems"(2,3) d refs in \<open>auto simp: t_def\<close>)
      qed
      with False show ?thesis by (simp add: resume_def)
    next
      case False
      then have "\<not> top_expands rules (pos # below)" by (simp add: top_expands_def)
      with \<open>\<not> ends rules pos\<close> show ?thesis by (simp add: resume_def stack_bounded_leaf)
    qed
  qed
qed

lemma left_refs_after_end:
  "is_end_of_sequence e \<Longrightarrow>
     set (left_refs E rules True post) \<subseteq> set (left_refs E rules recurse (pre @ e # post))"
proof (induction pre arbitrary: recurse)
  case Nil
  then show ?case by (auto simp: is_end_of_sequence_def)
next
  case (Cons x pre)
  then show ?case by (auto simp: Let_def)
qed

lemma left_refs_alternates:
  "start \<in> set (alternates rules pos) \<Longrightarrow>
     rp_rule start = rp_rule pos
     \<and> set (left_refs E rules True (drop (rp_index start) (rules ! rp_rule pos)))
         \<subseteq> set (left_refs E rules True (drop (rp_index pos) (rules ! rp_rule pos)))"
proof (induction rules pos rule: alternates.induct)
  case (1 rules pos)
  define stop where "stop = skip_to_end rules pos"
  consider "start = pos"
    | "ge_type (elem rules stop) = GreAlt" "start \<in> set (alternates rules (rp_next stop))"
    using "1.prems" by (auto simp: alternates.simps [of rules pos] Let_def stop_def split: if_splits)
  then show ?case
  proof cases
    case 2
    let ?rule = "rules ! rp_rule pos"
    have le: "rp_index pos \<le> rp_index stop" by (simp add: stop_def skip_to_end_index)
    have inr: "rp_rule pos < length rules" "rp_index stop < length ?rule"
      using elem_in_range [of rules stop] 2(1) by (simp_all add: stop_def)
    then have "drop (rp_index stop) ?rule = elem rules stop # drop (Suc (rp_index stop)) ?rule"
      by (simp add: elem_def stop_def Cons_nth_drop_Suc)
    then have d: "drop (rp_index pos) ?rule
        = take (rp_index stop - rp_index pos) (drop (rp_index pos) ?rule)
          @ elem rules stop # drop (Suc (rp_index stop)) ?rule"
      using le by (metis append_take_drop_id drop_drop le_add_diff_inverse2)
    have "is_end_of_sequence (elem rules stop)" using 2(1) by (simp add: is_end_of_sequence_def)
    from left_refs_after_end [OF this]
    have "set (left_refs E rules True (drop (Suc (rp_index stop)) ?rule))
        \<subseteq> set (left_refs E rules True (drop (rp_index pos) ?rule))"
      by (subst d) blast
    moreover have "rp_rule start = rp_rule pos
        \<and> set (left_refs E rules True (drop (rp_index start) ?rule))
            \<subseteq> set (left_refs E rules True (drop (Suc (rp_index stop)) ?rule))"
      using "1.IH" [OF refl] 2 by (simp add: stop_def)
    ultimately show ?thesis by blast
  qed simp
qed

lemma left_finite_bounded:
  assumes "left_finite E rules r" "well_shaped rules" "closed_empties E rules" "r < length rules"
  shows "rule_bounded E rules r"
  using assms(1) assms(4) unfolding left_finite_def
proof (induction r rule: accp.induct)
  case (accI r)
  show ?case
    unfolding rule_bounded_def
  proof (intro ballI allI impI)
    fix start below
    assume start: "start \<in> set (alternates rules (RulePos r 0))"
      and below: "E r \<longrightarrow> stack_bounded rules below"
    from left_refs_alternates [OF start] have rr: "rp_rule start = r"
      and sub: "set (left_refs E rules True (drop (rp_index start) (rules ! r)))
        \<subseteq> set (left_refs E rules True (rules ! r))" by simp_all
    show "stack_bounded rules (resume rules start below)"
    proof (rule sequence_bounded)
      show "stack_bounded rules below" if "vanishes E rules start"
        using that start below assms(3) accI.prems by (auto simp: closed_empties_def)
      show "\<forall>e \<in> set (drop (rp_index start) (rules ! rp_rule start)).
          ge_type e = GreRuleRef \<longrightarrow> unat (ge_value e) < length rules"
        using assms(2) accI.prems rr unfolding well_shaped_def by (metis in_set_dropD nth_mem)
      show "rule_bounded E rules t"
        if "t \<in> set (left_refs E rules True (drop (rp_index start) (rules ! rp_rule start)))" for t
      proof -
        have "left_edge E rules t r" using that sub rr accI.prems by (auto simp: left_edge_def)
        moreover have "t < length rules" using that by (rule left_refs_bound)
        ultimately show ?thesis using accI.IH by blast
      qed
    qed
  qed
qed

text \<open>With every rule bounded, every stack is.\<close>

lemma all_bounded_resume:
  "\<forall>r < length rules. rule_bounded E rules r \<Longrightarrow> well_shaped rules \<Longrightarrow> stack_bounded rules below \<Longrightarrow>
     stack_bounded rules (resume rules pos below)"
proof (induction rules pos rule: skip_to_end.induct)
  case (1 rules pos)
  show ?case
  proof (cases "ends rules pos")
    case False
    show ?thesis
    proof (cases "ge_type (elem rules pos) = GreRuleRef")
      case True
      with 1 False ref_in_range [OF "1.prems"(2) True] show ?thesis
        by (auto simp: resume_def [of rules pos] intro!: stack_bounded_reference)
    next
      case n: False
      with False show ?thesis by (simp add: resume_def stack_bounded_leaf top_expands_def)
    qed
  qed (use 1 in \<open>simp add: resume_def\<close>)
qed

lemma all_bounded:
  assumes "\<forall>r < length rules. rule_bounded E rules r" "well_shaped rules"
  shows "stack_bounded rules st"
proof (induction st)
  case Nil
  show ?case by (rule stack_bounded_leaf) (simp add: top_expands_def)
next
  case (Cons pos st)
  from all_bounded_resume [OF assms Cons, of pos]
  show ?case
    by (cases "ends rules pos")
       (use ends_types [of rules pos] in
         \<open>auto simp: resume_def top_expands_def intro: stack_bounded_leaf\<close>)
qed

definition returning :: "grammar_rule list \<Rightarrow> bool" where
  "returning rules \<longleftrightarrow> (\<forall>st acc. \<exists>r. advance_stack rules st acc = Some r)"

text \<open>
  A grammar without left recursion: no endless chain of references at left ends, where a
  reference is looked past if its rule derives the empty word.
\<close>

definition vanishing :: "grammar_rule list \<Rightarrow> nat \<Rightarrow> bool" where
  "vanishing rules r \<longleftrightarrow> sentence rules r []"

definition no_left_recursion :: "grammar_rule list \<Rightarrow> bool" where
  "no_left_recursion rules \<longleftrightarrow> (\<forall>r < length rules. left_finite (vanishing rules) rules r)"

lemma vanishes_derives: "vanishes (vanishing rules) rules pos \<Longrightarrow> derives rules pos []"
proof (induction "vanishing rules" rules pos rule: vanishes.induct)
  case (1 rules pos)
  show ?case
  proof (cases "ends rules pos")
    case False
    with 1 show ?thesis
      by (auto simp: vanishes.simps [of _ rules pos] derives_reference vanishing_def sentence_def
          split: if_splits)
  qed (rule derives.over)
qed

lemma vanishing_closed: "closed_empties (vanishing rules) rules"
  by (auto simp: closed_empties_def vanishing_def sentence_def dest: vanishes_derives)

lemma no_left_recursion_bounded:
  assumes "well_shaped rules" "no_left_recursion rules"
  shows "stack_bounded rules st"
proof -
  have "\<forall>r < length rules. rule_bounded (vanishing rules) rules r"
    using left_finite_bounded [OF _ assms(1) vanishing_closed] assms(2)
    by (simp add: no_left_recursion_def)
  then show ?thesis using assms(1) by (rule all_bounded)
qed

lemma no_left_recursion_returning:
  assumes "well_shaped rules" "no_left_recursion rules"
  shows "returning rules"
proof -
  have "adv.bounded rules st" for st
    using no_left_recursion_bounded [OF assms] by (simp add: stack_bounded_def)
  then show ?thesis
    unfolding returning_def advance_stack_def by (intro allI adv.run_returns) simp
qed

text \<open>
  When every rule with an alternate that vanishes has an empty alternate, the check sees all
  there is to see.
\<close>

lemma derives_vanishes:
  assumes "closed_empties E rules" "well_shaped rules"
  shows "derives rules pos w \<Longrightarrow> w = [] \<Longrightarrow> vanishes E rules pos"
proof (induction pos w rule: derives.induct)
  case (over pos)
  then show ?case by (simp add: vanishes.simps [of E rules pos])
next
  case (reference pos start u v)
  then have "vanishes E rules start" "vanishes E rules (rp_next pos)" by simp_all
  moreover from this have "E (unat (ge_value (elem rules pos)))"
    using assms ref_in_range [OF assms(2)] reference.hyps(1,2) by (auto simp: closed_empties_def)
  ultimately show ?case using reference.hyps(1) by (simp add: vanishes.simps [of E rules pos])
qed simp_all

lemma vanishing_least:
  assumes "closed_empties E rules" "well_shaped rules" "r < length rules" "vanishing rules r"
  shows "E r"
  using assms derives_vanishes [OF assms(1,2)] by (auto simp: closed_empties_def vanishing_def sentence_def)

lemma left_refs_past: "set (left_refs E rules False es) \<subseteq> set (left_refs E rules b es)"
proof (induction es arbitrary: b)
  case (Cons e es)
  have "ge_type e = GreRuleRef \<Longrightarrow> \<not> is_end_of_sequence e" by (simp add: is_end_of_sequence_def)
  with Cons show ?case by (cases "ge_type e = GreRuleRef") (auto simp: Let_def)
qed simp

lemma left_refs_mono:
  assumes "\<And>r. r < length rules \<Longrightarrow> E r \<Longrightarrow> E' r"
  shows "set (left_refs E rules b es) \<subseteq> set (left_refs E' rules b es)"
proof (induction es arbitrary: b)
  case (Cons e es)
  show ?case
  proof (cases "ge_type e = GreRuleRef \<and> b")
    case True
    let ?t = "unat (ge_value e)"
    have "set (left_refs E rules (E ?t) es) \<subseteq> set (left_refs E' rules (E' ?t) es)" if "?t < length rules"
    proof (cases "E ?t")
      case True
      with assms that Cons show ?thesis by simp
    next
      case False
      with Cons [of False] left_refs_past [of E' rules es "E' ?t"] show ?thesis by auto
    qed
    with True Cons [of b] show ?thesis by (auto simp: Let_def)
  next
    case False
    then have "left_refs D rules b (e # es) = left_refs D rules (is_end_of_sequence e) es" for D
      by auto
    with Cons show ?thesis by simp
  qed
qed simp

lemma checked_no_left_recursion:
  assumes "detect_left_recursion_all rules name_of = Some (Inr ())"
    and "well_shaped rules" "closed_empties (empty_rule rules) rules"
  shows "no_left_recursion rules"
proof -
  have "set (left_refs (vanishing rules) rules b es) \<subseteq> set (left_refs (empty_rule rules) rules b es)" for b es
    by (rule left_refs_mono) (rule vanishing_least [OF assms(3,2)])
  then have "left_edge (vanishing rules) rules \<le> left_edge (empty_rule rules) rules"
    unfolding left_edge_def by (intro predicate2I) blast
  then show ?thesis
    using detect_all_left_finite [OF assms(1)] accp_subset
    unfolding no_left_recursion_def left_finite_def by blast
qed

lemma returning_accept_chr: "returning rules \<Longrightarrow> \<exists>r. accept_chr rules c st acc = Some r"
  by (auto simp: accept_chr_def match_char_eq returning_def split: list.split)

lemma returning_accept_chr_each: "returning rules \<Longrightarrow> \<exists>r. accept_chr_each rules c sts acc = Some r"
  by (induction sts arbitrary: acc) (auto intro!: bind_run_returns returning_accept_chr)

lemma returning_walk_chars: "returning rules \<Longrightarrow> \<exists>r. walk_chars rules cps sts = Some r"
  by (induction cps arbitrary: sts) (auto intro!: bind_run_returns returning_accept_chr_each)

lemma returning_accept_stack: "returning rules \<Longrightarrow> \<exists>r. accept_stack rules t cps st acc = Some r"
  using returning_walk_chars [of rules]
  by (auto simp: accept_stack_def Let_def returning_def split: list.split intro!: bind_run_returns)

lemma returning_accept_stacks: "returning rules \<Longrightarrow> \<exists>r. accept_stacks rules t cps sts acc = Some r"
  by (induction sts arbitrary: acc) (auto intro!: bind_run_returns returning_accept_stack)

lemma returning_initial: "returning rules \<Longrightarrow> \<exists>r. initial_stacks rules starts acc = Some r"
  by (induction starts arbitrary: acc) (auto simp: returning_def intro!: bind_run_returns)

lemma returning_token_now: "returning (gr_rules g) \<Longrightarrow> \<exists>r. accept_token_now t p g = Some r"
proof -
  obtain cps partial where d: "decode_piece p (gr_partial g) = (cps, partial)" by fastforce
  assume "returning (gr_rules g)"
  then obtain x where "accept_stacks (gr_rules g) t (butlast cps) (gr_stacks g) [] = Some x"
    using returning_accept_stacks by blast
  with d show ?thesis by (cases x) (simp_all add: accept_token_now_def)
qed

lemma returning_codepoint: "returning (gr_rules g) \<Longrightarrow> \<exists>r. accept_codepoint c g = Some r"
proof -
  assume "returning (gr_rules g)"
  then obtain x where "accept_chr_each (gr_rules g) c (gr_stacks g) [] = Some x"
    using returning_accept_chr_each by blast
  then show ?thesis by (cases x) (simp_all add: accept_codepoint_def)
qed

lemma returning_replay: "returning (gr_rules g) \<Longrightarrow> \<exists>r. accept_replay h g = Some r"
proof (induction h g rule: accept_replay.induct)
  case (2 tok piece h g)
  obtain r g' where one: "accept_token_now tok piece g = Some (r, g')"
    using returning_token_now [OF "2.prems"] by fastforce
  then have "gr_rules g' = gr_rules g"
    by (auto simp: accept_token_now_def split: prod.splits option.splits sum.splits)
  with 2 one show ?case by (cases r) auto
qed simp

lemma returning_from_rules:
  assumes "returning rules"
  shows "\<exists>r. from_rules rules start name_of = Some r"
  using detect_all_returns [of rules name_of] returning_initial [OF assms]
  by (auto simp: from_rules_def Let_def split: option.split intro!: bind_run_returns)

section \<open>A table that passes the check and never returns\<close>

text \<open>
  \<open>root ::= opt root "x" | "y"\<close> where \<open>opt\<close> is a reference to \<open>"a" | (empty)\<close>: \<open>opt\<close> itself
  has no empty alternate, so the check does not look behind it.
\<close>

definition hidden_rules :: "grammar_rule list" where
  "hidden_rules =
     [[mk_elem GreRuleRef 1, mk_elem GreRuleRef 0, mk_elem GreChar 0x78, mk_elem GreAlt 0,
       mk_elem GreChar 0x79, mk_elem GreEnd 0],
      [mk_elem GreRuleRef 2, mk_elem GreEnd 0],
      [mk_elem GreChar 0x61, mk_elem GreAlt 0, mk_elem GreEnd 0]]"

text \<open>The stacks of the endless descent, by the step they are at.\<close>

fun descent :: "nat \<Rightarrow> grammar_stack" where
  "descent n =
     (if n mod 3 = 0 then [RulePos 0 0]
      else if n mod 3 = 1 then [RulePos 1 0, RulePos 0 1] else [RulePos 0 1])
     @ replicate (n div 3) (RulePos 0 2)"

lemma hidden_table:
  "ends hidden_rules (RulePos 0 0) = False" "ends hidden_rules (RulePos 0 (Suc 0)) = False"
  "ends hidden_rules (RulePos 0 2) = False" "ends hidden_rules (RulePos (Suc 0) 0) = False"
  "ends hidden_rules (RulePos (Suc 0) (Suc 0)) = True" "ends hidden_rules (RulePos 2 2) = True"
  "alternates hidden_rules (RulePos 0 0) = [RulePos 0 0, RulePos 0 4]"
  "alternates hidden_rules (RulePos (Suc 0) 0) = [RulePos (Suc 0) 0]"
  "alternates hidden_rules (RulePos 2 0) = [RulePos 2 0, RulePos 2 2]"
  "elem hidden_rules (RulePos 0 0) = mk_elem GreRuleRef 1"
  "elem hidden_rules (RulePos 0 (Suc 0)) = mk_elem GreRuleRef 0"
  "elem hidden_rules (RulePos (Suc 0) 0) = mk_elem GreRuleRef 2"
  "rp_next (RulePos 0 0) = RulePos 0 (Suc 0)" "rp_next (RulePos 0 (Suc 0)) = RulePos 0 2"
  "rp_next (RulePos (Suc 0) 0) = RulePos (Suc 0) (Suc 0)"
  by code_simp+

lemma mod3: "(n :: nat) mod 3 = 0 \<or> n mod 3 = 1 \<or> n mod 3 = 2"
  by linarith

lemma descent_step:
  "top_expands hidden_rules (descent n) \<and> descent (Suc n) \<in> set (top_succs hidden_rules (descent n))"
  using mod3 [of n]
  by (elim disjE)
     (simp_all add: top_expands_def top_succs_def expand_ref_def hidden_table resume_def mod_Suc div_Suc)

definition descent_rank :: "grammar_stack \<Rightarrow> nat" where
  "descent_rank st =
     (if hd st = RulePos 0 0 then 0 else if hd st = RulePos 1 0 then 1 else 2)
     + 3 * length (filter (\<lambda>p. p = RulePos 0 2) st)"

lemma descent_rank: "descent_rank (descent n) = n"
proof -
  have "n mod 3 + 3 * (n div 3) = n" by simp
  then show ?thesis using mod3 [of n] by (elim disjE) (simp_all add: descent_rank_def)
qed

lemma descent_inject: "descent m = descent n \<Longrightarrow> m = n"
  by (metis descent_rank)

declare descent.simps [simp del]

lemma hidden_shaped: "well_shaped hidden_rules"
  by code_simp

lemma hidden_diverges: "advance_stack hidden_rules (descent 0) acc = None"
proof (rule ccontr)
  assume "advance_stack hidden_rules (descent 0) acc \<noteq> None"
  then obtain r where run: "advance_loop hidden_rules [descent 0] {} acc = Some r"
    by (auto simp: advance_stack_def)
  define P where "P todo seen acc r \<longleftrightarrow>
      \<not> ((\<forall>st \<in> set todo. grounded hidden_rules st)
         \<and> (\<exists>n. descent n \<in> set todo \<and> (\<forall>m \<ge> n. descent m \<notin> seen)))"
    for todo and seen :: "grammar_stack set" and acc :: "grammar_stack list"
      and r :: "(grammar_error, grammar_stack list) result"
  have "P [descent 0] {} acc r"
  proof (rule adv.run_only [where P = P, OF run])
    fix x todo seen acc and r :: "(grammar_error, grammar_stack list) result"
    assume x: "x \<notin> seen" "top_expands hidden_rules x"
      and IH: "P (top_succs hidden_rules x @ todo) (insert x seen) acc r"
    show "P (x # todo) seen acc r"
    proof (unfold P_def, intro notI, elim conjE exE)
      fix n assume g: "\<forall>st \<in> set (x # todo). grounded hidden_rules st"
        and n: "descent n \<in> set (x # todo)" "\<forall>m \<ge> n. descent m \<notin> seen"
      have g': "\<forall>st \<in> set (top_succs hidden_rules x @ todo). grounded hidden_rules st"
        using g grounded_succs [OF hidden_shaped _ x(2)] by auto
      have "\<exists>k. descent k \<in> set (top_succs hidden_rules x @ todo)
          \<and> (\<forall>m \<ge> k. descent m \<notin> insert x seen)"
      proof (cases "\<exists>m \<ge> n. x = descent m")
        case True
        then obtain m where m: "m \<ge> n" "x = descent m" by blast
        then have "\<forall>j \<ge> Suc m. descent j \<notin> insert x seen"
          using n(2) by (auto dest: descent_inject)
        with m descent_step [of m] show ?thesis by (intro exI [of _ "Suc m"]) simp
      next
        case False
        with n show ?thesis by (intro exI [of _ n]) auto
      qed
      with g' IH show False unfolding P_def by blast
    qed
  next
    fix x todo seen acc and r :: "(grammar_error, grammar_stack list) result"
    assume x: "x \<notin> seen" "top_settles hidden_rules x"
      and IH: "P todo (insert x seen) (push_new x acc) r"
    have "descent m \<noteq> x" for m using x(2) descent_step [of m] top_exclusive by blast
    with IH show "P (x # todo) seen acc r" by (auto simp: P_def)
  next
    fix x todo and seen :: "grammar_stack set" and acc :: "grammar_stack list"
    assume "\<not> top_expands hidden_rules x" "\<not> top_settles hidden_rules x"
    then have "\<not> grounded hidden_rules x" using grounded_top by blast
    then show "P (x # todo) seen acc (Inl rest_fault)" by (simp add: P_def)
  qed (auto simp: P_def)
  moreover have "grounded hidden_rules (descent 0)" by code_simp
  ultimately show False by (auto simp: P_def intro: exI [of _ 0])
qed

lemma hidden_passes: "detect_left_recursion_all hidden_rules name_of = Some (Inr ())"
proof -
  have "detect_from hidden_rules [0..<length hidden_rules]
      (let no = replicate (length hidden_rules) False in
       \<lparr>lr_visited = no, lr_in_progress = no, lr_may_be_empty = no\<rparr>) = Some None"
    by code_simp
  then show ?thesis by (simp add: detect_left_recursion_all_def Let_def)
qed

lemma hidden_not_returning: "from_rules hidden_rules 0 name_of = None"
proof -
  have f: "first_unterminated 0 hidden_rules = None"
    "find (dangling hidden_rules) (concat hidden_rules) = None"
    by code_simp+
  have l: "\<not> length hidden_rules \<le> 0" by (simp add: hidden_rules_def)
  have s: "resume hidden_rules (RulePos 0 0) [] = descent 0"
    by (simp add: resume_def hidden_table descent.simps)
  show ?thesis
    unfolding from_rules_def f option.case if_not_P [OF l] hidden_passes
    by (simp add: hidden_table s hidden_diverges)
qed

section \<open>Claims\<close>



lemma sample_no_left_recursion: "well_shaped sample_rules" "no_left_recursion sample_rules"
proof -
  show w: "well_shaped sample_rules" by code_simp
  have "detect_left_recursion_all sample_rules (\<lambda>_. None) = Some (Inr ())"
    "closed_empties (empty_rule sample_rules) sample_rules"
    by code_simp+
  from checked_no_left_recursion [OF this(1) w this(2)] show "no_left_recursion sample_rules" .
qed

text \<open>C13.  Every operation returns on a well-shaped table without left recursion: construction
  answers, and after it so does every acceptance, of any token sequence and any code point;
  and the table is without left recursion whenever it passes the check and every rule that
  can vanish has an empty alternate.\<close>

theorem operations_return:
  assumes "well_shaped rules" "no_left_recursion rules"
  shows "(\<exists>r. from_rules rules start name_of = Some r)
    \<and> (from_rules rules start name_of = Some (Inr g) \<longrightarrow>
         (\<exists>r. accept_tokens eng h g = Some r) \<and> (\<exists>r. accept_codepoint c g = Some r))"
proof (intro conjI impI)
  note ret = no_left_recursion_returning [OF assms]
  show "\<exists>r. from_rules rules start name_of = Some r" by (rule returning_from_rules [OF ret])
  assume ok: "from_rules rules start name_of = Some (Inr g)"
  have rules: "gr_rules g = rules" using from_rules_represents [OF ok] by simp
  have n: "\<not> is_awaiting_trigger g"
    using from_rules_represents [OF ok] by (simp add: is_awaiting_trigger_def)
  show "\<exists>r. accept_tokens eng h g = Some r"
    using returning_replay [of g h] ret by (simp add: accept_tokens_replay [OF n] rules)
  show "\<exists>r. accept_codepoint c g = Some r"
    using returning_codepoint [of g c] ret by (simp add: rules)
qed

theorem operations_return_witness:
  "\<exists>r. accept_tokens literal_engine [(1, [0x61]), (2, [0x63]), (3, [0x61])] sample_grammar = Some r"
  using operations_return [OF sample_no_left_recursion, of 0 "\<lambda>_. None" sample_grammar]
    sample_from_rules by blast

text \<open>The check is not enough: there is a well-shaped rule table that passes the
  left-recursion check and on which construction does not return, because the check takes a
  rule to vanish only if one of its own alternates is empty.\<close>

theorem check_misses_hidden_recursion:
  "well_shaped hidden_rules
   \<and> detect_left_recursion_all hidden_rules name_of = Some (Inr ())
   \<and> from_rules hidden_rules 0 name_of = None"
  using hidden_shaped hidden_passes hidden_not_returning by blast

end
