(* ===== verification/Grammar_Candidates.thy ===== *)
theory Grammar_Candidates
  imports Grammar_Total "HOL-Library.Multiset"
begin

text \<open>
  The mask of \<^verbatim>\<open>grammar/candidates.rs\<close>: which candidate tokens no viable stack
  accepts.  The decoded pieces live in an arena and a candidate is a cursor into it, as in
  the code.  The walk descends one code point per level; its fuel is the length of the
  longest decoded piece, which the terminating zeros make enough.

  The lemmas show that the shared-prefix walk rejects exactly the candidates that the
  per-candidate definition rejects, and when that agrees with accepting the token.
\<close>

section \<open>The code\<close>

record candidate =
  cn_index :: nat
  cn_id :: u32
  cn_piece :: bytes

record cand =
  cd_index :: nat
  cd_id :: u32
  cd_slot :: nat
  cd_off :: nat
  cd_partial :: partial_utf8

type_synonym arena = "u32 list list"

definition cd_char :: "arena \<Rightarrow> cand \<Rightarrow> u32" where
  "cd_char arena tok = arena ! cd_slot tok ! cd_off tok"

definition cd_advance :: "cand \<Rightarrow> cand" where
  "cd_advance tok = tok\<lparr>cd_off := cd_off tok + 1\<rparr>"

definition cd_back :: "cand \<Rightarrow> cand" where
  "cd_back tok = tok\<lparr>cd_off := cd_off tok - 1\<rparr>"

text \<open>The stack is empty: only a token that contributes nothing survives.\<close>

definition rejects_satisfied :: "arena \<Rightarrow> cand list \<Rightarrow> cand list" where
  "rejects_satisfied arena candidates =
     filter (\<lambda>tok. cd_char arena tok \<noteq> 0 \<or> pu_n_remain (cd_partial tok) \<noteq> 0) candidates"

text \<open>The stack rests on a token element.\<close>

definition rejects_token :: "arena \<Rightarrow> grammar_element \<Rightarrow> cand list \<Rightarrow> cand list" where
  "rejects_token arena e candidates =
     filter (\<lambda>tok. if cd_char arena tok = 0 then pu_n_remain (cd_partial tok) \<noteq> 0
                   else \<not> match_token e (cd_id tok)) candidates"

text \<open>The stack rests on a character class: the rejects, and the candidates that go on.\<close>

fun sort_candidates ::
  "grammar_rule list \<Rightarrow> rule_pos \<Rightarrow> arena \<Rightarrow> cand list \<Rightarrow> cand list \<Rightarrow> cand list
    \<Rightarrow> (grammar_error, cand list \<times> cand list) result" where
  "sort_candidates rules pos arena [] rejects next_candidates = Inr (rejects, next_candidates)"
| "sort_candidates rules pos arena (tok # toks) rejects next_candidates =
     (if cd_char arena tok = 0
      then if pu_n_remain (cd_partial tok) \<noteq> 0
        then bind_ok (match_partial_char rules pos (cd_partial tok)) (\<lambda>ok.
          sort_candidates rules pos arena toks (if ok then rejects else rejects @ [tok]) next_candidates)
        else sort_candidates rules pos arena toks rejects next_candidates
      else bind_ok (match_char rules pos (cd_char arena tok)) (\<lambda>(ok, _).
        if ok then sort_candidates rules pos arena toks rejects (next_candidates @ [cd_advance tok])
        else sort_candidates rules pos arena toks (rejects @ [tok]) next_candidates))"

type_synonym stack_reject =
  "grammar_stack \<Rightarrow> cand list \<Rightarrow> (grammar_error, cand list) result option"

text \<open>\<open>reject_over_stacks\<close>, over what a single stack rejects.\<close>

fun reject_over_rest ::
  "stack_reject \<Rightarrow> grammar_stack list \<Rightarrow> cand list \<Rightarrow> (grammar_error, cand list) result option" where
  "reject_over_rest for_stack [] rejects = Some (Inr rejects)"
| "reject_over_rest for_stack (stack # stacks) rejects =
     (if rejects = [] then Some (Inr [])
      else bind_run (for_stack stack rejects) (reject_over_rest for_stack stacks))"

definition reject_over_stacks ::
  "stack_reject \<Rightarrow> grammar_stack list \<Rightarrow> cand list \<Rightarrow> (grammar_error, cand list) result option" where
  "reject_over_stacks for_stack stacks candidates =
     (case stacks of
        [] \<Rightarrow> Some (Inl (Internal ''reject_over_stacks called with no stacks''))
      | stack # rest \<Rightarrow>
          if candidates = [] then Some (Inr [])
          else bind_run (for_stack stack candidates) (reject_over_rest for_stack rest))"

primrec reject_for_stack :: "nat \<Rightarrow> grammar_rule list \<Rightarrow> arena \<Rightarrow> stack_reject" where
  "reject_for_stack 0 rules arena = (\<lambda>stack candidates. None)"
| "reject_for_stack (Suc fuel) rules arena = (\<lambda>stack candidates.
     case stack of
        [] \<Rightarrow> Some (Inr (rejects_satisfied arena candidates))
      | pos # below \<Rightarrow>
          if ge_type (elem rules pos) \<in> {GreToken, GreTokenNot}
          then Some (Inr (rejects_token arena (elem rules pos) candidates))
          else bind_run (Some (sort_candidates rules pos arena candidates [] []))
                 (\<lambda>(rejects, next_candidates).
            bind_run (Some (match_char rules pos 0)) (\<lambda>(_, pos_after).
            bind_run (advance_stack rules (resume rules pos_after below) []) (\<lambda>next_stacks.
            bind_run (reject_over_stacks (reject_for_stack fuel rules arena) next_stacks
                        next_candidates)
              (\<lambda>next_rejects. Some (Inr (rejects @ map cd_back next_rejects)))))))"

fun decode_candidates ::
  "partial_utf8 \<Rightarrow> nat \<Rightarrow> candidate list \<Rightarrow> arena \<times> cand list" where
  "decode_candidates carried slot [] = ([], [])"
| "decode_candidates carried slot (c # cs) =
     (let (code_points, partial) = decode_piece (cn_piece c) carried;
          (arena, cands) = decode_candidates carried (Suc slot) cs
      in (code_points # arena,
          \<lparr>cd_index = cn_index c, cd_id = cn_id c, cd_slot = slot, cd_off = 0,
           cd_partial = partial\<rparr> # cands))"

definition longest :: "arena \<Rightarrow> nat" where
  "longest arena = foldr max (map length arena) 0"

definition reject_candidates ::
  "'rx grammar \<Rightarrow> candidate list \<Rightarrow> (grammar_error, nat list) result option" where
  "reject_candidates g candidates =
     (if is_awaiting_trigger g then Some (Inl AwaitingTrigger)
      else if candidates = [] then Some (Inr [])
      else if gr_stacks g = [] then Some (Inr (map cn_index candidates))
      else let (arena, cands) = decode_candidates (gr_partial g) 0 candidates in
        bind_run (reject_over_stacks (reject_for_stack (longest arena) (gr_rules g) arena)
                    (gr_stacks g) cands)
          (\<lambda>rejects. Some (Inr (map cd_index rejects))))"

definition accepts_token ::
  "'rx grammar \<Rightarrow> u32 \<Rightarrow> bytes \<Rightarrow> (grammar_error, bool) result option" where
  "accepts_token g token piece =
     bind_run (reject_candidates g [\<lparr>cn_index = 0, cn_id = token, cn_piece = piece\<rparr>])
       (\<lambda>rejects. Some (Inr (rejects = [])))"

section \<open>One candidate at a time\<close>

text \<open>The specification: does a stack admit a token with these code points and this trailing
  partial sequence?\<close>

definition advanced :: "grammar_rule list \<Rightarrow> grammar_stack \<Rightarrow> grammar_stack list" where
  "advanced rules st = (case advance_stack rules st [] of Some (Inr sts) \<Rightarrow> sts | _ \<Rightarrow> [])"

fun admits ::
  "grammar_rule list \<Rightarrow> u32 \<Rightarrow> partial_utf8 \<Rightarrow> u32 list \<Rightarrow> grammar_stack \<Rightarrow> bool" where
  "admits rules token partial [] st \<longleftrightarrow>
     pu_n_remain partial = 0
     \<or> (\<exists>pos below. st = pos # below \<and> match_partial_char rules pos partial = Inr True)"
| "admits rules token partial (c # cs) st \<longleftrightarrow>
     (case st of
        [] \<Rightarrow> False
      | pos # below \<Rightarrow>
          if ge_type (elem rules pos) \<in> {GreToken, GreTokenNot} then match_token (elem rules pos) token
          else in_class rules pos c
            \<and> (\<exists>st' \<in> set (advanced rules (resume rules (class_end rules pos) below)).
                  admits rules token partial cs st'))"

text \<open>What is left of a candidate's code points: the walk stops at a zero.\<close>

definition cd_rest :: "arena \<Rightarrow> cand \<Rightarrow> u32 list" where
  "cd_rest arena tok = takeWhile (\<lambda>c. c \<noteq> 0) (drop (cd_off tok) (arena ! cd_slot tok))"

definition cd_ok :: "arena \<Rightarrow> cand \<Rightarrow> bool" where
  "cd_ok arena tok \<longleftrightarrow>
     cd_off tok < length (arena ! cd_slot tok) \<and> last (arena ! cd_slot tok) = 0"

definition cd_admitted :: "grammar_rule list \<Rightarrow> arena \<Rightarrow> grammar_stack \<Rightarrow> cand \<Rightarrow> bool" where
  "cd_admitted rules arena st tok =
     admits rules (cd_id tok) (cd_partial tok) (cd_rest arena tok) st"

lemma cd_rest_zero: "cd_ok arena tok \<Longrightarrow> cd_char arena tok = 0 \<Longrightarrow> cd_rest arena tok = []"
  by (simp add: cd_ok_def cd_char_def cd_rest_def Cons_nth_drop_Suc [symmetric])

lemma cd_rest_char:
  assumes "cd_ok arena tok" "cd_char arena tok \<noteq> 0"
  shows "cd_rest arena tok = cd_char arena tok # cd_rest arena (cd_advance tok)"
    and "cd_ok arena (cd_advance tok)"
proof -
  show "cd_rest arena tok = cd_char arena tok # cd_rest arena (cd_advance tok)"
    using assms
    by (simp add: cd_ok_def cd_char_def cd_rest_def cd_advance_def Cons_nth_drop_Suc [symmetric])
  have "Suc (cd_off tok) \<noteq> length (arena ! cd_slot tok)"
  proof
    assume l: "Suc (cd_off tok) = length (arena ! cd_slot tok)"
    then have "last (arena ! cd_slot tok) = cd_char arena tok"
      by (metis cd_char_def diff_Suc_1 last_conv_nth length_greater_0_conv zero_less_Suc)
    with assms show False by (simp add: cd_ok_def)
  qed
  with assms(1) show "cd_ok arena (cd_advance tok)"
    by (simp add: cd_ok_def cd_advance_def)
qed

lemma cd_advance_simps [simp]:
  "cd_id (cd_advance tok) = cd_id tok" "cd_partial (cd_advance tok) = cd_partial tok"
  "cd_back (cd_advance tok) = tok" "cd_index (cd_advance tok) = cd_index tok"
  by (simp_all add: cd_advance_def cd_back_def)

section \<open>The walk rejects exactly what no stack admits\<close>

definition tame :: "grammar_rule list \<Rightarrow> bool" where
  "tame rules \<longleftrightarrow> well_shaped rules \<and> (\<forall>st. stack_bounded rules st)"

lemma settled_reached:
  assumes "stack_bounded rules st" "well_shaped rules" "grounded rules st"
  shows "\<exists>y. adv.leads rules st y \<and> top_settles rules y"
  using assms unfolding stack_bounded_def adv.bounded_def
proof (induction st rule: accp.induct)
  case (accI st)
  show ?case
  proof (cases "top_expands rules st")
    case True
    then have "top_succs rules st \<noteq> []"
      by (auto simp: top_succs_def expand_ref_def alternates.simps [of rules "RulePos n 0" for n])
    then obtain s where s: "s \<in> set (top_succs rules st)" by (metis list.set_intros(1) list.exhaust)
    then have "adv.child rules s st" using True by (simp add: adv.child_def)
    moreover have "grounded rules s" by (rule grounded_succs [OF accI.prems(1,2) True s])
    ultimately obtain y where "adv.leads rules s y" "top_settles rules y"
      using accI.IH accI.prems(1) by blast
    with True s show ?thesis by (blast intro: adv.leads.expand)
  next
    case False
    with grounded_top [OF accI.prems(2)] show ?thesis by (blast intro: adv.leads.here)
  qed
qed

lemma advanced_tame:
  assumes "tame rules" "grounded rules st"
  shows "advance_stack rules st [] = Some (Inr (advanced rules st))"
    and "all_grounded rules (advanced rules st)" and "advanced rules st \<noteq> []"
proof -
  from assms(1) have ws: "well_shaped rules" and b: "stack_bounded rules st" for st
    by (simp_all add: tame_def)
  obtain r where r: "advance_stack rules st [] = Some r"
    using adv.run_returns [of "[st]" rules "{}" "[]"] b [of st]
    by (auto simp: advance_stack_def stack_bounded_def)
  with safe_advance [OF ws assms(2), of "[]"] obtain sts where sts: "r = Inr sts" "all_grounded rules sts"
    by (cases r) auto
  with r show "advance_stack rules st [] = Some (Inr (advanced rules st))"
    "all_grounded rules (advanced rules st)"
    by (simp_all add: advanced_def)
  have "set sts = {y. adv.leads rules st y \<and> top_settles rules y}"
    using adv.run_result [of rules "[st]" "[]" sts] r sts(1) by (simp add: advance_stack_def)
  with settled_reached [OF b ws assms(2)] have "set sts \<noteq> {}" by auto
  with r sts(1) show "advanced rules st \<noteq> []" by (auto simp: advanced_def)
qed

lemma over_rest_exact:
  assumes "\<And>st toks. st \<in> set sts \<Longrightarrow> \<forall>t \<in> set toks. Q t \<Longrightarrow>
      \<exists>rej. f st toks = Some (Inr rej) \<and> mset rej = mset (filter (\<lambda>t. \<not> A st t) toks)"
    and "\<forall>t \<in> set toks. Q t"
  shows "\<exists>rej. reject_over_rest f sts toks = Some (Inr rej)
    \<and> mset rej = mset (filter (\<lambda>t. \<forall>st \<in> set sts. \<not> A st t) toks)"
  using assms
proof (induction sts arbitrary: toks)
  case (Cons st sts)
  show ?case
  proof (cases "toks = []")
    case False
    obtain rej where rej: "f st toks = Some (Inr rej)"
      and m: "mset rej = mset (filter (\<lambda>t. \<not> A st t) toks)"
      using Cons.prems(1) [of st toks] Cons.prems(2) by auto
    have "set rej \<subseteq> set toks" using m by (metis filter_is_subset set_mset_mset)
    then have "\<forall>t \<in> set rej. Q t" using Cons.prems(2) by blast
    with Cons.IH [of rej] Cons.prems(1) obtain rej' where
      rej': "reject_over_rest f sts rej = Some (Inr rej')"
      and m': "mset rej' = mset (filter (\<lambda>t. \<forall>st \<in> set sts. \<not> A st t) rej)"
      by auto
    have "mset rej' = mset (filter (\<lambda>t. \<forall>s \<in> set (st # sts). \<not> A s t) toks)"
      using m m' by (simp add: filter_filter_mset mset_filter)
    with False rej rej' show ?thesis by simp
  qed simp
qed simp

lemma over_stacks_exact:
  assumes "\<And>st toks. st \<in> set sts \<Longrightarrow> \<forall>t \<in> set toks. Q t \<Longrightarrow>
      \<exists>rej. f st toks = Some (Inr rej) \<and> mset rej = mset (filter (\<lambda>t. \<not> A st t) toks)"
    and "\<forall>t \<in> set toks. Q t" "sts \<noteq> []"
  shows "\<exists>rej. reject_over_stacks f sts toks = Some (Inr rej)
    \<and> mset rej = mset (filter (\<lambda>t. \<forall>st \<in> set sts. \<not> A st t) toks)"
proof (cases sts)
  case (Cons st rest)
  have "reject_over_stacks f sts toks = reject_over_rest f sts toks"
    by (simp add: reject_over_stacks_def Cons)
  with over_rest_exact [of sts Q f A toks] assms(1,2) show ?thesis by simp
qed (use assms(3) in simp)

definition stays :: "grammar_rule list \<Rightarrow> rule_pos \<Rightarrow> arena \<Rightarrow> cand \<Rightarrow> bool" where
  "stays rules pos arena tok \<longleftrightarrow>
     (if cd_char arena tok = 0
      then pu_n_remain (cd_partial tok) = 0 \<or> match_partial_char rules pos (cd_partial tok) = Inr True
      else in_class rules pos (cd_char arena tok))"

lemma match_partial_class:
  "is_class_start (ge_type (elem rules pos)) \<Longrightarrow> \<exists>b. match_partial_char rules pos p = Inr b"
  by (auto simp: match_partial_char_def Let_def)

lemma sort_candidates_eq:
  assumes "is_class_start (ge_type (elem rules pos))"
  shows "sort_candidates rules pos arena toks rejects nxt =
    Inr (rejects @ filter (\<lambda>t. \<not> stays rules pos arena t) toks,
         nxt @ map cd_advance
           (filter (\<lambda>t. cd_char arena t \<noteq> 0 \<and> stays rules pos arena t) toks))"
proof (induction toks arbitrary: rejects nxt)
  case (Cons t toks)
  obtain b where "match_partial_char rules pos (cd_partial t) = Inr b"
    using match_partial_class [OF assms] by blast
  with Cons assms show ?case by (simp add: stays_def match_char_eq)
qed simp

definition within :: "arena \<Rightarrow> nat \<Rightarrow> cand \<Rightarrow> bool" where
  "within arena fuel tok \<longleftrightarrow> cd_ok arena tok \<and> length (cd_rest arena tok) < fuel"

lemma within_advance:
  "within arena (Suc fuel) tok \<Longrightarrow> cd_char arena tok \<noteq> 0 \<Longrightarrow> within arena fuel (cd_advance tok)"
  using cd_rest_char [of arena tok] by (auto simp: within_def)

lemma admitted_top:
  assumes "cd_ok arena tok" "is_class_start (ge_type (elem rules pos))"
  shows "cd_admitted rules arena (pos # below) tok \<longleftrightarrow>
    stays rules pos arena tok
    \<and> (cd_char arena tok \<noteq> 0 \<longrightarrow>
         (\<exists>st \<in> set (advanced rules (resume rules (class_end rules pos) below)).
            cd_admitted rules arena st (cd_advance tok)))"
proof (cases "cd_char arena tok = 0")
  case True
  then show ?thesis using cd_rest_zero [OF assms(1)] by (simp add: cd_admitted_def stays_def)
next
  case False
  with cd_rest_char [OF assms(1)] class_not_token [OF assms(2)] show ?thesis
    by (simp add: cd_admitted_def stays_def)
qed

lemma map_back_advance:
  assumes "mset rej = mset (filter P (map cd_advance toks))"
  shows "mset (map cd_back rej) = mset (filter (\<lambda>t. P (cd_advance t)) toks)"
proof -
  have "mset (map cd_back rej) = image_mset cd_back (mset rej)" by simp
  also have "\<dots> = mset (map cd_back (filter P (map cd_advance toks)))" by (simp add: assms)
  also have "map cd_back (filter P (map cd_advance toks)) = filter (\<lambda>t. P (cd_advance t)) toks"
    by (simp add: filter_map o_def)
  finally show ?thesis .
qed

lemma for_stack_exact:
  assumes "tame rules"
  shows "grounded rules st \<Longrightarrow> top_settles rules st \<Longrightarrow> \<forall>t \<in> set toks. within arena fuel t \<Longrightarrow>
    toks \<noteq> [] \<or> 0 < fuel \<Longrightarrow>
    \<exists>rej. reject_for_stack fuel rules arena st toks = Some (Inr rej)
      \<and> mset rej = mset (filter (\<lambda>t. \<not> cd_admitted rules arena st t) toks)"
proof (induction fuel arbitrary: st toks)
  case 0
  then show ?case by (cases toks) (auto simp: within_def)
next
  case (Suc fuel)
  have ok: "cd_ok arena t" if "t \<in> set toks" for t
    using Suc.prems(3) that by (simp add: within_def)
  from Suc.prems(2) show ?case
  proof (cases rule: top_kinds)
    case 1
    have "(cd_char arena t \<noteq> 0 \<or> pu_n_remain (cd_partial t) \<noteq> 0)
        = (\<not> cd_admitted rules arena [] t)" if "t \<in> set toks" for t
      using cd_rest_zero [OF ok [OF that]] cd_rest_char [OF ok [OF that]]
      by (cases "cd_char arena t = 0") (simp_all add: cd_admitted_def)
    then show ?thesis
      by (simp add: 1 rejects_satisfied_def cong: filter_cong)
  next
    case (3 pos below)
    have m: "\<not> match_partial_char rules pos p = Inr True" for p
      using 3(2) by (auto simp: match_partial_char_def Let_def is_class_start_def is_positive_def)
    have "(if cd_char arena t = 0 then pu_n_remain (cd_partial t) \<noteq> 0
          else \<not> match_token (elem rules pos) (cd_id t))
        = (\<not> cd_admitted rules arena (pos # below) t)" if "t \<in> set toks" for t
      using cd_rest_zero [OF ok [OF that]] cd_rest_char [OF ok [OF that]] 3(2) m
      by (cases "cd_char arena t = 0") (simp_all add: cd_admitted_def)
    with 3 show ?thesis by (simp add: rejects_token_def cong: filter_cong)
  next
    case (2 pos below)
    let ?after = "resume rules (class_end rules pos) below"
    define nxt where "nxt = map cd_advance
      (filter (\<lambda>t. cd_char arena t \<noteq> 0 \<and> stays rules pos arena t) toks)"
    define lost where "lost = filter (\<lambda>t. \<not> stays rules pos arena t) toks"
    have "grounded rules ?after"
      using Suc.prems(1) 2 by (auto intro!: grounded_resume boundary_class)
    note adv' = advanced_tame [OF assms this]
    have w: "\<forall>t \<in> set nxt. within arena fuel t"
      using Suc.prems(3) by (auto simp: nxt_def intro: within_advance)
    obtain rej where rej: "reject_over_stacks (reject_for_stack fuel rules arena)
        (advanced rules ?after) nxt = Some (Inr rej)"
      and mrej: "mset rej = mset (filter (\<lambda>t. \<forall>st \<in> set (advanced rules ?after).
        \<not> cd_admitted rules arena st t) nxt)"
    proof (cases "nxt = []")
      case True
      with adv'(3) that [of "[]"] show ?thesis
        by (cases "advanced rules ?after") (simp_all add: reject_over_stacks_def)
    next
      case False
      then have "0 < fuel" using w by (cases nxt) (auto simp: within_def)
      then show ?thesis
        using over_stacks_exact [of "advanced rules ?after" "within arena fuel"
            "reject_for_stack fuel rules arena" "cd_admitted rules arena" nxt]
          Suc.IH adv'(2,3) w that by (auto simp: all_grounded_def)
    qed
    have run: "reject_for_stack (Suc fuel) rules arena st toks = Some (Inr (lost @ map cd_back rej))"
      using 2(1) class_not_token [OF 2(2)]
      by (simp add: sort_candidates_eq [OF 2(2)] match_char_eq 2(2) adv'(1)
          rej [unfolded nxt_def] lost_def)
    have "mset (map cd_back rej) = mset (filter (\<lambda>t. \<forall>st \<in> set (advanced rules ?after).
        \<not> cd_admitted rules arena st (cd_advance t))
          (filter (\<lambda>t. cd_char arena t \<noteq> 0 \<and> stays rules pos arena t) toks))"
      using map_back_advance [OF mrej [unfolded nxt_def]] .
    then have "mset (lost @ map cd_back rej) =
        mset (filter (\<lambda>t. \<not> stays rules pos arena t) toks)
        + mset (filter (\<lambda>t. stays rules pos arena t \<and> \<not> cd_admitted rules arena st t) toks)"
      using admitted_top [OF ok 2(2)] 2(1)
      by (auto simp: lost_def intro!: filter_mset_cong)
    also have "\<dots> = mset (filter (\<lambda>t. \<not> cd_admitted rules arena st t) toks)"
      using admitted_top [OF ok 2(2), of _ below] 2(1)
      by (induction toks) auto
    finally show ?thesis using run by blast
  qed
qed

section \<open>From the candidates of the caller\<close>

text \<open>What decoding one candidate gives, and that the cursors point at it.\<close>

definition piece_admitted :: "'rx grammar \<Rightarrow> candidate \<Rightarrow> bool" where
  "piece_admitted g c \<longleftrightarrow>
     (let (code_points, partial) = decode_piece (cn_piece c) (gr_partial g) in
      \<exists>st \<in> set (gr_stacks g).
        admits (gr_rules g) (cn_id c) partial (takeWhile (\<lambda>c. c \<noteq> 0) code_points) st)"

lemma decode_candidates_cursors:
  assumes "decode_candidates carried slot cs = (arena, cands)"
  shows "length arena = length cs \<and> length cands = length cs
    \<and> (\<forall>i < length cs. arena ! i = fst (decode_piece (cn_piece (cs ! i)) carried)
        \<and> cands ! i = \<lparr>cd_index = cn_index (cs ! i), cd_id = cn_id (cs ! i), cd_slot = slot + i,
             cd_off = 0, cd_partial = snd (decode_piece (cn_piece (cs ! i)) carried)\<rparr>)"
  using assms
proof (induction carried slot cs arbitrary: arena cands rule: decode_candidates.induct)
  case (2 carried slot c cs)
  obtain a p where d: "decode_piece (cn_piece c) carried = (a, p)" by fastforce
  obtain arena' cands' where rest: "decode_candidates carried (Suc slot) cs = (arena', cands')"
    by fastforce
  have "arena = a # arena'"
    "cands = \<lparr>cd_index = cn_index c, cd_id = cn_id c, cd_slot = slot, cd_off = 0, cd_partial = p\<rparr> # cands'"
    using "2.prems" d rest by (simp_all add: Let_def)
  with "2.IH" [OF _ _ rest] d show ?case by (auto simp: nth_Cons split: nat.splits)
qed simp

lemma longest_bound: "xs \<in> set arena \<Longrightarrow> length xs \<le> longest arena"
  by (induction arena) (auto simp: longest_def)

lemma reject_candidates_exact:
  assumes "tame (gr_rules g)" "all_grounded (gr_rules g) (gr_stacks g)" "\<not> is_awaiting_trigger g"
  shows "\<exists>rejected. reject_candidates g cs = Some (Inr rejected)
    \<and> mset rejected = mset (map cn_index (filter (\<lambda>c. \<not> piece_admitted g c) cs))"
proof (cases "cs = [] \<or> gr_stacks g = []")
  case True
  have "filter (\<lambda>c. \<not> piece_admitted g c) cs = cs" if "gr_stacks g = []"
    using that by (simp add: piece_admitted_def)
  with True assms(3) show ?thesis by (cases "cs = []") (simp_all add: reject_candidates_def)
next
  case False
  obtain arena cands where d: "decode_candidates (gr_partial g) 0 cs = (arena, cands)" by fastforce
  note cur = decode_candidates_cursors [OF d]
  have w: "within arena (longest arena) t" if "t \<in> set cands" for t
  proof -
    from that obtain i where i: "i < length cs" "t = cands ! i" by (metis cur in_set_conv_nth)
    then have a: "arena ! cd_slot t = fst (decode_piece (cn_piece (cs ! i)) (gr_partial g))"
      "cd_off t = 0" using cur by auto
    have mem: "arena ! i \<in> set arena" by (rule nth_mem) (use cur i in simp)
    obtain chars where chars: "fst (decode_piece (cn_piece (cs ! i)) (gr_partial g)) = chars @ [0]"
      using decode_piece_terminated by blast
    have "length (cd_rest arena t) \<le> length chars"
      using a chars by (simp add: cd_rest_def takeWhile_append length_takeWhile_le)
    moreover have "Suc (length chars) \<le> longest arena"
      using longest_bound [OF mem] cur i(1) chars by simp
    ultimately show ?thesis using a chars by (simp add: within_def cd_ok_def)
  qed
  have "0 < longest arena"
  proof -
    obtain t where "t \<in> set cands" using False cur by (cases cands) auto
    from w [OF this] show ?thesis by (simp add: within_def)
  qed
  with over_stacks_exact [of "gr_stacks g" "within arena (longest arena)"
      "reject_for_stack (longest arena) (gr_rules g) arena" "cd_admitted (gr_rules g) arena" cands]
    for_stack_exact [OF assms(1)] assms(2) w False
  obtain rej where
    rej: "reject_over_stacks (reject_for_stack (longest arena) (gr_rules g) arena) (gr_stacks g) cands
      = Some (Inr rej)"
    and m: "mset rej = mset (filter (\<lambda>t. \<forall>st \<in> set (gr_stacks g).
      \<not> cd_admitted (gr_rules g) arena st t) cands)"
    by (auto simp: all_grounded_def)
  have pick: "(\<forall>st \<in> set (gr_stacks g). \<not> cd_admitted (gr_rules g) arena st (cands ! i))
      \<longleftrightarrow> \<not> piece_admitted g (cs ! i)" "cd_index (cands ! i) = cn_index (cs ! i)"
    if "i < length cs" for i
    using cur that by (auto simp: piece_admitted_def cd_admitted_def cd_rest_def split: prod.split)
  have "map cd_index (filter (\<lambda>t. \<forall>st \<in> set (gr_stacks g). \<not> cd_admitted (gr_rules g) arena st t) cands)
      = map cn_index (filter (\<lambda>c. \<not> piece_admitted g c) cs)"
  proof -
    have len: "length cands = length cs" using cur by simp
    have "list_all2 (\<lambda>t c. cd_index t = cn_index c
        \<and> ((\<forall>st \<in> set (gr_stacks g). \<not> cd_admitted (gr_rules g) arena st t)
             \<longleftrightarrow> \<not> piece_admitted g c)) cands cs"
      using pick len by (simp add: list_all2_conv_all_nth)
    then show ?thesis by (induction rule: list_all2_induct) simp_all
  qed
  then have "image_mset cd_index (mset (filter (\<lambda>t. \<forall>st \<in> set (gr_stacks g).
      \<not> cd_admitted (gr_rules g) arena st t) cands))
      = mset (map cn_index (filter (\<lambda>c. \<not> piece_admitted g c) cs))"
    by (metis mset_map)
  then have "mset (map cd_index rej) = mset (map cn_index (filter (\<lambda>c. \<not> piece_admitted g c) cs))"
    by (simp only: mset_map m)
  with rej d False assms(3) show ?thesis by (simp add: reject_candidates_def)
qed

lemma accepted_tame:
  assumes "from_rules rules start name_of = Some (Inr g)" "well_shaped rules" "no_left_recursion rules"
    and "accept_tokens eng h g = Some (Inr (), g')"
  shows "tame (gr_rules g') \<and> all_grounded (gr_rules g') (gr_stacks g') \<and> \<not> is_awaiting_trigger g'"
proof -
  note init = from_rules_represents [OF assms(1)]
  have n: "\<not> is_awaiting_trigger g" using init by (simp add: is_awaiting_trigger_def)
  note rep = assms(4) [unfolded accept_tokens_replay [OF n]]
  have "represents g {w. sentence rules start w}" using init by blast
  note same = accept_replay_represents [OF this rep]
  note h = accept_replay_healthy [OF from_rules_healthy [OF assms(1,2)] rep]
  have "tame rules" using no_left_recursion_bounded assms(2,3) by (simp add: tame_def)
  with same h init show ?thesis by (auto simp: healthy_def is_awaiting_trigger_def)
qed

section \<open>The mask and the acceptance\<close>

definition token_free :: "grammar_rule list \<Rightarrow> bool" where
  "token_free rules \<longleftrightarrow> (\<forall>rule \<in> set rules. \<forall>e \<in> set rule. ge_type e \<notin> {GreToken, GreTokenNot})"

lemma token_free_elem: "token_free rules \<Longrightarrow> ge_type (elem rules pos) \<notin> {GreToken, GreTokenNot}"
proof (cases "rp_rule pos < length rules \<and> rp_index pos < length (rules ! rp_rule pos)")
  case True
  assume "token_free rules"
  moreover have "rules ! rp_rule pos \<in> set rules" using True by simp
  moreover have "rules ! rp_rule pos ! rp_index pos \<in> set (rules ! rp_rule pos)" using True by simp
  moreover have "elem rules pos = rules ! rp_rule pos ! rp_index pos" using True by (simp add: elem_def)
  ultimately show ?thesis unfolding token_free_def by metis
qed (auto simp: elem_def)

fun over_chars :: "grammar_rule list \<Rightarrow> u32 list \<Rightarrow> grammar_stack \<Rightarrow> grammar_stack set" where
  "over_chars rules [] st = {st}"
| "over_chars rules (c # cs) st =
     (case st of
        [] \<Rightarrow> {}
      | pos # below \<Rightarrow>
          if in_class rules pos c
          then \<Union> (over_chars rules cs ` set (advanced rules (resume rules (class_end rules pos) below)))
          else {})"

lemma admits_over_chars:
  "token_free rules \<Longrightarrow> admits rules token partial cs st \<Longrightarrow> over_chars rules cs st \<noteq> {}"
proof (induction cs arbitrary: st)
  case (Cons c cs)
  then obtain pos below st' where "st = pos # below" "in_class rules pos c"
    "st' \<in> set (advanced rules (resume rules (class_end rules pos) below))"
    "admits rules token partial cs st'"
    using token_free_elem [OF Cons.prems(1)] by (cases st) (auto split: if_splits)
  with Cons show ?case by fastforce
qed simp

lemma over_chars_admits:
  "token_free rules \<Longrightarrow> pu_n_remain partial = 0 \<Longrightarrow> over_chars rules cs st \<noteq> {} \<Longrightarrow>
     admits rules token partial cs st"
proof (induction cs arbitrary: st)
  case (Cons c cs)
  then show ?case
    using token_free_elem [OF Cons.prems(1)] by (cases st) (auto split: if_splits)
qed simp

lemma advance_stack_advanced:
  assumes "tame rules" "grounded rules st" "advance_stack rules st acc = Some (Inr acc')"
  shows "set acc' = set acc \<union> set (advanced rules st)"
  using adv.run_result [of rules "[st]" acc acc'] assms(3)
    adv.run_result [of rules "[st]" "[]" "advanced rules st"] advanced_tame(1) [OF assms(1,2)]
  by (simp add: advance_stack_def)

lemma accept_chr_chars:
  assumes "tame rules" "token_free rules" "grounded rules st" "top_settles rules st"
    and "accept_chr rules c st acc = Some (Inr acc')"
  shows "set acc' = set acc \<union> over_chars rules [c] st"
  using assms(4)
proof (cases rule: top_kinds)
  case (2 pos below)
  then have "grounded rules (resume rules (class_end rules pos) below)"
    using assms(3) by (auto intro!: grounded_resume boundary_class)
  from advance_stack_advanced [OF assms(1) this, of acc acc'] 2 assms(5) class_not_token [OF 2(2)]
  show ?thesis by (auto simp: accept_chr_def match_char_eq split: if_splits)
qed (use assms(5) token_free_elem [OF assms(2)] in \<open>auto simp: accept_chr_def\<close>)

lemma accept_chr_each_chars:
  assumes "tame rules" "token_free rules" "all_grounded rules sts"
    and "accept_chr_each rules c sts acc = Some (Inr acc')"
  shows "set acc' = set acc \<union> (\<Union>st \<in> set sts. over_chars rules [c] st)"
  using assms(3,4)
proof (induction sts arbitrary: acc)
  case (Cons st sts)
  from Cons.prems(2) obtain acc1 where a: "accept_chr rules c st acc = Some (Inr acc1)"
    and b: "accept_chr_each rules c sts acc1 = Some (Inr acc')"
    by (auto simp: bind_run_ok_iff)
  from Cons.IH [OF _ b] accept_chr_chars [OF assms(1,2) _ _ a] Cons.prems(1) show ?case
    by (auto simp del: over_chars.simps)
qed simp

lemma over_chars_Cons: "over_chars rules (c # cs) st = \<Union> (over_chars rules cs ` over_chars rules [c] st)"
  by (auto split: list.split)

lemma walk_chars_chars:
  assumes "tame rules" "token_free rules" "all_grounded rules sts"
    and "walk_chars rules cps sts = Some (Inr sts')"
  shows "set sts' = (\<Union>st \<in> set sts. over_chars rules cps st)"
  using assms(3,4)
proof (induction cps arbitrary: sts)
  case (Cons c cps)
  from Cons.prems(2) obtain nxt where a: "accept_chr_each rules c sts [] = Some (Inr nxt)"
    and b: "(if nxt = [] then Some (Inr []) else walk_chars rules cps nxt) = Some (Inr sts')"
    by (auto simp: bind_run_ok_iff)
  have ws: "well_shaped rules" using assms(1) by (simp add: tame_def)
  have g: "all_grounded rules nxt"
    using safe_accept_chr_each [OF ws Cons.prems(1), of "[]" c] a by simp
  have n: "set nxt = (\<Union>st \<in> set sts. over_chars rules [c] st)"
    using accept_chr_each_chars [OF assms(1,2) Cons.prems(1) a] by simp
  have "set sts' = (\<Union>st \<in> set nxt. over_chars rules cps st)"
    using b Cons.IH [OF g] by (cases "nxt = []") auto
  then show ?case unfolding n over_chars_Cons [of rules c cps] by blast
qed simp

lemma accept_stacks_chars:
  assumes "tame rules" "token_free rules" "all_grounded rules sts"
    and "accept_stacks rules t cps sts acc = Some (Inr acc')"
  shows "set acc' = set acc \<union> (\<Union>st \<in> set sts - {[]}. over_chars rules cps st)"
  using assms(3,4)
proof (induction sts arbitrary: acc)
  case (Cons st sts)
  from Cons.prems(2) obtain acc1 where a: "accept_stack rules t cps st acc = Some (Inr acc1)"
    and b: "accept_stacks rules t cps sts acc1 = Some (Inr acc')"
    by (auto simp: bind_run_ok_iff)
  have "set acc1 = set acc \<union> (\<Union>s \<in> {st} - {[]}. over_chars rules cps s)"
  proof (cases st)
    case (Cons pos below)
    then obtain cur where "walk_chars rules cps [st] = Some (Inr cur)" "acc1 = fold push_new cur acc"
      using a token_free_elem [OF assms(2), of pos]
      by (auto simp: accept_stack_def Let_def bind_run_ok_iff)
    with walk_chars_chars [OF assms(1,2), of "[st]" cps cur] \<open>all_grounded rules (st # sts)\<close> Cons
    show ?thesis by (simp add: set_fold_push_new)
  qed (use a in \<open>simp add: accept_stack_def\<close>)
  with Cons.IH [OF _ b] Cons.prems(1) show ?case by auto
qed simp

lemma mask_accept:
  assumes "tame (gr_rules g)" "all_grounded (gr_rules g) (gr_stacks g)" "token_free (gr_rules g)"
    and d: "decode_piece piece (gr_partial g) = (cps, partial)"
    and chars: "0 \<notin> set (butlast cps)" "butlast cps \<noteq> [] \<or> pu_n_remain partial \<noteq> 0"
  shows "\<exists>r g'. accept_token_now t piece g = Some (r, g')
    \<and> (piece_admitted g \<lparr>cn_index = i, cn_id = t, cn_piece = piece\<rparr> \<longrightarrow> r = Inr ())
    \<and> (pu_n_remain partial = 0 \<longrightarrow> r = Inr () \<longrightarrow>
         piece_admitted g \<lparr>cn_index = i, cn_id = t, cn_piece = piece\<rparr>)"
proof -
  let ?chars = "butlast cps"
  have ws: "well_shaped (gr_rules g)" using assms(1) by (simp add: tame_def)
  have ret: "returning (gr_rules g)"
    using assms(1) adv.run_returns
    by (auto simp: tame_def returning_def stack_bounded_def advance_stack_def)
  obtain sts where sts: "accept_stacks (gr_rules g) t ?chars (gr_stacks g) [] = Some (Inr sts)"
    using returning_accept_stacks [OF ret, of t ?chars "gr_stacks g" "[]"]
      safe_accept_stacks [OF ws assms(2), of "[]" t ?chars]
    by (auto split: sum.splits) (metis safe_run_simps(3) sum.exhaust)
  have set': "set sts = (\<Union>st \<in> set (gr_stacks g) - {[]}. over_chars (gr_rules g) ?chars st)"
    using accept_stacks_chars [OF assms(1,3,2) sts] by simp
  have "\<exists>xs. cps = xs @ [0]" using decode_piece_terminated [of piece "gr_partial g"] d by simp
  then have tw: "takeWhile (\<lambda>c. c \<noteq> 0) cps = ?chars"
    using chars(1) by (auto simp: takeWhile_append)
  have adm: "piece_admitted g \<lparr>cn_index = i, cn_id = t, cn_piece = piece\<rparr>
      \<longleftrightarrow> (\<exists>st \<in> set (gr_stacks g). admits (gr_rules g) t partial ?chars st)"
    by (simp add: piece_admitted_def d tw)
  have "sts \<noteq> []" if "piece_admitted g \<lparr>cn_index = i, cn_id = t, cn_piece = piece\<rparr>"
  proof -
    from that adm obtain st where st: "st \<in> set (gr_stacks g)"
      "admits (gr_rules g) t partial ?chars st" by blast
    then have "st \<noteq> []" using chars(2) by (cases ?chars) auto
    with st admits_over_chars [OF assms(3) st(2)] set' show ?thesis by auto
  qed
  moreover have "piece_admitted g \<lparr>cn_index = i, cn_id = t, cn_piece = piece\<rparr>"
    if "pu_n_remain partial = 0" "sts \<noteq> []"
  proof -
    have "(\<Union>st \<in> set (gr_stacks g) - {[]}. over_chars (gr_rules g) ?chars st) \<noteq> {}"
      using that(2) set' by (metis set_empty)
    then obtain st where "st \<in> set (gr_stacks g)" "over_chars (gr_rules g) ?chars st \<noteq> {}"
      by blast
    with over_chars_admits [OF assms(3) that(1)] show ?thesis unfolding adm by blast
  qed
  moreover have "accept_token_now t piece g
      = Some (if sts = [] then Inl (NoViableStack piece) else Inr (),
              g\<lparr>gr_stacks := sts, gr_partial := partial\<rparr>)"
    using sts d by (simp add: accept_token_now_def)
  ultimately show ?thesis by auto
qed

section \<open>Claims\<close>

text \<open>C17.  The mask is exact: after any accepted token sequence over a well-shaped table without
  left recursion, the shared-prefix walk always answers, and the indices it rejects are, as a multiset, those of exactly the candidates that no viable stack
  admits when each candidate is followed through the machine on its own.\<close>

theorem mask_exact:
  assumes "from_rules rules start name_of = Some (Inr g)" "well_shaped rules" "no_left_recursion rules"
    and "accept_tokens eng h g = Some (Inr (), g')"
  shows "\<exists>rejected. reject_candidates g' cs = Some (Inr rejected)
    \<and> mset rejected = mset (map cn_index (filter (\<lambda>c. \<not> piece_admitted g' c) cs))"
  using reject_candidates_exact [of g' cs] accepted_tame [OF assms] by blast

theorem mask_exact_witness:
  "\<not> piece_admitted sample_grammar \<lparr>cn_index = 1, cn_id = 1, cn_piece = [0x62]\<rparr>"
proof -
  let ?b = "\<lparr>cn_index = 1, cn_id = 1, cn_piece = [0x62]\<rparr>"
  note w = sample_no_left_recursion
  have e: "accept_tokens literal_engine [] sample_grammar = Some (Inr (), sample_grammar)" by simp
  have r: "reject_candidates sample_grammar [?b] = Some (Inr [1])" by code_simp
  from mask_exact [OF sample_from_rules w e, of "[?b]"] r show ?thesis
    by (auto split: if_splits)
qed

text \<open>C18.  Masking and accepting agree when no rule has a token element: a piece (with code
  points or a partial sequence, and no zero inside) that the mask admits is accepted, never
  refused with "no viable stack"; and a piece that ends on a character boundary and would be
  accepted is admitted.\<close>

theorem mask_agrees_with_accept:
  assumes "from_rules rules start name_of = Some (Inr g)" "well_shaped rules" "no_left_recursion rules"
    and "token_free rules" "accept_tokens eng h g = Some (Inr (), g')"
    and "decode_piece piece (gr_partial g') = (cps, partial)" "0 \<notin> set (butlast cps)"
    and "butlast cps \<noteq> [] \<or> pu_n_remain partial \<noteq> 0"
  shows "\<exists>b r g''. accepts_token g' token piece = Some (Inr b)
    \<and> accept_token eng token piece g' = Some (r, g'')
    \<and> (b \<longrightarrow> r = Inr ()) \<and> (pu_n_remain partial = 0 \<longrightarrow> (b \<longleftrightarrow> r = Inr ()))"
proof -
  let ?c = "\<lparr>cn_index = 0, cn_id = token, cn_piece = piece\<rparr>"
  have n: "\<not> is_awaiting_trigger g"
    using from_rules_represents [OF assms(1)] by (simp add: is_awaiting_trigger_def)
  have "represents g {w. sentence rules start w}" "gr_rules g = rules"
    using from_rules_represents [OF assms(1)] by simp_all
  from accept_replay_represents [OF this(1) assms(5) [unfolded accept_tokens_replay [OF n]]] this(2)
  have rules: "gr_rules g' = rules" by simp
  note t = accepted_tame [OF assms(1-3,5)]
  obtain rejected where
    rej: "reject_candidates g' [?c] = Some (Inr rejected)"
    "mset rejected = mset (map cn_index (filter (\<lambda>c. \<not> piece_admitted g' c) [?c]))"
    using reject_candidates_exact [of g' "[?c]"] t by blast
  then have "rejected = [] \<longleftrightarrow> piece_admitted g' ?c"
    by (metis filter.simps list.simps(8,9) mset_zero_iff_right neq_Nil_conv)
  with rej have "accepts_token g' token piece = Some (Inr (piece_admitted g' ?c))"
    by (simp add: accepts_token_def)
  moreover obtain r g'' where "accept_token_now token piece g' = Some (r, g'')"
    "piece_admitted g' ?c \<longrightarrow> r = Inr ()"
    "pu_n_remain partial = 0 \<longrightarrow> r = Inr () \<longrightarrow> piece_admitted g' ?c"
    using mask_accept [of g' piece cps partial token 0] t assms(4,6-8) rules by blast
  ultimately show ?thesis using t by (auto simp: accept_token_applied)
qed

definition plain_rules :: "grammar_rule list" where
  "plain_rules =
     [[mk_elem GreChar 0x61, mk_elem GreRuleRef 1, mk_elem GreEnd 0],
      [mk_elem GreChar 0x62, mk_elem GreAlt 0, mk_elem GreChar 0x63, mk_elem GreEnd 0]]"

definition plain_grammar :: "bytes grammar" where
  "plain_grammar = \<lparr>gr_rules = plain_rules, gr_stacks = [[RulePos 0 0]],
     gr_partial = partial_utf8_default, gr_lazy = None\<rparr>"

lemma plain_no_left_recursion: "no_left_recursion plain_rules"
proof -
  have "detect_left_recursion_all plain_rules (\<lambda>_. None) = Some (Inr ())" "well_shaped plain_rules"
    "closed_empties (empty_rule plain_rules) plain_rules"
    by code_simp+
  then show ?thesis by (rule checked_no_left_recursion)
qed

theorem mask_agrees_with_accept_witness:
  "\<exists>g''. accept_token literal_engine 3 [0x61, 0x63] plain_grammar = Some (Inr (), g'')"
proof -
  have c: "from_rules plain_rules 0 (\<lambda>_. None) = Some (Inr plain_grammar)"
    "well_shaped plain_rules" "no_left_recursion plain_rules" "token_free plain_rules"
    by (code_simp, code_simp, rule plain_no_left_recursion, code_simp)
  have e: "accept_tokens literal_engine [] plain_grammar = Some (Inr (), plain_grammar)" by simp
  have d: "decode_piece [0x61, 0x63] (gr_partial plain_grammar)
      = ([0x61, 0x63, 0], \<lparr>pu_value = 0x63, pu_n_remain = 0\<rparr>)"
    by code_simp
  have a: "accepts_token plain_grammar 3 [0x61, 0x63] = Some (Inr True)" by code_simp
  from mask_agrees_with_accept [OF c e d, of 3] a show ?thesis by auto
qed

definition late_token_rules :: "grammar_rule list" where
  "late_token_rules = [[mk_elem GreChar 0x61, mk_elem GreToken 5, mk_elem GreEnd 0]]"

text \<open>With a token element the two disagree: over \<open>root ::= "a" <[5]>\<close> the mask admits
  token 5 with the piece \<open>ab\<close>, since the element reached inside the piece is compared with
  the token's id, and accepting that token then fails with "no viable stack".\<close>

theorem mask_admits_what_accept_refuses:
  "\<exists>g g'. from_rules late_token_rules 0 (\<lambda>_. None) = Some (Inr (g :: bytes grammar))
     \<and> accepts_token g 5 [0x61, 0x62] = Some (Inr True)
     \<and> accept_token literal_engine 5 [0x61, 0x62] g = Some (Inl (NoViableStack [0x61, 0x62]), g')"
proof (intro exI conjI)
  let ?g = "\<lparr>gr_rules = late_token_rules, gr_stacks = [[RulePos 0 0]],
     gr_partial = partial_utf8_default, gr_lazy = None\<rparr> :: bytes grammar"
  show "from_rules late_token_rules 0 (\<lambda>_. None) = Some (Inr ?g)" by code_simp
  show "accepts_token ?g 5 [0x61, 0x62] = Some (Inr True)" by code_simp
  show "accept_token literal_engine 5 [0x61, 0x62] ?g = Some (Inl (NoViableStack [0x61, 0x62]),
      ?g\<lparr>gr_stacks := [], gr_partial := \<lparr>pu_value = 0x62, pu_n_remain = 0\<rparr>\<rparr>)" by code_simp
qed

end
