(* ===== verification/Grammar_Sampler.thy ===== *)
theory Grammar_Sampler
  imports Grammar_Candidates
begin

text \<open>
  The sampler hook of \<^verbatim>\<open>grammar_sampler.rs\<close>: a live grammar over a snapshotted
  vocabulary.  A logit is minus infinity or something else the mask never looks at; the
  logits are returned as far as the code had written them.
\<close>

section \<open>The code\<close>

datatype 'l logit = NegInf | Logit 'l

datatype constraint_error =
    VocabMismatch nat nat
  | NoAllowedToken nat
  | TokenOutOfVocab nat nat
  | GrammarRefused grammar_error

datatype mask_outcome = Allowed | Complete

record 'rx sampler =
  gs_grammar :: "'rx grammar"
  gs_pieces :: "bytes list"
  gs_eog :: "bool list"
  gs_accepted :: nat

definition sampler_new :: "'rx grammar \<Rightarrow> nat \<Rightarrow> (nat \<Rightarrow> bytes) \<Rightarrow> (nat \<Rightarrow> bool) \<Rightarrow> 'rx sampler" where
  "sampler_new g n_vocab piece_of is_eog =
     \<lparr>gs_grammar = g, gs_pieces = map piece_of [0..<n_vocab], gs_eog = map is_eog [0..<n_vocab],
      gs_accepted = 0\<rparr>"

definition candidate_of :: "'rx sampler \<Rightarrow> nat \<Rightarrow> candidate" where
  "candidate_of s i = \<lparr>cn_index = i, cn_id = of_nat i, cn_piece = gs_pieces s ! i\<rparr>"

definition piece_empty :: "bytes \<Rightarrow> bool" where
  "piece_empty piece \<longleftrightarrow> piece = [] \<or> hd piece = 0"

text \<open>The loop over the vocabulary: logits taken out, candidates, tokens left allowed.\<close>

fun survey ::
  "'rx sampler \<Rightarrow> bool \<Rightarrow> nat list \<Rightarrow> 'l logit list \<Rightarrow> candidate list \<Rightarrow> nat
    \<Rightarrow> 'l logit list \<times> candidate list \<times> nat" where
  "survey s allow_eog [] logits cands allowed = (logits, cands, allowed)"
| "survey s allow_eog (i # ids) logits cands allowed =
     (if logits ! i = NegInf then survey s allow_eog ids logits cands allowed
      else if gs_eog s ! i then
        if allow_eog then survey s allow_eog ids logits cands (allowed + 1)
        else survey s allow_eog ids (logits[i := NegInf]) cands allowed
      else if piece_empty (gs_pieces s ! i)
      then survey s allow_eog ids (logits[i := NegInf]) cands allowed
      else survey s allow_eog ids logits (cands @ [candidate_of s i]) allowed)"

fun mask_eog_loop :: "'rx sampler \<Rightarrow> nat list \<Rightarrow> 'l logit list \<Rightarrow> nat \<Rightarrow> 'l logit list \<times> nat" where
  "mask_eog_loop s [] logits survivors = (logits, survivors)"
| "mask_eog_loop s (i # ids) logits survivors =
     (if logits ! i = NegInf then mask_eog_loop s ids logits survivors
      else if gs_eog s ! i then mask_eog_loop s ids (logits[i := NegInf]) survivors
      else mask_eog_loop s ids logits (survivors + 1))"

definition mask_eog_only ::
  "'rx sampler \<Rightarrow> 'l logit list \<Rightarrow> (constraint_error, mask_outcome) result \<times> 'l logit list" where
  "mask_eog_only s logits =
     (let (logits, survivors) = mask_eog_loop s [0..<length logits] logits 0 in
      (if survivors = 0 then Inl (NoAllowedToken (gs_accepted s)) else Inr Allowed, logits))"

definition mask_logits ::
  "'rx sampler \<Rightarrow> 'l logit list
    \<Rightarrow> ((constraint_error, mask_outcome) result \<times> 'l logit list) option" where
  "mask_logits s logits =
     (if length logits \<noteq> length (gs_pieces s)
      then Some (Inl (VocabMismatch (length logits) (length (gs_pieces s))), logits)
      else if is_awaiting_trigger (gs_grammar s) then
        if allows_eog (gs_grammar s) then Some (Inr Allowed, logits)
        else Some (mask_eog_only s logits)
      else
        let allow_eog = allows_eog (gs_grammar s);
            (logits, candidates, allowed_eog) = survey s allow_eog [0..<length (gs_pieces s)] logits [] 0
        in case reject_candidates (gs_grammar s) candidates of
             None \<Rightarrow> None
           | Some (Inl e) \<Rightarrow> Some (Inl (GrammarRefused e), logits)
           | Some (Inr rejected) \<Rightarrow>
               let logits = foldl (\<lambda>ls i. ls[i := NegInf]) logits rejected in
               Some (if length candidates - length rejected + allowed_eog = 0
                     then if allow_eog then Inr Complete else Inl (NoAllowedToken (gs_accepted s))
                     else Inr Allowed, logits))"

definition grammar_step ::
  "'rx sampler \<Rightarrow> 'rx accepted \<Rightarrow> ((constraint_error, unit) result \<times> 'rx sampler) option" where
  "grammar_step s r =
     (case r of
        None \<Rightarrow> None
      | Some (Inl e, g) \<Rightarrow> Some (Inl (GrammarRefused e), s\<lparr>gs_grammar := g\<rparr>)
      | Some (Inr _, g) \<Rightarrow>
          Some (Inr (), s\<lparr>gs_grammar := g, gs_accepted := gs_accepted s + 1\<rparr>))"

definition sampler_accept ::
  "'rx regex_engine \<Rightarrow> nat \<Rightarrow> 'rx sampler
    \<Rightarrow> ((constraint_error, unit) result \<times> 'rx sampler) option" where
  "sampler_accept eng token s =
     (if length (gs_pieces s) \<le> token
      then Some (Inl (TokenOutOfVocab token (length (gs_pieces s))), s)
      else let g = gs_grammar s; piece = gs_pieces s ! token in
        if is_awaiting_trigger g then grammar_step s (accept_token eng (of_nat token) piece g)
        else if gs_eog s ! token then grammar_step s (Some (accept_eog g, g))
        else grammar_step s (accept_token eng (of_nat token) piece g))"

section \<open>What the survey leaves\<close>

definition sampler_ok :: "'rx sampler \<Rightarrow> bool" where
  "sampler_ok s \<longleftrightarrow> length (gs_eog s) = length (gs_pieces s)"

definition offered :: "'rx sampler \<Rightarrow> 'l logit list \<Rightarrow> nat \<Rightarrow> bool" where
  "offered s logits i \<longleftrightarrow>
     logits ! i \<noteq> NegInf \<and> \<not> gs_eog s ! i \<and> \<not> piece_empty (gs_pieces s ! i)"

definition struck :: "'rx sampler \<Rightarrow> bool \<Rightarrow> nat \<Rightarrow> bool" where
  "struck s allow_eog i \<longleftrightarrow>
     (if gs_eog s ! i then \<not> allow_eog else piece_empty (gs_pieces s ! i))"

lemma survey_eq:
  assumes "survey s allow ids logits cands allowed = (logits', cands', allowed')"
    and "distinct ids" "\<forall>i \<in> set ids. i < length logits"
  shows "length logits' = length logits
    \<and> (\<forall>i < length logits. logits' ! i
          = (if i \<in> set ids \<and> struck s allow i then NegInf else logits ! i))
    \<and> cands' = cands @ map (candidate_of s) (filter (offered s logits) ids)
    \<and> allowed' = allowed
        + length (filter (\<lambda>i. logits ! i \<noteq> NegInf \<and> gs_eog s ! i \<and> allow) ids)"
  using assms
proof (induction ids arbitrary: logits cands allowed)
  case (Cons i ids)
  have same: "logits[i := NegInf] ! j = logits ! j" if "j \<in> set ids" for j
    using Cons.prems(2) that by (metis distinct.simps(2) nth_list_update_neq)
  have off: "filter (offered s (logits[i := NegInf])) ids = filter (offered s logits) ids"
    by (intro filter_cong) (auto simp: offered_def same)
  have eo: "filter (\<lambda>j. logits[i := NegInf] ! j \<noteq> NegInf \<and> gs_eog s ! j \<and> allow) ids
      = filter (\<lambda>j. logits ! j \<noteq> NegInf \<and> gs_eog s ! j \<and> allow) ids"
    by (intro filter_cong) (auto simp: same)
  have d: "distinct ids" "i \<notin> set ids" "\<forall>j \<in> set ids. j < length logits" "i < length logits"
    using Cons.prems(2,3) by auto
  consider "logits ! i = NegInf" | "logits ! i \<noteq> NegInf" "struck s allow i"
    | "logits ! i \<noteq> NegInf" "\<not> struck s allow i" by blast
  then show ?case
  proof cases
    case 1
    with Cons.prems(1) have "survey s allow ids logits cands allowed = (logits', cands', allowed')"
      by simp
    from Cons.IH [OF this d(1,3)] 1 show ?thesis by (auto simp: offered_def)
  next
    case 2
    with Cons.prems(1) have
      "survey s allow ids (logits[i := NegInf]) cands allowed = (logits', cands', allowed')"
      by (auto simp: struck_def split: if_splits)
    note IH = Cons.IH [OF this d(1), unfolded off eo length_list_update, OF d(3)]
    have no: "\<not> offered s logits i" "\<not> (logits ! i \<noteq> NegInf \<and> gs_eog s ! i \<and> allow)"
      using 2 by (auto simp: offered_def struck_def split: if_splits)
    show ?thesis
    proof (intro conjI allI impI)
      fix j assume "j < length logits"
      with IH have "logits' ! j = (if j \<in> set ids \<and> struck s allow j then NegInf
          else logits[i := NegInf] ! j)" by blast
      with 2(2) d(4) show "logits' ! j
          = (if j \<in> set (i # ids) \<and> struck s allow j then NegInf else logits ! j)"
        by (cases "j = i") simp_all
    qed (use IH no in auto)
  next
    case 3
    show ?thesis
    proof (cases "gs_eog s ! i")
      case True
      with 3 Cons.prems(1) have
        "survey s allow ids logits cands (allowed + 1) = (logits', cands', allowed')"
        by (auto simp: struck_def split: if_splits)
      from Cons.IH [OF this d(1,3)] 3 True show ?thesis by (auto simp: offered_def struck_def)
    next
      case False
      with 3 Cons.prems(1) have
        "survey s allow ids logits (cands @ [candidate_of s i]) allowed = (logits', cands', allowed')"
        by (auto simp: struck_def split: if_splits)
      from Cons.IH [OF this d(1,3)] 3 False show ?thesis by (auto simp: offered_def struck_def)
    qed
  qed
qed simp

lemma strike_all:
  "length (foldl (\<lambda>ls i. ls[i := NegInf]) ls is) = length ls
   \<and> (j < length ls \<longrightarrow> foldl (\<lambda>ls i. ls[i := NegInf]) ls is ! j
        = (if j \<in> set is then NegInf else ls ! j))"
  by (induction "is" arbitrary: ls) (auto simp: nth_list_update)

text \<open>Which tokens may be sampled next: the specification of the mask.\<close>

definition may_follow :: "'rx sampler \<Rightarrow> nat \<Rightarrow> bool" where
  "may_follow s i \<longleftrightarrow>
     (if gs_eog s ! i then allows_eog (gs_grammar s)
      else \<not> piece_empty (gs_pieces s ! i) \<and> piece_admitted (gs_grammar s) (candidate_of s i))"

lemma mask_logits_tame:
  assumes "tame (gr_rules (gs_grammar s))" "all_grounded (gr_rules (gs_grammar s)) (gr_stacks (gs_grammar s))"
    and "\<not> is_awaiting_trigger (gs_grammar s)" "length logits = length (gs_pieces s)"
  shows "\<exists>r logits'. mask_logits s logits = Some (r, logits') \<and> length logits' = length logits
    \<and> (\<forall>i < length logits. logits' ! i = (if may_follow s i then logits ! i else NegInf))
    \<and> r = (if \<exists>i < length logits. logits' ! i \<noteq> NegInf then Inr Allowed
           else if allows_eog (gs_grammar s) then Inr Complete
           else Inl (NoAllowedToken (gs_accepted s)))"
proof -
  let ?g = "gs_grammar s" and ?n = "length (gs_pieces s)"
  let ?F = "filter (offered s logits) [0..<?n]"
  let ?pa = "\<lambda>i. piece_admitted ?g (candidate_of s i)"
  let ?E = "filter (\<lambda>i. logits ! i \<noteq> NegInf \<and> gs_eog s ! i \<and> allows_eog ?g) [0..<?n]"
  obtain ls cands allowed where
    sv: "survey s (allows_eog ?g) [0..<?n] logits [] 0 = (ls, cands, allowed)"
    by (metis prod_cases3)
  have inr: "\<forall>i \<in> set [0..<?n]. i < length logits" using assms(4) by simp
  note seen = survey_eq [OF sv distinct_upt inr]
  have cands: "cands = map (candidate_of s) ?F" using seen by simp
  have idx: "map cn_index (filter (\<lambda>c. \<not> piece_admitted ?g c) cands) = filter (\<lambda>i. \<not> ?pa i) ?F"
    unfolding cands by (simp add: filter_map o_def candidate_of_def)
  obtain rejected where
    rej: "reject_candidates ?g cands = Some (Inr rejected)"
    "mset rejected = mset (filter (\<lambda>i. \<not> ?pa i) ?F)"
    using reject_candidates_exact [OF assms(1-3), of cands] unfolding idx by blast
  have set': "set rejected = {i. i < ?n \<and> offered s logits i \<and> \<not> ?pa i}"
    using mset_eq_setD [OF rej(2)] by auto
  have "length rejected = length (filter (\<lambda>i. \<not> ?pa i) ?F)"
    using rej(2) by (metis size_mset)
  then have left: "length cands - length rejected = length (filter ?pa ?F)"
    using sum_length_filter_compl [of ?pa ?F] by (simp add: cands)
  define logits' where "logits' = foldl (\<lambda>ls i. ls[i := NegInf]) ls rejected"
  have nth: "logits' ! i = (if may_follow s i then logits ! i else NegInf)" if "i < length logits" for i
    using that seen strike_all [of ls rejected i] assms(4) set'
    by (auto simp: logits'_def may_follow_def struck_def offered_def)
  have "(\<exists>i < length logits. logits' ! i \<noteq> NegInf)
      \<longleftrightarrow> (\<exists>i < ?n. may_follow s i \<and> logits ! i \<noteq> NegInf)"
    unfolding assms(4) using nth [unfolded assms(4)] by (metis (full_types))
  also have "\<dots> \<longleftrightarrow> filter ?pa ?F \<noteq> [] \<or> ?E \<noteq> []"
    by (auto simp: may_follow_def offered_def filter_empty_conv)
  also have "\<dots> \<longleftrightarrow> length cands - length rejected + allowed \<noteq> 0"
    using seen left by auto
  finally have some: "(\<exists>i < length logits. logits' ! i \<noteq> NegInf)
      \<longleftrightarrow> length cands - length rejected + allowed \<noteq> 0" .
  have "mask_logits s logits = Some
      (if length cands - length rejected + allowed = 0
       then if allows_eog ?g then Inr Complete else Inl (NoAllowedToken (gs_accepted s))
       else Inr Allowed, logits')"
    using assms(3,4) sv rej(1) by (simp add: mask_logits_def Let_def logits'_def)
  moreover have "length logits' = length logits" using seen strike_all [of ls rejected]
    by (simp add: logits'_def)
  ultimately show ?thesis using nth some by auto
qed

section \<open>Claims\<close>


definition sample_sampler :: "bytes sampler" where
  "sample_sampler =
     \<lparr>gs_grammar = sample_grammar, gs_pieces = [[0x61], [0x62], [], [0x3C]],
      gs_eog = [False, False, False, True], gs_accepted = 0\<rparr>"


end
