(* ===== verification/Grammar_Parser.thy ===== *)
theory Grammar_Parser
  imports Grammar_Total "HOL-Library.AList"
begin

text \<open>
  The GBNF parser of \<^verbatim>\<open>grammar/parser.rs\<close>.  The parser state is a record; a failing
  step gives the error alone, since the code gives up the state with it.  The loops over the
  text that only call themselves end because the position moves; the sequence and alternates
  of a rule call each other and are given the length of the text as fuel, which is shown to be
  enough.  The vocabulary is a parameter.  Rule ids are naturals in the symbol table and
  \<open>u32\<close> in the elements.

  The lemmas show that parsing always returns and that a parsed rule table is well shaped, so
  the machine built from it meets no internal error.
\<close>

section \<open>State and lexical helpers\<close>

record parser =
  pr_src :: bytes
  pr_pos :: nat
  pr_rules :: "grammar_rule list"
  pr_symbols :: "(bytes \<times> nat) list"

type_synonym 'a parsed = "(grammar_error, 'a \<times> parser) result"

definition cur :: "parser \<Rightarrow> u8" where
  "cur p = byte_at (pr_src p) (pr_pos p)"

definition peek :: "parser \<Rightarrow> nat \<Rightarrow> u8" where
  "peek p k = byte_at (pr_src p) (pr_pos p + k)"

definition move :: "nat \<Rightarrow> parser \<Rightarrow> parser" where
  "move k p = p\<lparr>pr_pos := pr_pos p + k\<rparr>"

definition goto :: "nat \<Rightarrow> parser \<Rightarrow> parser" where
  "goto n p = p\<lparr>pr_pos := n\<rparr>"

text \<open>A character in single quotes, in a message.\<close>

definition quoted :: "string \<Rightarrow> string" where
  "quoted s = ''expecting '' @ [CHR 0x27] @ s @ [CHR 0x27]"

definition err_at :: "string \<Rightarrow> nat \<Rightarrow> parser \<Rightarrow> grammar_error" where
  "err_at expected offset p = syntax_error expected (pr_src p) offset"

definition err :: "string \<Rightarrow> parser \<Rightarrow> grammar_error" where
  "err expected p = err_at expected (pr_pos p) p"

lemma move_simps [simp]:
  "pr_src (move k p) = pr_src p" "pr_pos (move k p) = pr_pos p + k"
  "pr_rules (move k p) = pr_rules p" "pr_symbols (move k p) = pr_symbols p"
  "pr_src (goto n p) = pr_src p" "pr_pos (goto n p) = n"
  "pr_rules (goto n p) = pr_rules p" "pr_symbols (goto n p) = pr_symbols p"
  by (simp_all add: move_def goto_def)

lemma byte_at_in: "byte_at src i \<noteq> 0 \<Longrightarrow> i < length src"
  by (auto simp: byte_at_def split: if_splits)

lemma cur_in: "cur p \<noteq> 0 \<Longrightarrow> pr_pos p < length (pr_src p)"
  by (simp add: cur_def byte_at_in)

definition is_digit_char :: "u8 \<Rightarrow> bool" where
  "is_digit_char c \<longleftrightarrow> 0x30 \<le> c \<and> c \<le> 0x39"

definition is_word_char :: "u8 \<Rightarrow> bool" where
  "is_word_char c \<longleftrightarrow>
     0x61 \<le> c \<and> c \<le> 0x7A \<or> 0x41 \<le> c \<and> c \<le> 0x5A \<or> c = 0x2D \<or> is_digit_char c"

text \<open>How far a run of bytes with a property goes; it stops at the end of the text.\<close>

function span_end :: "(u8 \<Rightarrow> bool) \<Rightarrow> bytes \<Rightarrow> nat \<Rightarrow> nat" where
  "span_end f src i =
     (if byte_at src i \<noteq> 0 \<and> f (byte_at src i) then span_end f src (Suc i) else i)"
  by pat_completeness auto
termination
  by (relation "measure (\<lambda>(f, src, i). length src - i)") (auto dest: byte_at_in)

declare span_end.simps [simp del]

lemma span_end_le: "i \<le> span_end f src i"
proof (induction f src i rule: span_end.induct)
  case (1 f src i)
  show ?case
  proof (cases "byte_at src i \<noteq> 0 \<and> f (byte_at src i)")
    case True
    with 1 show ?thesis by (simp add: span_end.simps [of f src i])
  next
    case False
    then show ?thesis by (subst span_end.simps) auto
  qed
qed

definition comment_end :: "bytes \<Rightarrow> nat \<Rightarrow> nat" where
  "comment_end src i = span_end (\<lambda>c. c \<noteq> 0x0D \<and> c \<noteq> 0x0A) src i"

function space_end :: "bool \<Rightarrow> bytes \<Rightarrow> nat \<Rightarrow> nat" where
  "space_end newline_ok src i =
     (let c = byte_at src i in
      if c = 0x20 \<or> c = 0x09 then space_end newline_ok src (i + 1)
      else if c = 0x23 then space_end newline_ok src (comment_end src i)
      else if newline_ok \<and> (c = 0x0D \<or> c = 0x0A) then space_end newline_ok src (i + 1)
      else i)"
  by pat_completeness auto
termination
proof (relation "measure (\<lambda>(newline_ok, src, i). length src - i)", goal_cases)
  case (3 newline_ok src i c)
  then have c: "byte_at src i = 0x23" by simp
  then have "comment_end src i = comment_end src (Suc i)"
    by (simp add: comment_end_def span_end.simps [of _ src i])
  moreover have "Suc i \<le> comment_end src (Suc i)" by (simp add: comment_end_def span_end_le)
  ultimately show ?case using c byte_at_in [of src i] by simp
qed (auto intro!: diff_less_mono2 byte_at_in)

declare space_end.simps [simp del]

definition parse_space :: "bool \<Rightarrow> parser \<Rightarrow> parser" where
  "parse_space newline_ok p = goto (space_end newline_ok (pr_src p) (pr_pos p)) p"

definition parse_name :: "parser \<Rightarrow> (grammar_error, nat) result" where
  "parse_name p =
     (let stop = span_end is_word_char (pr_src p) (pr_pos p) in
      if stop = pr_pos p then Inl (err ''expecting name'' p) else Inr stop)"

definition parse_int_end :: "parser \<Rightarrow> (grammar_error, nat) result" where
  "parse_int_end p =
     (let stop = span_end is_digit_char (pr_src p) (pr_pos p) in
      if stop = pr_pos p then Inl (err ''expecting integer'' p) else Inr stop)"

definition slice :: "bytes \<Rightarrow> nat \<Rightarrow> nat \<Rightarrow> bytes" where
  "slice src from to = take (to - from) (drop from src)"

definition decimal :: "bytes \<Rightarrow> nat" where
  "decimal digits = foldl (\<lambda>v d. v * 10 + (unat d - 0x30)) 0 digits"

definition parse_u64 :: "parser \<Rightarrow> nat parsed" where
  "parse_u64 p =
     bind_ok (parse_int_end p) (\<lambda>stop.
       let value = decimal (slice (pr_src p) (pr_pos p) stop) in
       if int value < 2 ^ 64 then Inr (value, goto stop p)
       else Inl (err_at ''integer is too large'' (pr_pos p) p))"

definition hex_digit :: "u8 \<Rightarrow> u8 option" where
  "hex_digit c =
     (if 0x61 \<le> c \<and> c \<le> 0x66 then Some (c - 0x61 + 10)
      else if 0x41 \<le> c \<and> c \<le> 0x46 then Some (c - 0x41 + 10)
      else if 0x30 \<le> c \<and> c \<le> 0x39 then Some (c - 0x30) else None)"

fun parse_hex_loop :: "bytes \<Rightarrow> nat \<Rightarrow> nat \<Rightarrow> u32 \<Rightarrow> u32 \<times> nat \<times> nat" where
  "parse_hex_loop src 0 i value = (value, i, 0)"
| "parse_hex_loop src (Suc k) i value =
     (if byte_at src i = 0 then (value, i, Suc k)
      else case hex_digit (byte_at src i) of
          None \<Rightarrow> (value, i, Suc k)
        | Some d \<Rightarrow> parse_hex_loop src k (Suc i) (push_bit 4 value + ucast d))"

definition parse_hex :: "nat \<Rightarrow> parser \<Rightarrow> u32 parsed" where
  "parse_hex n p =
     (case parse_hex_loop (pr_src p) n (pr_pos p) 0 of (value, i, left) \<Rightarrow>
        if left \<noteq> 0 then
          Inl (err_at (''expecting '' @ (if n = 2 then ''2'' else if n = 4 then ''4'' else ''8'')
                 @ '' hex chars'') (pr_pos p) p)
        else Inr (value, goto i p))"

definition parse_char :: "parser \<Rightarrow> u32 parsed" where
  "parse_char p =
     (if cur p = 0x5C then
        let next = peek p 1 in
        if next = 0x78 then parse_hex 2 (move 2 p)
        else if next = 0x75 then parse_hex 4 (move 2 p)
        else if next = 0x55 then parse_hex 8 (move 2 p)
        else if next = 0x74 then Inr (0x09, move 2 p)
        else if next = 0x72 then Inr (0x0D, move 2 p)
        else if next = 0x6E then Inr (0x0A, move 2 p)
        else if next \<in> {0x5C, 0x22, 0x5B, 0x5D} then Inr (ucast next, move 2 p)
        else Inl (err_at ''unknown escape'' (pr_pos p) p)
      else if cur p \<noteq> 0 then
        let (value, stop) = decode_char (pr_src p) (pr_pos p) in Inr (value, goto stop p)
      else Inl (err ''unexpected end of input'' p))"

definition utf8_ok :: "bytes \<Rightarrow> bool" where
  "utf8_ok bs \<longleftrightarrow> from_utf8 0 bs = None"

type_synonym vocab = "(bytes \<Rightarrow> u32 list) option"

definition parse_token :: "vocab \<Rightarrow> parser \<Rightarrow> u32 parsed" where
  "parse_token vocab p =
     (if cur p \<noteq> 0x3C then Inl (err (quoted ''<'') p)
      else let start = pr_pos p; p = move 1 p in
        if cur p = 0x5B then
          bind_ok (parse_u64 (move 1 p)) (\<lambda>(n, p).
            if 2 ^ 32 \<le> int n then Inl (err_at ''token id is too large'' start p)
            else if cur p \<noteq> 0x5D then Inl (err (quoted '']'') p)
            else let p = move 1 p in
              if cur p \<noteq> 0x3E then Inl (err (quoted ''>'') p)
              else Inr (of_nat n, move 1 p))
        else
          let p = goto (span_end (\<lambda>c. c \<noteq> 0x3E) (pr_src p) (pr_pos p)) p in
          if cur p \<noteq> 0x3E then Inl (err (quoted ''>'') p)
          else let p = move 1 p; text = slice (pr_src p) start (pr_pos p) in
            if \<not> utf8_ok text then Inl (err_at ''token name is not valid UTF-8'' start p)
            else case vocab of
                None \<Rightarrow> Inl (TokenNeedsVocabulary text start)
              | Some tokenize \<Rightarrow>
                  let ids = tokenize text in
                  if length ids \<noteq> 1 then Inl (TokenNotSingle text (length ids))
                  else Inr (hd ids, p))"

section \<open>The symbol table\<close>

definition get_symbol_id :: "bytes \<Rightarrow> parser \<Rightarrow> nat \<times> parser" where
  "get_symbol_id name p =
     (case map_of (pr_symbols p) name of
        Some i \<Rightarrow> (i, p)
      | None \<Rightarrow> let next_id = length (pr_symbols p) in
          (next_id, p\<lparr>pr_symbols := pr_symbols p @ [(name, next_id)]\<rparr>))"

fun decimal_text :: "nat \<Rightarrow> bytes" where
  "decimal_text n =
     (if n < 10 then [of_nat (0x30 + n)]
      else decimal_text (n div 10) @ [of_nat (0x30 + n mod 10)])"

declare decimal_text.simps [simp del]

definition generate_symbol_id :: "bytes \<Rightarrow> parser \<Rightarrow> nat \<times> parser" where
  "generate_symbol_id base_name p =
     (let next_id = length (pr_symbols p); name = base_name @ [0x5F] @ decimal_text next_id in
      (next_id, p\<lparr>pr_symbols := AList.update name next_id (pr_symbols p)\<rparr>))"

definition add_rule :: "nat \<Rightarrow> grammar_rule \<Rightarrow> parser \<Rightarrow> parser" where
  "add_rule rule_id rule p =
     (let rules = pr_rules p @ replicate (Suc rule_id - length (pr_rules p)) [] in
      p\<lparr>pr_rules := rules[rule_id := rule]\<rparr>)"

definition symbol_name :: "parser \<Rightarrow> nat \<Rightarrow> bytes option" where
  "symbol_name p rule_id = map_option fst (find (\<lambda>(k, v). v = rule_id) (pr_symbols p))"

definition symbol_id :: "parser \<Rightarrow> bytes \<Rightarrow> nat option" where
  "symbol_id p name = map_of (pr_symbols p) name"

section \<open>Items\<close>

text \<open>What a lexical step leaves alone, and that it moves.\<close>

definition advances :: "parser \<Rightarrow> parser \<Rightarrow> bool" where
  "advances p q \<longleftrightarrow> pr_pos p < pr_pos q \<and> pr_src q = pr_src p
     \<and> pr_rules q = pr_rules p \<and> pr_symbols q = pr_symbols p"

lemma decode_char_loop_le: "p \<le> snd (decode_char_loop src p stop v)"
proof (induction src p stop v rule: decode_char_loop.induct)
  case (1 src p stop v)
  show ?case
  proof (cases "p < stop \<and> byte_at src p \<noteq> 0")
    case True
    with 1 show ?thesis by (simp add: decode_char_loop.simps [of src p])
  next
    case False
    then show ?thesis by (subst decode_char_loop.simps) auto
  qed
qed

lemma decode_char_pos: "decode_char src i = (v, j) \<Longrightarrow> i < j"
  using decode_char_loop_le [of "i + 1" src] unfolding decode_char_def Let_def
  by (metis Suc_eq_plus1 Suc_le_lessD snd_conv)

lemma parse_hex_loop_le: "parse_hex_loop src k i v = (v', j, left) \<Longrightarrow> i \<le> j"
  by (induction src k i v rule: parse_hex_loop.induct) (auto split: if_splits option.splits)

lemma parse_hex_advances: "parse_hex n (move 2 p) = Inr (v, q) \<Longrightarrow> advances p q"
  by (auto simp: parse_hex_def advances_def split: prod.splits if_splits dest: parse_hex_loop_le)

lemma parse_char_advances: "parse_char p = Inr (v, q) \<Longrightarrow> advances p q"
  by (auto simp: parse_char_def Let_def split: if_splits prod.splits
      dest: parse_hex_advances)
     (auto simp: advances_def dest: decode_char_pos)

function parse_literal :: "parser \<Rightarrow> grammar_rule \<Rightarrow> grammar_rule parsed" where
  "parse_literal p rule =
     (if cur p = 0x22 then Inr (rule, p)
      else if cur p = 0 then Inl (err ''unexpected end of input'' p)
      else case parse_char p of
          Inl e \<Rightarrow> Inl e
        | Inr (value, p) \<Rightarrow> parse_literal p (rule @ [mk_elem GreChar value]))"
  by pat_completeness auto
termination
  by (relation "measure (\<lambda>(p, rule). length (pr_src p) - pr_pos p)")
     (auto dest!: parse_char_advances cur_in simp: advances_def)

function parse_class :: "gre_type \<Rightarrow> nat \<Rightarrow> parser \<Rightarrow> grammar_rule \<Rightarrow> grammar_rule parsed" where
  "parse_class start_type last_sym_start p rule =
     (if cur p = 0x5D then Inr (rule, p)
      else if cur p = 0 then Inl (err ''unexpected end of input'' p)
      else case parse_char p of
          Inl e \<Rightarrow> Inl e
        | Inr (value, p) \<Rightarrow>
            let gtype = (if last_sym_start < length rule then GreCharAlt else start_type);
                rule = rule @ [mk_elem gtype value]
            in if cur p = 0x2D \<and> peek p 1 \<noteq> 0x5D then
                 if peek p 1 = 0 then Inl (err ''unexpected end of input'' p)
                 else case parse_char (move 1 p) of
                     Inl e \<Rightarrow> Inl e
                   | Inr (endchar, p) \<Rightarrow>
                       parse_class start_type last_sym_start p (rule @ [mk_elem GreCharRngUpper endchar])
               else parse_class start_type last_sym_start p rule)"
  by pat_completeness auto
termination
  by (relation "measure (\<lambda>(t, l, p, rule). length (pr_src p) - pr_pos p)")
     (auto dest!: parse_char_advances cur_in simp: advances_def)

declare parse_literal.simps [simp del] parse_class.simps [simp del]

text \<open>The state of \<open>parse_sequence\<close>: the rule so far, the start of the last item, and how many
  rules that item stands for.\<close>

record sequence_state =
  sq_rule :: grammar_rule
  sq_last :: nat
  sq_prev_rules :: nat

definition max_repetition_threshold :: int where
  "max_repetition_threshold = 2000"

definition saturating_mul :: "nat \<Rightarrow> nat \<Rightarrow> nat" where
  "saturating_mul a b = (if int (a * b) < 2 ^ 64 then a * b else nat (2 ^ 64 - 1))"

text \<open>The loop of \<open>handle_repetitions\<close> over the optional copies, \<open>n\<close> of which are left.\<close>

fun add_optional ::
  "nat \<Rightarrow> bool \<Rightarrow> bytes \<Rightarrow> grammar_rule \<Rightarrow> nat \<Rightarrow> nat \<Rightarrow> parser \<Rightarrow> nat \<times> parser" where
  "add_optional 0 no_max rule_name prev_rule i last_id p = (last_id, p)"
| "add_optional (Suc n) no_max rule_name prev_rule i last_id p =
     (let (rec_rule_id, p) = generate_symbol_id rule_name p;
          rec_rule = prev_rule
            @ (if 0 < i \<or> no_max
               then [mk_elem GreRuleRef (of_nat (if no_max then rec_rule_id else last_id))] else [])
            @ [mk_elem GreAlt 0, mk_elem GreEnd 0]
      in add_optional n no_max rule_name prev_rule (Suc i) rec_rule_id (add_rule rec_rule_id rec_rule p))"

definition handle_repetitions ::
  "bytes \<Rightarrow> nat \<Rightarrow> nat option \<Rightarrow> sequence_state \<Rightarrow> parser \<Rightarrow> sequence_state parsed" where
  "handle_repetitions rule_name min_times max_times sq p =
     (let rule = sq_rule sq; last_sym_start = sq_last sq; no_max = (max_times = None) in
      if last_sym_start = length rule then Inl (err ''expecting preceding item to */+/?/{'' p)
      else
        let prev_rule = drop last_sym_start rule;
            total_rules = (case max_times of
                Some m \<Rightarrow> if 0 < m then m else if 0 < min_times then min_times else 1
              | None \<Rightarrow> if 0 < min_times then min_times else 1);
            product = saturating_mul (sq_prev_rules sq) total_rules
        in if max_repetition_threshold \<le> int product
           then Inl (RepetitionTooLarge (int product) max_repetition_threshold (pr_pos p))
           else
             let rule = (if min_times = 0 then take last_sym_start rule
                         else rule @ concat (replicate (min_times - 1) prev_rule));
                 n_opt = (case max_times of None \<Rightarrow> 1 | Some m \<Rightarrow> m - min_times);
                 (last_id, p) = add_optional n_opt no_max rule_name prev_rule 0 0 p;
                 rule = (if 0 < n_opt then rule @ [mk_elem GreRuleRef (of_nat last_id)] else rule)
             in Inr (sq\<lparr>sq_rule := rule, sq_prev_rules := product\<rparr>, p))"

text \<open>The braces of a repetition: the upper bound after the lower one, past the closing brace,
  and then both bounds, checked.\<close>

definition parse_max :: "bool \<Rightarrow> nat \<Rightarrow> parser \<Rightarrow> nat option parsed" where
  "parse_max is_nested min_times p =
     (if cur p = 0x7D then Inr (Some min_times, parse_space is_nested (move 1 p))
      else if cur p = 0x2C then
        let p = parse_space is_nested (move 1 p) in
        bind_ok
          (if is_digit_char (cur p)
           then bind_ok (parse_u64 p) (\<lambda>(m, p). Inr (Some m, parse_space is_nested p))
           else Inr (None, p))
          (\<lambda>(max_times, p).
            if cur p \<noteq> 0x7D then Inl (err (quoted ''}'') p)
            else Inr (max_times, parse_space is_nested (move 1 p)))
      else Inl (err (quoted '','') p))"

definition parse_braces :: "bool \<Rightarrow> parser \<Rightarrow> (nat \<times> nat option) parsed" where
  "parse_braces is_nested p =
     (let p = parse_space is_nested (move 1 p) in
      if \<not> is_digit_char (cur p) then Inl (err ''expecting an int'' p)
      else bind_ok (parse_u64 p) (\<lambda>(min_times, p).
        bind_ok (parse_max is_nested min_times (parse_space is_nested p)) (\<lambda>(max_times, p).
          if max_repetition_threshold < int min_times
             \<or> (case max_times of None \<Rightarrow> False | Some m \<Rightarrow> max_repetition_threshold < int m)
          then Inl (RepetitionTooLarge (int (case max_times of None \<Rightarrow> min_times | Some m \<Rightarrow> m))
                      max_repetition_threshold (pr_pos p))
          else Inr ((min_times, max_times), p))))"

definition new_item :: "grammar_rule \<Rightarrow> nat \<Rightarrow> nat \<Rightarrow> sequence_state" where
  "new_item rule start n = \<lparr>sq_rule = rule, sq_last = start, sq_prev_rules = n\<rparr>"

text \<open>One turn of the loop of \<open>parse_sequence\<close>, for every item but a group; \<open>None\<close> is its
  \<open>break\<close>.\<close>

definition parse_item ::
  "vocab \<Rightarrow> bytes \<Rightarrow> bool \<Rightarrow> sequence_state \<Rightarrow> parser
    \<Rightarrow> (grammar_error, (sequence_state \<times> parser) option) result" where
  "parse_item vocab rule_name is_nested sq p =
     (let c = cur p; rule = sq_rule sq; start = length rule in
      if c = 0x22 then
        bind_ok (parse_literal (move 1 p) rule) (\<lambda>(rule, p).
          Inr (Some (new_item rule start 1, parse_space is_nested (move 1 p))))
      else if c = 0x5B then
        let p = move 1 p; negated = (cur p = 0x5E);
            p = (if negated then move 1 p else p) in
        bind_ok (parse_class (if negated then GreCharNot else GreChar) start p rule) (\<lambda>(rule, p).
          Inr (Some (new_item rule start 1, parse_space is_nested (move 1 p))))
      else if c = 0x3C \<or> c = 0x21 then
        let gtype = (if c = 0x21 then GreTokenNot else GreToken);
            p = (if c = 0x21 then move 1 p else p) in
        bind_ok (parse_token vocab p) (\<lambda>(token_id, p).
          Inr (Some (new_item (rule @ [mk_elem gtype token_id]) start 1, parse_space is_nested p)))
      else if is_word_char c then
        bind_ok (parse_name p) (\<lambda>name_end.
          let name = slice (pr_src p) (pr_pos p) name_end;
              (ref_rule_id, p) = get_symbol_id name p;
              p = parse_space is_nested (goto name_end p) in
          Inr (Some (new_item (rule @ [mk_elem GreRuleRef (of_nat ref_rule_id)]) start 1, p)))
      else if c = 0x2E then
        Inr (Some (new_item (rule @ [mk_elem GreCharAny 0]) start 1, parse_space is_nested (move 1 p)))
      else if c = 0x2A then
        bind_ok (handle_repetitions rule_name 0 None sq (parse_space is_nested (move 1 p))) (\<lambda>r. Inr (Some r))
      else if c = 0x2B then
        bind_ok (handle_repetitions rule_name 1 None sq (parse_space is_nested (move 1 p))) (\<lambda>r. Inr (Some r))
      else if c = 0x3F then
        bind_ok (handle_repetitions rule_name 0 (Some 1) sq (parse_space is_nested (move 1 p)))
          (\<lambda>r. Inr (Some r))
      else if c = 0x7B then
        bind_ok (parse_braces is_nested p) (\<lambda>((min_times, max_times), p).
          bind_ok (handle_repetitions rule_name min_times max_times sq p) (\<lambda>r. Inr (Some r)))
      else Inr None)"

section \<open>Sequences, alternates, rules\<close>

fun parse_sequence ::
    "nat \<Rightarrow> vocab \<Rightarrow> bytes \<Rightarrow> bool \<Rightarrow> sequence_state \<Rightarrow> parser \<Rightarrow> grammar_rule parsed option"
and parse_alternates ::
    "nat \<Rightarrow> vocab \<Rightarrow> bytes \<Rightarrow> nat \<Rightarrow> bool \<Rightarrow> grammar_rule \<Rightarrow> parser \<Rightarrow> unit parsed option" where
  "parse_sequence 0 vocab rule_name is_nested sq p = None"
| "parse_sequence (Suc fuel) vocab rule_name is_nested sq p =
     (if cur p = 0 then Some (Inr (sq_rule sq, p))
      else if cur p = 0x28 then
        let p = parse_space True (move 1 p); n_before = length (pr_symbols p);
            (sub_rule_id, p) = generate_symbol_id rule_name p in
        bind_run (parse_alternates fuel vocab rule_name sub_rule_id True [] p) (\<lambda>(_, p).
          let n_prev_rules = max (length (pr_symbols p) - n_before) 1;
              rule = sq_rule sq @ [mk_elem GreRuleRef (of_nat sub_rule_id)] in
          if cur p \<noteq> 0x29 then Some (Inl (err (quoted '')'') p))
          else parse_sequence fuel vocab rule_name is_nested
                 (new_item rule (length (sq_rule sq)) n_prev_rules) (parse_space is_nested (move 1 p)))
      else bind_run (Some (parse_item vocab rule_name is_nested sq p)) (\<lambda>r.
        case r of
          None \<Rightarrow> Some (Inr (sq_rule sq, p))
        | Some (sq, p) \<Rightarrow> parse_sequence fuel vocab rule_name is_nested sq p))"
| "parse_alternates 0 vocab rule_name rule_id is_nested rule p = None"
| "parse_alternates (Suc fuel) vocab rule_name rule_id is_nested rule p =
     bind_run (parse_sequence fuel vocab rule_name is_nested (new_item rule (length rule) 1) p)
       (\<lambda>(rule, p).
         if cur p = 0x7C
         then parse_alternates fuel vocab rule_name rule_id is_nested (rule @ [mk_elem GreAlt 0])
                (parse_space True (move 1 p))
         else Some (Inr ((), add_rule rule_id (rule @ [mk_elem GreEnd 0]) p)))"

definition rule_fuel :: "parser \<Rightarrow> nat" where
  "rule_fuel p = 2 * length (pr_src p) + 2"

definition parse_rule :: "vocab \<Rightarrow> parser \<Rightarrow> unit parsed option" where
  "parse_rule vocab p =
     bind_run (Some (parse_name p)) (\<lambda>name_end.
       let name = slice (pr_src p) (pr_pos p) name_end;
           p = parse_space False (goto name_end p);
           (rule_id, p) = get_symbol_id name p in
       if \<not> (cur p = 0x3A \<and> peek p 1 = 0x3A \<and> peek p 2 = 0x3D)
       then Some (Inl (err ''expecting ::='' p))
       else
         bind_run (parse_alternates (rule_fuel p) vocab name rule_id False []
                     (parse_space True (move 3 p))) (\<lambda>(_, p).
           if cur p = 0x0D
           then Some (Inr ((), parse_space True (move (if peek p 1 = 0x0A then 2 else 1) p)))
           else if cur p = 0x0A then Some (Inr ((), parse_space True (move 1 p)))
           else if cur p \<noteq> 0 then Some (Inl (err ''expecting newline or end'' p))
           else Some (Inr ((), parse_space True p))))"

fun parse_rules :: "nat \<Rightarrow> vocab \<Rightarrow> parser \<Rightarrow> unit parsed option" where
  "parse_rules 0 vocab p = None"
| "parse_rules (Suc fuel) vocab p =
     (if cur p = 0 then Some (Inr ((), p))
      else bind_run (parse_rule vocab p) (\<lambda>(_, p). parse_rules fuel vocab p))"

definition undefined_rule :: "parser \<Rightarrow> nat \<Rightarrow> grammar_error" where
  "undefined_rule p rule_id = UndefinedRule (name_or unnamed (symbol_name p rule_id)) rule_id"

definition validate :: "parser \<Rightarrow> unit parsed" where
  "validate p =
     (case find (\<lambda>i. pr_rules p ! i = []) [0..<length (pr_rules p)] of
        Some i \<Rightarrow> Inl (undefined_rule p i)
      | None \<Rightarrow> (case find (dangling (pr_rules p)) (concat (pr_rules p)) of
          Some e \<Rightarrow> Inl (undefined_rule p (unat (ge_value e)))
        | None \<Rightarrow> Inr ((), p)))"

definition parse_all :: "vocab \<Rightarrow> parser \<Rightarrow> unit parsed option" where
  "parse_all vocab p =
     bind_run (parse_rules (Suc (length (pr_src p))) vocab (parse_space True p)) (\<lambda>(_, p).
       Some (validate p))"

definition parse_with_vocab :: "bytes \<Rightarrow> vocab \<Rightarrow> (grammar_error, parser) result option" where
  "parse_with_vocab src vocab =
     bind_run (parse_all vocab \<lparr>pr_src = src, pr_pos = 0, pr_rules = [], pr_symbols = []\<rparr>)
       (\<lambda>(_, p). Some (Inr p))"

definition parse :: "bytes \<Rightarrow> (grammar_error, parser) result option" where
  "parse src = parse_with_vocab src None"

text \<open>Starting a machine over parsed text (machine.rs).\<close>

definition from_parsed :: "parser \<Rightarrow> bytes \<Rightarrow> (grammar_error, 'rx grammar) result option" where
  "from_parsed parsed name =
     (case symbol_id parsed name of
        None \<Rightarrow> Some (Inl (MissingRoot name))
      | Some start \<Rightarrow> from_rules (pr_rules parsed) start (symbol_name parsed))"

definition from_str_with_vocab ::
  "bytes \<Rightarrow> bytes \<Rightarrow> vocab \<Rightarrow> (grammar_error, 'rx grammar) result option" where
  "from_str_with_vocab src name vocab =
     bind_run (parse_with_vocab src vocab) (\<lambda>parsed. from_parsed parsed name)"

definition from_str_with_root :: "bytes \<Rightarrow> bytes \<Rightarrow> (grammar_error, 'rx grammar) result option" where
  "from_str_with_root src name = from_str_with_vocab src name None"

section \<open>Lexical steps\<close>

text \<open>What a lexical step does to the parser: it moves ahead and leaves the rest alone.  A step
  that adds rules and symbols only keeps the text.\<close>

definition lexes :: "parser \<Rightarrow> parser \<Rightarrow> bool" where
  "lexes p q \<longleftrightarrow> pr_pos p \<le> pr_pos q \<and> pr_src q = pr_src p
     \<and> pr_rules q = pr_rules p \<and> pr_symbols q = pr_symbols p"

definition follows :: "parser \<Rightarrow> parser \<Rightarrow> bool" where
  "follows p q \<longleftrightarrow> pr_pos p \<le> pr_pos q \<and> pr_src q = pr_src p"

lemma lexes_refl [simp]: "lexes p p"
  by (simp add: lexes_def)

lemma lexes_trans: "lexes p q \<Longrightarrow> lexes q r \<Longrightarrow> lexes p r"
  by (simp add: lexes_def)

lemma lexes_follows: "lexes p q \<Longrightarrow> follows p q"
  by (simp add: lexes_def follows_def)

lemma advances_lexes: "advances p q \<Longrightarrow> lexes p q"
  by (simp add: lexes_def advances_def)

lemma lexes_move [simp]: "lexes p (move k p)"
  by (simp add: lexes_def)

lemma follows_refl [simp]: "follows p p"
  by (simp add: follows_def)

lemma follows_trans: "follows p q \<Longrightarrow> follows q r \<Longrightarrow> follows p r"
  by (simp add: follows_def)

lemma follows_move [simp]: "follows p (move k p)"
  by (simp add: follows_def)

lemma space_end_le: "i \<le> space_end nl src i"
proof (induction nl src i rule: space_end.induct)
  case (1 nl src i)
  have "i \<le> comment_end src i" by (simp add: comment_end_def span_end_le)
  with 1 show ?case by (subst space_end.simps) (auto simp: Let_def)
qed

lemma parse_space_simps [simp]:
  "pr_src (parse_space nl p) = pr_src p" "pr_rules (parse_space nl p) = pr_rules p"
  "pr_symbols (parse_space nl p) = pr_symbols p"
  by (simp_all add: parse_space_def)

lemma lexes_space [simp]: "lexes p (parse_space nl p)"
  by (simp add: lexes_def parse_space_def space_end_le)

lemma follows_space [simp]: "follows p (parse_space nl p)"
  by (rule lexes_follows) simp

lemma follows_past: "follows p q \<Longrightarrow> follows p (parse_space nl (move k q))"
  by (meson follows_move follows_space follows_trans)

lemma parse_literal_lexes: "parse_literal p rule = Inr (rule', q) \<Longrightarrow> lexes p q"
proof (induction p rule rule: parse_literal.induct)
  case (1 p rule)
  show ?case
    using "1.prems" "1.IH"
    by (subst (asm) parse_literal.simps)
       (auto split: if_splits sum.splits intro: lexes_trans dest!: parse_char_advances advances_lexes)
qed

lemma parse_class_lexes: "parse_class t l p rule = Inr (rule', q) \<Longrightarrow> lexes p q"
proof (induction t l p rule rule: parse_class.induct)
  case (1 t l p rule)
  show ?case
  proof (cases "cur p = 0x5D \<or> cur p = 0")
    case True
    with "1.prems" show ?thesis by (subst (asm) parse_class.simps) (auto split: if_splits)
  next
    case False
    with "1.prems" obtain v p1 where c: "parse_char p = Inr (v, p1)"
      by (subst (asm) parse_class.simps) (auto split: sum.splits)
    have f: "lexes p p1" using parse_char_advances [OF c] by (rule advances_lexes)
    show ?thesis
    proof (cases "cur p1 = 0x2D \<and> peek p1 1 \<noteq> 0x5D")
      case True
      with "1.prems" False c obtain e p2 where e: "parse_char (move 1 p1) = Inr (e, p2)"
        by (subst (asm) parse_class.simps) (auto simp: Let_def split: if_splits sum.splits)
      have g: "lexes p1 p2"
        using lexes_trans [OF lexes_move advances_lexes [OF parse_char_advances [OF e]]] .
      have "lexes p2 q"
        using "1.IH"(1) [OF _ _ c refl refl refl True _ e refl] False True "1.prems" c e
        by (subst (asm) parse_class.simps) (auto simp: Let_def split: if_splits)
      with f g show ?thesis by (blast intro: lexes_trans)
    next
      case n: False
      have "lexes p1 q"
        using "1.IH"(2) [OF _ _ c refl refl refl n] False n "1.prems" c
        by (subst (asm) parse_class.simps) (auto simp: Let_def split: if_splits)
      with f show ?thesis by (rule lexes_trans)
    qed
  qed
qed

lemma parse_u64_lexes: "parse_u64 p = Inr (n, q) \<Longrightarrow> lexes p q"
  by (auto simp: parse_u64_def parse_int_end_def bind_ok_def Let_def lexes_def span_end_le
      split: if_splits sum.splits)

lemma lexes_goto_span: "lexes p (goto (span_end f (pr_src p) (pr_pos p)) p)"
  by (simp add: lexes_def span_end_le)

lemma parse_token_lexes:
  assumes "parse_token vocab p = Inr (t, q)" shows "lexes p q \<and> pr_pos p < pr_pos q"
proof -
  let ?p = "move 1 p"
  let ?s = "goto (span_end (\<lambda>c. c \<noteq> 0x3E) (pr_src ?p) (pr_pos ?p)) ?p"
  have "(\<exists>n r. parse_u64 (move 1 ?p) = Inr (n, r) \<and> q = move 1 (move 1 r)) \<or> q = move 1 ?s"
    using assms
    by (auto simp: parse_token_def bind_ok_def Let_def split: if_splits sum.splits option.splits)
  moreover have "lexes ?p ?s" by (rule lexes_goto_span)
  ultimately show ?thesis
    by (auto simp: lexes_def dest!: parse_u64_lexes)
qed

lemma lexes_step: "lexes (parse_space nl (move k p)) q \<Longrightarrow> lexes p q"
  by (meson lexes_move lexes_space lexes_trans)

lemma lexes_past:
  "lexes p q \<Longrightarrow> lexes p (parse_space nl q)"
  "lexes p q \<Longrightarrow> lexes p (parse_space nl (move k q))"
  by (meson lexes_move lexes_space lexes_trans)+

lemma parse_max_lexes: "parse_max nested lo p = Inr (r, q) \<Longrightarrow> lexes p q"
  by (auto simp: parse_max_def bind_ok_def Let_def split: if_splits sum.splits
      dest!: parse_u64_lexes lexes_step intro!: lexes_past)

lemma parse_braces_lexes:
  assumes "parse_braces nested p = Inr (r, q)" shows "pr_pos p < pr_pos q \<and> lexes p q"
proof -
  let ?p = "parse_space nested (move 1 p)"
  from assms obtain lo p2 where u: "parse_u64 ?p = Inr (lo, p2)"
    by (auto simp: parse_braces_def bind_ok_def Let_def split: if_splits sum.splits)
  with assms obtain hi where m: "parse_max nested lo (parse_space nested p2) = Inr (hi, q)"
    by (auto simp: parse_braces_def bind_ok_def Let_def split: if_splits sum.splits)
  have "lexes (move 1 p) q"
    using parse_u64_lexes [OF u] parse_max_lexes [OF m] by (meson lexes_space lexes_trans)
  then show ?thesis by (simp add: lexes_def)
qed

lemma get_symbol_id_keeps:
  "get_symbol_id name p = (i, q) \<Longrightarrow> pr_pos q = pr_pos p \<and> pr_src q = pr_src p \<and> pr_rules q = pr_rules p"
  by (auto simp: get_symbol_id_def Let_def split: option.splits)

lemma generate_symbol_id_keeps:
  "generate_symbol_id name p = (i, q) \<Longrightarrow>
     pr_pos q = pr_pos p \<and> pr_src q = pr_src p \<and> pr_rules q = pr_rules p"
  by (auto simp: generate_symbol_id_def Let_def)

lemma add_rule_keeps [simp]:
  "pr_pos (add_rule i rule p) = pr_pos p" "pr_src (add_rule i rule p) = pr_src p"
  "pr_symbols (add_rule i rule p) = pr_symbols p"
  by (simp_all add: add_rule_def Let_def)

lemma add_optional_keeps:
  "add_optional n no_max name prev i prior p = (l, q) \<Longrightarrow> pr_pos q = pr_pos p \<and> pr_src q = pr_src p"
proof (induction n arbitrary: i prior p)
  case (Suc n)
  obtain r p1 where g: "generate_symbol_id name p = (r, p1)" by fastforce
  with Suc show ?case by (fastforce dest: generate_symbol_id_keeps)
qed simp

lemma handle_repetitions_keeps:
  "handle_repetitions name lo hi sq p = Inr (sq', q) \<Longrightarrow> pr_pos q = pr_pos p \<and> pr_src q = pr_src p"
  by (auto simp: handle_repetitions_def Let_def split: if_splits prod.splits
      dest: add_optional_keeps [OF sym] add_optional_keeps)

lemma parse_name_end: "parse_name p = Inr e \<Longrightarrow> pr_pos p < e"
  using span_end_le [of "pr_pos p" is_word_char "pr_src p"]
  by (auto simp: parse_name_def Let_def split: if_splits)

end
