(* ===== verification/Grammar_Parsed.thy ===== *)
theory Grammar_Parsed
  imports Grammar_Parser
begin

text \<open>
  What a parsed grammar is.  Every rule the parser adds is shaped as the machine expects, the
  symbol table numbers its names in the order of their first use, and validation resolves every
  reference.  So parsing followed by construction of the machine fails for a missing root or for
  left recursion only, and the machine it builds meets no internal error.
\<close>

section \<open>Partial rules\<close>

text \<open>A rule so far after which whatever is shaped from the given state completes a rule.\<close>

definition ready :: "shape_state \<Rightarrow> grammar_rule \<Rightarrow> bool" where
  "ready st rule \<longleftrightarrow> (\<forall>rest. shaped st rest \<longrightarrow> shaped Item (rule @ rest))"

lemma ready_Nil [simp]: "ready Item []"
  by (simp add: ready_def)

lemma ready_append: "ready Item a \<Longrightarrow> ready st b \<Longrightarrow> ready st (a @ b)"
  by (simp add: ready_def)

lemma ready_Item: "ready st rule \<Longrightarrow> ready Item rule"
  by (simp add: ready_def shaped_Item)

lemma shaped_Upper_Entry: "shaped Upper es \<Longrightarrow> shaped Entry es"
  by (cases es) (auto split: gre_type.splits)

lemma ready_Upper: "ready Entry rule \<Longrightarrow> ready Upper rule"
  by (simp add: ready_def shaped_Upper_Entry)

lemma ready_snoc:
  "ready Item rule \<Longrightarrow> t \<in> {GreAlt, GreRuleRef, GreCharAny, GreToken, GreTokenNot} \<Longrightarrow>
     ready Item (rule @ [mk_elem t v])"
  "ready Item rule \<Longrightarrow> t \<in> {GreChar, GreCharNot} \<Longrightarrow> ready Entry (rule @ [mk_elem t v])"
  "ready Upper rule \<Longrightarrow> ready Entry (rule @ [mk_elem GreCharAlt v])"
  "ready Entry rule \<Longrightarrow> ready Upper (rule @ [mk_elem GreCharRngUpper v])"
  by (auto simp: ready_def)

lemma ready_char [simp]: "ready Item rule \<Longrightarrow> ready Item (rule @ [mk_elem GreChar v])"
  by (rule ready_Item, rule ready_snoc(2)) simp_all

lemma ready_end: "ready Item rule \<Longrightarrow> shaped Item (rule @ [mk_elem GreEnd v])"
  by (simp add: ready_def)

lemma ready_concat: "\<forall>r \<in> set rs. ready Item r \<Longrightarrow> ready Item (concat rs)"
  by (induction rs) (auto intro: ready_append)

section \<open>Items keep the shape\<close>

lemma parse_literal_ready:
  "parse_literal p rule = Inr (rule', q) \<Longrightarrow> rule = r0 @ r \<Longrightarrow> ready Item r \<Longrightarrow>
     \<exists>r'. rule' = r0 @ r' \<and> ready Item r'"
proof (induction p rule arbitrary: r rule: parse_literal.induct)
  case (1 p rule)
  show ?case
    using "1.prems" "1.IH" [OF _ _ _ refl, of _ _ "r @ [mk_elem GreChar _]"]
    by (subst (asm) parse_literal.simps)
       (auto split: if_splits sum.splits)
qed

text \<open>Inside a class: nothing yet, or an entry or a range last.\<close>

definition class_open :: "nat \<Rightarrow> grammar_rule \<Rightarrow> bool" where
  "class_open start rule \<longleftrightarrow>
     start \<le> length rule
     \<and> (if length rule = start then True else ready Upper (drop start rule))"

lemma class_open_drop: "class_open start rule \<Longrightarrow> ready Item (drop start rule)"
  by (auto simp: class_open_def intro: ready_Item split: if_splits)

lemma parse_class_ready:
  "parse_class t start p rule = Inr (rule', q) \<Longrightarrow> t \<in> {GreChar, GreCharNot} \<Longrightarrow>
     class_open start rule \<Longrightarrow> class_open start rule' \<and> take start rule' = take start rule"
proof (induction t start p rule rule: parse_class.induct)
  case (1 t start p rule)
  show ?case
  proof (cases "cur p = 0x5D \<or> cur p = 0")
    case True
    with "1.prems" show ?thesis by (subst (asm) parse_class.simps) (auto split: if_splits)
  next
    case False
    with "1.prems" obtain v p1 where c: "parse_char p = Inr (v, p1)"
      by (subst (asm) parse_class.simps) (auto split: sum.splits)
    let ?t = "if start < length rule then GreCharAlt else t"
    let ?rule = "rule @ [mk_elem ?t v]"
    have entry: "start \<le> length rule" "ready Entry (drop start ?rule)"
      using "1.prems" ready_snoc(2) [OF ready_Nil]
      by (auto simp: class_open_def intro!: ready_snoc(3) split: if_splits)
    then have open1: "class_open start ?rule" "take start ?rule = take start rule"
      by (auto simp: class_open_def intro: ready_Upper)
    show ?thesis
    proof (cases "cur p1 = 0x2D \<and> peek p1 1 \<noteq> 0x5D")
      case True
      with "1.prems" False c obtain e p2 where e: "parse_char (move 1 p1) = Inr (e, p2)"
        by (subst (asm) parse_class.simps) (auto simp: Let_def split: if_splits sum.splits)
      let ?rule2 = "?rule @ [mk_elem GreCharRngUpper e]"
      have "parse_class t start p2 ?rule2 = Inr (rule', q)"
        using False True "1.prems" c e
        by (subst (asm) parse_class.simps) (auto simp: Let_def split: if_splits)
      moreover have "class_open start ?rule2"
        using ready_snoc(4) [OF entry(2), of e] entry(1) by (simp add: class_open_def)
      moreover have "peek p1 1 \<noteq> 0" using "1.prems"(1) False True c
        by (subst (asm) parse_class.simps) (auto simp: Let_def split: if_splits)
      ultimately show ?thesis
        using "1.IH"(1) [OF _ _ c refl refl refl True _ e refl] False "1.prems"(2) entry(1)
        by auto
    next
      case n: False
      have "parse_class t start p1 ?rule = Inr (rule', q)"
        using False n "1.prems" c
        by (subst (asm) parse_class.simps) (auto simp: Let_def split: if_splits)
      with "1.IH"(2) [OF _ _ c refl refl refl n] False "1.prems"(2) open1 show ?thesis
        by auto
    qed
  qed
qed

section \<open>What an item does\<close>

lemma parse_item_cases:
  assumes run: "parse_item vocab name nested sq p = Inr (Some (sq', q))"
  obtains (lexed) item where "ready Item item" "lexes p q" "pr_pos p < pr_pos q"
      "sq' = new_item (sq_rule sq @ item) (length (sq_rule sq)) 1"
  | (ref) e i p1 where "parse_name p = Inr e" "get_symbol_id (slice (pr_src p) (pr_pos p) e) p = (i, p1)"
      "q = parse_space nested (goto e p1)"
      "sq' = new_item (sq_rule sq @ [mk_elem GreRuleRef (of_nat i)]) (length (sq_rule sq)) 1"
  | (repeat) lo hi p1 where "lexes p p1" "pr_pos p < pr_pos p1"
      "handle_repetitions name lo hi sq p1 = Inr (sq', q)"
proof -
  let ?c = "cur p" and ?rule = "sq_rule sq"
  let ?start = "length ?rule"
  have past: "lexes p (parse_space nested (move 1 p1)) \<and> pr_pos p < pr_pos (parse_space nested (move 1 p1))"
    if "lexes p p1" for p1
    using that lexes_space [of "move 1 p1" nested] by (simp add: lexes_def)
  have one: "ready Item [mk_elem t v]" if "t \<in> {GreCharAny, GreToken, GreTokenNot}" for t v
    using ready_snoc(1) [OF ready_Nil, of t v] that by auto
  consider (lit) "?c = 0x22" | (cls) "?c = 0x5B" | (tok) "?c = 0x3C \<or> ?c = 0x21"
    | (word) "?c \<notin> {0x22, 0x5B, 0x3C, 0x21}" "is_word_char ?c"
    | (other) "?c \<notin> {0x22, 0x5B, 0x3C, 0x21}" "\<not> is_word_char ?c" by blast
  then show ?thesis
  proof cases
    case lit
    with run obtain r p1 where l: "parse_literal (move 1 p) ?rule = Inr (r, p1)"
      "q = parse_space nested (move 1 p1)" "sq' = new_item r ?start 1"
      by (auto simp: parse_item_def Let_def bind_ok_def split: sum.splits)
    from parse_literal_ready [OF l(1), of ?rule "[]"] obtain r' where
      r: "r = ?rule @ r'" "ready Item r'" by auto
    have "lexes p p1" using parse_literal_lexes [OF l(1)] by (meson lexes_move lexes_trans)
    from past [OF this] l(2,3) r show ?thesis by (intro lexed) auto
  next
    case cls
    define p0 where "p0 = (if cur (move 1 p) = 0x5E then move 1 (move 1 p) else move 1 p)"
    define t where "t = (if cur (move 1 p) = 0x5E then GreCharNot else GreChar)"
    have "parse_item vocab name nested sq p = bind_ok (parse_class t ?start p0 ?rule)
          (\<lambda>(rule, p). Inr (Some (new_item rule ?start 1, parse_space nested (move 1 p))))"
      by (simp add: parse_item_def Let_def p0_def t_def cls)
    with run obtain r p1 where c: "parse_class t ?start p0 ?rule = Inr (r, p1)"
      "q = parse_space nested (move 1 p1)" "sq' = new_item r ?start 1"
      by (auto simp: bind_ok_def split: sum.splits)
    have t: "t \<in> {GreChar, GreCharNot}" by (simp add: t_def)
    have r: "class_open ?start r" "take ?start r = ?rule"
      using parse_class_ready [OF c(1) t] by (simp_all add: class_open_def)
    then have "r = ?rule @ drop ?start r" by (metis append_take_drop_id)
    moreover have "lexes p p0" by (auto simp: p0_def lexes_def)
    then have "lexes p p1" using parse_class_lexes [OF c(1)] by (rule lexes_trans)
    ultimately show ?thesis using past c class_open_drop [OF r(1)] by (intro lexed) auto
  next
    case tok
    define p0 where "p0 = (if ?c = 0x21 then move 1 p else p)"
    have "parse_item vocab name nested sq p =
        bind_ok (parse_token vocab p0) (\<lambda>(token_id, p).
          Inr (Some (new_item (?rule @ [mk_elem (if ?c = 0x21 then GreTokenNot else GreToken) token_id])
                       ?start 1, parse_space nested p)))"
      using tok by (auto simp: parse_item_def Let_def p0_def)
    with run obtain v p1 where c: "parse_token vocab p0 = Inr (v, p1)" "q = parse_space nested p1"
      "sq' = new_item (?rule @ [mk_elem (if ?c = 0x21 then GreTokenNot else GreToken) v]) ?start 1"
      by (auto simp: bind_ok_def split: sum.splits)
    have "lexes p p0" by (simp add: p0_def)
    with parse_token_lexes [OF c(1)] lexes_space [of p1 nested] c(2,3) one show ?thesis
      by (intro lexed) (auto simp: lexes_def)
  next
    case word
    with run obtain e i p1 where "parse_name p = Inr e"
      "get_symbol_id (slice (pr_src p) (pr_pos p) e) p = (i, p1)"
      "q = parse_space nested (goto e p1)" "sq' = new_item (?rule @ [mk_elem GreRuleRef (of_nat i)]) ?start 1"
      by (auto simp: parse_item_def Let_def bind_ok_def split: sum.splits prod.splits)
    then show ?thesis by (rule ref)
  next
    case other
    then consider "q = parse_space nested (move 1 p)" "sq' = new_item (?rule @ [mk_elem GreCharAny 0]) ?start 1"
      | lo hi where "handle_repetitions name lo hi sq (parse_space nested (move 1 p)) = Inr (sq', q)"
      | lo hi p1 where "parse_braces nested p = Inr ((lo, hi), p1)"
          "handle_repetitions name lo hi sq p1 = Inr (sq', q)"
      using run by (auto simp: parse_item_def Let_def bind_ok_def split: sum.splits if_splits)
    then show ?thesis
    proof cases
      case 1
      then show ?thesis using past [of p] one by (intro lexed) auto
    next
      case 2
      then show ?thesis using past [of p] by (intro repeat) auto
    next
      case 3
      with parse_braces_lexes [OF 3(1)] show ?thesis by (intro repeat) auto
    qed
  qed
qed

lemma parse_item_progress:
  assumes "parse_item vocab name nested sq p = Inr (Some (sq', q))"
  shows "pr_pos p < pr_pos q \<and> pr_src q = pr_src p"
  using assms
proof (cases rule: parse_item_cases)
  case (ref e i p1)
  from parse_name_end [OF ref(1)] get_symbol_id_keeps [OF ref(2)]
    follows_space [of "goto e p1" nested] show ?thesis
    unfolding ref(3) by (simp add: follows_def)
qed (auto simp: lexes_def dest: handle_repetitions_keeps)

section \<open>Parsing returns\<close>

lemma follows_less: "follows (move (Suc k) p) q \<Longrightarrow> pr_pos p < pr_pos q \<and> pr_src q = pr_src p"
  by (simp add: follows_def)

lemma space_move_less:
  "follows p p1 \<Longrightarrow> q = parse_space nl (move 1 p1) \<Longrightarrow> pr_pos p < pr_pos q \<and> pr_src q = pr_src p"
  using follows_space [of "move 1 p1" nl] by (simp add: follows_def)

lemma bind_run_follows:
  assumes "\<exists>r. m = Some r \<and> (\<forall>a q. r = Inr (a, q) \<longrightarrow> follows p q)"
    and "\<And>a q. follows p q \<Longrightarrow> \<exists>r. f (a, q) = Some r \<and> (\<forall>b s. r = Inr (b, s) \<longrightarrow> follows p s)"
  shows "\<exists>r. bind_run m f = Some r \<and> (\<forall>b s. r = Inr (b, s) \<longrightarrow> follows p s)"
  using assms by (cases m) (auto simp: bind_run_def split: sum.splits)

lemma parsing_returns:
  "(2 * (length (pr_src p) - pr_pos p) < fuel \<longrightarrow>
     (\<exists>r. parse_sequence fuel vocab name nested sq p = Some r
       \<and> (\<forall>rule q. r = Inr (rule, q) \<longrightarrow> follows p q)))
   \<and> (2 * (length (pr_src p) - pr_pos p) + 1 < fuel \<longrightarrow>
     (\<exists>r. parse_alternates fuel vocab name i nested rule p = Some r
       \<and> (\<forall>u q. r = Inr (u, q) \<longrightarrow> follows p q)))"
proof (induction fuel arbitrary: p name nested sq i rule)
  case (Suc fuel)
  have seq: "\<exists>r. parse_sequence fuel vocab name nested sq p = Some r
       \<and> (\<forall>rule q. r = Inr (rule, q) \<longrightarrow> follows p0 q)"
    if "2 * (length (pr_src p) - pr_pos p) < fuel" "follows p0 p" for p p0 name nested sq
    using Suc.IH [of p name nested sq i rule] that follows_trans by blast
  have alt: "\<exists>r. parse_alternates fuel vocab name i nested rule p = Some r
       \<and> (\<forall>u q. r = Inr (u, q) \<longrightarrow> follows p0 q)"
    if "2 * (length (pr_src p) - pr_pos p) + 1 < fuel" "follows p0 p" for p p0 name i nested rule
    using Suc.IH [of p name nested sq i rule] that follows_trans by blast
  have "\<exists>r. parse_alternates (Suc fuel) vocab name i nested rule p = Some r
       \<and> (\<forall>u q. r = Inr (u, q) \<longrightarrow> follows p q)"
    if f: "2 * (length (pr_src p) - pr_pos p) + 1 < Suc fuel"
    unfolding parse_alternates.simps
  proof (rule bind_run_follows)
    show "\<exists>r. parse_sequence fuel vocab name nested (new_item rule (length rule) 1) p = Some r
       \<and> (\<forall>a q. r = Inr (a, q) \<longrightarrow> follows p q)"
      using seq [OF _ follows_refl] f by simp
  next
    fix rule' q assume q: "follows p q"
    have "\<exists>r. parse_alternates fuel vocab name i nested (rule' @ [mk_elem GreAlt 0])
                (parse_space True (move 1 q)) = Some r \<and> (\<forall>u s. r = Inr (u, s) \<longrightarrow> follows p s)"
      if "cur q = 0x7C"
    proof (rule alt)
      have "pr_pos q < length (pr_src q)" using that by (intro cur_in) simp
      then show "2 * (length (pr_src (parse_space True (move 1 q))) - pr_pos (parse_space True (move 1 q)))
          + 1 < fuel"
        using f q space_move_less [OF q refl, of True] follows_space [of "move 1 q" True]
        by (auto simp: follows_def)
      show "follows p (parse_space True (move 1 q))" using q by (rule follows_past)
    qed
    then show "\<exists>r. (case (rule', q) of (rule, p) \<Rightarrow> if cur p = 0x7C
           then parse_alternates fuel vocab name i nested (rule @ [mk_elem GreAlt 0])
                  (parse_space True (move 1 p))
           else Some (Inr ((), add_rule i (rule @ [mk_elem GreEnd 0]) p))) = Some r
         \<and> (\<forall>b s. r = Inr (b, s) \<longrightarrow> follows p s)"
      using q by (auto simp: follows_def)
  qed
  moreover have "\<exists>r. parse_sequence (Suc fuel) vocab name nested sq p = Some r
       \<and> (\<forall>rule q. r = Inr (rule, q) \<longrightarrow> follows p q)"
    if f: "2 * (length (pr_src p) - pr_pos p) < Suc fuel"
  proof -
    consider (stop) "cur p = 0" | (group) "cur p = 0x28" | (item) "cur p \<noteq> 0" "cur p \<noteq> 0x28"
      by blast
    then show ?thesis
    proof cases
      case stop
      then show ?thesis by simp
    next
      case group
      then have "cur p \<noteq> 0" by simp
      then have len: "pr_pos p < length (pr_src p)" by (rule cur_in)
      let ?p = "parse_space True (move 1 p)"
      obtain j p1 where g: "generate_symbol_id name ?p = (j, p1)" by fastforce
      have p1: "follows (move 1 p) p1"
        using generate_symbol_id_keeps [OF g] follows_space [of "move 1 p" True]
        by (simp add: follows_def)
      then have fp1: "follows p p1" by (rule follows_trans [OF follows_move])
      have A: "\<exists>r. parse_alternates fuel vocab name j True [] p1 = Some r
         \<and> (\<forall>u q. r = Inr (u, q) \<longrightarrow> follows (move 1 p) q)"
        using p1 f len by (intro alt) (auto simp: follows_def)
      let ?rest = "\<lambda>(_, q).
          let n_prev_rules = max (length (pr_symbols q) - length (pr_symbols ?p)) 1;
              rule = sq_rule sq @ [mk_elem GreRuleRef (of_nat j)] in
          if cur q \<noteq> 0x29 then Some (Inl (err (quoted '')'') q))
          else parse_sequence fuel vocab name nested
                 (new_item rule (length (sq_rule sq)) n_prev_rules) (parse_space nested (move 1 q))"
      have R: "\<exists>r. bind_run (parse_alternates fuel vocab name j True [] p1) ?rest = Some r
         \<and> (\<forall>b s. r = Inr (b, s) \<longrightarrow> follows (move 1 p) s)"
      proof (rule bind_run_follows [OF A], simp only: Let_def prod.case, goal_cases)
        case (1 a q)
        have "\<exists>r. parse_sequence fuel vocab name nested sq' (parse_space nested (move 1 q)) = Some r
           \<and> (\<forall>rule s. r = Inr (rule, s) \<longrightarrow> follows (move 1 p) s)" for sq'
          using 1 f len space_move_less [OF 1 refl, of nested] follows_past [OF 1, of nested 1]
          by (intro seq) (auto simp: follows_def)
        then show ?case by simp
      qed
      have "parse_sequence (Suc fuel) vocab name nested sq p
          = bind_run (parse_alternates fuel vocab name j True [] p1) ?rest"
        using group g by (simp add: Let_def del: parse_space_simps move_simps)
      with R show ?thesis using follows_trans [OF follows_move [of p 1]] by metis
    next
      case item
      have "\<exists>r. parse_sequence fuel vocab name nested sq' q = Some r
           \<and> (\<forall>rule s. r = Inr (rule, s) \<longrightarrow> follows p s)"
        if i: "parse_item vocab name nested sq p = Inr (Some (sq', q))" for sq' q
        using parse_item_progress [OF i] f cur_in [OF item(1)]
        by (intro seq) (auto simp: follows_def)
      with item show ?thesis
        by (auto simp: bind_run_def split: sum.splits option.splits)
    qed
  qed
  ultimately show ?case by blast
qed simp

lemma alternates_return:
  assumes "follows p q" and "pr_pos p < pr_pos q"
  shows "\<exists>r. parse_alternates (rule_fuel p) vocab name i nested rule q = Some r
           \<and> (\<forall>u s. r = Inr (u, s) \<longrightarrow> follows q s)"
  using parsing_returns [of q "rule_fuel p" vocab name nested undefined i rule] assms
  by (auto simp: rule_fuel_def follows_def)

lemma parse_rule_returns:
  "\<exists>r. parse_rule vocab p = Some r \<and> (\<forall>u q. r = Inr (u, q) \<longrightarrow> follows p q \<and> pr_pos p < pr_pos q)"
proof (cases "parse_name p")
  case (Inr e)
  let ?name = "slice (pr_src p) (pr_pos p) e"
  obtain i p1 where s: "get_symbol_id ?name (parse_space False (goto e p)) = (i, p1)" by fastforce
  from parse_name_end [OF Inr] get_symbol_id_keeps [OF s] follows_space [of "goto e p" False]
  have p1: "follows p p1" "pr_pos p < pr_pos p1" by (auto simp: follows_def)
  let ?p2 = "parse_space True (move 3 p1)"
  have f2: "follows p1 ?p2" using follows_refl by (rule follows_past)
  with p1 have p2: "follows p ?p2" "pr_pos p < pr_pos ?p2" by (auto simp: follows_def)
  have A: "\<exists>r. parse_alternates (rule_fuel p1) vocab ?name i False [] ?p2 = Some r
      \<and> (\<forall>u s. r = Inr (u, s) \<longrightarrow> follows ?p2 s)"
    using f2 follows_space [of "move 3 p1" True] by (intro alternates_return) (auto simp: follows_def)
  then obtain r where r: "parse_alternates (rule_fuel p1) vocab ?name i False [] ?p2 = Some r"
    "\<And>u s. r = Inr (u, s) \<Longrightarrow> follows ?p2 s" by blast
  have past: "follows p (parse_space True (move k s)) \<and> pr_pos p < pr_pos (parse_space True (move k s))"
    if "follows ?p2 s" for s k
    using follows_past [OF that, of True k] p2 by (auto simp: follows_def)
  have "follows p (parse_space True s) \<and> pr_pos p < pr_pos (parse_space True s)"
    if "follows ?p2 s" for s using past [OF that, of 0] by (simp add: move_def)
  with past r show ?thesis
    by (auto simp: parse_rule_def Inr s Let_def bind_run_def split: sum.splits)
qed (simp add: parse_rule_def)

lemma parse_rules_return:
  "length (pr_src p) - pr_pos p < fuel \<Longrightarrow> \<exists>r. parse_rules fuel vocab p = Some r"
proof (induction fuel arbitrary: p)
  case (Suc fuel)
  show ?case
  proof (cases "cur p = 0")
    case False
    obtain r where r: "parse_rule vocab p = Some r"
      "\<And>u q. r = Inr (u, q) \<Longrightarrow> follows p q \<and> pr_pos p < pr_pos q"
      using parse_rule_returns by blast
    show ?thesis
    proof (cases r)
      case (Inr a)
      then obtain q where q: "r = Inr ((), q)" by (cases a) auto
      have "\<exists>r. parse_rules fuel vocab q = Some r"
        using r(2) [OF q] cur_in [OF False] Suc.prems by (intro Suc.IH) (auto simp: follows_def)
      with False r q show ?thesis by simp
    qed (use False r in simp)
  qed simp
qed simp

lemma parse_with_vocab_returns: "\<exists>r. parse_with_vocab src vocab = Some r"
  unfolding parse_with_vocab_def parse_all_def
  by (intro bind_run_returns parse_rules_return) auto

section \<open>Sequences\<close>

definition sequence_ok :: "sequence_state \<Rightarrow> bool" where
  "sequence_ok sq \<longleftrightarrow>
     sq_last sq \<le> length (sq_rule sq)
     \<and> ready Item (take (sq_last sq) (sq_rule sq)) \<and> ready Item (drop (sq_last sq) (sq_rule sq))"

definition rules_ok :: "parser \<Rightarrow> bool" where
  "rules_ok p \<longleftrightarrow> (\<forall>rule \<in> set (pr_rules p). rule = [] \<or> shaped Item rule)"

lemma sequence_ok_rule: "sequence_ok sq \<Longrightarrow> ready Item (sq_rule sq)"
  using ready_append [of "take (sq_last sq) (sq_rule sq)" Item "drop (sq_last sq) (sq_rule sq)"]
  by (simp add: sequence_ok_def)

lemma new_item_ok: "ready Item rule \<Longrightarrow> ready Item item \<Longrightarrow> sequence_ok (new_item (rule @ item) (length rule) n)"
  by (simp add: sequence_ok_def new_item_def)

lemma add_rule_ok: "rules_ok p \<Longrightarrow> shaped Item rule \<Longrightarrow> rules_ok (add_rule i rule p)"
  by (auto simp: rules_ok_def add_rule_def Let_def dest!: set_update_subset_insert [THEN subsetD])

lemma rules_ok_eq: "pr_rules q = pr_rules p \<Longrightarrow> rules_ok q = rules_ok p"
  by (simp add: rules_ok_def)

lemma add_optional_ok:
  "rules_ok p \<Longrightarrow> ready Item prev \<Longrightarrow> add_optional n no_max name prev i prior p = (l, q) \<Longrightarrow> rules_ok q"
proof (induction n arbitrary: i prior p)
  case (Suc n)
  obtain r p1 where g: "generate_symbol_id name p = (r, p1)" by fastforce
  then have p1: "rules_ok p1" using Suc.prems(1) generate_symbol_id_keeps rules_ok_eq by blast
  let ?rule = "prev @ (if 0 < i \<or> no_max
      then [mk_elem GreRuleRef (of_nat (if no_max then r else prior))] else [])"
  have "ready Item ?rule" using Suc.prems(2) by (auto intro!: ready_snoc)
  then have "shaped Item ((?rule @ [mk_elem GreAlt 0]) @ [mk_elem GreEnd 0])"
    by (intro ready_end ready_snoc) auto
  then have "rules_ok (add_rule r (?rule @ [mk_elem GreAlt 0, mk_elem GreEnd 0]) p1)"
    by (intro add_rule_ok p1) simp
  from Suc.IH [OF this Suc.prems(2)] Suc.prems(3) g show ?case by (auto simp: Let_def)
qed simp

lemma handle_repetitions_ok:
  assumes "sequence_ok sq" "rules_ok p" "handle_repetitions name lo hi sq p = Inr (sq', q)"
  shows "sequence_ok sq' \<and> rules_ok q"
proof -
  let ?l = "sq_last sq" and ?rule = "sq_rule sq"
  let ?prev = "drop ?l ?rule" and ?n = "case hi of None \<Rightarrow> 1 | Some m \<Rightarrow> m - lo"
  let ?kept = "if lo = 0 then [] else ?prev @ concat (replicate (lo - 1) ?prev)"
  obtain i p1 where a: "add_optional ?n (hi = None) name ?prev 0 0 p = (i, p1)" by fastforce
  have l: "?l \<le> length ?rule" and ok: "ready Item (take ?l ?rule)" "ready Item ?prev"
    using assms(1) by (auto simp: sequence_ok_def)
  define tail where "tail = (if 0 < ?n then [mk_elem GreRuleRef (of_nat i)] else [])"
  have res: "sq_rule sq' = take ?l ?rule @ ?kept @ tail" "sq_last sq' = ?l" "q = p1"
    using assms(3) a l unfolding handle_repetitions_def Let_def tail_def
    by (auto split: if_splits prod.splits)
  have "ready Item ?kept"
    using ok(2) ready_append [OF ok(2) ready_concat, of "replicate (lo - 1) ?prev"] by auto
  moreover have "ready Item tail" using ready_snoc(1) [OF ready_Nil] by (simp add: tail_def)
  ultimately have "sequence_ok sq'"
    using ok l res ready_append by (simp add: sequence_ok_def)
  with add_optional_ok [OF assms(2) ok(2) a] res(3) show ?thesis by simp
qed

lemma lexes_rules_ok: "lexes p q \<Longrightarrow> rules_ok p \<Longrightarrow> rules_ok q"
  by (simp add: lexes_def rules_ok_def)

lemma parse_item_ok:
  assumes ok: "sequence_ok sq" "rules_ok p"
    and run: "parse_item vocab name nested sq p = Inr (Some (sq', q))"
  shows "sequence_ok sq' \<and> rules_ok q"
proof -
  have rule: "ready Item (sq_rule sq)" using ok(1) by (rule sequence_ok_rule)
  from run show ?thesis
  proof (cases rule: parse_item_cases)
    case (lexed item)
    with ok(2) new_item_ok [OF rule] show ?thesis by (auto intro: lexes_rules_ok)
  next
    case (ref e i p1)
    have "ready Item [mk_elem GreRuleRef (of_nat i)]" using ready_snoc(1) [OF ready_Nil] by simp
    moreover have "rules_ok q"
      using get_symbol_id_keeps [OF ref(2)] ok(2) by (simp add: ref(3) rules_ok_def)
    ultimately show ?thesis using new_item_ok [OF rule] ref(4) by simp
  next
    case (repeat lo hi p1)
    show ?thesis
      by (rule handle_repetitions_ok [OF ok(1) lexes_rules_ok [OF repeat(1) ok(2)] repeat(3)])
  qed
qed

section \<open>The symbol table\<close>

lemma decimal_snoc: "decimal (ds @ [d]) = decimal ds * 10 + (unat d - 0x30)"
  by (simp add: decimal_def)

lemma digit_value: "n < 10 \<Longrightarrow> unat (of_nat (0x30 + n) :: u8) = 0x30 + n"
  by (simp add: unat_of_nat take_bit_nat_eq_self del: of_nat_add)

lemma decimal_decimal_text: "decimal (decimal_text n) = n"
proof (induction n rule: decimal_text.induct)
  case (1 n)
  show ?case
  proof (cases "n < 10")
    case True
    then show ?thesis using digit_value [OF True] by (simp add: decimal_text.simps [of n] decimal_def)
  next
    case False
    then show ?thesis
      using 1 digit_value [of "n mod 10"]
      by (simp add: decimal_text.simps [of n] decimal_snoc del: of_nat_add)
  qed
qed

definition word_name :: "bytes \<Rightarrow> bool" where
  "word_name name \<longleftrightarrow> (\<forall>c \<in> set name. is_word_char c)"

definition generated_name :: "bytes \<Rightarrow> nat \<Rightarrow> bytes" where
  "generated_name base i = base @ [0x5F] @ decimal_text i"

lemma underscore_no_word: "\<not> is_word_char 0x5F"
  by code_simp

lemma word_not_generated: "word_name name \<Longrightarrow> name \<noteq> generated_name base i"
  using underscore_no_word by (auto simp: word_name_def generated_name_def)

lemma digit_not_underscore: "c \<in> set (decimal_text n) \<Longrightarrow> c \<noteq> 0x5F"
proof (induction n rule: decimal_text.induct)
  case (1 n)
  have no: "(of_nat (0x30 + k) :: u8) \<noteq> 0x5F" if "k < 10" for k
  proof
    assume "(of_nat (0x30 + k) :: u8) = 0x5F"
    then have "unat (of_nat (0x30 + k) :: u8) = unat (0x5F :: u8)" by (rule arg_cong)
    then have "0x30 + k = 0x5F" unfolding digit_value [OF that] by simp
    with that show False by simp
  qed
  show ?case
    using 1 no [of n] no [of "n mod 10"]
    by (subst (asm) (2) decimal_text.simps) (auto split: if_splits)
qed

lemma generated_inject:
  assumes "generated_name base i = generated_name base' j" shows "i = j"
proof -
  have "takeWhile (\<lambda>c. c \<noteq> 0x5F) (rev (generated_name base i)) = rev (decimal_text i)" for base i
    using digit_not_underscore [of _ i]
    by (simp add: generated_name_def takeWhile_append)
  from this [of base i] this [of base' j] assms have "decimal_text i = decimal_text j" by simp
  then show ?thesis using decimal_decimal_text by metis
qed

text \<open>The table holds a name per id, in the order of the ids; a name is a word or was
  generated for its id.\<close>

definition symbols_ok :: "parser \<Rightarrow> bool" where
  "symbols_ok p \<longleftrightarrow>
     map snd (pr_symbols p) = [0..<length (pr_symbols p)] \<and> distinct (map fst (pr_symbols p))
     \<and> (\<forall>(name, i) \<in> set (pr_symbols p). word_name name \<or> (\<exists>base. name = generated_name base i))"

lemma symbols_ok_add:
  assumes "symbols_ok p" "name \<notin> fst ` set (pr_symbols p)"
    and "word_name name \<or> (\<exists>base. name = generated_name base (length (pr_symbols p)))"
  shows "symbols_ok (p\<lparr>pr_symbols := pr_symbols p @ [(name, length (pr_symbols p))]\<rparr>)"
  using assms by (auto simp: symbols_ok_def)

lemma get_symbol_id_ok:
  assumes "symbols_ok p" "word_name name" "get_symbol_id name p = (i, q)"
  shows "symbols_ok q"
  using assms symbols_ok_add [of p name]
  by (auto simp: get_symbol_id_def Let_def map_of_eq_None_iff split: option.splits)

lemma update_fresh: "k \<notin> fst ` set al \<Longrightarrow> AList.update k v al = al @ [(k, v)]"
  by (induction al) auto

lemma generate_symbol_id_ok:
  assumes ok: "symbols_ok p" and g: "generate_symbol_id base p = (i, q)"
  shows "symbols_ok q"
proof -
  let ?n = "length (pr_symbols p)"
  let ?name = "generated_name base ?n"
  have fresh: "?name \<notin> fst ` set (pr_symbols p)"
  proof
    assume "?name \<in> fst ` set (pr_symbols p)"
    then obtain j where j: "(?name, j) \<in> set (pr_symbols p)" by force
    with ok word_not_generated [of ?name base ?n] obtain base' where "?name = generated_name base' j"
      by (auto simp: symbols_ok_def)
    then have "j = ?n" by (rule generated_inject [symmetric])
    moreover have "j \<in> set (map snd (pr_symbols p))" using j by force
    then have "j \<in> set [0..<?n]" using ok by (simp only: symbols_ok_def)
    then have "j < ?n" by simp
    ultimately show False by simp
  qed
  then have "AList.update ?name ?n (pr_symbols p) = pr_symbols p @ [(?name, ?n)]"
    by (rule update_fresh)
  with g symbols_ok_add [OF ok fresh] show ?thesis
    by (auto simp: generate_symbol_id_def Let_def generated_name_def)
qed

lemma symbols_ok_eq: "pr_symbols q = pr_symbols p \<Longrightarrow> symbols_ok p \<Longrightarrow> symbols_ok q"
  by (simp add: symbols_ok_def)

lemma lexes_symbols_ok: "lexes p q \<Longrightarrow> symbols_ok p \<Longrightarrow> symbols_ok q"
  by (rule symbols_ok_eq) (simp_all add: lexes_def)

lemma add_optional_symbols:
  "symbols_ok p \<Longrightarrow> add_optional n no_max name prev i prior p = (l, q) \<Longrightarrow> symbols_ok q"
proof (induction n arbitrary: i prior p)
  case (Suc n)
  obtain r p1 where g: "generate_symbol_id name p = (r, p1)" by fastforce
  have "symbols_ok (add_rule r rule p1)" for rule
    by (rule symbols_ok_eq [OF _ generate_symbol_id_ok [OF Suc.prems(1) g]]) simp
  from Suc.IH [OF this] Suc.prems(2) g show ?case by (auto simp: Let_def)
qed simp

lemma handle_repetitions_symbols:
  "symbols_ok p \<Longrightarrow> handle_repetitions name lo hi sq p = Inr (sq', q) \<Longrightarrow> symbols_ok q"
  by (auto simp: handle_repetitions_def Let_def split: if_splits prod.splits dest: add_optional_symbols)

lemma span_word: "c \<in> set (slice src i (span_end f src i)) \<Longrightarrow> f c"
proof (induction f src i rule: span_end.induct)
  case (1 f src i)
  show ?case
  proof (cases "byte_at src i \<noteq> 0 \<and> f (byte_at src i)")
    case True
    then have i: "i < length src" using byte_at_in by blast
    have e: "span_end f src i = span_end f src (Suc i)" using True by (simp add: span_end.simps [of f src i])
    have "Suc i \<le> span_end f src (Suc i)" by (rule span_end_le)
    then have "slice src i (span_end f src (Suc i)) = byte_at src i # slice src (Suc i) (span_end f src (Suc i))"
      using i by (auto simp: slice_def byte_at_def Cons_nth_drop_Suc [symmetric] dest!: le_Suc_ex)
    with 1 True e show ?thesis by auto
  next
    case False
    then have "span_end f src i = i" by (subst span_end.simps) auto
    with "1.prems" show ?thesis by (simp add: slice_def)
  qed
qed

lemma parse_name_word: "parse_name p = Inr e \<Longrightarrow> word_name (slice (pr_src p) (pr_pos p) e)"
  by (auto simp: parse_name_def Let_def word_name_def dest: span_word split: if_splits)

lemma parse_item_symbols:
  assumes ok: "symbols_ok p" and run: "parse_item vocab name nested sq p = Inr (Some (sq', q))"
  shows "symbols_ok q"
  using run
proof (cases rule: parse_item_cases)
  case (ref e i p1)
  from get_symbol_id_ok [OF ok parse_name_word [OF ref(1)] ref(2)]
  show ?thesis by (rule symbols_ok_eq [rotated]) (simp add: ref(3))
next
  case (repeat lo hi p1)
  show ?thesis by (rule handle_repetitions_symbols [OF lexes_symbols_ok [OF repeat(1) ok] repeat(3)])
qed (use ok in \<open>auto intro: lexes_symbols_ok\<close>)

section \<open>Sequences, alternates, rules\<close>

definition parser_ok :: "parser \<Rightarrow> bool" where
  "parser_ok p \<longleftrightarrow> rules_ok p \<and> symbols_ok p"

lemma parser_ok_simps [simp]:
  "parser_ok (move k p) = parser_ok p" "parser_ok (goto i p) = parser_ok p"
  "parser_ok (parse_space nl p) = parser_ok p"
  by (simp_all add: parser_ok_def rules_ok_def symbols_ok_def)

lemma parser_ok_eq: "pr_rules q = pr_rules p \<Longrightarrow> symbols_ok q \<Longrightarrow> parser_ok p \<Longrightarrow> parser_ok q"
  by (simp add: parser_ok_def rules_ok_def)

lemma parser_ok_generate:
  assumes "parser_ok p" "generate_symbol_id name p = (i, q)" shows "parser_ok q"
  using generate_symbol_id_keeps [OF assms(2)] generate_symbol_id_ok [OF _ assms(2)] assms(1)
  by (intro parser_ok_eq [OF _ _ assms(1)]) (simp_all add: parser_ok_def)

lemma parser_ok_get:
  assumes "parser_ok p" "word_name name" "get_symbol_id name p = (i, q)" shows "parser_ok q"
  using get_symbol_id_keeps [OF assms(3)] get_symbol_id_ok [OF _ assms(2,3)] assms(1)
  by (intro parser_ok_eq [OF _ _ assms(1)]) (simp_all add: parser_ok_def)

lemma parser_ok_add_rule:
  assumes "parser_ok p" "shaped Item rule" shows "parser_ok (add_rule i rule p)"
proof -
  have "symbols_ok (add_rule i rule p)"
    using assms(1) by (auto simp: parser_ok_def symbols_ok_def)
  with assms add_rule_ok show ?thesis by (simp add: parser_ok_def)
qed

lemma parser_ok_item:
  "sequence_ok sq \<Longrightarrow> parser_ok p \<Longrightarrow> parse_item vocab name nested sq p = Inr (Some (sq', q)) \<Longrightarrow>
     sequence_ok sq' \<and> parser_ok q"
  using parse_item_ok [of sq p] parse_item_symbols [of p] by (auto simp: parser_ok_def)

lemma parsed_ok:
  "(sequence_ok sq \<longrightarrow> parser_ok p \<longrightarrow> parse_sequence fuel vocab name nested sq p = Some (Inr (rule', q))
      \<longrightarrow> ready Item rule' \<and> parser_ok q)
   \<and> (ready Item rule \<longrightarrow> parser_ok p \<longrightarrow> parse_alternates fuel vocab name i nested rule p = Some (Inr (u, q))
      \<longrightarrow> parser_ok q)"
proof (induction fuel arbitrary: name i nested sq p rule rule' q u)
  case (Suc fuel)
  have seq: "ready Item rule' \<and> parser_ok q"
    if "sequence_ok sq" "parser_ok p" "parse_sequence fuel vocab name nested sq p = Some (Inr (rule', q))"
    for name nested sq p rule' q using Suc.IH that by blast
  have alt: "parser_ok q"
    if "ready Item rule" "parser_ok p" "parse_alternates fuel vocab name i nested rule p = Some (Inr (u, q))"
    for name nested i p rule u q using Suc.IH that by blast
  have "ready Item rule' \<and> parser_ok q" if ok: "sequence_ok sq" "parser_ok p"
    and run: "parse_sequence (Suc fuel) vocab name nested sq p = Some (Inr (rule', q))"
  proof -
    consider (stop) "cur p = 0" | (group) "cur p = 0x28" | (item) "cur p \<noteq> 0" "cur p \<noteq> 0x28"
      by blast
    then show ?thesis
    proof cases
      case stop
      with run ok sequence_ok_rule show ?thesis by auto
    next
      case group
      obtain j p1 where g: "generate_symbol_id name (parse_space True (move 1 p)) = (j, p1)" by fastforce
      with group run obtain p2 n where a: "parse_alternates fuel vocab name j True [] p1 = Some (Inr ((), p2))"
        and s: "parse_sequence fuel vocab name nested (new_item (sq_rule sq @ [mk_elem GreRuleRef (of_nat j)])
            (length (sq_rule sq)) n) (parse_space nested (move 1 p2)) = Some (Inr (rule', q))"
        by (auto simp: Let_def bind_run_ok_iff split: if_splits)
      have "parser_ok p1" using parser_ok_generate [OF _ g] ok(2) by simp
      from alt [OF ready_Nil this a] have "parser_ok (parse_space nested (move 1 p2))" by simp
      moreover have "ready Item [mk_elem GreRuleRef (of_nat j)]" using ready_snoc(1) [OF ready_Nil] by simp
      ultimately show ?thesis
        using seq [OF new_item_ok [OF sequence_ok_rule [OF ok(1)]] _ s] by simp
    next
      case item
      with run obtain a where a: "parse_item vocab name nested sq p = Inr a"
        "(case a of None \<Rightarrow> Some (Inr (sq_rule sq, p))
          | Some (sq, p) \<Rightarrow> parse_sequence fuel vocab name nested sq p) = Some (Inr (rule', q))"
        by (auto simp: bind_run_ok_iff)
      then consider "parse_item vocab name nested sq p = Inr None" "rule' = sq_rule sq" "q = p"
        | sq1 p1 where "parse_item vocab name nested sq p = Inr (Some (sq1, p1))"
            "parse_sequence fuel vocab name nested sq1 p1 = Some (Inr (rule', q))"
        by (cases a) auto
      then show ?thesis
      proof cases
        case 1
        with ok sequence_ok_rule show ?thesis by auto
      next
        case 2
        with parser_ok_item [OF ok 2(1)] seq show ?thesis by blast
      qed
    qed
  qed
  moreover have "parser_ok q" if ok: "ready Item rule" "parser_ok p"
    and run: "parse_alternates (Suc fuel) vocab name i nested rule p = Some (Inr (u, q))"
  proof -
    from run obtain r p1 where s: "parse_sequence fuel vocab name nested (new_item rule (length rule) 1) p
        = Some (Inr (r, p1))"
      and rest: "cur p1 = 0x7C \<and> parse_alternates fuel vocab name i nested (r @ [mk_elem GreAlt 0])
            (parse_space True (move 1 p1)) = Some (Inr (u, q))
          \<or> q = add_rule i (r @ [mk_elem GreEnd 0]) p1"
      by (auto simp: bind_run_ok_iff split: if_splits)
    have r: "ready Item r \<and> parser_ok p1"
      using seq [OF _ ok(2) s] new_item_ok [OF ok(1) ready_Nil, of 1] by simp
    from rest show ?thesis
    proof
      assume "cur p1 = 0x7C \<and> parse_alternates fuel vocab name i nested (r @ [mk_elem GreAlt 0])
            (parse_space True (move 1 p1)) = Some (Inr (u, q))"
      moreover have "ready Item (r @ [mk_elem GreAlt 0])" using r by (intro ready_snoc) auto
      moreover have "parser_ok (parse_space True (move 1 p1))" using r by simp
      ultimately show ?thesis using alt by blast
    next
      assume "q = add_rule i (r @ [mk_elem GreEnd 0]) p1"
      with r show ?thesis by (simp add: parser_ok_add_rule ready_end)
    qed
  qed
  ultimately show ?case by blast
qed simp

lemma parse_rule_ok:
  assumes "parser_ok p" "parse_rule vocab p = Some (Inr (u, q))" shows "parser_ok q"
proof -
  from assms(2) obtain e where e: "parse_name p = Inr e"
    by (auto simp: parse_rule_def bind_run_ok_iff)
  let ?name = "slice (pr_src p) (pr_pos p) e"
  obtain i p1 where s: "get_symbol_id ?name (parse_space False (goto e p)) = (i, p1)" by fastforce
  let ?p2 = "parse_space True (move 3 p1)"
  from assms(2) obtain v p2 where a: "parse_alternates (rule_fuel p1) vocab ?name i False [] ?p2
      = Some (Inr (v, p2))" and q: "parser_ok q = parser_ok p2"
    by (auto simp: parse_rule_def e s Let_def bind_run_ok_iff split: if_splits)
  have "parser_ok ?p2" using parser_ok_get [OF _ parse_name_word [OF e] s] assms(1) by simp
  with a parsed_ok have "parser_ok p2" using ready_Nil by blast
  with q show ?thesis by simp
qed

lemma parse_rules_keep_ok: "parser_ok p \<Longrightarrow> parse_rules fuel vocab p = Some (Inr (u, q)) \<Longrightarrow> parser_ok q"
  by (induction fuel arbitrary: p) (auto simp: bind_run_ok_iff split: if_splits dest: parse_rule_ok)

section \<open>Validation\<close>

lemma parse_with_vocab_ok:
  assumes "parse_with_vocab src vocab = Some (Inr parsed)"
  shows "parser_ok parsed \<and> (\<forall>rule \<in> set (pr_rules parsed). rule \<noteq> [])
    \<and> find (dangling (pr_rules parsed)) (concat (pr_rules parsed)) = None"
proof -
  from assms obtain u p where r: "parse_rules (Suc (length src)) vocab
      (parse_space True \<lparr>pr_src = src, pr_pos = 0, pr_rules = [], pr_symbols = []\<rparr>) = Some (Inr (u, p))"
    and v: "validate p = Inr ((), parsed)"
    by (auto simp: parse_with_vocab_def parse_all_def bind_run_ok_iff)
  have "parser_ok \<lparr>pr_src = src, pr_pos = 0, pr_rules = [], pr_symbols = []\<rparr>"
    by (simp add: parser_ok_def rules_ok_def symbols_ok_def)
  then have "parser_ok p" by (intro parse_rules_keep_ok [OF _ r]) simp
  with v show ?thesis
    by (auto simp: validate_def find_None_iff in_set_conv_nth split: option.splits)
qed

lemma parsed_shaped:
  assumes "parse_with_vocab src vocab = Some (Inr parsed)"
  shows "well_shaped (pr_rules parsed)"
  using parse_with_vocab_ok [OF assms]
  by (auto simp: well_shaped_def parser_ok_def rules_ok_def find_None_iff dangling_def not_le)

lemma shaped_last: "shaped st rule \<Longrightarrow> rule \<noteq> [] \<and> ge_type (last rule) = GreEnd"
  by (induction st rule rule: shaped.induct) (auto split: gre_type.splits if_splits)

lemma shaped_terminated: "\<forall>rule \<in> set rules. shaped Item rule \<Longrightarrow> first_unterminated i rules = None"
  by (induction rules arbitrary: i) (auto dest: shaped_last)

lemma detect_all_error:
  "detect_left_recursion_all rules name_of = Some (Inl e) \<Longrightarrow> \<exists>i n. e = LeftRecursion i n"
  by (auto simp: detect_left_recursion_all_def Let_def split: option.splits)

lemma from_rules_errors:
  assumes "well_shaped rules" "find (dangling rules) (concat rules) = None"
    and "from_rules rules start name_of = Some (Inl e)"
  shows "(\<exists>n. e = MissingRoot n) \<or> (\<exists>i n. e = LeftRecursion i n)"
proof -
  have "first_unterminated 0 rules = None"
    using assms(1) by (intro shaped_terminated) (simp add: well_shaped_def)
  note run = assms(3) [unfolded from_rules_def this assms(2) option.case]
  show ?thesis
  proof (cases "start < length rules")
    case True
    have "safe_run rules (initial_stacks rules (alternates rules (RulePos start 0)) [])"
      using alternates_boundary [OF boundary_start [OF assms(1) True]] assms(1)
      by (intro safe_initial_stacks) auto
    with run True show ?thesis
      by (auto simp: bind_run_def safe_run_def dest!: detect_all_error split: option.splits sum.splits)
  qed (use run in auto)
qed

section \<open>Names and ids\<close>

lemma find_snd:
  assumes "map snd xs = [0..<length xs]"
  shows "find (\<lambda>(k, v). v = i) xs = (if i < length xs then Some (xs ! i) else None)"
proof -
  have snd: "snd (xs ! j) = j" if "j < length xs" for j
    using arg_cong [OF assms, of "\<lambda>ys. ys ! j"] that by simp
  show ?thesis
  proof (cases "i < length xs")
    case True
    moreover from this have "\<not> (\<exists>j < i. snd (xs ! j) = i)" using snd by auto
    ultimately show ?thesis using snd [of i]
      by (auto simp: find_Some_iff split_beta intro!: exI [of _ i])
  next
    case False
    with snd show ?thesis
      by (auto simp: find_None_iff in_set_conv_nth split_beta) (metis snd_conv)
  qed
qed

lemma symbol_name_inverse:
  assumes "symbols_ok p"
  shows "symbol_name p i = Some name \<longleftrightarrow> map_of (pr_symbols p) name = Some i"
proof -
  let ?t = "pr_symbols p"
  have ids: "map snd ?t = [0..<length ?t]" and d: "distinct (map fst ?t)"
    using assms by (simp_all add: symbols_ok_def)
  have at: "?t ! j = (name, i) \<longleftrightarrow> j = i \<and> fst (?t ! i) = name" if "j < length ?t" for j
    using arg_cong [OF ids, of "\<lambda>ys. ys ! j"] that by (auto simp: prod_eq_iff)
  have "(name, i) \<in> set ?t \<longleftrightarrow> i < length ?t \<and> fst (?t ! i) = name"
    using at by (auto simp: in_set_conv_nth)
  then show ?thesis
    unfolding symbol_name_def find_snd [OF ids, of i] map_of_eq_Some_iff [OF d]
    by (simp add: prod_eq_iff)
qed

section \<open>A grammar text with hidden left recursion\<close>

text \<open>The text \<^verbatim>\<open>r::=("a"?)r"x"|"y"\<close>.\<close>

definition hidden_text :: bytes where
  "hidden_text = [0x72, 0x3A, 0x3A, 0x3D, 0x28, 0x22, 0x61, 0x22, 0x3F, 0x29, 0x72, 0x22, 0x78, 0x22,
     0x7C, 0x22, 0x79, 0x22]"

definition hidden_parsed :: parser where
  "hidden_parsed = \<lparr>pr_src = hidden_text, pr_pos = 18, pr_rules = hidden_rules,
     pr_symbols = [([0x72], 0), ([0x72, 0x5F, 0x31], 1), ([0x72, 0x5F, 0x32], 2)]\<rparr>"

lemma hidden_parses: "parse_with_vocab hidden_text None = Some (Inr hidden_parsed)"
  by code_simp

section \<open>Claims\<close>

text \<open>C15.  The parser always returns, on any bytes and with any vocabulary.\<close>

theorem parser_returns: "\<exists>r. parse_with_vocab src vocab = Some r"
  by (rule parse_with_vocab_returns)

text \<open>C14.  Construction over a parsed grammar can fail only for want of the root rule or for
  left recursion; the undefined-rule and internal errors of the machine cannot occur, since every
  rule the parser builds is shaped as the machine expects and every reference resolves.\<close>

theorem parsed_machine_sound:
  assumes "parse_with_vocab src vocab = Some (Inr parsed)" "from_parsed parsed name = Some r"
  shows "case r of Inl e \<Rightarrow> (\<exists>n. e = MissingRoot n) \<or> (\<exists>i n. e = LeftRecursion i n)
    | Inr g \<Rightarrow> healthy g \<and> gr_rules g = pr_rules parsed"
proof -
  have rules: "well_shaped (pr_rules parsed)"
    "find (dangling (pr_rules parsed)) (concat (pr_rules parsed)) = None"
    using parsed_shaped [OF assms(1)] parse_with_vocab_ok [OF assms(1)] by simp_all
  show ?thesis
  proof (cases "map_of (pr_symbols parsed) name")
    case None
    with assms(2) show ?thesis by (auto simp: from_parsed_def symbol_id_def)
  next
    case (Some start)
    with assms(2) have run: "from_rules (pr_rules parsed) start (symbol_name parsed) = Some r"
      by (simp add: from_parsed_def symbol_id_def)
    show ?thesis
    proof (cases r)
      case (Inl e)
      with run show ?thesis using from_rules_errors [OF rules] by simp
    next
      case (Inr g)
      with run have "from_rules (pr_rules parsed) start (symbol_name parsed) = Some (Inr g)" by simp
      from from_rules_healthy [OF this rules(1)] from_rules_represents [OF this] Inr
      show ?thesis by simp
    qed
  qed
qed

theorem parsed_machine_sound_witness:
  "(case Inl (MissingRoot [0x78]) :: (grammar_error, unit grammar) result of
      Inl e \<Rightarrow> (\<exists>n. e = MissingRoot n) \<or> (\<exists>i n. e = LeftRecursion i n)
    | Inr g \<Rightarrow> healthy g \<and> gr_rules g = pr_rules hidden_parsed)
   \<and> from_parsed hidden_parsed [0x78] = Some (Inl (MissingRoot [0x78]) :: (grammar_error, unit grammar) result)"
proof -
  have run: "from_parsed hidden_parsed [0x78]
      = Some (Inl (MissingRoot [0x78]) :: (grammar_error, unit grammar) result)"
    by code_simp
  from parsed_machine_sound [OF hidden_parses this] run show ?thesis by blast
qed

text \<open>The symbol table of a parsed grammar numbers its names in the order of their first
  use, and looking up the id of a name and the name of an id are inverse to each other; names
  generated for groups and repetitions never take over a name of the grammar.\<close>

theorem symbol_table_inverse:
  assumes "parse_with_vocab src vocab = Some (Inr parsed)"
  shows "map snd (pr_symbols parsed) = [0..<length (pr_symbols parsed)]
    \<and> (symbol_name parsed i = Some name \<longleftrightarrow> symbol_id parsed name = Some i)"
  using parse_with_vocab_ok [OF assms] symbol_name_inverse [of parsed i name]
  by (simp add: parser_ok_def symbols_ok_def symbol_id_def)

text \<open>C22.  The gap in the left-recursion check is reached from grammar text: the parser takes
  a grammar whose root calls itself behind an optional group, the check passes it, and building
  the machine over it does not return.\<close>

theorem optional_group_hides_recursion:
  "\<exists>parsed. parse_with_vocab hidden_text None = Some (Inr parsed)
     \<and> detect_left_recursion_all (pr_rules parsed) (symbol_name parsed) = Some (Inr ())
     \<and> from_str_with_vocab hidden_text [0x72] None = None"
proof -
  have "from_str_with_vocab hidden_text [0x72] None = None"
    using hidden_not_returning by (simp add: from_str_with_vocab_def from_parsed_def symbol_id_def hidden_parses)
      (simp add: hidden_parsed_def)
  with hidden_parses hidden_passes [of "symbol_name hidden_parsed"] show ?thesis
    by (auto simp: hidden_parsed_def)
qed

end
