(* ===== verification/Grammar_Literal.thy ===== *)
theory Grammar_Literal
  imports Grammar_Parsed
begin

text \<open>
  A string literal as the grammar generators write it (\<^verbatim>\<open>grammar/json_schema/primitives.rs\<close>)
  read back by the parser: \<open>format_literal\<close> escapes what the parser takes as a delimiter or an
  escape, so any text without a NUL comes back as it was.
\<close>

definition escape_char :: "u32 \<Rightarrow> bytes" where
  "escape_char c =
     (if c = 0x0D then [0x5C, 0x72]
      else if c = 0x0A then [0x5C, 0x6E]
      else if c = 0x22 then [0x5C, 0x22]
      else if c = 0x5C then [0x5C, 0x5C]
      else utf8_encode c)"

definition format_literal :: "u32 list \<Rightarrow> bytes" where
  "format_literal literal = [0x22] @ concat (map escape_char literal) @ [0x22]"

lemma feed_byte_ascii: "feed_byte (0, 0) b = Some (o1, v, n) \<Longrightarrow> 0 < n \<Longrightarrow> 0x80 \<le> b"
proof (rule ccontr)
  assume f: "feed_byte (0, 0) b = Some (o1, v, n)" "0 < n" and "\<not> 0x80 \<le> b"
  then have "unat b < 0x80" by (simp add: word_le_nat_alt)
  then have "lead_remaining b = 0" by (intro lead_remaining_range) simp
  with f show False by (auto simp: feed_byte.simps Let_def split: if_splits)
qed

lemma utf8_encode_first:
  assumes "code_point c"
  obtains b bs where "utf8_encode c = b # bs" "b \<noteq> 0" "0x80 \<le> b \<or> bs = [] \<and> b = ucast c \<and> c < 0x80"
proof -
  have "utf8_encode c \<noteq> []" by (simp add: utf8_encode_def)
  then obtain b bs where e: "utf8_encode c = b # bs" by (cases "utf8_encode c") auto
  from feed_encode [OF assms, of 0] e obtain r where r: "feed_byte (0, 0) b = Some r"
    by (auto split: option.splits)
  then have "b \<noteq> 0" by (auto simp: feed_byte.simps split: if_splits)
  moreover have "0x80 \<le> b \<or> bs = [] \<and> b = ucast c \<and> c < 0x80"
  proof (cases "c < 0x80")
    case True
    with e show ?thesis by (simp add: utf8_encode_def)
  next
    case False
    consider "c < 0x800" | "\<not> c < 0x800" "c < 0x10000"
      | "\<not> c < 0x800" "\<not> c < 0x10000" "c < 0x110000"
      using assms by (auto simp: code_point_def)
    then have "\<exists>o1 v n. feed_byte (0, 0) b = Some (o1, v, n) \<and> 0 < n"
      using e False encode_lead2 [of c 0] encode_lead3 [of c 0] encode_lead4 [of c 0]
      by cases (auto simp: utf8_encode_def)
    then show ?thesis using feed_byte_ascii by blast
  qed
  ultimately show ?thesis using e that by blast
qed

text \<open>The parser reads an escaped character back, and does not take its first byte for the end
  of the literal.\<close>

lemma parse_escaped:
  assumes c: "code_point c" and at: "drop (pr_pos p) (pr_src p) = escape_char c @ rest"
  shows "cur p \<noteq> 0x22 \<and> cur p \<noteq> 0 \<and> parse_char p = Inr (c, move (length (escape_char c)) p)"
proof (cases "c \<in> {0x0D, 0x0A, 0x22, 0x5C}")
  case True
  then obtain k where k: "escape_char c = [0x5C, k]"
    "(k, c) \<in> {(0x72, 0x0D), (0x6E, 0x0A), (0x22, 0x22), (0x5C, 0x5C)}"
    by (auto simp: escape_char_def)
  have "byte_at (pr_src p) (pr_pos p) = 0x5C \<and> drop (Suc (pr_pos p)) (pr_src p) = k # rest"
    using at k by (intro byte_at_drop) simp
  moreover from this have "byte_at (pr_src p) (Suc (pr_pos p)) = k"
    using byte_at_drop by blast
  ultimately show ?thesis using k
    by (auto simp: parse_char_def cur_def peek_def Let_def)
next
  case False
  then have e: "escape_char c = utf8_encode c" by (simp add: escape_char_def)
  obtain b bs where b: "utf8_encode c = b # bs" "b \<noteq> 0" "0x80 \<le> b \<or> bs = [] \<and> b = ucast c \<and> c < 0x80"
    using utf8_encode_first [OF c] .
  have "byte_at (pr_src p) (pr_pos p) = b"
    using byte_at_drop [of "pr_pos p" "pr_src p" b "bs @ rest"] at e b(1) by simp
  moreover have "b \<noteq> 0x22 \<and> b \<noteq> 0x5C"
  proof -
    have cut: "ucast c \<noteq> (k :: u8)" if "c < 0x80" "c \<noteq> ucast k" for k
    proof
      assume "ucast c = k"
      then have "unat k = unat c mod 256" using unat_cut [of 0 c] by auto
      with that(1) have "unat c = unat (ucast k :: u32)"
        by (simp add: word_less_nat_alt unsigned_ucast_eq take_bit_eq_mod)
      with that(2) show False using word_unat_eq_iff by blast
    qed
    from cut [where k = "0x22"] cut [where k = "0x5C"] b(3) False show ?thesis by auto
  qed
  moreover have "decode_char (pr_src p) (pr_pos p) = (c, pr_pos p + length (utf8_encode c))"
    using decode_char_encode [OF c] at e by simp
  ultimately show ?thesis using b(2)
    by (simp add: parse_char_def cur_def e goto_def move_def)
qed

lemma parse_literal_escaped:
  assumes "\<forall>c \<in> set cs. code_point c"
    and "drop (pr_pos p) (pr_src p) = concat (map escape_char cs) @ 0x22 # rest"
  shows "parse_literal p rule
    = Inr (rule @ map (mk_elem GreChar) cs, move (length (concat (map escape_char cs))) p)"
  using assms
proof (induction cs arbitrary: p rule)
  case Nil
  then have "cur p = 0x22" using byte_at_drop [of "pr_pos p"] by (simp add: cur_def)
  then show ?case by (simp add: parse_literal.simps move_def)
next
  case (Cons c cs)
  let ?q = "move (length (escape_char c)) p"
  have "cur p \<noteq> 0x22 \<and> cur p \<noteq> 0 \<and> parse_char p = Inr (c, ?q)"
    using Cons.prems by (intro parse_escaped [of c p "concat (map escape_char cs) @ 0x22 # rest"]) auto
  moreover have "drop (pr_pos ?q) (pr_src ?q) = concat (map escape_char cs) @ 0x22 # rest"
  proof -
    have "drop (pr_pos ?q) (pr_src ?q) = drop (length (escape_char c)) (drop (pr_pos p) (pr_src p))"
      by (simp add: add.commute)
    then show ?thesis using Cons.prems(2) by simp
  qed
  ultimately show ?case
    using Cons.IH [of ?q "rule @ [mk_elem GreChar c]"] Cons.prems(1)
    by (simp add: parse_literal.simps [of p] move_def add.assoc)
qed

section \<open>Claims\<close>

text \<open>C23.  A literal written by the generators reads back as itself: placed anywhere in a
  grammar, the quoted form of a text without NUL is one item of the text's characters.\<close>

theorem literal_roundtrip:
  assumes "\<forall>c \<in> set chars. code_point c"
    and "pr_src p = before @ format_literal chars @ after" "pr_pos p = length before"
  shows "parse_item vocab rule_name nested sq p
    = Inr (Some (new_item (sq_rule sq @ map (mk_elem GreChar) chars) (length (sq_rule sq)) 1,
        parse_space nested (move (length (format_literal chars)) p)))"
proof -
  have "cur p = 0x22" using assms(2,3) by (simp add: cur_def byte_at_def format_literal_def nth_append)
  moreover have "drop (pr_pos (move 1 p)) (pr_src (move 1 p)) = concat (map escape_char chars) @ 0x22 # after"
    using assms(2,3) by (simp add: format_literal_def)
  note parse_literal_escaped [OF assms(1) this, of "sq_rule sq"]
  ultimately show ?thesis
    by (simp add: parse_item_def Let_def move_def format_literal_def)
qed

theorem literal_roundtrip_witness:
  "\<exists>p'. parse_item None [0x72] False (new_item [] 0 1)
      \<lparr>pr_src = [0x61] @ format_literal [0x22, 0xE9, 0x0A] @ [0x62], pr_pos = 1, pr_rules = [],
        pr_symbols = []\<rparr>
    = Inr (Some (new_item [mk_elem GreChar 0x22, mk_elem GreChar 0xE9, mk_elem GreChar 0x0A] 0 1, p'))"
  using literal_roundtrip [where chars = "[0x22, 0xE9, 0x0A]" and before = "[0x61]" and after = "[0x62]"
      and p = "\<lparr>pr_src = [0x61] @ format_literal [0x22, 0xE9, 0x0A] @ [0x62], pr_pos = 1, pr_rules = [],
        pr_symbols = []\<rparr>" and sq = "new_item [] 0 1" and vocab = None and rule_name = "[0x72]"
      and nested = False]
  by (simp add: code_point_def new_item_def)

end
