(* ===== verification/Kv_Store.thy ===== *)
theory Kv_Store
  imports Prelude
begin

text \<open>
  The buffers of the key/value caches (\<^verbatim>\<open>kv_store.rs\<close>).  A buffer is a vector of \<open>f32\<close> or
  of \<open>f16\<close> values, kept here as their bit patterns: the caches only move values, and the
  conversions between the two widths are those of the \<^verbatim>\<open>half\<close> crate, a parameter.  A vector
  carries its capacity, which the pooled cache reads; the growth rule is that of the standard
  library.  An index out of range panics: the operation returns \<open>None\<close>.

  The lemmas describe every operation on the stored bit patterns, whatever the width.
\<close>

section \<open>Vectors with a capacity\<close>

type_synonym u16 = "16 word"

record 'a rvec =
  rv_items :: "'a list"
  rv_cap :: nat

definition rv_with_capacity :: "nat \<Rightarrow> 'a rvec" where
  "rv_with_capacity n = \<lparr>rv_items = [], rv_cap = n\<rparr>"

definition rv_filled :: "'a \<Rightarrow> nat \<Rightarrow> 'a rvec" where
  "rv_filled x n = \<lparr>rv_items = replicate n x, rv_cap = n\<rparr>"

definition rv_grown :: "nat \<Rightarrow> 'a rvec \<Rightarrow> nat" where
  "rv_grown need v = (if need \<le> rv_cap v then rv_cap v else max 4 (max (2 * rv_cap v) need))"

definition rv_extend :: "'a list \<Rightarrow> 'a rvec \<Rightarrow> 'a rvec" where
  "rv_extend xs v =
     \<lparr>rv_items = rv_items v @ xs, rv_cap = rv_grown (length (rv_items v) + length xs) v\<rparr>"

definition rv_truncate :: "nat \<Rightarrow> 'a rvec \<Rightarrow> 'a rvec" where
  "rv_truncate n v = v\<lparr>rv_items := take n (rv_items v)\<rparr>"

definition rv_drain_front :: "nat \<Rightarrow> 'a rvec \<Rightarrow> 'a rvec option" where
  "rv_drain_front n v =
     (if n \<le> length (rv_items v) then Some (v\<lparr>rv_items := drop n (rv_items v)\<rparr>) else None)"

definition rv_reserve_exact :: "nat \<Rightarrow> 'a rvec \<Rightarrow> 'a rvec" where
  "rv_reserve_exact n v = v\<lparr>rv_cap := max (rv_cap v) (length (rv_items v) + n)\<rparr>"

definition rv_shrink_to :: "nat \<Rightarrow> 'a rvec \<Rightarrow> 'a rvec" where
  "rv_shrink_to n v = v\<lparr>rv_cap := min (rv_cap v) (max (length (rv_items v)) n)\<rparr>"

text \<open>Writing over a range, and copying a range onto another of the same vector.\<close>

definition splice :: "nat \<Rightarrow> 'a list \<Rightarrow> 'a list \<Rightarrow> 'a list" where
  "splice start xs ys = take start ys @ xs @ drop (start + length xs) ys"

definition rv_write :: "nat \<Rightarrow> 'a list \<Rightarrow> 'a rvec \<Rightarrow> 'a rvec option" where
  "rv_write start xs v =
     (if start + length xs \<le> length (rv_items v)
      then Some (v\<lparr>rv_items := splice start xs (rv_items v)\<rparr>) else None)"

definition range_of :: "nat \<Rightarrow> nat \<Rightarrow> 'a list \<Rightarrow> 'a list option" where
  "range_of a b xs = (if a \<le> b \<and> b \<le> length xs then Some (take (b - a) (drop a xs)) else None)"

definition rv_copy_within :: "nat \<Rightarrow> nat \<Rightarrow> nat \<Rightarrow> 'a rvec \<Rightarrow> 'a rvec option" where
  "rv_copy_within a b dst v =
     (case range_of a b (rv_items v) of None \<Rightarrow> None | Some xs \<Rightarrow> rv_write dst xs v)"

section \<open>Element types, buffers and views\<close>

record half_crate =
  half_from :: "u32 \<Rightarrow> u16"
  half_to :: "u16 \<Rightarrow> u32"

datatype kv_dtype = F32 | F16

definition elem_bytes :: "kv_dtype \<Rightarrow> nat" where
  "elem_bytes dt = (case dt of F32 \<Rightarrow> 4 | F16 \<Rightarrow> 2)"

definition dtype_name :: "kv_dtype \<Rightarrow> string" where
  "dtype_name dt = (case dt of F32 \<Rightarrow> ''f32'' | F16 \<Rightarrow> ''f16'')"

datatype kv_buf = BufF32 "u32 rvec" | BufF16 "u16 rvec"

datatype kv_rows = RowsF32 "u32 list" | RowsF16 "u16 list"

definition rows_len :: "kv_rows \<Rightarrow> nat" where
  "rows_len r = (case r of RowsF32 s \<Rightarrow> length s | RowsF16 s \<Rightarrow> length s)"

definition rows_is_empty :: "kv_rows \<Rightarrow> bool" where
  "rows_is_empty r \<longleftrightarrow> rows_len r = 0"

definition rows_dtype :: "kv_rows \<Rightarrow> kv_dtype" where
  "rows_dtype r = (case r of RowsF32 s \<Rightarrow> F32 | RowsF16 s \<Rightarrow> F16)"

definition rows_as_f32 :: "kv_rows \<Rightarrow> u32 list option" where
  "rows_as_f32 r = (case r of RowsF32 s \<Rightarrow> Some s | RowsF16 s \<Rightarrow> None)"

definition rows_slice :: "nat \<Rightarrow> nat \<Rightarrow> kv_rows \<Rightarrow> kv_rows option" where
  "rows_slice a b r =
     (case r of
        RowsF32 s \<Rightarrow> map_option RowsF32 (range_of a b s)
      | RowsF16 s \<Rightarrow> map_option RowsF16 (range_of a b s))"

definition rows_to_f32 :: "half_crate \<Rightarrow> kv_rows \<Rightarrow> u32 list" where
  "rows_to_f32 hc r = (case r of RowsF32 s \<Rightarrow> s | RowsF16 s \<Rightarrow> map (half_to hc) s)"

definition rows_copy_to_f32 :: "half_crate \<Rightarrow> u32 list \<Rightarrow> kv_rows \<Rightarrow> u32 list option" where
  "rows_copy_to_f32 hc dst r = (if length dst = rows_len r then Some (rows_to_f32 hc r) else None)"

text \<open>\<open>read\<close> borrows an f32 range, and widens an f16 range into the scratch buffer.\<close>

definition rows_read ::
  "half_crate \<Rightarrow> nat \<Rightarrow> nat \<Rightarrow> u32 list \<Rightarrow> kv_rows \<Rightarrow> (u32 list \<times> u32 list) option" where
  "rows_read hc a b scratch r =
     (case r of
        RowsF32 s \<Rightarrow> map_option (\<lambda>xs. (xs, scratch)) (range_of a b s)
      | RowsF16 s \<Rightarrow> (case range_of a b s of
            None \<Rightarrow> None
          | Some src \<Rightarrow>
              let scratch = scratch @ replicate (length src - length scratch) 0;
                  dst = map (half_to hc) src
              in Some (dst, splice 0 dst scratch)))"

definition kb_with_capacity :: "kv_dtype \<Rightarrow> nat \<Rightarrow> kv_buf" where
  "kb_with_capacity dt elems =
     (case dt of F32 \<Rightarrow> BufF32 (rv_with_capacity elems) | F16 \<Rightarrow> BufF16 (rv_with_capacity elems))"

definition kb_new :: "kv_dtype \<Rightarrow> kv_buf" where
  "kb_new dt = kb_with_capacity dt 0"

definition kb_zeroed :: "kv_dtype \<Rightarrow> nat \<Rightarrow> kv_buf" where
  "kb_zeroed dt elems = (case dt of F32 \<Rightarrow> BufF32 (rv_filled 0 elems) | F16 \<Rightarrow> BufF16 (rv_filled 0 elems))"

definition kb_dtype :: "kv_buf \<Rightarrow> kv_dtype" where
  "kb_dtype b = (case b of BufF32 v \<Rightarrow> F32 | BufF16 v \<Rightarrow> F16)"

definition kb_len :: "kv_buf \<Rightarrow> nat" where
  "kb_len b = (case b of BufF32 v \<Rightarrow> length (rv_items v) | BufF16 v \<Rightarrow> length (rv_items v))"

definition kb_is_empty :: "kv_buf \<Rightarrow> bool" where
  "kb_is_empty b \<longleftrightarrow> kb_len b = 0"

definition kb_capacity :: "kv_buf \<Rightarrow> nat" where
  "kb_capacity b = (case b of BufF32 v \<Rightarrow> rv_cap v | BufF16 v \<Rightarrow> rv_cap v)"

definition kb_allocated_bytes :: "kv_buf \<Rightarrow> nat" where
  "kb_allocated_bytes b = kb_capacity b * elem_bytes (kb_dtype b)"

definition kb_extend_f32 :: "half_crate \<Rightarrow> u32 list \<Rightarrow> kv_buf \<Rightarrow> kv_buf" where
  "kb_extend_f32 hc src b =
     (case b of
        BufF32 v \<Rightarrow> BufF32 (rv_extend src v)
      | BufF16 v \<Rightarrow> BufF16 (rv_extend (map (half_from hc) src) v))"

definition kb_from_f32 :: "half_crate \<Rightarrow> kv_dtype \<Rightarrow> u32 list \<Rightarrow> kv_buf" where
  "kb_from_f32 hc dt src = kb_extend_f32 hc src (kb_with_capacity dt (length src))"

fun kb_extend_rows :: "half_crate \<Rightarrow> kv_rows \<Rightarrow> kv_buf \<Rightarrow> kv_buf" where
  "kb_extend_rows hc (RowsF32 r) (BufF32 v) = BufF32 (rv_extend r v)"
| "kb_extend_rows hc (RowsF16 r) (BufF16 v) = BufF16 (rv_extend r v)"
| "kb_extend_rows hc rows b = kb_extend_f32 hc (rows_to_f32 hc rows) b"

definition kb_write_f32 :: "half_crate \<Rightarrow> nat \<Rightarrow> u32 list \<Rightarrow> kv_buf \<Rightarrow> kv_buf option" where
  "kb_write_f32 hc start src b =
     (case b of
        BufF32 v \<Rightarrow> map_option BufF32 (rv_write start src v)
      | BufF16 v \<Rightarrow> map_option BufF16 (rv_write start (map (half_from hc) src) v))"

fun kb_write_rows :: "half_crate \<Rightarrow> nat \<Rightarrow> kv_rows \<Rightarrow> kv_buf \<Rightarrow> kv_buf option" where
  "kb_write_rows hc start (RowsF32 r) (BufF32 v) = map_option BufF32 (rv_write start r v)"
| "kb_write_rows hc start (RowsF16 r) (BufF16 v) = map_option BufF16 (rv_write start r v)"
| "kb_write_rows hc start rows b = kb_write_f32 hc start (rows_to_f32 hc rows) b"

definition kb_truncate :: "nat \<Rightarrow> kv_buf \<Rightarrow> kv_buf" where
  "kb_truncate elems b =
     (case b of BufF32 v \<Rightarrow> BufF32 (rv_truncate elems v) | BufF16 v \<Rightarrow> BufF16 (rv_truncate elems v))"

definition kb_clear :: "kv_buf \<Rightarrow> kv_buf" where
  "kb_clear b = kb_truncate 0 b"

definition kb_drain_front :: "nat \<Rightarrow> kv_buf \<Rightarrow> kv_buf option" where
  "kb_drain_front elems b =
     (case b of
        BufF32 v \<Rightarrow> map_option BufF32 (rv_drain_front elems v)
      | BufF16 v \<Rightarrow> map_option BufF16 (rv_drain_front elems v))"

definition kb_reserve_exact :: "nat \<Rightarrow> kv_buf \<Rightarrow> kv_buf" where
  "kb_reserve_exact n b =
     (case b of BufF32 v \<Rightarrow> BufF32 (rv_reserve_exact n v) | BufF16 v \<Rightarrow> BufF16 (rv_reserve_exact n v))"

definition kb_shrink_to :: "nat \<Rightarrow> kv_buf \<Rightarrow> kv_buf" where
  "kb_shrink_to n b =
     (case b of BufF32 v \<Rightarrow> BufF32 (rv_shrink_to n v) | BufF16 v \<Rightarrow> BufF16 (rv_shrink_to n v))"

definition kb_copy_within :: "nat \<Rightarrow> nat \<Rightarrow> nat \<Rightarrow> kv_buf \<Rightarrow> kv_buf option" where
  "kb_copy_within a b dst buf =
     (case buf of
        BufF32 v \<Rightarrow> map_option BufF32 (rv_copy_within a b dst v)
      | BufF16 v \<Rightarrow> map_option BufF16 (rv_copy_within a b dst v))"

definition kb_view :: "kv_buf \<Rightarrow> kv_rows" where
  "kb_view b = (case b of BufF32 v \<Rightarrow> RowsF32 (rv_items v) | BufF16 v \<Rightarrow> RowsF16 (rv_items v))"

definition kb_to_f32 :: "half_crate \<Rightarrow> kv_buf \<Rightarrow> u32 list" where
  "kb_to_f32 hc b = rows_to_f32 hc (kb_view b)"

definition kb_as_f32 :: "kv_buf \<Rightarrow> u32 list option" where
  "kb_as_f32 b = (case b of BufF32 v \<Rightarrow> Some (rv_items v) | BufF16 v \<Rightarrow> None)"

section \<open>Stored bit patterns\<close>

text \<open>What a run of elements is, whatever its width: the bit patterns, an f16 one zero-extended.
  \<open>stored\<close> is what a buffer of a given type keeps of a run that is written to it.\<close>

definition row_bits :: "kv_rows \<Rightarrow> u32 list" where
  "row_bits r = (case r of RowsF32 s \<Rightarrow> s | RowsF16 s \<Rightarrow> map ucast s)"

definition buf_bits :: "kv_buf \<Rightarrow> u32 list" where
  "buf_bits b = row_bits (kb_view b)"

definition stored :: "half_crate \<Rightarrow> kv_dtype \<Rightarrow> kv_rows \<Rightarrow> u32 list" where
  "stored hc dt r =
     (case dt of
        F32 \<Rightarrow> rows_to_f32 hc r
      | F16 \<Rightarrow> (case r of RowsF32 s \<Rightarrow> map (ucast \<circ> half_from hc) s | RowsF16 s \<Rightarrow> map ucast s))"

named_theorems kv_defs \<open>definitions of the buffer operations\<close>

lemmas [kv_defs] = rows_len_def rows_dtype_def rows_slice_def rows_to_f32_def kb_with_capacity_def
  kb_new_def kb_zeroed_def kb_dtype_def kb_len_def kb_capacity_def kb_extend_f32_def kb_write_f32_def
  kb_truncate_def kb_clear_def kb_drain_front_def kb_reserve_exact_def kb_shrink_to_def
  kb_copy_within_def kb_view_def row_bits_def buf_bits_def stored_def
  rv_with_capacity_def rv_filled_def rv_extend_def rv_truncate_def rv_drain_front_def
  rv_reserve_exact_def rv_shrink_to_def rv_write_def rv_copy_within_def

lemma map_splice: "map f (splice i xs ys) = splice i (map f xs) (map f ys)"
  by (simp add: splice_def take_map drop_map)

lemma length_splice [simp]: "i + length xs \<le> length ys \<Longrightarrow> length (splice i xs ys) = length ys"
  by (simp add: splice_def)

lemma map_range_of: "map_option (map f) (range_of a b xs) = range_of a b (map f xs)"
  by (simp add: range_of_def take_map drop_map)

lemma length_row_bits [simp]: "length (row_bits r) = rows_len r"
  by (cases r) (simp_all add: kv_defs)

lemma length_buf_bits [simp]: "length (buf_bits b) = kb_len b"
  by (cases b) (simp_all add: kv_defs)

lemma length_stored [simp]: "length (stored hc dt r) = rows_len r"
  by (cases r; cases dt) (simp_all add: kv_defs)

lemma ucast_u16_inject: "(ucast (x :: u16) :: u32) = ucast y \<longleftrightarrow> x = y"
  by transfer (simp add: take_bit_take_bit)

lemma row_bits_inject: "rows_dtype r = rows_dtype r' \<Longrightarrow> row_bits r = row_bits r' \<longleftrightarrow> r = r'"
  by (cases r; cases r') (auto simp: kv_defs inj_map_eq_map inj_def ucast_u16_inject)

lemma buf_bits_simps [simp]:
  "buf_bits (kb_with_capacity dt n) = []"
  "buf_bits (kb_new dt) = []"
  "buf_bits (kb_zeroed dt n) = replicate n 0"
  "buf_bits (kb_truncate n b) = take n (buf_bits b)"
  "buf_bits (kb_clear b) = []"
  "buf_bits (kb_reserve_exact n b) = buf_bits b"
  "buf_bits (kb_shrink_to n b) = buf_bits b"
  by (cases dt; cases b; simp add: kv_defs take_map)+

lemma kb_dtype_simps [simp]:
  "kb_dtype (kb_with_capacity dt n) = dt"
  "kb_dtype (kb_new dt) = dt"
  "kb_dtype (kb_zeroed dt n) = dt"
  "kb_dtype (kb_truncate n b) = kb_dtype b"
  "kb_dtype (kb_clear b) = kb_dtype b"
  "kb_dtype (kb_reserve_exact n b) = kb_dtype b"
  "kb_dtype (kb_shrink_to n b) = kb_dtype b"
  "kb_dtype (kb_extend_rows hc r b) = kb_dtype b"
  "kb_dtype (kb_extend_f32 hc xs b) = kb_dtype b"
  "rows_dtype (kb_view b) = kb_dtype b"
  by (cases dt; cases b; cases r; simp add: kv_defs)+

lemma buf_bits_extend_rows [simp]:
  "buf_bits (kb_extend_rows hc r b) = buf_bits b @ stored hc (kb_dtype b) r"
  by (cases b; cases r) (simp_all add: kv_defs)

lemma buf_bits_extend_f32 [simp]:
  "buf_bits (kb_extend_f32 hc xs b) = buf_bits b @ stored hc (kb_dtype b) (RowsF32 xs)"
  by (cases b) (simp_all add: kv_defs)

lemma kb_write_rows_iff:
  "kb_write_rows hc start r b = Some b' \<Longrightarrow>
     start + rows_len r \<le> kb_len b \<and> kb_dtype b' = kb_dtype b
     \<and> buf_bits b' = splice start (stored hc (kb_dtype b) r) (buf_bits b)"
  by (cases b; cases r) (auto simp: kv_defs map_splice split: if_splits)

lemma kb_write_rows_ok:
  "start + rows_len r \<le> kb_len b \<Longrightarrow> \<exists>b'. kb_write_rows hc start r b = Some b'"
  by (cases b; cases r) (auto simp: kv_defs)

lemma kb_drain_front_iff:
  "kb_drain_front n b = Some b' \<Longrightarrow>
     n \<le> kb_len b \<and> kb_dtype b' = kb_dtype b \<and> buf_bits b' = drop n (buf_bits b)
     \<and> kb_capacity b' = kb_capacity b"
  by (cases b) (auto simp: kv_defs drop_map split: if_splits)

lemma kb_drain_front_ok: "n \<le> kb_len b \<Longrightarrow> \<exists>b'. kb_drain_front n b = Some b'"
  by (cases b) (auto simp: kv_defs)

lemma kb_copy_within_iff:
  "kb_copy_within a c dst b = Some b' \<Longrightarrow>
     a \<le> c \<and> c \<le> kb_len b \<and> dst + (c - a) \<le> kb_len b \<and> kb_dtype b' = kb_dtype b
     \<and> buf_bits b' = splice dst (take (c - a) (drop a (buf_bits b))) (buf_bits b)"
  by (cases b) (auto simp: kv_defs range_of_def map_splice take_map drop_map split: if_splits)

lemma kb_copy_within_ok:
  "a \<le> c \<Longrightarrow> c \<le> kb_len b \<Longrightarrow> dst + (c - a) \<le> kb_len b \<Longrightarrow>
     \<exists>b'. kb_copy_within a c dst b = Some b'"
  by (cases b) (auto simp: kv_defs range_of_def)

lemma rows_slice_iff:
  "rows_slice a c r = Some r' \<Longrightarrow>
     a \<le> c \<and> c \<le> rows_len r \<and> rows_dtype r' = rows_dtype r \<and> row_bits r' = take (c - a) (drop a (row_bits r))"
  by (cases r) (auto simp: kv_defs range_of_def take_map drop_map split: if_splits)

lemma rows_slice_ok: "a \<le> c \<Longrightarrow> c \<le> rows_len r \<Longrightarrow> \<exists>r'. rows_slice a c r = Some r'"
  by (cases r) (auto simp: kv_defs range_of_def)

lemma rows_len_view [simp]: "rows_len (kb_view b) = kb_len b"
  by (cases b) (simp_all add: kv_defs)

text \<open>A row moved between stores of one type is copied bit for bit.\<close>

lemma stored_same: "rows_dtype r = dt \<Longrightarrow> stored hc dt r = row_bits r"
  by (cases r) (auto simp: kv_defs)

lemma stored_slice:
  "rows_slice a c r = Some r' \<Longrightarrow> stored hc dt r' = take (c - a) (drop a (stored hc dt r))"
  by (cases r; cases dt) (auto simp: kv_defs range_of_def take_map drop_map split: if_splits)

end
