(* ===== verification/Kv_Window.thy ===== *)
theory Kv_Window
  imports Prelude
begin

text \<open>
  Block alignment and the row budget of a sliding window (\<^verbatim>\<open>kv_swa.rs\<close>).  A block layout exists
  only when blocks tile the window; a windowed cache keeps between a floor and a peak of rows,
  given in closed form by \<open>rows_after\<close>.

  The lemmas show that the closed form is the loop the cache runs, that it keeps the window and
  stays bounded, and that the size chosen for a configuration is the largest one that fits.
\<close>

section \<open>Block layouts\<close>

datatype block_layout_error = ZeroBlockSize | ZeroWindow | Misaligned nat nat nat

record block_layout =
  bl_block_size :: nat
  bl_sliding_window :: "nat option"

definition block_layout_new :: "nat \<Rightarrow> nat option \<Rightarrow> (block_layout_error, block_layout) result" where
  "block_layout_new block_size sliding_window =
     (if block_size = 0 then Inl ZeroBlockSize
      else case sliding_window of
          None \<Rightarrow> Inr \<lparr>bl_block_size = block_size, bl_sliding_window = None\<rparr>
        | Some window \<Rightarrow>
            if window = 0 then Inl ZeroWindow
            else let remainder = window mod block_size in
              if remainder \<noteq> 0 then Inl (Misaligned window block_size remainder)
              else Inr \<lparr>bl_block_size = block_size, bl_sliding_window = Some window\<rparr>)"

definition full_attention :: "nat \<Rightarrow> (block_layout_error, block_layout) result" where
  "full_attention block_size = block_layout_new block_size None"

definition blocks_per_window :: "block_layout \<Rightarrow> nat option" where
  "blocks_per_window bl = map_option (\<lambda>w. w div bl_block_size bl) (bl_sliding_window bl)"

definition aligned_block_size :: "nat \<Rightarrow> nat option \<Rightarrow> nat" where
  "aligned_block_size desired window =
     (let desired = max desired 1 in
      case window of
        None \<Rightarrow> desired
      | Some w \<Rightarrow>
          if 0 < w
          then (case find (\<lambda>candidate. w mod candidate = 0) (rev [1..<Suc (min desired w)]) of
                  Some n \<Rightarrow> n
                | None \<Rightarrow> 1)
          else desired)"

section \<open>The window of a cache\<close>

record kv_window =
  kw_window :: nat
  kw_slack :: nat
  kw_reserve :: nat

definition kv_window_new :: "nat \<Rightarrow> nat \<Rightarrow> kv_window option" where
  "kv_window_new window slack =
     (if 0 < window then Some \<lparr>kw_window = window, kw_slack = slack, kw_reserve = 0\<rparr> else None)"

definition with_reserve :: "nat \<Rightarrow> kv_window \<Rightarrow> kv_window option" where
  "with_reserve reserve w = (if reserve \<le> kw_slack w then Some (w\<lparr>kw_reserve := reserve\<rparr>) else None)"

definition with_default_slack :: "nat \<Rightarrow> kv_window option" where
  "with_default_slack window =
     (let slack = max (window div 2) 1 in
      Option.bind (kv_window_new window slack) (with_reserve (slack div 2)))"

definition rows_needed_at :: "kv_window \<Rightarrow> nat \<Rightarrow> nat" where
  "rows_needed_at w positions = min positions (kw_window w - 1)"

definition max_rollback :: "kv_window \<Rightarrow> nat" where
  "max_rollback w = kw_reserve w + 1"

definition max_rows :: "kv_window \<Rightarrow> nat" where
  "max_rows w = kw_window w + kw_slack w"

definition rows_after :: "kv_window \<Rightarrow> nat \<Rightarrow> nat" where
  "rows_after w positions =
     (let peak = kw_window w + kw_slack w in
      if positions \<le> peak then positions
      else let floor = kw_window w + kw_reserve w in
        floor + (positions - peak - 1) mod (peak - floor + 1))"

text \<open>The windows the constructors build.\<close>

definition window_ok :: "kv_window \<Rightarrow> bool" where
  "window_ok w \<longleftrightarrow> 0 < kw_window w \<and> kw_reserve w \<le> kw_slack w"

lemma kv_window_new_ok: "kv_window_new window slack = Some w \<Longrightarrow> window_ok w"
  by (auto simp: kv_window_new_def window_ok_def split: if_splits)

lemma with_reserve_ok: "window_ok w \<Longrightarrow> with_reserve r w = Some w' \<Longrightarrow> window_ok w'"
  by (auto simp: with_reserve_def window_ok_def split: if_splits)

lemma with_default_slack_ok: "with_default_slack window = Some w \<Longrightarrow> window_ok w"
  by (auto simp: with_default_slack_def Let_def bind_eq_Some_conv
      dest: kv_window_new_ok with_reserve_ok)

lemma with_default_slack_exists: "0 < window \<Longrightarrow> \<exists>w. with_default_slack window = Some w"
  by (auto simp: with_default_slack_def kv_window_new_def with_reserve_def Let_def)

section \<open>The loop the closed form stands for\<close>

text \<open>Append a row; at the peak, drop back to the floor.\<close>

fun resident :: "kv_window \<Rightarrow> nat \<Rightarrow> nat" where
  "resident w 0 = 0"
| "resident w (Suc p) =
     (if resident w p < max_rows w then Suc (resident w p) else kw_window w + kw_reserve w)"

lemma Suc_mod: "Suc k mod n = (if Suc (k mod n) = n then 0 else Suc (k mod n))"
  by (simp add: mod_Suc)

lemma rows_after_resident:
  assumes "window_ok w" shows "rows_after w p = resident w p"
proof (induction p)
  case (Suc p)
  let ?peak = "max_rows w" and ?floor = "kw_window w + kw_reserve w"
  have le: "?floor \<le> ?peak" using assms by (simp add: window_ok_def max_rows_def)
  consider "Suc p \<le> ?peak" | "p = ?peak" | "?peak < p" by linarith
  then show ?case
  proof cases
    case 1
    with Suc show ?thesis by (simp add: rows_after_def max_rows_def split: if_splits)
  next
    case 2
    with Suc have "resident w p = ?peak" by (simp add: rows_after_def max_rows_def)
    with 2 show ?thesis by (simp add: rows_after_def max_rows_def)
  next
    case 3
    define k where "k = p - ?peak - 1"
    let ?n = "?peak - ?floor + 1"
    have "resident w p = ?floor + k mod ?n"
      using Suc 3 by (simp add: rows_after_def max_rows_def k_def)
    moreover have "rows_after w (Suc p) = ?floor + Suc k mod ?n"
      using 3 by (simp add: rows_after_def max_rows_def k_def Suc_diff_Suc)
    moreover obtain d where d: "?peak = ?floor + d" using le le_Suc_ex by blast
    moreover have "k mod Suc d < Suc d" by (rule mod_less_divisor) simp
    then have "k mod Suc d \<noteq> d \<Longrightarrow> k mod Suc d < d" by linarith
    ultimately show ?thesis by (auto simp: Suc_mod)
  qed
qed (simp add: rows_after_def)

lemma resident_bounds:
  assumes "window_ok w"
  shows "resident w p \<le> p \<and> resident w p \<le> max_rows w \<and> min p (kw_window w + kw_reserve w) \<le> resident w p"
  using assms by (induction p) (auto simp: window_ok_def max_rows_def)

lemma rows_after_bounds:
  assumes "window_ok w"
  shows "rows_after w p \<le> p" "rows_after w p \<le> max_rows w" "min p (kw_window w + kw_reserve w) \<le> rows_after w p"
  using resident_bounds [OF assms, of p] rows_after_resident [OF assms, of p] by simp_all

lemma find_rev_greatest:
  "find P (rev [1..<Suc n]) = Some k \<longleftrightarrow> P k \<and> 1 \<le> k \<and> k \<le> n \<and> (\<forall>j. k < j \<longrightarrow> j \<le> n \<longrightarrow> \<not> P j)"
proof (induction n)
  case (Suc n)
  show ?case
  proof (cases "P (Suc n)")
    case True
    have "k = Suc n" if "k \<le> Suc n" "\<forall>j. k < j \<longrightarrow> j \<le> Suc n \<longrightarrow> \<not> P j"
    proof (rule ccontr)
      assume "k \<noteq> Suc n"
      with that(1) have "k < Suc n" by simp
      with that(2) True show False by blast
    qed
    with True show ?thesis by auto
  next
    case False
    with Suc show ?thesis by (auto simp: le_Suc_eq)
  qed
qed auto

section \<open>Claims\<close>

text \<open>The row count of a windowed cache, given in closed form, is the count of the loop that
  appends a row and at the peak drops back to the floor; it never exceeds the peak, and it never
  falls below the window (or the positions, when there are fewer), for every window that the
  constructors build.\<close>

theorem rows_after_is_the_loop:
  assumes "kv_window_new window slack = Some w0" "with_reserve reserve w0 = Some w"
  shows "rows_after w p = resident w p \<and> rows_after w p \<le> min p (max_rows w) \<and> min p window \<le> rows_after w p"
proof -
  have w: "window_ok w" using assms kv_window_new_ok with_reserve_ok by blast
  have "kw_window w = window"
    using assms by (auto simp: kv_window_new_def with_reserve_def split: if_splits)
  with rows_after_resident [OF w, of p] rows_after_bounds [OF w, of p] show ?thesis by simp
qed

text \<open>The block size chosen for a window is the largest size not above the desired one that
  a block layout accepts, and the layout then tiles the window exactly.\<close>

theorem aligned_block_size_largest:
  assumes "0 < w"
  shows "(\<exists>bl. block_layout_new (aligned_block_size desired (Some w)) (Some w) = Inr bl
        \<and> blocks_per_window bl = Some (w div aligned_block_size desired (Some w)))
    \<and> aligned_block_size desired (Some w) \<le> max desired 1
    \<and> (\<forall>n bl. n \<le> max desired 1 \<longrightarrow> block_layout_new n (Some w) = Inr bl
        \<longrightarrow> n \<le> aligned_block_size desired (Some w))"
proof -
  let ?m = "min (max desired 1) w" and ?P = "\<lambda>c. w mod c = 0"
  have "find ?P (rev [1..<Suc ?m]) \<noteq> None"
  proof
    assume "find ?P (rev [1..<Suc ?m]) = None"
    then have "\<not> (\<exists>c. c \<in> set (rev [1..<Suc ?m]) \<and> ?P c)" by (simp only: find_None_iff not_False_eq_True)
    moreover have "1 \<in> set (rev [1..<Suc ?m])" using assms by auto
    moreover have "?P 1" by simp
    ultimately show False by (elim notE) (intro exI conjI)
  qed
  then obtain k where k: "find ?P (rev [1..<Suc ?m]) = Some k" by (elim not_None_eq [THEN iffD1, THEN exE])
  have a: "aligned_block_size desired (Some w) = k"
    unfolding aligned_block_size_def Let_def by (simp only: option.case assms if_True k)
  note k' = iffD1 [OF find_rev_greatest k]
  have g: "w mod k = 0" "1 \<le> k" "k \<le> ?m" using k' by simp_all
  have above: "w mod j \<noteq> 0" if "k < j" "j \<le> ?m" for j
    using k' [THEN conjunct2, THEN conjunct2, THEN conjunct2] that by (elim allE) (erule impE, assumption)+
  have "n \<le> k" if "n \<le> max desired 1" "block_layout_new n (Some w) = Inr bl" for n bl
  proof (rule ccontr)
    assume "\<not> n \<le> k"
    moreover have "w mod n = 0" "n \<noteq> 0"
      using that(2) assms by (auto simp: block_layout_new_def Let_def split: if_splits)
    moreover from this have "n \<le> w" using assms by (meson dvd_imp_le mod_0_imp_dvd)
    ultimately show False using above [of n] that(1) by simp
  qed
  with g assms show ?thesis
    by (auto simp: a block_layout_new_def blocks_per_window_def Let_def)
qed

end
