(* ===== verification/Kv_Cache.thy ===== *)
theory Kv_Cache
  imports Kv_Store Kv_Window
begin

text \<open>
  The private key/value cache of a sequence and the block pool caches draw from (\<^verbatim>\<open>cache.rs\<close>).
  A cache counts the positions it has consumed and holds the rows of the last of them; a window
  lets it drop rows behind the window, a pool bounds its capacity.  The pool is one shared
  object, passed to the operations that use it.  \<open>None\<close> is a panic.  The Metal and CUDA mirrors
  are not modelled.

  The lemmas show that a windowed cache is, whatever is dropped, the end of the full history,
  long enough for the next query; that a promised rollback can be done; and that the pool's
  count of free blocks is exact.
\<close>

section \<open>The block pool\<close>

record block_pool =
  bp_block_size :: nat
  bp_total :: nat
  bp_free :: nat

definition pool_new :: "nat \<Rightarrow> nat \<Rightarrow> block_pool option" where
  "pool_new block_size n =
     (if 0 < block_size
      then Some \<lparr>bp_block_size = block_size, bp_total = n, bp_free = n\<rparr> else None)"

definition pool_resize :: "nat \<Rightarrow> block_pool \<Rightarrow> (nat, block_pool) result" where
  "pool_resize n p =
     (let in_use = bp_total p - bp_free p in
      if n < in_use then Inl in_use
      else Inr (p\<lparr>bp_free := n - in_use, bp_total := n\<rparr>))"

definition try_acquire :: "nat \<Rightarrow> block_pool \<Rightarrow> block_pool option" where
  "try_acquire n p = (if n \<le> bp_free p then Some (p\<lparr>bp_free := bp_free p - n\<rparr>) else None)"

definition pool_release :: "nat \<Rightarrow> block_pool \<Rightarrow> block_pool" where
  "pool_release n p = p\<lparr>bp_free := min (bp_free p + n) (bp_total p)\<rparr>"

section \<open>The cache\<close>

record pooled_state =
  ps_pool_block_size :: nat
  ps_blocks_held :: nat

record 'r kv_cache =
  kc_n_kv_heads :: nat
  kc_head_dim :: nat
  kc_v_head_dim :: nat
  kc_k :: kv_buf
  kc_v :: kv_buf
  kc_positions :: nat
  kc_planned :: "nat option"
  kc_pool_state :: "pooled_state option"
  kc_window :: "kv_window option"
  kc_eviction_forbidden :: bool
  kc_recurrent :: "'r option"

datatype kv_pool_exhausted = KvPoolExhausted

definition kc_k_width :: "'r kv_cache \<Rightarrow> nat" where
  "kc_k_width c = kc_n_kv_heads c * kc_head_dim c"

definition kc_v_width :: "'r kv_cache \<Rightarrow> nat" where
  "kc_v_width c = kc_n_kv_heads c * kc_v_head_dim c"

definition kc_rows :: "'r kv_cache \<Rightarrow> nat" where
  "kc_rows c = (if kc_k_width c = 0 then 0 else kb_len (kc_k c) div kc_k_width c)"

definition kc_new_split :: "nat \<Rightarrow> nat \<Rightarrow> nat \<Rightarrow> 'r kv_cache" where
  "kc_new_split heads head_dim v_head_dim =
     \<lparr>kc_n_kv_heads = heads, kc_head_dim = head_dim, kc_v_head_dim = v_head_dim,
      kc_k = kb_new F32, kc_v = kb_new F32, kc_positions = 0, kc_planned = None,
      kc_pool_state = None, kc_window = None, kc_eviction_forbidden = False, kc_recurrent = None\<rparr>"

definition kc_new :: "nat \<Rightarrow> nat \<Rightarrow> 'r kv_cache" where
  "kc_new heads head_dim = kc_new_split heads head_dim head_dim"

definition kc_with_capacity_split :: "nat \<Rightarrow> nat \<Rightarrow> nat \<Rightarrow> nat \<Rightarrow> 'r kv_cache" where
  "kc_with_capacity_split heads head_dim v_head_dim max_seq_len =
     \<lparr>kc_n_kv_heads = heads, kc_head_dim = head_dim, kc_v_head_dim = v_head_dim,
      kc_k = kb_with_capacity F32 (max_seq_len * heads * head_dim),
      kc_v = kb_with_capacity F32 (max_seq_len * heads * v_head_dim),
      kc_positions = 0, kc_planned = Some max_seq_len,
      kc_pool_state = None, kc_window = None, kc_eviction_forbidden = False, kc_recurrent = None\<rparr>"

definition kc_with_capacity :: "nat \<Rightarrow> nat \<Rightarrow> nat \<Rightarrow> 'r kv_cache" where
  "kc_with_capacity heads head_dim max_seq_len = kc_with_capacity_split heads head_dim head_dim max_seq_len"

definition div_ceil :: "nat \<Rightarrow> nat \<Rightarrow> nat" where
  "div_ceil a b = (if a mod b = 0 then a div b else a div b + 1)"

definition kc_with_pool_split ::
  "nat \<Rightarrow> nat \<Rightarrow> nat \<Rightarrow> block_pool \<Rightarrow> nat \<Rightarrow> (kv_pool_exhausted, 'r kv_cache \<times> block_pool) result" where
  "kc_with_pool_split heads head_dim v_head_dim pool max_seq_len =
     (let block_size = bp_block_size pool; blocks_needed = max (div_ceil max_seq_len block_size) 1 in
      case try_acquire blocks_needed pool of
        None \<Rightarrow> Inl KvPoolExhausted
      | Some pool \<Rightarrow> Inr
          (\<lparr>kc_n_kv_heads = heads, kc_head_dim = head_dim, kc_v_head_dim = v_head_dim,
            kc_k = kb_with_capacity F32 (blocks_needed * block_size * heads * head_dim),
            kc_v = kb_with_capacity F32 (blocks_needed * block_size * heads * v_head_dim),
            kc_positions = 0, kc_planned = None,
            kc_pool_state = Some \<lparr>ps_pool_block_size = block_size, ps_blocks_held = blocks_needed\<rparr>,
            kc_window = None, kc_eviction_forbidden = False, kc_recurrent = None\<rparr>, pool))"

definition kc_with_pool ::
  "nat \<Rightarrow> nat \<Rightarrow> block_pool \<Rightarrow> nat \<Rightarrow> (kv_pool_exhausted, 'r kv_cache \<times> block_pool) result" where
  "kc_with_pool heads head_dim pool max_seq_len = kc_with_pool_split heads head_dim head_dim pool max_seq_len"

text \<open>The block a pooled cache takes when its buffer is full.  The inner option is the answer of
  the pool; the outer one the division by a zero width.\<close>

definition kc_grow ::
  "block_pool \<Rightarrow> 'r kv_cache \<Rightarrow> (kv_pool_exhausted, 'r kv_cache \<times> block_pool) result option" where
  "kc_grow pool c =
     (case kc_pool_state c of
        None \<Rightarrow> Some (Inr (c, pool))
      | Some state \<Rightarrow>
          let k_width = kc_k_width c; v_width = kc_v_width c in
          if k_width = 0 then None
          else if kb_len (kc_k c) div k_width = kb_capacity (kc_k c) div k_width
          then (case try_acquire 1 pool of
              None \<Rightarrow> Some (Inl KvPoolExhausted)
            | Some pool \<Rightarrow> Some (Inr
                (c\<lparr>kc_pool_state := Some (state\<lparr>ps_blocks_held := ps_blocks_held state + 1\<rparr>),
                   kc_k := kb_reserve_exact (ps_pool_block_size state * k_width) (kc_k c),
                   kc_v := kb_reserve_exact (ps_pool_block_size state * v_width) (kc_v c)\<rparr>, pool)))
          else Some (Inr (c, pool)))"

definition kc_push ::
  "half_crate \<Rightarrow> u32 list \<Rightarrow> u32 list \<Rightarrow> block_pool \<Rightarrow> 'r kv_cache
    \<Rightarrow> (kv_pool_exhausted, 'r kv_cache \<times> block_pool) result option" where
  "kc_push hc k_step v_step pool c =
     (if length k_step \<noteq> kc_k_width c \<or> length v_step \<noteq> kc_v_width c then None
      else bind_run (kc_grow pool c) (\<lambda>(c, pool).
        Some (Inr (c\<lparr>kc_k := kb_extend_f32 hc k_step (kc_k c), kc_v := kb_extend_f32 hc v_step (kc_v c),
                     kc_positions := kc_positions c + 1\<rparr>, pool))))"

definition kc_with_dtype :: "kv_dtype \<Rightarrow> 'r kv_cache \<Rightarrow> 'r kv_cache option" where
  "kc_with_dtype dt c =
     (if kb_is_empty (kc_k c) \<and> kb_is_empty (kc_v c)
      then Some (if kb_dtype (kc_k c) \<noteq> dt
        then c\<lparr>kc_k := kb_with_capacity dt (kb_capacity (kc_k c)),
               kc_v := kb_with_capacity dt (kb_capacity (kc_v c))\<rparr>
        else c)
      else None)"

definition kc_dtype :: "'r kv_cache \<Rightarrow> kv_dtype" where
  "kc_dtype c = kb_dtype (kc_k c)"

definition kc_k_rows :: "'r kv_cache \<Rightarrow> kv_rows" where
  "kc_k_rows c = kb_view (kc_k c)"

definition kc_v_rows :: "'r kv_cache \<Rightarrow> kv_rows" where
  "kc_v_rows c = kb_view (kc_v c)"

fun kc_push_zeros ::
  "half_crate \<Rightarrow> nat \<Rightarrow> block_pool \<Rightarrow> 'r kv_cache
    \<Rightarrow> (kv_pool_exhausted, 'r kv_cache \<times> block_pool) result option" where
  "kc_push_zeros hc 0 pool c = Some (Inr (c, pool))"
| "kc_push_zeros hc (Suc n) pool c =
     bind_run (kc_push hc (replicate (kc_k_width c) 0) (replicate (kc_v_width c) 0) pool c)
       (\<lambda>(c, pool). kc_push_zeros hc n pool c)"

definition kc_advance_len ::
  "half_crate \<Rightarrow> nat \<Rightarrow> block_pool \<Rightarrow> 'r kv_cache
    \<Rightarrow> (kv_pool_exhausted, 'r kv_cache \<times> block_pool) result option" where
  "kc_advance_len hc n pool c = (if n = 0 then Some (Inr (c, pool)) else kc_push_zeros hc n pool c)"

definition kc_release_to_pool :: "block_pool \<Rightarrow> 'r kv_cache \<Rightarrow> 'r kv_cache \<times> block_pool" where
  "kc_release_to_pool pool c =
     (case kc_pool_state c of
        None \<Rightarrow> (c, pool)
      | Some state \<Rightarrow> (c\<lparr>kc_pool_state := None\<rparr>, pool_release (ps_blocks_held state) pool))"

definition kc_drop :: "block_pool \<Rightarrow> 'r kv_cache \<Rightarrow> block_pool" where
  "kc_drop pool c =
     (case kc_pool_state c of None \<Rightarrow> pool | Some state \<Rightarrow> pool_release (ps_blocks_held state) pool)"

definition kc_clone :: "'r kv_cache \<Rightarrow> 'r kv_cache" where
  "kc_clone c = c\<lparr>kc_pool_state := None, kc_eviction_forbidden := False\<rparr>"

definition kc_clear :: "'r kv_cache \<Rightarrow> 'r kv_cache" where
  "kc_clear c = c\<lparr>kc_k := kb_clear (kc_k c), kc_v := kb_clear (kc_v c), kc_positions := 0, kc_recurrent := None\<rparr>"

definition kc_can_truncate_to :: "nat \<Rightarrow> 'r kv_cache \<Rightarrow> bool" where
  "kc_can_truncate_to n c =
     (if kc_positions c < n then False
      else
        let recurrent_ok = (kc_recurrent c = None \<or> n = 0 \<or> n = kc_positions c);
            dropped = kc_positions c - n; rows = kc_rows c;
            window_ok = (case kc_window c of
                None \<Rightarrow> True
              | Some w \<Rightarrow> dropped \<le> rows \<and> (n = 0 \<or> rows_needed_at w n \<le> rows - dropped))
        in recurrent_ok \<and> window_ok)"

definition usize_max :: nat where
  "usize_max = 2 ^ 64 - 1"

definition kc_rollback_limit :: "'r kv_cache \<Rightarrow> nat" where
  "kc_rollback_limit c =
     (if kc_recurrent c \<noteq> None then 0
      else case kc_window c of None \<Rightarrow> usize_max | Some w \<Rightarrow> max_rollback w)"

definition kc_truncate :: "nat \<Rightarrow> 'r kv_cache \<Rightarrow> 'r kv_cache option" where
  "kc_truncate n c =
     (if \<not> n \<le> kc_positions c then None
      else
        let rows = kc_rows c; dropped = kc_positions c - n in
        if \<not> (kc_recurrent c \<noteq> None \<or> kc_can_truncate_to n c) then None
        else if \<not> kc_can_truncate_to n c then None
        else
          let c = (if n = 0 then c\<lparr>kc_recurrent := None\<rparr> else c); keep_rows = rows - dropped in
          Some (c\<lparr>kc_k := kb_truncate (keep_rows * kc_k_width c) (kc_k c),
                  kc_v := kb_truncate (keep_rows * kc_v_width c) (kc_v c), kc_positions := n\<rparr>))"

definition kc_arm_window :: "kv_window \<Rightarrow> 'r kv_cache \<Rightarrow> 'r kv_cache" where
  "kc_arm_window w c = (if \<not> kc_eviction_forbidden c then c\<lparr>kc_window := Some w\<rparr> else c)"

definition kc_forbid_eviction :: "'r kv_cache \<Rightarrow> 'r kv_cache option" where
  "kc_forbid_eviction c =
     (if kc_k_width c = 0 \<or> kc_rows c = kc_positions c
      then Some (c\<lparr>kc_eviction_forbidden := True, kc_window := None\<rparr>) else None)"

text \<open>The check of \<open>set_positions\<close> is a debug assertion, absent from a release build.\<close>

definition kc_set_positions :: "nat \<Rightarrow> 'r kv_cache \<Rightarrow> 'r kv_cache" where
  "kc_set_positions positions c = c\<lparr>kc_positions := positions\<rparr>"

text \<open>Shrinking a buffer whose capacity is more than twice the window's rows; multiplication
  saturates in the code, which no capacity reaches.\<close>

definition kc_shrink :: "kv_window \<Rightarrow> 'r kv_cache \<Rightarrow> 'r kv_cache" where
  "kc_shrink w c =
     (if kc_pool_state c = None \<and> 2 * (max_rows w * kc_k_width c) < kb_capacity (kc_k c)
      then c\<lparr>kc_k := kb_shrink_to (max_rows w * kc_k_width c) (kc_k c),
             kc_v := kb_shrink_to (max_rows w * kc_v_width c) (kc_v c)\<rparr>
      else c)"

definition kc_evict :: "'r kv_cache \<Rightarrow> (nat \<times> 'r kv_cache) option" where
  "kc_evict c =
     (case kc_window c of
        None \<Rightarrow> Some (0, c)
      | Some window \<Rightarrow>
          let k_width = kc_k_width c; v_width = kc_v_width c in
          if k_width = 0 then Some (0, c)
          else
            let rows = kb_len (kc_k c) div k_width;
                keep = min (rows_after window (kc_positions c)) rows;
                drop_rows = rows - keep
            in if drop_rows = 0 then Some (0, c)
               else case kb_drain_front (drop_rows * k_width) (kc_k c) of
                   None \<Rightarrow> None
                 | Some k \<Rightarrow> (case kb_drain_front (drop_rows * v_width) (kc_v c) of
                     None \<Rightarrow> None
                   | Some v \<Rightarrow> Some (drop_rows, kc_shrink window (c\<lparr>kc_k := k, kc_v := v\<rparr>))))"

definition kc_allocated_bytes :: "'r kv_cache \<Rightarrow> nat" where
  "kc_allocated_bytes c = kb_allocated_bytes (kc_k c) + kb_allocated_bytes (kc_v c)"

definition kc_is_within_planned_capacity :: "'r kv_cache \<Rightarrow> bool" where
  "kc_is_within_planned_capacity c =
     (case kc_planned c of
        Some cap \<Rightarrow> kc_positions c \<le> cap \<and> kc_rows c * kc_k_width c \<le> kb_capacity (kc_k c)
      | None \<Rightarrow> False)"

section \<open>The history of a sequence\<close>

text \<open>The abstract cache: every row ever pushed and not rolled back, as the bit patterns kept.\<close>

type_synonym history = "(u32 list \<times> u32 list) list"

definition end_of :: "nat \<Rightarrow> 'a list \<Rightarrow> 'a list" where
  "end_of n xs = drop (length xs - n) xs"

definition same_width :: "nat \<Rightarrow> 'a list list \<Rightarrow> bool" where
  "same_width w xss \<longleftrightarrow> (\<forall>xs \<in> set xss. length xs = w)"

lemma length_concat_width: "same_width w xss \<Longrightarrow> length (concat xss) = length xss * w"
  by (induction xss) (auto simp: same_width_def)

lemma same_width_simps [simp]:
  "same_width w []"
  "same_width w (xs # xss) \<longleftrightarrow> length xs = w \<and> same_width w xss"
  "same_width w (xss @ yss) \<longleftrightarrow> same_width w xss \<and> same_width w yss"
  by (auto simp: same_width_def)

lemma same_width_drop: "same_width w xss \<Longrightarrow> same_width w (drop n xss)"
  by (auto simp: same_width_def dest: in_set_dropD)

lemma drop_concat_width: "same_width w xss \<Longrightarrow> drop (n * w) (concat xss) = concat (drop n xss)"
proof (induction n arbitrary: xss)
  case (Suc n)
  then show ?case by (cases xss) (auto simp: add.commute)
qed simp

lemma take_concat_width: "same_width w xss \<Longrightarrow> take (n * w) (concat xss) = concat (take n xss)"
proof (induction n arbitrary: xss)
  case (Suc n)
  then show ?case by (cases xss) auto
qed simp

lemma end_of_simps [simp]:
  "length (end_of n xs) = min n (length xs)"
  "n \<le> length xs \<Longrightarrow> end_of (Suc n) (xs @ [x]) = end_of n xs @ [x]"
  "end_of (length xs) xs = xs"
  by (auto simp: end_of_def)

lemma drop_end_of: "m \<le> n \<Longrightarrow> n \<le> length xs \<Longrightarrow> drop (n - m) (end_of n xs) = end_of m xs"
  by (simp add: end_of_def)

lemma take_end_of:
  "length xs - p \<le> n \<Longrightarrow> n \<le> length xs \<Longrightarrow> p \<le> length xs \<Longrightarrow>
     take (n - (length xs - p)) (end_of n xs) = end_of (n - (length xs - p)) (take p xs)"
  by (simp add: end_of_def drop_take add.commute)

lemma map_end_of: "map f (end_of n xs) = end_of n (map f xs)"
  by (simp add: end_of_def drop_map)

lemma same_width_end_of: "same_width w xss \<Longrightarrow> same_width w (end_of n xss)"
  by (simp add: end_of_def same_width_drop)

text \<open>A cache holds the end of a history, as much of it as it has rows.\<close>

definition holds :: "'r kv_cache \<Rightarrow> history \<Rightarrow> bool" where
  "holds c h \<longleftrightarrow>
     kc_positions c = length h \<and> kc_rows c \<le> length h
     \<and> same_width (kc_k_width c) (map fst h) \<and> same_width (kc_v_width c) (map snd h)
     \<and> buf_bits (kc_k c) = concat (end_of (kc_rows c) (map fst h))
     \<and> buf_bits (kc_v c) = concat (end_of (kc_rows c) (map snd h))"

lemma holds_lengths:
  assumes "holds c h"
  shows "kb_len (kc_k c) = kc_rows c * kc_k_width c" "kb_len (kc_v c) = kc_rows c * kc_v_width c"
proof -
  have "kb_len (kc_k c) = length (concat (end_of (kc_rows c) (map fst h)))"
    "kb_len (kc_v c) = length (concat (end_of (kc_rows c) (map snd h)))"
    using assms by (metis holds_def length_buf_bits)+
  moreover have "same_width (kc_k_width c) (end_of (kc_rows c) (map fst h))"
    "same_width (kc_v_width c) (end_of (kc_rows c) (map snd h))" "kc_rows c \<le> length h"
    using assms by (auto simp: holds_def same_width_end_of)
  note this(3) this(1,2) [THEN length_concat_width]
  ultimately show "kb_len (kc_k c) = kc_rows c * kc_k_width c" "kb_len (kc_v c) = kc_rows c * kc_v_width c"
    by simp_all
qed

text \<open>A windowed attention cache: no pool, no recurrent state, rows of positive width, and the rows
  the next query reads.\<close>

definition windowed :: "kv_window \<Rightarrow> 'r kv_cache \<Rightarrow> bool" where
  "windowed w c \<longleftrightarrow>
     kc_window c = Some w \<and> window_ok w \<and> kc_pool_state c = None \<and> kc_recurrent c = None
     \<and> 0 < kc_k_width c \<and> kb_dtype (kc_v c) = kb_dtype (kc_k c)
     \<and> rows_needed_at w (kc_positions c) \<le> kc_rows c"

definition push_row :: "half_crate \<Rightarrow> kv_dtype \<Rightarrow> u32 list \<Rightarrow> u32 list \<Rightarrow> history \<Rightarrow> history" where
  "push_row hc dt k v h = h @ [(stored hc dt (RowsF32 k), stored hc dt (RowsF32 v))]"

lemma kb_len_extend [simp]: "kb_len (kb_extend_f32 hc xs b) = kb_len b + length xs"
  by (cases b) (simp_all add: kv_defs)

lemma push_holds:
  assumes "holds c h" "windowed w c"
    and "length k = kc_k_width c" "length v = kc_v_width c"
  obtains c' where "kc_push hc k v pool c = Some (Inr (c', pool))"
    "holds c' (push_row hc (kc_dtype c) k v h)" "windowed w c'"
    "kc_rows c' = Suc (kc_rows c)" "kc_positions c' = Suc (kc_positions c)" "kc_dtype c' = kc_dtype c"
    "kc_k_width c' = kc_k_width c" "kc_v_width c' = kc_v_width c"
proof -
  define c' where "c' = c\<lparr>kc_k := kb_extend_f32 hc k (kc_k c), kc_v := kb_extend_f32 hc v (kc_v c),
    kc_positions := kc_positions c + 1\<rparr>"
  have w: "kc_pool_state c = None" "0 < kc_k_width c" using assms(2) by (simp_all add: windowed_def)
  have upd: "kc_k c' = kb_extend_f32 hc k (kc_k c)" "kc_v c' = kb_extend_f32 hc v (kc_v c)"
    "kc_positions c' = Suc (kc_positions c)" "kc_window c' = kc_window c" "kc_pool_state c' = kc_pool_state c"
    "kc_recurrent c' = kc_recurrent c"
    and widths: "kc_k_width c' = kc_k_width c" "kc_v_width c' = kc_v_width c"
    by (simp_all add: c'_def kc_k_width_def kc_v_width_def)
  have rows: "kc_rows c' = Suc (kc_rows c)"
    using holds_lengths(1) [OF assms(1)] w(2) assms(3) by (simp add: kc_rows_def [of c'] upd widths)
  have run: "kc_push hc k v pool c = Some (Inr (c', pool))"
    using w(1) assms(3,4) by (simp add: kc_push_def kc_grow_def c'_def)
  have "holds c' (push_row hc (kc_dtype c) k v h)"
    using assms by (auto simp: holds_def rows upd widths push_row_def kc_dtype_def windowed_def rows_len_def)
  moreover have "windowed w c'"
    using assms(2) by (auto simp: windowed_def upd rows widths rows_needed_at_def)
  ultimately show ?thesis
    using run rows widths upd by (intro that [of c']) (simp_all add: kc_dtype_def)
qed

lemma kc_shrink_simps [simp]:
  "buf_bits (kc_k (kc_shrink w c)) = buf_bits (kc_k c)" "buf_bits (kc_v (kc_shrink w c)) = buf_bits (kc_v c)"
  "kc_positions (kc_shrink w c) = kc_positions c" "kc_window (kc_shrink w c) = kc_window c"
  "kc_pool_state (kc_shrink w c) = kc_pool_state c" "kc_recurrent (kc_shrink w c) = kc_recurrent c"
  "kb_dtype (kc_k (kc_shrink w c)) = kb_dtype (kc_k c)" "kb_dtype (kc_v (kc_shrink w c)) = kb_dtype (kc_v c)"
  "kc_k_width (kc_shrink w c) = kc_k_width c" "kc_v_width (kc_shrink w c) = kc_v_width c"
  by (simp_all add: kc_shrink_def kc_k_width_def kc_v_width_def)

lemma kc_rows_bits: "kc_rows c = (if kc_k_width c = 0 then 0 else length (buf_bits (kc_k c)) div kc_k_width c)"
  by (simp add: kc_rows_def)

lemma evict_holds:
  assumes "holds c h" "windowed w c"
  obtains n c' where "kc_evict c = Some (n, c')" "holds c' h" "windowed w c'"
    "kc_rows c' = min (rows_after w (kc_positions c)) (kc_rows c)" "n + kc_rows c' = kc_rows c"
    "kc_positions c' = kc_positions c" "kc_dtype c' = kc_dtype c"
    "kc_k_width c' = kc_k_width c" "kc_v_width c' = kc_v_width c"
proof -
  have win: "kc_window c = Some w" "0 < kc_k_width c" "window_ok w" using assms(2) by (simp_all add: windowed_def)
  let ?rows = "kc_rows c"
  let ?keep = "min (rows_after w (kc_positions c)) ?rows"
  have rows: "kb_len (kc_k c) div kc_k_width c = ?rows" using win(2) by (simp add: kc_rows_def)
  show ?thesis
  proof (cases "?rows - ?keep = 0")
    case True
    with win rows assms show ?thesis
      by (intro that [of 0 c]) (auto simp: kc_evict_def Let_def min_def)
  next
    case False
    let ?d = "?rows - ?keep"
    obtain k v where k: "kb_drain_front (?d * kc_k_width c) (kc_k c) = Some k"
      and v: "kb_drain_front (?d * kc_v_width c) (kc_v c) = Some v"
      using kb_drain_front_ok [of "?d * kc_k_width c" "kc_k c"] kb_drain_front_ok [of "?d * kc_v_width c" "kc_v c"]
        holds_lengths [OF assms(1)] by fastforce
    define c' where "c' = kc_shrink w (c\<lparr>kc_k := k, kc_v := v\<rparr>)"
    have upd: "buf_bits (kc_k c') = buf_bits k" "buf_bits (kc_v c') = buf_bits v"
      "kb_dtype (kc_k c') = kb_dtype k" "kb_dtype (kc_v c') = kb_dtype v"
      "kc_positions c' = kc_positions c" "kc_window c' = kc_window c" "kc_pool_state c' = kc_pool_state c"
      "kc_recurrent c' = kc_recurrent c"
      by (simp_all add: c'_def)
    have widths: "kc_k_width c' = kc_k_width c" "kc_v_width c' = kc_v_width c"
      unfolding c'_def kc_shrink_simps by (simp_all add: kc_k_width_def kc_v_width_def)
    have bits: "buf_bits k = concat (end_of ?keep (map fst h))" "buf_bits v = concat (end_of ?keep (map snd h))"
      using kb_drain_front_iff [OF k] kb_drain_front_iff [OF v] assms(1)
      by (simp_all add: holds_def drop_concat_width same_width_end_of drop_end_of)
    have "length (buf_bits k) = ?keep * kc_k_width c"
      using assms(1) length_concat_width [OF same_width_end_of, of "kc_k_width c" "map fst h" ?keep]
      by (auto simp: bits holds_def min_def)
    then have keep: "kc_rows c' = ?keep" using win(2) by (simp add: kc_rows_bits [of c'] widths upd)
    have run: "kc_evict c = Some (?d, c')"
      using win rows False k v by (simp add: kc_evict_def Let_def c'_def)
    have "holds c' h" using assms(1) bits keep by (auto simp: holds_def widths upd min.coboundedI2)
    moreover have "windowed w c'"
      using assms(2) rows_after_bounds(3) [OF win(3), of "kc_positions c"] keep
        kb_drain_front_iff [OF k] kb_drain_front_iff [OF v]
      by (auto simp: windowed_def widths rows_needed_at_def upd)
    ultimately show ?thesis
      using run keep widths kb_drain_front_iff [OF k] by (intro that [of ?d c']) (simp_all add: kc_dtype_def upd)
  qed
qed

lemma truncate_holds:
  assumes "holds c h" "windowed w c" "kc_can_truncate_to n c"
  obtains c' where "kc_truncate n c = Some c'" "holds c' (take n h)" "windowed w c'"
    "kc_rows c' = kc_rows c - (kc_positions c - n)" "kc_positions c' = n" "kc_dtype c' = kc_dtype c"
    "kc_k_width c' = kc_k_width c" "kc_v_width c' = kc_v_width c"
proof -
  have win: "kc_window c = Some w" "0 < kc_k_width c" "kc_recurrent c = None"
    using assms(2) by (simp_all add: windowed_def)
  let ?d = "kc_positions c - n"
  have can: "n \<le> kc_positions c" "?d \<le> kc_rows c" "n = 0 \<or> rows_needed_at w n \<le> kc_rows c - ?d"
    using assms(3) win by (auto simp: kc_can_truncate_to_def Let_def split: if_splits)
  let ?keep = "kc_rows c - ?d"
  define c' where "c' = c\<lparr>kc_k := kb_truncate (?keep * kc_k_width c) (kc_k c),
    kc_v := kb_truncate (?keep * kc_v_width c) (kc_v c), kc_positions := n\<rparr>"
  have pos: "kc_positions c = length h" "kc_rows c \<le> length h" using assms(1) by (simp_all add: holds_def)
  have upd: "kc_k c' = kb_truncate (?keep * kc_k_width c) (kc_k c)"
    "kc_v c' = kb_truncate (?keep * kc_v_width c) (kc_v c)" "kc_positions c' = n"
    "kc_window c' = kc_window c" "kc_pool_state c' = kc_pool_state c" "kc_recurrent c' = kc_recurrent c"
    and widths: "kc_k_width c' = kc_k_width c" "kc_v_width c' = kc_v_width c"
    by (simp_all add: c'_def kc_k_width_def kc_v_width_def)
  have run: "kc_truncate n c = Some c'"
    using assms(3) can(1) win(3)
    by (auto simp: kc_truncate_def Let_def c'_def kc_k_width_def kc_v_width_def)
  have bits: "buf_bits (kc_k c') = concat (end_of ?keep (map fst (take n h)))"
    "buf_bits (kc_v c') = concat (end_of ?keep (map snd (take n h)))"
    using assms(1) can pos take_end_of [of "map fst h" n "kc_rows c"] take_end_of [of "map snd h" n "kc_rows c"]
    by (simp_all add: holds_def take_concat_width same_width_end_of take_map upd)
  have w1: "same_width (kc_k_width c) (map fst (take n h))" "same_width (kc_v_width c) (map snd (take n h))"
    using assms(1) by (auto simp: holds_def same_width_def dest: in_set_takeD)
  have "length (buf_bits (kc_k c')) = ?keep * kc_k_width c"
    unfolding bits using can pos length_concat_width [OF same_width_end_of [OF w1(1)], of ?keep]
    by simp
  then have rows: "kc_rows c' = ?keep" using win(2) by (simp add: kc_rows_bits [of c'] widths)
  have "holds c' (take n h)"
    unfolding holds_def rows widths using bits w1 can pos by (simp add: upd)
  moreover have "windowed w c'"
    unfolding windowed_def rows widths using assms(2) can(3)
    by (auto simp: windowed_def rows_needed_at_def upd)
  ultimately show ?thesis
    using run rows widths by (intro that [of c']) (simp_all add: kc_dtype_def upd)
qed

section \<open>Runs of a windowed cache\<close>

datatype cache_op = Push "u32 list" "u32 list" | Evict | Truncate nat

text \<open>The operations of a cache without a pool; \<open>None\<close> is a panic.\<close>

fun cache_step :: "half_crate \<Rightarrow> block_pool \<Rightarrow> cache_op \<Rightarrow> 'r kv_cache \<Rightarrow> 'r kv_cache option" where
  "cache_step hc pool (Push k v) c =
     (case kc_push hc k v pool c of Some (Inr (c, _)) \<Rightarrow> Some c | _ \<Rightarrow> None)"
| "cache_step hc pool Evict c = map_option snd (kc_evict c)"
| "cache_step hc pool (Truncate n) c = kc_truncate n c"

fun cache_run :: "half_crate \<Rightarrow> block_pool \<Rightarrow> cache_op list \<Rightarrow> 'r kv_cache \<Rightarrow> 'r kv_cache option" where
  "cache_run hc pool [] c = Some c"
| "cache_run hc pool (op # ops) c = Option.bind (cache_step hc pool op c) (cache_run hc pool ops)"

fun spec_step :: "half_crate \<Rightarrow> kv_dtype \<Rightarrow> cache_op \<Rightarrow> history \<Rightarrow> history" where
  "spec_step hc dt (Push k v) h = push_row hc dt k v h"
| "spec_step hc dt Evict h = h"
| "spec_step hc dt (Truncate n) h = take n h"

definition spec_run :: "half_crate \<Rightarrow> kv_dtype \<Rightarrow> cache_op list \<Rightarrow> history \<Rightarrow> history" where
  "spec_run hc dt ops h = fold (spec_step hc dt) ops h"

lemma cache_step_holds:
  assumes "holds c h" "windowed w c" "cache_step hc pool op c = Some c'"
  shows "holds c' (spec_step hc (kc_dtype c) op h) \<and> windowed w c' \<and> kc_dtype c' = kc_dtype c"
proof (cases op)
  case (Push k v)
  then have "length k = kc_k_width c" "length v = kc_v_width c"
    using assms(3) by (auto simp: kc_push_def split: if_splits)
  from push_holds [OF assms(1,2) this] assms(3) Push show ?thesis
    by (metis (no_types, lifting) cache_step.simps(1) old.prod.case option.inject option.simps(5)
        spec_step.simps(1) sum.simps(6))
next
  case Evict
  from evict_holds [OF assms(1,2)] assms(3) Evict show ?thesis by fastforce
next
  case (Truncate n)
  then have "kc_can_truncate_to n c"
    using assms(3) by (auto simp: kc_truncate_def Let_def split: if_splits)
  from truncate_holds [OF assms(1,2) this] assms(3) Truncate show ?thesis by fastforce
qed

lemma cache_run_holds:
  "holds c h \<Longrightarrow> windowed w c \<Longrightarrow> cache_run hc pool ops c = Some c' \<Longrightarrow>
     holds c' (spec_run hc (kc_dtype c) ops h) \<and> windowed w c' \<and> kc_dtype c' = kc_dtype c"
proof (induction ops arbitrary: c h)
  case (Cons op ops)
  then obtain c1 where c1: "cache_step hc pool op c = Some c1" "cache_run hc pool ops c1 = Some c'"
    by (auto simp: bind_eq_Some_conv)
  from cache_step_holds [OF Cons.prems(1,2) c1(1)] Cons.IH [OF _ _ c1(2)] show ?case
    by (auto simp: spec_run_def)
qed (simp add: spec_run_def)

text \<open>A windowed cache as the decoder starts it.\<close>

definition windowed_start :: "nat \<Rightarrow> nat \<Rightarrow> nat \<Rightarrow> kv_dtype \<Rightarrow> kv_window \<Rightarrow> 'r kv_cache option" where
  "windowed_start heads head_dim v_head_dim dt w =
     map_option (kc_arm_window w) (kc_with_dtype dt (kc_new_split heads head_dim v_head_dim))"

lemma windowed_start_holds:
  assumes "windowed_start heads head_dim v_head_dim dt w = Some c" "0 < heads * head_dim" "window_ok w"
  shows "holds c [] \<and> windowed w c \<and> kc_dtype c = dt"
  using assms
  by (cases dt) (auto simp: windowed_start_def kc_with_dtype_def kc_new_split_def kc_arm_window_def holds_def
      windowed_def kc_rows_def kc_k_width_def kc_v_width_def kc_dtype_def kb_is_empty_def end_of_def
      rows_needed_at_def kv_defs)

lemma windowed_run_holds:
  assumes "windowed_start heads head_dim v_head_dim dt w = Some c0" "window_ok w" "0 < heads * head_dim"
    and "cache_run hc pool ops c0 = Some c"
  shows "holds c (spec_run hc dt ops []) \<and> windowed w c"
  using windowed_start_holds [OF assms(1,3,2)] cache_run_holds [OF _ _ assms(4), of "[]" w] by blast

text \<open>Pushes and evictions, of which at most so many pushes.\<close>

fun writes_only :: "'r kv_cache \<Rightarrow> cache_op \<Rightarrow> bool" where
  "writes_only c (Push k v) \<longleftrightarrow> length k = kc_k_width c \<and> length v = kc_v_width c"
| "writes_only c Evict \<longleftrightarrow> True"
| "writes_only c (Truncate n) \<longleftrightarrow> False"

definition pushes :: "cache_op list \<Rightarrow> nat" where
  "pushes ops = length (filter (\<lambda>op. \<exists>k v. op = Push k v) ops)"

lemma pushes_simps [simp]:
  "pushes [] = 0" "pushes (Push k v # ops) = Suc (pushes ops)" "pushes (Evict # ops) = pushes ops"
  by (simp_all add: pushes_def)

text \<open>While no more is written than the window allows to roll back, the rows before the writes stay.\<close>

lemma writes_keep:
  assumes "holds c h" "windowed w c" "\<forall>op \<in> set ops. writes_only c op"
    and "take p h = h0" "length h0 = p" "p \<le> length h"
    and "length h - p + pushes ops \<le> max_rollback w"
    and "length h - p + rows_needed_at w p \<le> kc_rows c"
  shows "\<exists>c' h'. cache_run hc pool ops c = Some c' \<and> holds c' h' \<and> windowed w c' \<and> take p h' = h0
    \<and> length h' = length h + pushes ops \<and> length h' - p + rows_needed_at w p \<le> kc_rows c'
    \<and> kc_k_width c' = kc_k_width c \<and> kc_v_width c' = kc_v_width c"
  using assms
proof (induction ops arbitrary: c h)
  case (Cons op ops)
  note win = Cons.prems(2) [unfolded windowed_def]
  show ?case
  proof (cases op)
    case (Push k v)
    then have len: "length k = kc_k_width c" "length v = kc_v_width c" using Cons.prems(3) by auto
    obtain c1 where c1: "kc_push hc k v pool c = Some (Inr (c1, pool))"
      "holds c1 (push_row hc (kc_dtype c) k v h)" "windowed w c1"
      "kc_rows c1 = Suc (kc_rows c)" "kc_positions c1 = Suc (kc_positions c)"
      "kc_k_width c1 = kc_k_width c" "kc_v_width c1 = kc_v_width c"
      using push_holds [OF Cons.prems(1,2) len] by metis
    have "writes_only c1 = writes_only c"
      by (rule ext, rename_tac op, case_tac op) (simp_all add: c1)
    with Cons.IH [OF c1(2,3)] Cons.prems c1 Push show ?thesis
      by (auto simp: push_row_def Suc_diff_le)
  next
    case Evict
    obtain n c1 where c1: "kc_evict c = Some (n, c1)" "holds c1 h" "windowed w c1"
      "kc_rows c1 = min (rows_after w (kc_positions c)) (kc_rows c)"
      "kc_k_width c1 = kc_k_width c" "kc_v_width c1 = kc_v_width c"
      using evict_holds [OF Cons.prems(1,2)] by metis
    have "kc_positions c = length h" using Cons.prems(1) by (simp add: holds_def)
    then have "min (length h) (kw_window w + kw_reserve w) \<le> rows_after w (kc_positions c)"
      using rows_after_bounds(3) [of w "kc_positions c"] win by simp
    moreover have "length h - p + rows_needed_at w p \<le> min (length h) (kw_window w + kw_reserve w)"
      using Cons.prems(6,7) win by (auto simp: rows_needed_at_def max_rollback_def window_ok_def)
    ultimately have "length h - p + rows_needed_at w p \<le> rows_after w (kc_positions c)"
      by (meson order_trans)
    then have keep: "length h - p + rows_needed_at w p \<le> kc_rows c1"
      using Cons.prems(8) c1(4) by simp
    have "writes_only c1 = writes_only c"
      by (rule ext, rename_tac op, case_tac op) (simp_all add: c1)
    with Cons.IH [OF c1(2,3)] Cons.prems c1 keep Evict show ?thesis by auto
  next
    case (Truncate n)
    with Cons.prems(3) show ?thesis by simp
  qed
qed auto

section \<open>The pool's books\<close>

definition held :: "'r kv_cache \<Rightarrow> nat" where
  "held c = (case kc_pool_state c of None \<Rightarrow> 0 | Some s \<Rightarrow> ps_blocks_held s)"

text \<open>A pooled cache's buffer is as large as the blocks it holds.\<close>

definition pooled_ok :: "block_pool \<Rightarrow> 'r kv_cache \<Rightarrow> bool" where
  "pooled_ok pool c \<longleftrightarrow>
     0 < kc_k_width c \<and> 0 < bp_block_size pool \<and> kb_len (kc_k c) = kc_rows c * kc_k_width c
     \<and> (\<forall>s. kc_pool_state c = Some s \<longrightarrow> ps_pool_block_size s = bp_block_size pool
          \<and> kb_capacity (kc_k c) = ps_blocks_held s * bp_block_size pool * kc_k_width c
          \<and> kc_rows c \<le> ps_blocks_held s * bp_block_size pool)"

lemma pooled_ok_pool: "bp_block_size q = bp_block_size p \<Longrightarrow> pooled_ok q c = pooled_ok p c"
  by (simp add: pooled_ok_def)

lemma kb_capacity_simps [simp]:
  "kb_capacity (kb_with_capacity dt n) = n"
  "kb_capacity (kb_reserve_exact n b) = max (kb_capacity b) (kb_len b + n)"
  "kb_len (kb_with_capacity dt n) = 0"
  "kb_len (kb_reserve_exact n b) = kb_len b"
  by (cases dt; cases b; simp add: kv_defs)+

lemma kb_capacity_extend: "kb_len b + length xs \<le> kb_capacity b \<Longrightarrow>
    kb_capacity (kb_extend_f32 hc xs b) = kb_capacity b"
  by (cases b) (simp_all add: kv_defs rv_grown_def)

lemma div_ceil_covers:
  assumes "0 < b" shows "a \<le> div_ceil a b * b"
proof -
  have "a = a div b * b + a mod b" by simp
  moreover have "a mod b < b" using assms by simp
  ultimately have "a \<le> a div b * b + b" by linarith
  then show ?thesis by (auto simp: div_ceil_def)
qed

lemma max_div_ceil_covers: "0 < b \<Longrightarrow> a \<le> max (div_ceil a b) 1 * b"
  using order_trans [OF div_ceil_covers mult_le_mono1, of b a "max (div_ceil a b) 1"] by simp

lemma with_pool_ok:
  assumes "kc_with_pool_split heads head_dim v_head_dim pool m = Inr (c, pool')"
    and "0 < heads * head_dim" "0 < bp_block_size pool"
  shows "pooled_ok pool' c \<and> held c + bp_free pool' = bp_free pool \<and> bp_total pool' = bp_total pool
    \<and> bp_block_size pool' = bp_block_size pool \<and> kc_rows c = 0 \<and> m \<le> held c * bp_block_size pool
    \<and> kc_k_width c = heads * head_dim \<and> kc_v_width c = heads * v_head_dim"
proof -
  let ?n = "max (div_ceil m (bp_block_size pool)) 1"
  obtain n where n: "?n = n" "m \<le> n * bp_block_size pool"
    using max_div_ceil_covers [OF assms(3), of m] by blast
  show ?thesis
    using assms n(2) unfolding kc_with_pool_split_def Let_def n(1)
    by (auto simp: try_acquire_def pooled_ok_def held_def kc_rows_def
      kc_k_width_def kc_v_width_def split: if_splits option.splits)
qed

lemma push_pooled:
  fixes c :: "'r kv_cache"
  assumes ok: "pooled_ok pool c" and len: "length k = kc_k_width c" "length v = kc_v_width c"
  shows "(\<exists>c' pool'. kc_push hc k v pool c = Some (Inr (c', pool')) \<and> pooled_ok pool' c'
      \<and> held c' + bp_free pool' = held c + bp_free pool \<and> bp_total pool' = bp_total pool
      \<and> bp_block_size pool' = bp_block_size pool \<and> kc_rows c' = Suc (kc_rows c)
      \<and> kc_k_width c' = kc_k_width c \<and> kc_v_width c' = kc_v_width c
      \<and> (kc_rows c < held c * bp_block_size pool \<longrightarrow> pool' = pool \<and> held c' = held c))
    \<or> kc_push hc k v pool c = Some (Inl KvPoolExhausted) \<and> bp_free pool = 0
      \<and> kc_rows c = held c * bp_block_size pool"
proof -
  let ?kw = "kc_k_width c"
  have w: "0 < ?kw" "0 < bp_block_size pool" "kb_len (kc_k c) = kc_rows c * ?kw"
    using ok by (simp_all add: pooled_ok_def)
  define grown where "grown = (\<lambda>c1 :: 'r kv_cache. c1\<lparr>kc_k := kb_extend_f32 hc k (kc_k c1),
    kc_v := kb_extend_f32 hc v (kc_v c1), kc_positions := kc_positions c1 + 1\<rparr>)"
  have upd: "kc_k (grown c1) = kb_extend_f32 hc k (kc_k c1)" "kc_pool_state (grown c1) = kc_pool_state c1"
    "kc_k_width (grown c1) = kc_k_width c1" "kc_v_width (grown c1) = kc_v_width c1" for c1 :: "'r kv_cache"
    by (simp_all add: grown_def kc_k_width_def kc_v_width_def)
  have rows: "kc_rows (grown c1) = Suc (kc_rows c)"
    if "kb_len (kc_k c1) = kb_len (kc_k c)" "kc_k_width c1 = ?kw" for c1 :: "'r kv_cache"
    using w len that by (simp add: kc_rows_def [of "grown c1"] upd)
  have push: "kc_push hc k v pool c = bind_run (kc_grow pool c) (\<lambda>(c, pool). Some (Inr (grown c, pool)))"
    using len by (simp add: kc_push_def grown_def)
  have stay: "pooled_ok pool (grown c)"
    if room: "\<And>s. kc_pool_state c = Some s \<Longrightarrow> kc_rows c < ps_blocks_held s * bp_block_size pool"
  proof -
    have "kb_capacity (kc_k (grown c)) = kb_capacity (kc_k c)" if s: "kc_pool_state c = Some s" for s
    proof -
      have "Suc (kc_rows c) * ?kw \<le> ps_blocks_held s * bp_block_size pool * ?kw"
        using room [OF s] by (intro mult_le_mono1) simp
      moreover have "kb_capacity (kc_k c) = ps_blocks_held s * bp_block_size pool * ?kw"
        using ok s by (simp add: pooled_ok_def)
      ultimately show ?thesis using len w(3) by (simp add: upd kb_capacity_extend)
    qed
    then show ?thesis using ok room len rows [of c] by (auto simp: pooled_ok_def upd Suc_le_eq)
  qed
  show ?thesis
  proof (cases "kc_pool_state c")
    case None
    then have "kc_grow pool c = Some (Inr (c, pool))" by (simp add: kc_grow_def)
    with stay None rows [of c] push show ?thesis by (simp add: upd held_def)
  next
    case (Some s)
    let ?cap = "ps_blocks_held s * bp_block_size pool"
    have s: "ps_pool_block_size s = bp_block_size pool" "kb_capacity (kc_k c) = ?cap * ?kw" "kc_rows c \<le> ?cap"
      using ok Some by (simp_all add: pooled_ok_def)
    have full: "kb_len (kc_k c) div ?kw = kb_capacity (kc_k c) div ?kw \<longleftrightarrow> kc_rows c = ?cap"
      using w(1,3) s(2) by simp
    show ?thesis
    proof (cases "kc_rows c = ?cap")
      case False
      then have "kc_grow pool c = Some (Inr (c, pool))"
        using Some w(1) full by (simp add: kc_grow_def Let_def)
      with stay Some False s(3) rows [of c] push show ?thesis by (simp add: upd held_def)
    next
      case True
      show ?thesis
      proof (cases "bp_free pool = 0")
        case True
        then have "kc_grow pool c = Some (Inl KvPoolExhausted)"
          using Some w(1) full \<open>kc_rows c = ?cap\<close> by (simp add: kc_grow_def Let_def try_acquire_def)
        with push True Some \<open>kc_rows c = ?cap\<close> show ?thesis by (simp add: held_def)
      next
        case free: False
        define pool' where "pool' = pool\<lparr>bp_free := bp_free pool - 1\<rparr>"
        define c1 where "c1 = c\<lparr>kc_pool_state := Some (s\<lparr>ps_blocks_held := ps_blocks_held s + 1\<rparr>),
          kc_k := kb_reserve_exact (bp_block_size pool * ?kw) (kc_k c),
          kc_v := kb_reserve_exact (bp_block_size pool * kc_v_width c) (kc_v c)\<rparr>"
        have c1: "kc_k_width c1 = ?kw" "kc_v_width c1 = kc_v_width c" "kb_len (kc_k c1) = kb_len (kc_k c)"
          "kc_pool_state c1 = Some (s\<lparr>ps_blocks_held := ps_blocks_held s + 1\<rparr>)"
          "kb_capacity (kc_k c1) = Suc (ps_blocks_held s) * bp_block_size pool * ?kw"
          using w s \<open>kc_rows c = ?cap\<close>
          by (simp_all add: c1_def kc_k_width_def kc_v_width_def algebra_simps)
        have p': "bp_block_size pool' = bp_block_size pool" "bp_total pool' = bp_total pool"
          "Suc (bp_free pool') = bp_free pool"
          using free by (simp_all add: pool'_def)
        have grow: "kc_grow pool c = Some (Inr (c1, pool'))"
          using Some w(1) full \<open>kc_rows c = ?cap\<close> free s(1)
          by (simp add: kc_grow_def Let_def try_acquire_def c1_def pool'_def)
        have "Suc ?cap * ?kw \<le> Suc (ps_blocks_held s) * bp_block_size pool * ?kw"
          using w(2) by (intro mult_le_mono1) simp
        then have "kb_capacity (kc_k (grown c1)) = Suc (ps_blocks_held s) * bp_block_size pool * ?kw"
          using c1 len w(3) \<open>kc_rows c = ?cap\<close> by (simp add: upd kb_capacity_extend)
        moreover have "Suc ?cap \<le> Suc (ps_blocks_held s) * bp_block_size pool" using w(2) by simp
        ultimately have "pooled_ok pool' (grown c1)"
          using rows [of c1] c1 w len p' s(1) \<open>kc_rows c = ?cap\<close>
          by (auto simp: pooled_ok_def upd)
        then show ?thesis
          using push grow rows [of c1] c1 p' Some \<open>kc_rows c = ?cap\<close> by (simp add: upd held_def)
      qed
    qed
  qed
qed

text \<open>Caches of one model over a pool.\<close>

datatype pool_op = Open nat | Append nat "u32 list" "u32 list" | Close nat | Discard nat | Resize nat

record pool_shape =
  sh_heads :: nat
  sh_head_dim :: nat
  sh_v_head_dim :: nat

type_synonym 'r pool_state = "block_pool \<times> 'r kv_cache list"

fun pool_step :: "half_crate \<Rightarrow> pool_shape \<Rightarrow> pool_op \<Rightarrow> 'r pool_state \<Rightarrow> 'r pool_state option" where
  "pool_step hc sh (Open m) (pool, cs) =
     (case kc_with_pool_split (sh_heads sh) (sh_head_dim sh) (sh_v_head_dim sh) pool m of
        Inl _ \<Rightarrow> Some (pool, cs)
      | Inr (c, pool) \<Rightarrow> Some (pool, cs @ [c]))"
| "pool_step hc sh (Append i k v) (pool, cs) =
     (if i < length cs then
        (case kc_push hc k v pool (cs ! i) of
           None \<Rightarrow> None
         | Some (Inl _) \<Rightarrow> Some (pool, cs)
         | Some (Inr (c, pool)) \<Rightarrow> Some (pool, cs[i := c]))
      else None)"
| "pool_step hc sh (Close i) (pool, cs) =
     (if i < length cs then
        (case kc_release_to_pool pool (cs ! i) of (c, pool) \<Rightarrow> Some (pool, cs[i := c]))
      else None)"
| "pool_step hc sh (Discard i) (pool, cs) =
     (if i < length cs then Some (kc_drop pool (cs ! i), take i cs @ drop (Suc i) cs) else None)"
| "pool_step hc sh (Resize n) (pool, cs) =
     (case pool_resize n pool of Inl _ \<Rightarrow> Some (pool, cs) | Inr pool \<Rightarrow> Some (pool, cs))"

fun pool_run :: "half_crate \<Rightarrow> pool_shape \<Rightarrow> pool_op list \<Rightarrow> 'r pool_state \<Rightarrow> 'r pool_state option" where
  "pool_run hc sh [] st = Some st"
| "pool_run hc sh (op # ops) st = Option.bind (pool_step hc sh op st) (pool_run hc sh ops)"

definition total_held :: "'r kv_cache list \<Rightarrow> nat" where
  "total_held cs = sum_list (map held cs)"

definition books_ok :: "'r pool_state \<Rightarrow> bool" where
  "books_ok st \<longleftrightarrow> 0 < bp_block_size (fst st) \<and> (\<forall>c \<in> set (snd st). pooled_ok (fst st) c)
     \<and> bp_free (fst st) + total_held (snd st) = bp_total (fst st)"

lemma total_held_update:
  "i < length cs \<Longrightarrow> total_held (cs[i := c]) + held (cs ! i) = total_held cs + held c"
  by (induction cs arbitrary: i) (auto simp: total_held_def split: nat.splits)

lemma held_le: "i < length cs \<Longrightarrow> held (cs ! i) \<le> total_held cs"
  by (auto simp: total_held_def intro!: member_le_sum_list)

lemma books_update:
  assumes "books_ok (pool, cs)" "i < length cs" "pooled_ok pool' c"
    "held c + bp_free pool' = held (cs ! i) + bp_free pool" "bp_total pool' = bp_total pool"
    "bp_block_size pool' = bp_block_size pool"
  shows "books_ok (pool', cs[i := c])"
  using assms total_held_update [OF assms(2), of c] pooled_ok_pool [OF assms(6)]
  by (auto simp: books_ok_def dest!: set_update_subset_insert [THEN subsetD])

lemma pool_step_books:
  assumes "books_ok st" "0 < sh_heads sh * sh_head_dim sh" "pool_step hc sh op st = Some st'"
  shows "books_ok st'"
proof (cases st)
  case (Pair pool cs)
  note st = Pair
  have b: "0 < bp_block_size pool" "bp_free pool + total_held cs = bp_total pool"
    using assms(1) st by (simp_all add: books_ok_def)
  show ?thesis
  proof (cases op)
    case (Open m)
    show ?thesis
    proof (cases "kc_with_pool_split (sh_heads sh) (sh_head_dim sh) (sh_v_head_dim sh) pool m
        :: (kv_pool_exhausted, 'a kv_cache \<times> block_pool) result")
      case (Inr r)
      obtain c pool' where r: "r = (c, pool')" by fastforce
      note new = with_pool_ok [OF Inr [unfolded r] assms(2) b(1)]
      then have "pooled_ok pool' x = pooled_ok pool x" for x :: "'a kv_cache"
        by (intro pooled_ok_pool) simp
      moreover have "st' = (pool', cs @ [c])" using assms(3) st Open Inr r by simp
      ultimately show ?thesis using new assms(1) st by (auto simp: books_ok_def total_held_def)
    qed (use assms st Open in auto)
  next
    case (Append i k v)
    with assms(3) st have i: "i < length cs" by (auto split: if_splits)
    then have ok: "pooled_ok pool (cs ! i)" using assms(1) st by (simp add: books_ok_def)
    have len: "length k = kc_k_width (cs ! i)" "length v = kc_v_width (cs ! i)"
      using assms(3) st Append i by (auto simp: kc_push_def split: if_splits)
    from push_pooled [OF ok len, of hc] show ?thesis
    proof (elim disjE exE conjE)
      fix c pool' assume p: "kc_push hc k v pool (cs ! i) = Some (Inr (c, pool'))" "pooled_ok pool' c"
        "held c + bp_free pool' = held (cs ! i) + bp_free pool" "bp_total pool' = bp_total pool"
        "bp_block_size pool' = bp_block_size pool"
      have "st' = (pool', cs[i := c])" using assms(3) st Append i p(1) by simp
      with books_update [OF assms(1) [unfolded st] i p(2-5)] show ?thesis by simp
    next
      assume "kc_push hc k v pool (cs ! i) = Some (Inl KvPoolExhausted)"
      with assms(1,3) st Append i show ?thesis by simp
    qed
  next
    case (Close i)
    with assms(3) st have i: "i < length cs" by (auto split: if_splits)
    then have ok: "pooled_ok pool (cs ! i)" using assms(1) st by (simp add: books_ok_def)
    obtain c pool' where r: "kc_release_to_pool pool (cs ! i) = (c, pool')" by fastforce
    have "bp_free pool + held (cs ! i) \<le> bp_total pool" using held_le [OF i] b by simp
    then have "pooled_ok pool' c \<and> held c + bp_free pool' = held (cs ! i) + bp_free pool
        \<and> bp_total pool' = bp_total pool \<and> bp_block_size pool' = bp_block_size pool"
      using r ok
      by (auto simp: kc_release_to_pool_def pool_release_def held_def pooled_ok_def kc_rows_def
          kc_k_width_def split: option.splits)
    with books_update [OF assms(1) [unfolded st] i] r assms(3) st Close i show ?thesis by auto
  next
    case (Discard i)
    with assms(3) st have i: "i < length cs" and st': "st' = (kc_drop pool (cs ! i), take i cs @ drop (Suc i) cs)"
      by (auto split: if_splits)
    have "bp_free pool + held (cs ! i) \<le> bp_total pool" using held_le [OF i] b by simp
    then have "bp_free (kc_drop pool (cs ! i)) = bp_free pool + held (cs ! i)"
      "bp_total (kc_drop pool (cs ! i)) = bp_total pool" "bp_block_size (kc_drop pool (cs ! i)) = bp_block_size pool"
      by (auto simp: kc_drop_def pool_release_def held_def split: option.splits)
    moreover have "total_held cs = total_held (take i cs) + held (cs ! i) + total_held (drop (Suc i) cs)"
      using arg_cong [OF id_take_nth_drop [OF i], of total_held] by (simp add: total_held_def)
    moreover have "set (take i cs @ drop (Suc i) cs) \<subseteq> set cs" using set_take_subset set_drop_subset by fastforce
    ultimately show ?thesis
      using assms(1) st st' pooled_ok_pool [of "kc_drop pool (cs ! i)" pool]
      by (auto simp: books_ok_def total_held_def)
  next
    case (Resize n)
    with assms(1,3) st b show ?thesis
      by (auto simp: pool_resize_def Let_def books_ok_def pooled_ok_def split: if_splits)
  qed
qed

lemma pool_run_books:
  "books_ok st \<Longrightarrow> 0 < sh_heads sh * sh_head_dim sh \<Longrightarrow> pool_run hc sh ops st = Some st' \<Longrightarrow> books_ok st'"
  by (induction ops arbitrary: st) (auto simp: bind_eq_Some_conv dest: pool_step_books)

text \<open>Appends to one cache, over whatever pool each of them meets.\<close>

fun append_all ::
  "half_crate \<Rightarrow> (u32 list \<times> u32 list \<times> block_pool) list \<Rightarrow> 'r kv_cache \<Rightarrow> 'r kv_cache option" where
  "append_all hc [] c = Some c"
| "append_all hc ((k, v, pool) # steps) c =
     (case kc_push hc k v pool c of Some (Inr (c, _)) \<Rightarrow> append_all hc steps c | _ \<Rightarrow> None)"

lemma append_all_ok:
  assumes "0 < kc_k_width c" "kc_rows c + length steps \<le> held c * bs"
    and "\<And>pool. bp_block_size pool = bs \<Longrightarrow> pooled_ok pool c"
    and "\<forall>(k, v, pool) \<in> set steps. length k = kc_k_width c \<and> length v = kc_v_width c \<and> bp_block_size pool = bs"
  shows "\<exists>c'. append_all hc steps c = Some c' \<and> kc_rows c' = kc_rows c + length steps \<and> held c' = held c"
  using assms
proof (induction steps arbitrary: c)
  case (Cons step steps)
  obtain k v pool where step: "step = (k, v, pool)" by (cases step) auto
  then have len: "length k = kc_k_width c" "length v = kc_v_width c" "bp_block_size pool = bs"
    using Cons.prems(4) by auto
  have less: "kc_rows c < held c * bp_block_size pool" using Cons.prems(2) len(3) by simp
  from push_pooled [OF Cons.prems(3) [OF len(3)] len(1,2), of hc] less
  obtain c1 where c1: "kc_push hc k v pool c = Some (Inr (c1, pool))" "pooled_ok pool c1"
    "kc_rows c1 = Suc (kc_rows c)" "held c1 = held c" "kc_k_width c1 = kc_k_width c" "kc_v_width c1 = kc_v_width c"
    by auto
  have "\<exists>c'. append_all hc steps c1 = Some c' \<and> kc_rows c' = kc_rows c1 + length steps \<and> held c' = held c1"
    using c1 Cons.prems len pooled_ok_pool by (intro Cons.IH) auto
  with c1 step show ?case by auto
qed auto

section \<open>Claims\<close>

definition sample_half :: half_crate where
  "sample_half = \<lparr>half_from = ucast, half_to = ucast\<rparr>"

definition sample_window :: kv_window where
  "sample_window = \<lparr>kw_window = 2, kw_slack = 1, kw_reserve = 0\<rparr>"

definition sample_pool :: block_pool where
  "sample_pool = \<lparr>bp_block_size = 2, bp_total = 4, bp_free = 4\<rparr>"

text \<open>C24.  A windowed cache is the end of its history: after any run of appends, evictions and
  rollbacks, the rows it holds are the last rows of the full history (at the precision of the
  store), as many as it counts, and at least those that the next query reads.\<close>

theorem windowed_cache_refines_history:
  assumes "windowed_start heads head_dim v_head_dim dt w = Some c0" "window_ok w" "0 < heads * head_dim"
    and "cache_run hc pool ops c0 = Some c"
  shows "holds c (spec_run hc dt ops []) \<and> rows_needed_at w (kc_positions c) \<le> kc_rows c"
  using windowed_run_holds [OF assms] by (simp add: windowed_def)

theorem windowed_cache_refines_history_witness:
  "\<exists>(c0 :: unit kv_cache) c. windowed_start 1 1 1 F16 sample_window = Some c0
    \<and> cache_run sample_half sample_pool [Push [1] [2], Push [3] [4], Push [5] [6], Push [7] [8], Evict] c0 = Some c
    \<and> kc_rows c = 2 \<and> holds c (spec_run sample_half F16 [Push [1] [2], Push [3] [4], Push [5] [6], Push [7] [8], Evict] [])"
proof -
  let ?ops = "[Push [1] [2], Push [3] [4], Push [5] [6], Push [7] [8], Evict]"
  have "map_option kc_rows (Option.bind (windowed_start 1 1 1 F16 sample_window :: unit kv_cache option)
      (cache_run sample_half sample_pool ?ops)) = Some 2"
    by code_simp
  then obtain c0 c :: "unit kv_cache" where c: "windowed_start 1 1 1 F16 sample_window = Some c0"
    "cache_run sample_half sample_pool ?ops c0 = Some c" "kc_rows c = 2"
    by (auto simp: bind_eq_Some_conv)
  have "window_ok sample_window" by code_simp
  from windowed_cache_refines_history [OF c(1) this _ c(2)] c show ?thesis by auto
qed

text \<open>The rollback a windowed cache promises can be done: whatever the cache went through,
  if no more positions are then written than \<open>rollback_limit\<close>, with evictions at any point in
  between, truncating back to where the writes began succeeds and restores the history.\<close>

theorem rollback_promise_kept:
  assumes "windowed_start heads head_dim v_head_dim dt w = Some c0" "window_ok w" "0 < heads * head_dim"
    and "cache_run hc pool ops c0 = Some c"
    and "\<forall>op \<in> set later. writes_only c op" "pushes later \<le> kc_rollback_limit c"
  shows "\<exists>c' c''. cache_run hc pool later c = Some c' \<and> kc_truncate (kc_positions c) c' = Some c''
    \<and> holds c'' (spec_run hc dt ops [])"
proof -
  have c: "holds c (spec_run hc dt ops [])" "windowed w c"
    using windowed_run_holds [OF assms(1-4)] by simp_all
  let ?h = "spec_run hc dt ops []" and ?p = "kc_positions c"
  have p: "?p = length ?h" using c(1) by (simp add: holds_def)
  have "pushes later \<le> max_rollback w"
    using assms(6) c(2) by (simp add: kc_rollback_limit_def windowed_def)
  then have prem: "take ?p ?h = ?h" "length ?h = ?p" "?p \<le> length ?h"
    "length ?h - ?p + pushes later \<le> max_rollback w" "length ?h - ?p + rows_needed_at w ?p \<le> kc_rows c"
    using c(2) p by (simp_all add: windowed_def)
  from writes_keep [OF c assms(5) prem, of hc pool] obtain c' h' where c':
    "cache_run hc pool later c = Some c'" "holds c' h'" "windowed w c'" "take ?p h' = ?h"
    "length h' = length ?h + pushes later" "length h' - ?p + rows_needed_at w ?p \<le> kc_rows c'"
    by blast
  have "kc_positions c' = length h'" using c'(2) by (simp add: holds_def)
  then have "kc_can_truncate_to ?p c'"
    using c'(3,5,6) p by (auto simp: kc_can_truncate_to_def Let_def windowed_def)
  from truncate_holds [OF c'(2,3) this] c'(1,4) show ?thesis by metis
qed

text \<open>C25.  The pool's books balance: over any caches that open, grow, close and any resizing, the
  free blocks and the blocks held by the caches make up the pool, so the free count is exact and
  the clamp of a release never bites.\<close>

theorem pool_books_balance:
  assumes "pool_new block_size blocks = Some pool0" "0 < sh_heads sh * sh_head_dim sh"
    and "pool_run hc sh ops (pool0, []) = Some (pool, cs)"
  shows "bp_free pool + total_held cs = bp_total pool"
proof -
  have "books_ok (pool0, [])"
    using assms(1) by (auto simp: pool_new_def books_ok_def total_held_def split: if_splits)
  from pool_run_books [OF this assms(2,3)] show ?thesis by (simp add: books_ok_def)
qed

theorem pool_books_balance_witness:
  "\<exists>pool (cs :: unit kv_cache list).
     pool_run sample_half \<lparr>sh_heads = 1, sh_head_dim = 1, sh_v_head_dim = 1\<rparr>
       [Open 1, Append 0 [1] [2], Append 0 [1] [2], Append 0 [1] [2], Open 4, Close 1, Resize 3] (sample_pool, [])
       = Some (pool, cs)
     \<and> bp_free pool + total_held cs = bp_total pool \<and> total_held cs = 2"
proof -
  let ?sh = "\<lparr>sh_heads = 1, sh_head_dim = 1, sh_v_head_dim = 1\<rparr>"
  let ?ops = "[Open 1, Append 0 [1] [2], Append 0 [1] [2], Append 0 [1] [2], Open 4, Close 1, Resize 3]"
  have "map_option (total_held \<circ> snd) (pool_run sample_half ?sh ?ops (sample_pool, [] :: unit kv_cache list)) = Some 2"
    by code_simp
  then obtain pool and cs :: "unit kv_cache list" where
    r: "pool_run sample_half ?sh ?ops (sample_pool, []) = Some (pool, cs)" "total_held cs = 2"
    by auto
  have "pool_new 2 4 = Some sample_pool" by code_simp
  from pool_books_balance [OF this _ r(1)] r show ?thesis by auto
qed

text \<open>A reservation is enough: a cache opened for so many positions takes that many without
  asking the pool again, so no append up to the reservation is refused, whatever the other
  caches have taken from the pool by then.\<close>

theorem pool_reservation_suffices:
  assumes "kc_with_pool_split heads head_dim v_head_dim pool0 max_seq_len = Inr (c, pool1)"
    and "0 < heads * head_dim" "0 < bp_block_size pool0" "length steps \<le> max_seq_len"
    and "\<forall>(k, v, pool) \<in> set steps. length k = heads * head_dim \<and> length v = heads * v_head_dim
      \<and> bp_block_size pool = bp_block_size pool0"
  shows "\<exists>c'. append_all hc steps c = Some c' \<and> kc_rows c' = length steps \<and> held c' = held c"
proof -
  note new = with_pool_ok [OF assms(1-3)]
  have "pooled_ok pool c" if "bp_block_size pool = bp_block_size pool0" for pool
    using new pooled_ok_pool [of pool pool1 c] that by simp
  with append_all_ok [of c steps "bp_block_size pool0" hc] new assms(2,4,5) show ?thesis by auto
qed

end
