(* ===== verification/Paged_Store.thy ===== *)
theory Paged_Store
  imports Kv_Cache "HOL-Library.Multiset"
begin

text \<open>
  The shared page store of a layer (\<^verbatim>\<open>cache/paged.rs\<close>, \<open>PagedKvStore\<close>): a buffer of rows cut
  into blocks and a stack of free block ids.  The two interfaces a sequence uses are stated as
  locales, one for the blocks it takes and one for the rows it reads and writes, and are
  interpreted on the store.
\<close>

section \<open>The store\<close>

record paged_store =
  pg_block_size :: nat
  pg_n_kv_heads :: nat
  pg_head_dim :: nat
  pg_v_head_dim :: nat
  pg_k :: kv_buf
  pg_v :: kv_buf
  pg_free :: "nat list"

definition pg_k_width :: "paged_store \<Rightarrow> nat" where
  "pg_k_width s = pg_n_kv_heads s * pg_head_dim s"

definition pg_v_width :: "paged_store \<Rightarrow> nat" where
  "pg_v_width s = pg_n_kv_heads s * pg_v_head_dim s"

definition k_elems_per_block :: "paged_store \<Rightarrow> nat" where
  "k_elems_per_block s = pg_block_size s * pg_k_width s"

definition v_elems_per_block :: "paged_store \<Rightarrow> nat" where
  "v_elems_per_block s = pg_block_size s * pg_v_width s"

definition paged_new_split :: "nat \<Rightarrow> nat \<Rightarrow> nat \<Rightarrow> nat \<Rightarrow> nat \<Rightarrow> paged_store option" where
  "paged_new_split block_size total_blocks heads head_dim v_head_dim =
     (if 0 < block_size
      then Some \<lparr>pg_block_size = block_size, pg_n_kv_heads = heads, pg_head_dim = head_dim,
        pg_v_head_dim = v_head_dim,
        pg_k = kb_zeroed F32 (total_blocks * block_size * heads * head_dim),
        pg_v = kb_zeroed F32 (total_blocks * block_size * heads * v_head_dim),
        pg_free = rev [0..<total_blocks]\<rparr>
      else None)"

definition paged_new :: "nat \<Rightarrow> nat \<Rightarrow> nat \<Rightarrow> nat \<Rightarrow> paged_store option" where
  "paged_new block_size total_blocks heads head_dim =
     paged_new_split block_size total_blocks heads head_dim head_dim"

definition free_block_count :: "paged_store \<Rightarrow> nat" where
  "free_block_count s = length (pg_free s)"

definition acquire_block :: "paged_store \<Rightarrow> (nat \<times> paged_store) option" where
  "acquire_block s =
     (if pg_free s = [] then None else Some (last (pg_free s), s\<lparr>pg_free := butlast (pg_free s)\<rparr>))"

definition release_block :: "nat \<Rightarrow> paged_store \<Rightarrow> paged_store" where
  "release_block i s = s\<lparr>pg_free := pg_free s @ [i]\<rparr>"

definition k_row :: "paged_store \<Rightarrow> nat \<Rightarrow> nat \<Rightarrow> kv_rows option" where
  "k_row s i offset =
     (let width = pg_k_width s; start = i * k_elems_per_block s + offset * width in
      rows_slice start (start + width) (kb_view (pg_k s)))"

definition v_row :: "paged_store \<Rightarrow> nat \<Rightarrow> nat \<Rightarrow> kv_rows option" where
  "v_row s i offset =
     (let width = pg_v_width s; start = i * v_elems_per_block s + offset * width in
      rows_slice start (start + width) (kb_view (pg_v s)))"

definition paged_with_dtype :: "kv_dtype \<Rightarrow> paged_store \<Rightarrow> paged_store option" where
  "paged_with_dtype dt s =
     (if k_elems_per_block s = 0 \<or> length (pg_free s) = kb_len (pg_k s) div k_elems_per_block s
      then Some (if kb_dtype (pg_k s) \<noteq> dt
        then s\<lparr>pg_k := kb_zeroed dt (kb_len (pg_k s)), pg_v := kb_zeroed dt (kb_len (pg_v s))\<rparr> else s)
      else None)"

definition paged_dtype :: "paged_store \<Rightarrow> kv_dtype" where
  "paged_dtype s = kb_dtype (pg_k s)"

definition copy_block :: "nat \<Rightarrow> nat \<Rightarrow> paged_store \<Rightarrow> paged_store option" where
  "copy_block src dst s =
     (if src = dst then None
      else
        let k_span = k_elems_per_block s; ks = src * k_span; kd = dst * k_span in
        case kb_copy_within ks (ks + k_span) kd (pg_k s) of
          None \<Rightarrow> None
        | Some k \<Rightarrow>
            let v_span = v_elems_per_block s; vs = src * v_span; vd = dst * v_span in
            (case kb_copy_within vs (vs + v_span) vd (pg_v s) of
               None \<Rightarrow> None
             | Some v \<Rightarrow> Some (s\<lparr>pg_k := k, pg_v := v\<rparr>)))"

definition write_k_row :: "half_crate \<Rightarrow> nat \<Rightarrow> nat \<Rightarrow> kv_rows \<Rightarrow> paged_store \<Rightarrow> paged_store option" where
  "write_k_row hc i offset row s =
     (let width = pg_k_width s in
      if rows_len row \<noteq> width then None
      else map_option (\<lambda>k. s\<lparr>pg_k := k\<rparr>)
             (kb_write_rows hc (i * k_elems_per_block s + offset * width) row (pg_k s)))"

definition write_v_row :: "half_crate \<Rightarrow> nat \<Rightarrow> nat \<Rightarrow> kv_rows \<Rightarrow> paged_store \<Rightarrow> paged_store option" where
  "write_v_row hc i offset row s =
     (let width = pg_v_width s in
      if rows_len row \<noteq> width then None
      else map_option (\<lambda>v. s\<lparr>pg_v := v\<rparr>)
             (kb_write_rows hc (i * v_elems_per_block s + offset * width) row (pg_v s)))"

text \<open>Both rows of a position.\<close>

definition write_row :: "half_crate \<Rightarrow> nat \<Rightarrow> nat \<Rightarrow> kv_rows \<times> kv_rows \<Rightarrow> paged_store \<Rightarrow> paged_store option" where
  "write_row hc i offset row s =
     Option.bind (write_k_row hc i offset (fst row) s) (write_v_row hc i offset (snd row))"

section \<open>The interfaces\<close>

text \<open>Where blocks come from: what is taken was free, what is given back is free again.\<close>

locale block_source =
  fixes free :: "'s \<Rightarrow> nat multiset"
    and acquire :: "'s \<Rightarrow> (nat \<times> 's) option"
    and release :: "nat \<Rightarrow> 's \<Rightarrow> 's"
  assumes acquire_None: "acquire s = None \<longleftrightarrow> free s = {#}"
    and acquire_Some: "acquire s = Some (b, s') \<Longrightarrow> free s = add_mset b (free s')"
    and free_release: "free (release b s) = add_mset b (free s)"

text \<open>Taking and giving back several.\<close>

fun take_blocks :: "('s \<Rightarrow> (nat \<times> 's) option) \<Rightarrow> nat \<Rightarrow> 's \<Rightarrow> (nat list \<times> 's) option" where
  "take_blocks acquire 0 s = Some ([], s)"
| "take_blocks acquire (Suc n) s =
     (case acquire s of
        None \<Rightarrow> None
      | Some (b, s) \<Rightarrow> map_option (\<lambda>(bs, s). (b # bs, s)) (take_blocks acquire n s))"

context block_source
begin

lemma take_blocks_free:
  "take_blocks acquire n s = Some (bs, s') \<Longrightarrow> length bs = n \<and> free s = mset bs + free s'"
  by (induction n arbitrary: s bs) (auto dest!: acquire_Some split: option.splits)

lemma take_blocks_enough: "n \<le> size (free s) \<Longrightarrow> \<exists>bs s'. take_blocks acquire n s = Some (bs, s')"
proof (induction n arbitrary: s)
  case (Suc n)
  then have "acquire s \<noteq> None" using acquire_None by auto
  then obtain b s1 where a: "acquire s = Some (b, s1)" by auto
  with Suc.prems acquire_Some [OF a] have "n \<le> size (free s1)" by simp
  from Suc.IH [OF this] a show ?case by auto
qed simp

lemma release_all_free: "free (fold release bs s) = mset bs + free s"
  by (induction bs arbitrary: s) (simp_all add: free_release)

lemma take_give_back: "take_blocks acquire n s = Some (bs, s') \<Longrightarrow> free (fold release bs s') = free s"
  by (simp add: release_all_free take_blocks_free)

end

text \<open>Where rows live: a row written at a block and an offset is read back there, and no other
  place of the store changes.\<close>

locale row_store =
  fixes ok :: "nat \<Rightarrow> 's \<Rightarrow> bool"
    and bsize :: "'s \<Rightarrow> nat"
    and get :: "'s \<Rightarrow> nat \<Rightarrow> nat \<Rightarrow> 'a"
    and put :: "nat \<Rightarrow> nat \<Rightarrow> 'r \<Rightarrow> 's \<Rightarrow> 's option"
    and accepts :: "'s \<Rightarrow> 'r \<Rightarrow> bool"
    and kept :: "'s \<Rightarrow> 'r \<Rightarrow> 'a"
  assumes bsize_pos: "ok n s \<Longrightarrow> 0 < bsize s"
    and put_some: "ok n s \<Longrightarrow> b < n \<Longrightarrow> i < bsize s \<Longrightarrow> accepts s r \<Longrightarrow> \<exists>s'. put b i r s = Some s'"
    and put_ok: "ok n s \<Longrightarrow> b < n \<Longrightarrow> i < bsize s \<Longrightarrow> put b i r s = Some s' \<Longrightarrow> ok n s' \<and> bsize s' = bsize s"
    and put_get: "ok n s \<Longrightarrow> b < n \<Longrightarrow> i < bsize s \<Longrightarrow> put b i r s = Some s' \<Longrightarrow> c < n \<Longrightarrow> j < bsize s \<Longrightarrow>
      get s' c j = (if c = b \<and> j = i then kept s r else get s c j)"

text \<open>The rows of a sequence: its positions, through its block table.\<close>

definition table_rows :: "(nat \<Rightarrow> nat \<Rightarrow> 'a) \<Rightarrow> nat \<Rightarrow> nat list \<Rightarrow> nat \<Rightarrow> 'a list" where
  "table_rows at bs table n = map (\<lambda>p. at (table ! (p div bs)) (p mod bs)) [0..<n]"

text \<open>The blocks a sequence of that length reads.\<close>

definition used_blocks :: "nat \<Rightarrow> nat list \<Rightarrow> nat \<Rightarrow> nat set" where
  "used_blocks bs table n = (\<lambda>p. table ! (p div bs)) ` {..<n}"

context row_store
begin

lemma rows_put_other:
  assumes "ok n s" "b < n" "i < bsize s" "put b i r s = Some s'"
    and "used_blocks (bsize s) table len \<subseteq> {..<n} - {b}"
  shows "table_rows (get s') (bsize s) table len = table_rows (get s) (bsize s) table len"
proof -
  have "get s' (table ! (p div bsize s)) (p mod bsize s) = get s (table ! (p div bsize s)) (p mod bsize s)"
    if "p < len" for p
  proof -
    have "table ! (p div bsize s) \<in> {..<n} - {b}"
      using assms(5) that by (auto simp: used_blocks_def)
    then show ?thesis
      using put_get [OF assms(1-4), of "table ! (p div bsize s)" "p mod bsize s"] bsize_pos [OF assms(1)]
      by auto
  qed
  then show ?thesis by (simp add: table_rows_def)
qed

lemma rows_put_end:
  assumes "ok n s" "put b (len mod bsize s) r s = Some s'" "table ! (len div bsize s) = b"
    and "distinct table" "len div bsize s < length table" "set table \<subseteq> {..<n}"
  shows "table_rows (get s') (bsize s) table (Suc len) = table_rows (get s) (bsize s) table len @ [kept s r]"
proof -
  have pos: "0 < bsize s" using assms(1) by (rule bsize_pos)
  then have i: "len mod bsize s < bsize s" by simp
  have b: "b < n" using assms(3,5,6) nth_mem by blast
  have "get s' (table ! (p div bsize s)) (p mod bsize s) = get s (table ! (p div bsize s)) (p mod bsize s)"
    if "p < len" for p
  proof -
    have le: "p div bsize s \<le> len div bsize s" using that by (intro div_le_mono) simp
    then have len: "p div bsize s < length table" using assms(5) by simp
    have "\<not> (table ! (p div bsize s) = b \<and> p mod bsize s = len mod bsize s)"
    proof
      assume e: "table ! (p div bsize s) = b \<and> p mod bsize s = len mod bsize s"
      then have "p div bsize s = len div bsize s"
        using nth_eq_iff_index_eq [OF assms(4) len assms(5)] assms(3) by simp
      with e have "p = len" by (metis div_mult_mod_eq)
      with that show False by simp
    qed
    moreover have "table ! (p div bsize s) < n" using len assms(6) nth_mem by blast
    ultimately show ?thesis
      using put_get [OF assms(1) b i assms(2), of "table ! (p div bsize s)" "p mod bsize s"] pos by auto
  qed
  moreover have "get s' b (len mod bsize s) = kept s r"
    using put_get [OF assms(1) b i assms(2) b i] by simp
  ultimately show ?thesis using assms(3) by (simp add: table_rows_def)
qed

end

section \<open>The store provides both\<close>

interpretation blocks: block_source "\<lambda>s. mset (pg_free s)" acquire_block release_block
proof (unfold_locales, goal_cases)
  case (2 s b s')
  then have free: "pg_free s \<noteq> []" "b = last (pg_free s)" "pg_free s' = butlast (pg_free s)"
    by (auto simp: acquire_block_def split: if_splits)
  have "mset (pg_free s) = mset (butlast (pg_free s)) + {#last (pg_free s)#}"
    by (subst (1) append_butlast_last_id [OF free(1), symmetric]) (simp only: mset_append mset.simps add_0)
  then show ?case by (simp add: free(2,3))
qed (auto simp: acquire_block_def release_block_def)

text \<open>Rows are slots of equal width in the buffer.\<close>

definition slot :: "nat \<Rightarrow> nat \<Rightarrow> 'a list \<Rightarrow> 'a list" where
  "slot w p xs = take w (drop (p * w) xs)"

lemma slot_splice:
  assumes "length xs = w" "(p + 1) * w \<le> length ys" "(q + 1) * w \<le> length ys"
  shows "slot w q (splice (p * w) xs ys) = (if q = p then xs else slot w q ys)"
proof -
  consider "q = p" | "q < p" | "p < q" by linarith
  then show ?thesis
  proof cases
    case 1
    with assms show ?thesis by (simp add: slot_def splice_def)
  next
    case 2
    then have "(q + 1) * w \<le> p * w" by (intro mult_le_mono1) simp
    then have qw: "q * w + w \<le> p * w" by simp
    have "length (take (p * w) ys) = p * w" using assms(2) by simp
    with qw have "slot w q (splice (p * w) xs ys) = take w (drop (q * w) (take (p * w) ys))"
      by (simp add: slot_def splice_def)
    also have "\<dots> = take w (drop (q * w) ys)"
      using qw by (simp only: drop_take take_take) simp
    finally show ?thesis using 2 by (simp add: slot_def)
  next
    case 3
    then obtain d where q: "q = p + 1 + d" using less_imp_Suc_add by auto
    then have qw: "q * w = d * w + (p * w + w)" by (simp add: algebra_simps)
    have "length (take (p * w) ys) = p * w" using assms(2) by simp
    then have "drop (p * w + w) (take (p * w) ys @ xs @ drop (p * w + w) ys) = drop (p * w + w) ys"
      using assms(1) by simp
    then have "drop (q * w) (splice (p * w) xs ys) = drop (q * w) ys"
      using assms(1) unfolding qw splice_def drop_drop [symmetric] by simp
    with 3 show ?thesis by (simp add: slot_def)
  qed
qed

definition row_bits_at :: "paged_store \<Rightarrow> nat \<Rightarrow> nat \<Rightarrow> u32 list \<times> u32 list" where
  "row_bits_at s b i =
     (slot (pg_k_width s) (b * pg_block_size s + i) (buf_bits (pg_k s)),
      slot (pg_v_width s) (b * pg_block_size s + i) (buf_bits (pg_v s)))"

definition store_ok :: "nat \<Rightarrow> paged_store \<Rightarrow> bool" where
  "store_ok n s \<longleftrightarrow>
     0 < pg_block_size s \<and> kb_dtype (pg_v s) = kb_dtype (pg_k s)
     \<and> kb_len (pg_k s) = n * pg_block_size s * pg_k_width s
     \<and> kb_len (pg_v s) = n * pg_block_size s * pg_v_width s"

definition row_fits :: "paged_store \<Rightarrow> kv_rows \<times> kv_rows \<Rightarrow> bool" where
  "row_fits s r \<longleftrightarrow> rows_len (fst r) = pg_k_width s \<and> rows_len (snd r) = pg_v_width s"

definition row_kept :: "half_crate \<Rightarrow> paged_store \<Rightarrow> kv_rows \<times> kv_rows \<Rightarrow> u32 list \<times> u32 list" where
  "row_kept hc s r = (stored hc (paged_dtype s) (fst r), stored hc (paged_dtype s) (snd r))"

lemma place_inj:
  "i < bs \<Longrightarrow> j < bs \<Longrightarrow> c * bs + j = b * bs + i \<longleftrightarrow> c = b \<and> j = (i :: nat)"
  by (metis add.commute div_mult_self1 div_less mod_less mod_mult_self1 add_0 not_less_zero)

lemma place_fits: "b < n \<Longrightarrow> i < bs \<Longrightarrow> (b * bs + i + 1) * w \<le> n * bs * (w :: nat)"
proof (rule mult_le_mono1)
  assume "b < n" "i < bs"
  then have "(b + 1) * bs \<le> n * bs" by (intro mult_le_mono1) simp
  with \<open>i < bs\<close> show "b * bs + i + 1 \<le> n * bs" by simp
qed

lemma place_mult: "b * (bs * w) + i * w = (b * bs + i) * (w :: nat)"
  by (simp add: algebra_simps)

lemma kb_write_rows_len: "kb_write_rows hc start r b = Some b' \<Longrightarrow> kb_len b' = kb_len b"
  using kb_write_rows_iff [of hc start r b b'] length_buf_bits [of b'] by simp

lemma write_k_row_iff:
  assumes "write_k_row hc b i r s = Some s'"
  obtains k where "rows_len r = pg_k_width s" "s' = s\<lparr>pg_k := k\<rparr>" "kb_dtype k = kb_dtype (pg_k s)"
    "kb_len k = kb_len (pg_k s)"
    "buf_bits k = splice ((b * pg_block_size s + i) * pg_k_width s) (stored hc (kb_dtype (pg_k s)) r) (buf_bits (pg_k s))"
proof -
  from assms obtain k where k: "rows_len r = pg_k_width s" "s' = s\<lparr>pg_k := k\<rparr>"
    "kb_write_rows hc (b * k_elems_per_block s + i * pg_k_width s) r (pg_k s) = Some k"
    by (auto simp: write_k_row_def Let_def split: if_splits)
  with kb_write_rows_iff [OF k(3)] kb_write_rows_len [OF k(3)] show ?thesis
    by (intro that [of k]) (simp_all add: k_elems_per_block_def place_mult)
qed

lemma write_v_row_iff:
  assumes "write_v_row hc b i r s = Some s'"
  obtains v where "rows_len r = pg_v_width s" "s' = s\<lparr>pg_v := v\<rparr>" "kb_dtype v = kb_dtype (pg_v s)"
    "kb_len v = kb_len (pg_v s)"
    "buf_bits v = splice ((b * pg_block_size s + i) * pg_v_width s) (stored hc (kb_dtype (pg_v s)) r) (buf_bits (pg_v s))"
proof -
  from assms obtain v where v: "rows_len r = pg_v_width s" "s' = s\<lparr>pg_v := v\<rparr>"
    "kb_write_rows hc (b * v_elems_per_block s + i * pg_v_width s) r (pg_v s) = Some v"
    by (auto simp: write_v_row_def Let_def split: if_splits)
  with kb_write_rows_iff [OF v(3)] kb_write_rows_len [OF v(3)] show ?thesis
    by (intro that [of v]) (simp_all add: v_elems_per_block_def place_mult)
qed

lemma write_row_iff:
  assumes "write_row hc b i r s = Some s'"
  obtains k v where "row_fits s r" "s' = s\<lparr>pg_k := k, pg_v := v\<rparr>"
    "kb_dtype k = kb_dtype (pg_k s)" "kb_dtype v = kb_dtype (pg_v s)"
    "kb_len k = kb_len (pg_k s)" "kb_len v = kb_len (pg_v s)"
    "buf_bits k = splice ((b * pg_block_size s + i) * pg_k_width s) (stored hc (kb_dtype (pg_k s)) (fst r)) (buf_bits (pg_k s))"
    "buf_bits v = splice ((b * pg_block_size s + i) * pg_v_width s) (stored hc (kb_dtype (pg_v s)) (snd r)) (buf_bits (pg_v s))"
proof -
  from assms obtain s1 where s1: "write_k_row hc b i (fst r) s = Some s1" "write_v_row hc b i (snd r) s1 = Some s'"
    by (auto simp: write_row_def bind_eq_Some_conv)
  from s1(1) obtain k where k: "rows_len (fst r) = pg_k_width s" "s1 = s\<lparr>pg_k := k\<rparr>" "kb_dtype k = kb_dtype (pg_k s)"
    "kb_len k = kb_len (pg_k s)"
    "buf_bits k = splice ((b * pg_block_size s + i) * pg_k_width s) (stored hc (kb_dtype (pg_k s)) (fst r)) (buf_bits (pg_k s))"
    by (rule write_k_row_iff)
  from s1(2) obtain v where v: "rows_len (snd r) = pg_v_width s1" "s' = s1\<lparr>pg_v := v\<rparr>" "kb_dtype v = kb_dtype (pg_v s1)"
    "kb_len v = kb_len (pg_v s1)"
    "buf_bits v = splice ((b * pg_block_size s1 + i) * pg_v_width s1) (stored hc (kb_dtype (pg_v s1)) (snd r)) (buf_bits (pg_v s1))"
    by (rule write_v_row_iff)
  have "pg_v_width s1 = pg_v_width s" "pg_block_size s1 = pg_block_size s" "pg_v s1 = pg_v s"
    by (simp_all add: k(2) pg_v_width_def)
  with k v show ?thesis by (intro that [where k = k and v = v]) (simp_all add: row_fits_def)
qed

lemma write_row_some:
  assumes "store_ok n s" "b < n" "i < pg_block_size s" "row_fits s r"
  shows "\<exists>s'. write_row hc b i r s = Some s'"
proof -
  let ?p = "b * pg_block_size s + i"
  have "(?p + 1) * pg_k_width s \<le> kb_len (pg_k s)" "(?p + 1) * pg_v_width s \<le> kb_len (pg_v s)"
    using place_fits [OF assms(2,3)] assms(1) by (simp_all add: store_ok_def)
  with assms(4) kb_write_rows_ok [of "?p * pg_k_width s" "fst r" "pg_k s" hc]
    kb_write_rows_ok [of "?p * pg_v_width s" "snd r" "pg_v s" hc]
  obtain k v where "kb_write_rows hc (?p * pg_k_width s) (fst r) (pg_k s) = Some k"
    "kb_write_rows hc (?p * pg_v_width s) (snd r) (pg_v s) = Some v"
    by (auto simp: row_fits_def)
  with assms(4) show ?thesis
    by (simp add: write_row_def write_k_row_def write_v_row_def row_fits_def k_elems_per_block_def
        v_elems_per_block_def place_mult pg_v_width_def)
qed

interpretation rows: row_store store_ok pg_block_size row_bits_at "write_row hc" row_fits "row_kept hc" for hc
proof (unfold_locales, goal_cases)
  case (1 n s)
  then show ?case by (simp add: store_ok_def)
next
  case (2 n s b i r)
  then show ?case by (rule write_row_some)
next
  case (3 n s b i r s')
  from 3(4) show ?case
  proof (rule write_row_iff)
    fix k v assume "s' = s\<lparr>pg_k := k, pg_v := v\<rparr>" "kb_dtype k = kb_dtype (pg_k s)"
      "kb_dtype v = kb_dtype (pg_v s)" "kb_len k = kb_len (pg_k s)" "kb_len v = kb_len (pg_v s)"
    with 3(1) show ?thesis by (simp add: store_ok_def pg_k_width_def pg_v_width_def)
  qed
next
  case (4 n s b i r s' c j)
  let ?p = "b * pg_block_size s + i" and ?q = "c * pg_block_size s + j"
  have fits: "(?p + 1) * w \<le> n * pg_block_size s * w" "(?q + 1) * w \<le> n * pg_block_size s * w" for w
    using place_fits [OF 4(2,3)] place_fits [OF 4(5,6)] by blast+
  have eq: "?q = ?p \<longleftrightarrow> c = b \<and> j = i" using 4(3,6) by (rule place_inj)
  from 4(4) show ?case
  proof (rule write_row_iff)
    fix k v assume s': "row_fits s r" "s' = s\<lparr>pg_k := k, pg_v := v\<rparr>"
      "buf_bits k = splice (?p * pg_k_width s) (stored hc (kb_dtype (pg_k s)) (fst r)) (buf_bits (pg_k s))"
      "buf_bits v = splice (?p * pg_v_width s) (stored hc (kb_dtype (pg_v s)) (snd r)) (buf_bits (pg_v s))"
    have w: "pg_k_width s' = pg_k_width s" "pg_v_width s' = pg_v_width s" "pg_block_size s' = pg_block_size s"
      by (simp_all add: s'(2) pg_k_width_def pg_v_width_def)
    have "slot (pg_k_width s) ?q (buf_bits k)
        = (if ?q = ?p then stored hc (kb_dtype (pg_k s)) (fst r) else slot (pg_k_width s) ?q (buf_bits (pg_k s)))"
      unfolding s'(3) using s'(1) fits 4(1) by (intro slot_splice) (simp_all add: row_fits_def store_ok_def)
    moreover have "slot (pg_v_width s) ?q (buf_bits v)
        = (if ?q = ?p then stored hc (kb_dtype (pg_v s)) (snd r) else slot (pg_v_width s) ?q (buf_bits (pg_v s)))"
      unfolding s'(4) using s'(1) fits 4(1) by (intro slot_splice) (simp_all add: row_fits_def store_ok_def)
    moreover have "kb_dtype (pg_v s) = kb_dtype (pg_k s)" using 4(1) by (simp add: store_ok_def)
    moreover have "row_bits_at s' c j = (slot (pg_k_width s) ?q (buf_bits k), slot (pg_v_width s) ?q (buf_bits v))"
      unfolding row_bits_at_def w by (simp add: s'(2))
    ultimately show ?thesis
      unfolding eq by (simp add: row_bits_at_def row_kept_def paged_dtype_def)
  qed
qed

section \<open>Reading and copying\<close>

lemma k_row_bits:
  assumes "store_ok n s" "b < n" "i < pg_block_size s"
  obtains r where "k_row s b i = Some r" "rows_dtype r = paged_dtype s" "row_bits r = fst (row_bits_at s b i)"
proof -
  let ?w = "pg_k_width s"
  let ?start = "(b * pg_block_size s + i) * ?w"
  have "?start + ?w \<le> rows_len (kb_view (pg_k s))"
    using place_fits [OF assms(2,3), of ?w] assms(1) by (simp add: store_ok_def)
  then obtain r where r: "rows_slice ?start (?start + ?w) (kb_view (pg_k s)) = Some r"
    using rows_slice_ok [of ?start "?start + ?w" "kb_view (pg_k s)"] by auto
  with rows_slice_iff [OF r] show ?thesis
    by (intro that [of r])
      (simp_all add: k_row_def Let_def k_elems_per_block_def place_mult paged_dtype_def row_bits_at_def
        slot_def buf_bits_def)
qed

lemma v_row_bits:
  assumes "store_ok n s" "b < n" "i < pg_block_size s"
  obtains r where "v_row s b i = Some r" "rows_dtype r = paged_dtype s" "row_bits r = snd (row_bits_at s b i)"
proof -
  let ?w = "pg_v_width s"
  let ?start = "(b * pg_block_size s + i) * ?w"
  have "?start + ?w \<le> rows_len (kb_view (pg_v s))"
    using place_fits [OF assms(2,3), of ?w] assms(1) by (simp add: store_ok_def)
  then obtain r where r: "rows_slice ?start (?start + ?w) (kb_view (pg_v s)) = Some r"
    using rows_slice_ok [of ?start "?start + ?w" "kb_view (pg_v s)"] by auto
  with rows_slice_iff [OF r] assms(1) show ?thesis
    by (intro that [of r])
      (simp_all add: v_row_def Let_def v_elems_per_block_def place_mult paged_dtype_def row_bits_at_def
        slot_def buf_bits_def store_ok_def)
qed

lemma paged_new_ok:
  assumes "paged_new_split bs n heads head_dim v_head_dim = Some s"
  shows "store_ok n s \<and> pg_free s = rev [0..<n] \<and> pg_block_size s = bs \<and> paged_dtype s = F32"
  using assms length_buf_bits [of "kb_zeroed F32 k" for k]
  by (auto simp: paged_new_split_def store_ok_def pg_k_width_def pg_v_width_def paged_dtype_def
      kb_zeroed_def kb_len_def rv_filled_def kb_dtype_def split: if_splits)

end
