(* ===== verification/Paged_Cache.thy ===== *)
theory Paged_Cache
  imports Paged_Store
begin

text \<open>
  A sequence over the shared page store (\<^verbatim>\<open>cache/paged.rs\<close>, \<open>PagedKvCache\<close>): a block table and a
  length.  \<open>None\<close> is a panic.  The lemmas say what each operation does to the rows of the sequence
  and that no other sequence sees it; the claims are the refinement of a fleet of sequences over
  one store by independent histories, the copy to a contiguous cache, and the release of every
  block exactly once.
\<close>

section \<open>Operations\<close>

datatype paged_store_exhausted = PagedStoreExhausted

record 'r paged_cache =
  pc_table :: "nat list"
  pc_seq_len :: nat
  pc_recurrent :: "'r option"

definition paged_cache_new :: "'r paged_cache" where
  "paged_cache_new = \<lparr>pc_table = [], pc_seq_len = 0, pc_recurrent = None\<rparr>"

definition pc_can_truncate_to :: "nat \<Rightarrow> 'r paged_cache \<Rightarrow> bool" where
  "pc_can_truncate_to new_seq_len c \<longleftrightarrow>
     pc_recurrent c = None \<or> new_seq_len = 0 \<or> new_seq_len = pc_seq_len c"

type_synonym 'r pc_result = "(paged_store_exhausted, 'r paged_cache \<times> paged_store) result option"

definition pc_push_rows ::
  "half_crate \<Rightarrow> kv_rows \<Rightarrow> kv_rows \<Rightarrow> paged_store \<Rightarrow> 'r paged_cache \<Rightarrow> 'r pc_result" where
  "pc_push_rows hc k_step v_step store c =
     (let block_size = pg_block_size store;
          offset = pc_seq_len c mod block_size;
          index = pc_seq_len c div block_size in
      bind_run
        (if length (pc_table c) \<le> index then
           (case acquire_block store of
              None \<Rightarrow> Some (Inl PagedStoreExhausted)
            | Some (i, store) \<Rightarrow> Some (Inr (c\<lparr>pc_table := pc_table c @ [i]\<rparr>, store)))
         else Some (Inr (c, store)))
        (\<lambda>(c, store).
           if index < length (pc_table c) then
             map_option (\<lambda>store. Inr (c\<lparr>pc_seq_len := pc_seq_len c + 1\<rparr>, store))
               (write_row hc (pc_table c ! index) offset (k_step, v_step) store)
           else None))"

definition pc_push ::
  "half_crate \<Rightarrow> u32 list \<Rightarrow> u32 list \<Rightarrow> paged_store \<Rightarrow> 'r paged_cache \<Rightarrow> 'r pc_result" where
  "pc_push hc k_step v_step store c = pc_push_rows hc (RowsF32 k_step) (RowsF32 v_step) store c"

definition pc_append_block :: "nat \<Rightarrow> 'r paged_cache \<Rightarrow> 'r paged_cache" where
  "pc_append_block block_id c = c\<lparr>pc_table := pc_table c @ [block_id]\<rparr>"

definition pc_retable :: "nat list \<Rightarrow> 'r paged_cache \<Rightarrow> 'r paged_cache option" where
  "pc_retable table c =
     (if length (pc_table c) \<le> length table then Some (c\<lparr>pc_table := table\<rparr>) else None)"

fun release_distinct :: "nat list \<Rightarrow> nat list \<Rightarrow> paged_store \<Rightarrow> paged_store" where
  "release_distinct seen [] store = store"
| "release_distinct seen (i # ids) store =
     (if i \<in> set seen then release_distinct seen ids store
      else release_distinct (seen @ [i]) ids (release_block i store))"

definition pc_release :: "paged_store \<Rightarrow> 'r paged_cache \<Rightarrow> 'r paged_cache \<times> paged_store" where
  "pc_release store c =
     (c\<lparr>pc_table := [], pc_seq_len := 0, pc_recurrent := None\<rparr>, release_distinct [] (pc_table c) store)"

definition pc_blocks_needed_for :: "paged_store \<Rightarrow> nat \<Rightarrow> 'r paged_cache \<Rightarrow> nat" where
  "pc_blocks_needed_for store n_new c =
     (let held_capacity = length (pc_table c) * pg_block_size store;
          unused = held_capacity - pc_seq_len c in
      div_ceil (n_new - unused) (pg_block_size store))"

definition pc_reserve :: "paged_store \<Rightarrow> nat \<Rightarrow> 'r paged_cache \<Rightarrow> 'r pc_result" where
  "pc_reserve store n_new c =
     (let need = pc_blocks_needed_for store n_new c in
      if free_block_count store < need then Some (Inl PagedStoreExhausted)
      else map_option (\<lambda>(ids, store). Inr (c\<lparr>pc_table := pc_table c @ ids\<rparr>, store))
             (take_blocks acquire_block need store))"

definition pc_adopt_blocks :: "nat list \<Rightarrow> nat \<Rightarrow> nat \<Rightarrow> 'r paged_cache \<Rightarrow> 'r paged_cache option" where
  "pc_adopt_blocks table seq_len block_size c =
     (if block_size \<noteq> 0 \<and> seq_len mod block_size = 0 \<and> seq_len div block_size \<le> length table
      then Some (c\<lparr>pc_table := table, pc_seq_len := seq_len\<rparr>) else None)"

fun pc_gather ::
  "half_crate \<Rightarrow> paged_store \<Rightarrow> nat list \<Rightarrow> nat list \<Rightarrow> 'r kv_cache \<Rightarrow> 'r kv_cache option" where
  "pc_gather hc store table [] cache = Some cache"
| "pc_gather hc store table (pos # ps) cache =
     (if pos div pg_block_size store < length table then
        let block_id = table ! (pos div pg_block_size store); offset = pos mod pg_block_size store in
        (case (k_row store block_id offset, v_row store block_id offset) of
           (Some k, Some v) \<Rightarrow>
             pc_gather hc store table ps
               (cache\<lparr>kc_k := kb_extend_rows hc k (kc_k cache), kc_v := kb_extend_rows hc v (kc_v cache)\<rparr>)
         | _ \<Rightarrow> None)
      else None)"

definition pc_to_contiguous :: "half_crate \<Rightarrow> paged_store \<Rightarrow> 'r paged_cache \<Rightarrow> 'r kv_cache option" where
  "pc_to_contiguous hc store c =
     Option.bind
       (kc_with_dtype (paged_dtype store)
          (kc_with_capacity_split (pg_n_kv_heads store) (pg_head_dim store) (pg_v_head_dim store) (pc_seq_len c)))
       (\<lambda>cache. let cache = cache\<lparr>kc_k := kb_reserve_exact (pc_seq_len c * pg_k_width store) (kc_k cache),
                                    kc_v := kb_reserve_exact (pc_seq_len c * pg_v_width store) (kc_v cache)\<rparr> in
          Option.bind (pc_gather hc store (pc_table c) [0..<pc_seq_len c] cache)
            (\<lambda>cache. map_option (\<lambda>cache. cache\<lparr>kc_recurrent := pc_recurrent c\<rparr>)
               (kc_forbid_eviction (kc_set_positions (pc_seq_len c) cache))))"

fun pc_append_rows ::
  "half_crate \<Rightarrow> kv_rows \<Rightarrow> kv_rows \<Rightarrow> nat list \<Rightarrow> paged_store \<Rightarrow> 'r paged_cache
    \<Rightarrow> ('r paged_cache \<times> paged_store) option" where
  "pc_append_rows hc k v [] store c = Some (c, store)"
| "pc_append_rows hc k v (i # is) store c =
     (let k_width = pg_k_width store; v_width = pg_v_width store in
      case (rows_slice (i * k_width) ((i + 1) * k_width) k, rows_slice (i * v_width) ((i + 1) * v_width) v) of
        (Some k_step, Some v_step) \<Rightarrow>
          (case pc_push_rows hc k_step v_step store c of
             Some (Inr (c, store)) \<Rightarrow> pc_append_rows hc k v is store c
           | _ \<Rightarrow> None)
      | _ \<Rightarrow> None)"

definition pc_append_contiguous ::
  "half_crate \<Rightarrow> kv_rows \<Rightarrow> kv_rows \<Rightarrow> nat \<Rightarrow> paged_store \<Rightarrow> 'r paged_cache \<Rightarrow> 'r pc_result" where
  "pc_append_contiguous hc k v n_rows store c =
     (if rows_len k \<noteq> n_rows * pg_k_width store \<or> rows_len v \<noteq> n_rows * pg_v_width store then None
      else if free_block_count store < pc_blocks_needed_for store n_rows c then Some (Inl PagedStoreExhausted)
      else map_option Inr (pc_append_rows hc k v [0..<n_rows] store c))"

section \<open>Blocks needed\<close>

lemma div_ceil_eq: "0 < b \<Longrightarrow> div_ceil a b = (a + b - 1) div b"
proof -
  assume b: "0 < b"
  show ?thesis
  proof (cases "a mod b = 0")
    case True
    then obtain q where a: "a = b * q" by (auto simp: mod_eq_0_iff_dvd)
    then have "(a + b - 1) div b = q" using b by (intro div_nat_eqI) simp_all
    then show ?thesis using b a by (simp add: div_ceil_def)
  next
    case False
    define q r where "q = a div b" and "r = a mod b"
    then have "a = b * q + r" "0 < r" "r < b" using False b by simp_all
    then have "(a + b - 1) div b = Suc q" by (intro div_nat_eqI) (simp_all add: algebra_simps)
    then show ?thesis using False b by (simp add: div_ceil_def q_def)
  qed
qed

lemma div_ceil_le_iff: "0 < b \<Longrightarrow> div_ceil a b \<le> n \<longleftrightarrow> a \<le> n * b"
proof -
  assume b: "0 < b"
  have "div_ceil a b \<le> n \<longleftrightarrow> (a + b - 1) div b < n + 1" using b by (simp only: div_ceil_eq) linarith
  also have "\<dots> \<longleftrightarrow> a + b - 1 < (n + 1) * b" using b by (simp only: div_less_iff_less_mult)
  also have "\<dots> \<longleftrightarrow> a \<le> n * b" using b by auto
  finally show ?thesis .
qed

text \<open>The blocks needed are the least number whose capacity suffices.\<close>

lemma needed_le_iff:
  assumes "0 < pg_block_size s" "pc_seq_len c \<le> length (pc_table c) * pg_block_size s"
  shows "pc_blocks_needed_for s m c \<le> n \<longleftrightarrow>
    pc_seq_len c + m \<le> (length (pc_table c) + n) * pg_block_size s"
  using assms by (auto simp: pc_blocks_needed_for_def Let_def div_ceil_le_iff algebra_simps)

section \<open>One sequence\<close>

definition store_shape :: "paged_store \<Rightarrow> nat \<times> nat \<times> nat \<times> nat \<times> kv_dtype" where
  "store_shape s = (pg_block_size s, pg_n_kv_heads s, pg_head_dim s, pg_v_head_dim s, paged_dtype s)"

lemma store_shape_eq:
  assumes "store_shape s' = store_shape s"
  shows "pg_block_size s' = pg_block_size s" "pg_k_width s' = pg_k_width s" "pg_v_width s' = pg_v_width s"
    "paged_dtype s' = paged_dtype s" "row_fits s' = row_fits s" "row_kept hc s' = row_kept hc s"
  using assms by (auto simp: store_shape_def pg_k_width_def pg_v_width_def row_fits_def row_kept_def fun_eq_iff)

definition seq_rows :: "paged_store \<Rightarrow> 'r paged_cache \<Rightarrow> history" where
  "seq_rows s c = table_rows (row_bits_at s) (pg_block_size s) (pc_table c) (pc_seq_len c)"

text \<open>A sequence that owns the blocks of its table, in a store of \<open>n\<close> blocks.\<close>

definition seq_ok :: "nat \<Rightarrow> paged_store \<Rightarrow> 'r paged_cache \<Rightarrow> bool" where
  "seq_ok n s c \<longleftrightarrow>
     store_ok n s \<and> distinct (pg_free s @ pc_table c) \<and> set (pg_free s @ pc_table c) \<subseteq> {..<n}
     \<and> pc_seq_len c \<le> length (pc_table c) * pg_block_size s"

text \<open>What an operation on a sequence leaves alone: the shape of the store, the blocks the store
  and the sequence have between them, and the rows of every table that reads none of those.\<close>

definition others_same :: "nat \<Rightarrow> paged_store \<times> 'r paged_cache \<Rightarrow> paged_store \<times> 'r paged_cache \<Rightarrow> bool" where
  "others_same n = (\<lambda>(s, c) (s', c').
     store_shape s' = store_shape s
     \<and> mset (pg_free s' @ pc_table c') = mset (pg_free s @ pc_table c)
     \<and> (\<forall>table len. used_blocks (pg_block_size s) table len \<subseteq> {..<n} - set (pg_free s @ pc_table c) \<longrightarrow>
          table_rows (row_bits_at s') (pg_block_size s) table len = table_rows (row_bits_at s) (pg_block_size s) table len))"

lemma others_same_refl: "others_same n (s, c) (s, c)"
  by (simp add: others_same_def)

lemma others_same_trans:
  assumes "others_same n (s, c) (s1, c1)" "others_same n (s1, c1) (s2, c2)"
  shows "others_same n (s, c) (s2, c2)"
proof -
  have "mset (pg_free s1 @ pc_table c1) = mset (pg_free s @ pc_table c)"
    using assms(1) by (simp add: others_same_def)
  then have "set (pg_free s1 @ pc_table c1) = set (pg_free s @ pc_table c)" by (rule mset_eq_setD)
  moreover have "pg_block_size s1 = pg_block_size s"
    using assms(1) by (simp add: others_same_def store_shape_def)
  ultimately show ?thesis using assms by (simp add: others_same_def)
qed

lemma write_row_shape:
  assumes "write_row hc b i r s = Some s'" "store_ok n s"
  shows "store_shape s' = store_shape s \<and> pg_free s' = pg_free s"
  using assms(1)
  by (rule write_row_iff) (simp add: store_shape_def paged_dtype_def)

lemma push_room:
  assumes "seq_ok n s c" "row_fits s (k, v)" "pc_seq_len c < length (pc_table c) * pg_block_size s"
  obtains c' s' where "pc_push_rows hc k v s c = Some (Inr (c', s'))" "seq_ok n s' c'"
    "seq_rows s' c' = seq_rows s c @ [row_kept hc s (k, v)]" "others_same n (s, c) (s', c')"
    "pc_seq_len c' = Suc (pc_seq_len c)" "pc_table c' = pc_table c" "pc_recurrent c' = pc_recurrent c"
proof -
  let ?bs = "pg_block_size s"
  have pos: "0 < ?bs" and ok: "store_ok n s" and table: "distinct (pc_table c)" "set (pc_table c) \<subseteq> {..<n}"
    using assms(1) by (simp_all add: seq_ok_def store_ok_def)
  have index: "pc_seq_len c div ?bs < length (pc_table c)"
    using assms(3) pos by (simp add: div_less_iff_less_mult)
  define b where "b = pc_table c ! (pc_seq_len c div ?bs)"
  have b: "b \<in> set (pc_table c)" using index by (simp add: b_def)
  then have bn: "b < n" using table by auto
  have off: "pc_seq_len c mod ?bs < ?bs" using pos by simp
  obtain s' where s': "write_row hc b (pc_seq_len c mod ?bs) (k, v) s = Some s'"
    using rows.put_some [OF ok bn off assms(2)] by blast
  define c' where "c' = c\<lparr>pc_seq_len := pc_seq_len c + 1\<rparr>"
  have c': "pc_seq_len c' = Suc (pc_seq_len c)" "pc_table c' = pc_table c" "pc_recurrent c' = pc_recurrent c"
    by (simp_all add: c'_def)
  have shape: "store_shape s' = store_shape s" "pg_free s' = pg_free s"
    using write_row_shape [OF s' ok] by simp_all
  note eqs = store_shape_eq [OF shape(1)]
  have ok': "store_ok n s'" using rows.put_ok [OF ok bn off s'] by simp
  show ?thesis
  proof (rule that)
    show "pc_push_rows hc k v s c = Some (Inr (c', s'))"
      using index s' by (simp add: pc_push_rows_def Let_def bind_run_def c'_def b_def)
    show "seq_ok n s' c'" using assms(1,3) ok' by (simp add: seq_ok_def c' shape eqs)
    show "seq_rows s' c' = seq_rows s c @ [row_kept hc s (k, v)]"
      using rows.rows_put_end [OF ok s' b_def [symmetric] table(1) index table(2)]
      by (simp add: seq_rows_def c' eqs)
    show "others_same n (s, c) (s', c')"
      using rows.rows_put_other [OF ok bn off s'] b
      by (auto simp: others_same_def c' shape)
  qed (simp_all add: c')
qed

lemma acquire_keeps:
  assumes "acquire_block s = Some (i, s1)"
  shows "store_shape s1 = store_shape s" "row_bits_at s1 = row_bits_at s" "store_ok n s1 = store_ok n s"
    "mset (pg_free s) = add_mset i (mset (pg_free s1))"
  using assms blocks.acquire_Some [OF assms]
  by (auto simp: acquire_block_def store_shape_def paged_dtype_def row_bits_at_def fun_eq_iff
      pg_k_width_def pg_v_width_def store_ok_def split: if_splits)

text \<open>Taking a block into the table.\<close>

lemma grow_table:
  assumes "seq_ok n s c" "acquire_block s = Some (i, s1)"
  defines "c1 \<equiv> c\<lparr>pc_table := pc_table c @ [i]\<rparr>"
  shows "seq_ok n s1 c1" "others_same n (s, c) (s1, c1)" "seq_rows s1 c1 = seq_rows s c"
proof -
  note keeps = acquire_keeps [OF assms(2)] and eqs = store_shape_eq [OF acquire_keeps(1) [OF assms(2)]]
  have ms: "mset (pg_free s1 @ pc_table c1) = mset (pg_free s @ pc_table c)"
    by (simp add: c1_def keeps(4))
  then have "distinct (pg_free s1 @ pc_table c1) \<and> set (pg_free s1 @ pc_table c1) \<subseteq> {..<n}"
    using assms(1) unfolding seq_ok_def by (metis mset_eq_setD mset_eq_imp_distinct_iff)
  with assms(1) show "seq_ok n s1 c1"
    by (simp add: seq_ok_def keeps(3) [of n] eqs) (simp add: c1_def)
  show "others_same n (s, c) (s1, c1)"
    using ms by (simp add: others_same_def keeps(1,2))
  have "0 < pg_block_size s" using assms(1) by (simp add: seq_ok_def store_ok_def)
  then have "p div pg_block_size s < length (pc_table c)" if "p < pc_seq_len c" for p
    using assms(1) that by (simp add: seq_ok_def div_less_iff_less_mult)
  then show "seq_rows s1 c1 = seq_rows s c"
    by (simp add: seq_rows_def table_rows_def keeps(2) eqs c1_def nth_append)
qed

lemma push_full:
  assumes "seq_ok n s c" "row_fits s (k, v)" "pc_seq_len c = length (pc_table c) * pg_block_size s"
    "acquire_block s = Some (i, s1)"
  shows "pc_push_rows hc k v s c = pc_push_rows hc k v s1 (c\<lparr>pc_table := pc_table c @ [i]\<rparr>)"
proof -
  have "0 < pg_block_size s" using assms(1) by (simp add: seq_ok_def store_ok_def)
  then have "pc_seq_len c div pg_block_size s = length (pc_table c)" using assms(3) by simp
  then show ?thesis
    using assms(4) store_shape_eq(1) [OF acquire_keeps(1) [OF assms(4)]]
    by (simp add: pc_push_rows_def Let_def bind_run_def)
qed

text \<open>A push with a block to spare succeeds, appends its row, and is seen by no other table.\<close>

lemma push_done:
  assumes "seq_ok n s c" "row_fits s (k, v)" "pc_blocks_needed_for s (Suc m) c \<le> free_block_count s"
  obtains c' s' where "pc_push_rows hc k v s c = Some (Inr (c', s'))" "seq_ok n s' c'"
    "seq_rows s' c' = seq_rows s c @ [row_kept hc s (k, v)]" "others_same n (s, c) (s', c')"
    "pc_blocks_needed_for s' m c' \<le> free_block_count s'" "pc_recurrent c' = pc_recurrent c"
proof -
  note result = that
  have pos: "0 < pg_block_size s" and le: "pc_seq_len c \<le> length (pc_table c) * pg_block_size s"
    using assms(1) by (simp_all add: seq_ok_def store_ok_def)
  have need: "pc_seq_len c + Suc m \<le> (length (pc_table c) + length (pg_free s)) * pg_block_size s"
    using assms(3) unfolding free_block_count_def needed_le_iff [OF pos le] .
  have step: thesis
    if ok1: "seq_ok n s1 c1" and room: "pc_seq_len c1 < length (pc_table c1) * pg_block_size s1"
      and same: "others_same n (s, c) (s1, c1)" and rows1: "seq_rows s1 c1 = seq_rows s c"
      and push: "pc_push_rows hc k v s c = pc_push_rows hc k v s1 c1"
      and len: "pc_seq_len c1 = pc_seq_len c" and rec: "pc_recurrent c1 = pc_recurrent c" for s1 c1
  proof -
    have shape: "store_shape s1 = store_shape s" and ms: "mset (pg_free s1 @ pc_table c1) = mset (pg_free s @ pc_table c)"
      using same by (simp_all add: others_same_def)
    note eqs = store_shape_eq [OF shape]
    have "row_fits s1 (k, v)" using assms(2) by (simp add: eqs)
    from ok1 this room obtain c' s' where r: "pc_push_rows hc k v s1 c1 = Some (Inr (c', s'))" "seq_ok n s' c'"
      "seq_rows s' c' = seq_rows s1 c1 @ [row_kept hc s1 (k, v)]" "others_same n (s1, c1) (s', c')"
      "pc_seq_len c' = Suc (pc_seq_len c1)" "pc_table c' = pc_table c1" "pc_recurrent c' = pc_recurrent c1"
      by (rule push_room)
    have same': "others_same n (s, c) (s', c')" using same r(4) by (rule others_same_trans)
    then have "size (mset (pg_free s' @ pc_table c')) = size (mset (pg_free s @ pc_table c))"
      and bs: "pg_block_size s' = pg_block_size s"
      by (simp_all add: others_same_def store_shape_def)
    then have total: "length (pc_table c') + length (pg_free s') = length (pc_table c) + length (pg_free s)" by simp
    have "pc_seq_len c' \<le> length (pc_table c') * pg_block_size s'" using r(2) by (simp add: seq_ok_def)
    from needed_le_iff [OF _ this, of m] need pos
    have "pc_blocks_needed_for s' m c' \<le> free_block_count s'"
      by (simp add: bs free_block_count_def r(5) len total)
    then show thesis
      using r push same' by (intro result [of c' s']) (simp_all add: rows1 eqs rec)
  qed
  show thesis
  proof (cases "pc_seq_len c < length (pc_table c) * pg_block_size s")
    case True
    with assms(1) show thesis by (intro step [of s c]) (simp_all add: others_same_refl)
  next
    case False
    with le have full: "pc_seq_len c = length (pc_table c) * pg_block_size s" by simp
    with need have "pg_free s \<noteq> []" by auto
    then obtain i s1 where a: "acquire_block s = Some (i, s1)" by (auto simp: acquire_block_def)
    note grow = grow_table [OF assms(1) a]
    have "pg_block_size s1 = pg_block_size s" by (rule store_shape_eq(1) [OF acquire_keeps(1) [OF a]])
    with full pos grow push_full [OF assms(1,2) full a] show thesis
      by (intro step [of s1 "c\<lparr>pc_table := pc_table c @ [i]\<rparr>"]) simp_all
  qed
qed

lemma push_exhausted:
  assumes "seq_ok n s c" "free_block_count s < pc_blocks_needed_for s 1 c"
  shows "pc_push_rows hc k v s c = Some (Inl PagedStoreExhausted)"
proof -
  have pos: "0 < pg_block_size s" and le: "pc_seq_len c \<le> length (pc_table c) * pg_block_size s"
    using assms(1) by (simp_all add: seq_ok_def store_ok_def)
  have "\<not> pc_seq_len c + 1 \<le> (length (pc_table c) + free_block_count s) * pg_block_size s"
    using assms(2) needed_le_iff [OF pos le, of 1 "free_block_count s"] by simp
  moreover from this have "free_block_count s = 0"
    using pos le by (cases "free_block_count s") (auto simp: algebra_simps)
  ultimately have "pc_seq_len c = length (pc_table c) * pg_block_size s" "pg_free s = []"
    using le by (simp_all add: free_block_count_def)
  with pos show ?thesis by (simp add: pc_push_rows_def Let_def acquire_block_def bind_run_def)
qed


text \<open>Rows of a contiguous run.\<close>

definition kept_at :: "half_crate \<Rightarrow> paged_store \<Rightarrow> kv_rows \<Rightarrow> kv_rows \<Rightarrow> nat \<Rightarrow> u32 list \<times> u32 list" where
  "kept_at hc s k v i =
     (slot (pg_k_width s) i (stored hc (paged_dtype s) k), slot (pg_v_width s) i (stored hc (paged_dtype s) v))"

lemma kept_at_shape: "store_shape s' = store_shape s \<Longrightarrow> kept_at hc s' = kept_at hc s"
proof -
  assume "store_shape s' = store_shape s"
  note eqs = store_shape_eq [OF this]
  show ?thesis by (simp add: kept_at_def fun_eq_iff eqs)
qed

lemma run_slice:
  assumes "rows_len r = m * w" "i < m"
  obtains r' where "rows_slice (i * w) ((i + 1) * w) r = Some r'" "rows_len r' = w"
    "stored hc dt r' = slot w i (stored hc dt r)"
proof -
  have le: "(i + 1) * w \<le> m * w" using assms(2) by (intro mult_le_mono1) simp
  then obtain r' where r': "rows_slice (i * w) ((i + 1) * w) r = Some r'"
    using rows_slice_ok [of "i * w" "(i + 1) * w" r] assms(1) by auto
  have st: "stored hc dt r' = slot w i (stored hc dt r)" for dt
    using stored_slice [OF r'] by (simp add: slot_def)
  from arg_cong [OF st, of length] have "rows_len r' = w"
    using le assms(1) by (simp add: slot_def)
  from r' this st show ?thesis by (rule that)
qed

lemma append_rows_done:
  assumes "seq_ok n s c" "rows_len k = m * pg_k_width s" "rows_len v = m * pg_v_width s" "set is \<subseteq> {..<m}"
    "pc_blocks_needed_for s (length is) c \<le> free_block_count s"
  shows "\<exists>c' s'. pc_append_rows hc k v is s c = Some (c', s') \<and> seq_ok n s' c' \<and> others_same n (s, c) (s', c')
    \<and> seq_rows s' c' = seq_rows s c @ map (kept_at hc s k v) is \<and> pc_recurrent c' = pc_recurrent c"
  using assms
proof (induction "is" arbitrary: s c)
  case Nil
  then show ?case by (simp add: others_same_refl)
next
  case (Cons i "is")
  obtain k1 where k1: "rows_slice (i * pg_k_width s) ((i + 1) * pg_k_width s) k = Some k1"
    "rows_len k1 = pg_k_width s" "stored hc (paged_dtype s) k1 = slot (pg_k_width s) i (stored hc (paged_dtype s) k)"
    using Cons.prems(2,4) by (elim run_slice [where i = i]) auto
  obtain v1 where v1: "rows_slice (i * pg_v_width s) ((i + 1) * pg_v_width s) v = Some v1"
    "rows_len v1 = pg_v_width s" "stored hc (paged_dtype s) v1 = slot (pg_v_width s) i (stored hc (paged_dtype s) v)"
    using Cons.prems(3,4) by (elim run_slice [where i = i]) auto
  have fits: "row_fits s (k1, v1)" and kept: "row_kept hc s (k1, v1) = kept_at hc s k v i"
    using k1 v1 by (simp_all add: row_fits_def row_kept_def kept_at_def)
  have room: "pc_blocks_needed_for s (Suc (length is)) c \<le> free_block_count s" using Cons.prems(5) by simp
  from Cons.prems(1) fits room
  obtain c1 s1 where p: "pc_push_rows hc k1 v1 s c = Some (Inr (c1, s1))" "seq_ok n s1 c1"
    "seq_rows s1 c1 = seq_rows s c @ [row_kept hc s (k1, v1)]" "others_same n (s, c) (s1, c1)"
    "pc_blocks_needed_for s1 (length is) c1 \<le> free_block_count s1" "pc_recurrent c1 = pc_recurrent c"
    by (rule push_done)
  have shape: "store_shape s1 = store_shape s" using p(4) by (simp add: others_same_def)
  obtain c' s' where r: "pc_append_rows hc k v is s1 c1 = Some (c', s')" "seq_ok n s' c'"
    "others_same n (s1, c1) (s', c')" "seq_rows s' c' = seq_rows s1 c1 @ map (kept_at hc s1 k v) is"
    "pc_recurrent c' = pc_recurrent c1"
    using Cons.IH [OF p(2) _ _ _ p(5)] Cons.prems(2-4) by (auto simp: store_shape_eq [OF shape])
  have "others_same n (s, c) (s', c')" using p(4) r(3) by (rule others_same_trans)
  moreover have "pc_append_rows hc k v (i # is) s c = Some (c', s')"
    using r(1) by (simp add: Let_def k1(1) [simplified] v1(1) [simplified] p(1))
  moreover have "seq_rows s' c' = seq_rows s c @ map (kept_at hc s k v) (i # is)"
    by (simp add: r(4) p(3) kept kept_at_shape [OF shape])
  ultimately show ?case using r(2,5) p(6) by metis
qed

text \<open>The whole of an append, both ways it can end.\<close>

lemma append_contiguous_ok:
  assumes "seq_ok n s c" "rows_len k = m * pg_k_width s" "rows_len v = m * pg_v_width s"
  shows "if pc_blocks_needed_for s m c \<le> free_block_count s
    then \<exists>c' s'. pc_append_contiguous hc k v m s c = Some (Inr (c', s')) \<and> seq_ok n s' c'
      \<and> others_same n (s, c) (s', c') \<and> seq_rows s' c' = seq_rows s c @ map (kept_at hc s k v) [0..<m]
      \<and> pc_recurrent c' = pc_recurrent c
    else pc_append_contiguous hc k v m s c = Some (Inl PagedStoreExhausted)"
proof (cases "pc_blocks_needed_for s m c \<le> free_block_count s")
  case True
  then have room: "pc_blocks_needed_for s (length [0..<m]) c \<le> free_block_count s" by simp
  have "set [0..<m] \<subseteq> {..<m}" by auto
  from append_rows_done [OF assms this room, of hc] True assms(2,3)
  show ?thesis by (auto simp: pc_append_contiguous_def)
qed (use assms(2,3) in \<open>simp add: pc_append_contiguous_def\<close>)

lemma push_rows_ok:
  assumes "seq_ok n s c" "row_fits s (k, v)"
  shows "if pc_blocks_needed_for s 1 c \<le> free_block_count s
    then \<exists>c' s'. pc_push_rows hc k v s c = Some (Inr (c', s')) \<and> seq_ok n s' c'
      \<and> others_same n (s, c) (s', c') \<and> seq_rows s' c' = seq_rows s c @ [row_kept hc s (k, v)]
      \<and> pc_recurrent c' = pc_recurrent c
    else pc_push_rows hc k v s c = Some (Inl PagedStoreExhausted)"
proof (cases "pc_blocks_needed_for s 1 c \<le> free_block_count s")
  case True
  then have "pc_blocks_needed_for s (Suc 0) c \<le> free_block_count s" by simp
  with assms show ?thesis by (rule push_done) (use True in auto)
qed (use assms(1) in \<open>simp add: push_exhausted\<close>)

text \<open>Blocks taken in advance.\<close>

lemma take_into_table:
  assumes "seq_ok n s c" "take_blocks acquire_block m s = Some (ids, s')"
  shows "seq_ok n s' (c\<lparr>pc_table := pc_table c @ ids\<rparr>) \<and> others_same n (s, c) (s', c\<lparr>pc_table := pc_table c @ ids\<rparr>)
    \<and> seq_rows s' (c\<lparr>pc_table := pc_table c @ ids\<rparr>) = seq_rows s c"
  using assms
proof (induction m arbitrary: s c ids)
  case 0
  then show ?case by (simp add: others_same_refl)
next
  case (Suc m)
  then obtain i s1 rest where a: "acquire_block s = Some (i, s1)" and ids: "ids = i # rest"
    and t: "take_blocks acquire_block m s1 = Some (rest, s')"
    by (auto split: option.splits)
  define c1 where "c1 = c\<lparr>pc_table := pc_table c @ [i]\<rparr>"
  have g: "seq_ok n s1 c1" "others_same n (s, c) (s1, c1)" "seq_rows s1 c1 = seq_rows s c"
    unfolding c1_def by (rule grow_table [OF Suc.prems(1) a])+
  have "c1\<lparr>pc_table := pc_table c1 @ rest\<rparr> = c\<lparr>pc_table := pc_table c @ ids\<rparr>"
    by (simp add: c1_def ids)
  with Suc.IH [OF g(1) t] g(3) others_same_trans [OF g(2)] show ?case by simp
qed

lemma reserve_ok:
  assumes "seq_ok n s c"
  shows "if pc_blocks_needed_for s m c \<le> free_block_count s
    then \<exists>c' s'. pc_reserve s m c = Some (Inr (c', s')) \<and> seq_ok n s' c'
      \<and> others_same n (s, c) (s', c') \<and> seq_rows s' c' = seq_rows s c
      \<and> pc_seq_len c + m \<le> length (pc_table c') * pg_block_size s'
      \<and> pc_recurrent c' = pc_recurrent c \<and> pc_seq_len c' = pc_seq_len c
    else pc_reserve s m c = Some (Inl PagedStoreExhausted)"
proof (cases "pc_blocks_needed_for s m c \<le> free_block_count s")
  case True
  let ?need = "pc_blocks_needed_for s m c"
  from True have "?need \<le> size (mset (pg_free s))" by (simp add: free_block_count_def)
  then obtain ids s' where t: "take_blocks acquire_block ?need s = Some (ids, s')"
    using blocks.take_blocks_enough by blast
  then have len: "length ids = ?need" using blocks.take_blocks_free by blast
  note took = take_into_table [OF assms t]
  have "pg_block_size s' = pg_block_size s" using took by (simp add: others_same_def store_shape_def)
  moreover have "pc_seq_len c + m \<le> (length (pc_table c) + ?need) * pg_block_size s"
    using assms needed_le_iff [of s c m ?need] by (simp add: seq_ok_def store_ok_def)
  ultimately show ?thesis
    using True t took len by (simp add: pc_reserve_def Let_def)
qed (simp add: pc_reserve_def Let_def)

text \<open>Giving the blocks back, each once.\<close>

lemma release_distinct_keeps:
  "store_shape (release_distinct seen ids s) = store_shape s
   \<and> row_bits_at (release_distinct seen ids s) = row_bits_at s
   \<and> store_ok n (release_distinct seen ids s) = store_ok n s"
  by (induction seen ids s rule: release_distinct.induct)
    (auto simp: release_block_def store_shape_def paged_dtype_def row_bits_at_def fun_eq_iff pg_k_width_def
      pg_v_width_def store_ok_def)

lemma release_distinct_free:
  "mset (pg_free (release_distinct seen ids s)) = mset (pg_free s) + mset_set (set ids - set seen)"
proof (induction seen ids s rule: release_distinct.induct)
  case (2 seen i ids s)
  show ?case
  proof (cases "i \<in> set seen")
    case True
    then have "insert i (set ids) - set seen = set ids - set seen" by auto
    then show ?thesis using 2(1) [OF True] True by simp
  next
    case False
    then have "set (i # ids) - set seen = insert i (set ids - set (seen @ [i]))" by auto
    then show ?thesis using 2(2) [OF False] False by (simp add: release_block_def)
  qed
qed simp

lemma release_ok:
  assumes "seq_ok n s c" "pc_release s c = (c', s')"
  shows "seq_ok n s' c'" "others_same n (s, c) (s', c')" "seq_rows s' c' = []"
proof -
  have s': "s' = release_distinct [] (pc_table c) s" and c': "pc_table c' = []" "pc_seq_len c' = 0"
    using assms(2) by (auto simp: pc_release_def)
  have "distinct (pc_table c)" using assms(1) by (simp add: seq_ok_def)
  then have ms: "mset (pg_free s') = mset (pg_free s) + mset (pc_table c)"
    by (simp add: s' release_distinct_free mset_set_set)
  then have "mset (pg_free s') = mset (pg_free s @ pc_table c)" by simp
  then have "distinct (pg_free s')" "set (pg_free s') \<subseteq> {..<n}"
    using assms(1) unfolding seq_ok_def by (metis mset_eq_imp_distinct_iff, metis mset_eq_setD)
  with assms(1) release_distinct_keeps [of "[]" "pc_table c" s n] show "seq_ok n s' c'"
    by (simp add: seq_ok_def c' s' [symmetric])
  show "others_same n (s, c) (s', c')"
    using ms release_distinct_keeps [of "[]" "pc_table c" s] by (simp add: others_same_def s' [symmetric] c')
  show "seq_rows s' c' = []" by (simp add: seq_rows_def table_rows_def c')
qed


section \<open>The copy to a contiguous cache\<close>

lemma gather_ok:
  assumes "store_ok n s" "set table \<subseteq> {..<n}" "\<And>p. p \<in> set ps \<Longrightarrow> p div pg_block_size s < length table"
    "kb_dtype (kc_k c) = paged_dtype s" "kb_dtype (kc_v c) = paged_dtype s"
  shows "\<exists>k v. pc_gather hc s table ps c = Some (c\<lparr>kc_k := k, kc_v := v\<rparr>)
    \<and> kb_dtype k = paged_dtype s \<and> kb_dtype v = paged_dtype s
    \<and> buf_bits k = buf_bits (kc_k c)
        @ concat (map (\<lambda>p. fst (row_bits_at s (table ! (p div pg_block_size s)) (p mod pg_block_size s))) ps)
    \<and> buf_bits v = buf_bits (kc_v c)
        @ concat (map (\<lambda>p. snd (row_bits_at s (table ! (p div pg_block_size s)) (p mod pg_block_size s))) ps)"
  using assms(3-5)
proof (induction ps arbitrary: c)
  case Nil
  then show ?case by (intro exI [of _ "kc_k c"] exI [of _ "kc_v c"]) simp
next
  case (Cons p ps)
  let ?b = "table ! (p div pg_block_size s)" and ?o = "p mod pg_block_size s"
  have i: "p div pg_block_size s < length table" using Cons.prems(1) by simp
  then have b: "?b < n" using assms(2) nth_mem by blast
  have o: "?o < pg_block_size s" using assms(1) by (simp add: store_ok_def)
  obtain rk where rk: "k_row s ?b ?o = Some rk" "rows_dtype rk = paged_dtype s" "row_bits rk = fst (row_bits_at s ?b ?o)"
    using k_row_bits [OF assms(1) b o] by blast
  obtain rv where rv: "v_row s ?b ?o = Some rv" "rows_dtype rv = paged_dtype s" "row_bits rv = snd (row_bits_at s ?b ?o)"
    using v_row_bits [OF assms(1) b o] by blast
  define c1 where "c1 = c\<lparr>kc_k := kb_extend_rows hc rk (kc_k c), kc_v := kb_extend_rows hc rv (kc_v c)\<rparr>"
  have c1: "kb_dtype (kc_k c1) = paged_dtype s" "kb_dtype (kc_v c1) = paged_dtype s"
    "buf_bits (kc_k c1) = buf_bits (kc_k c) @ fst (row_bits_at s ?b ?o)"
    "buf_bits (kc_v c1) = buf_bits (kc_v c) @ snd (row_bits_at s ?b ?o)"
    using Cons.prems(2,3) rk rv by (simp_all add: c1_def stored_same)
  have ps: "q \<in> set ps \<Longrightarrow> q div pg_block_size s < length table" for q using Cons.prems(1) by simp
  obtain k v where kv: "pc_gather hc s table ps c1 = Some (c1\<lparr>kc_k := k, kc_v := v\<rparr>)"
    "kb_dtype k = paged_dtype s" "kb_dtype v = paged_dtype s"
    "buf_bits k = buf_bits (kc_k c1)
        @ concat (map (\<lambda>p. fst (row_bits_at s (table ! (p div pg_block_size s)) (p mod pg_block_size s))) ps)"
    "buf_bits v = buf_bits (kc_v c1)
        @ concat (map (\<lambda>p. snd (row_bits_at s (table ! (p div pg_block_size s)) (p mod pg_block_size s))) ps)"
    using Cons.IH [OF ps c1(1,2)] by blast
  have "pc_gather hc s table (p # ps) c = Some (c\<lparr>kc_k := k, kc_v := v\<rparr>)"
    using kv(1) i by (simp add: Let_def rk(1) rv(1) c1_def)
  with kv c1 show ?case by (intro exI [of _ k] exI [of _ v]) simp
qed

lemma length_row_bits_at:
  assumes "store_ok n s" "b < n" "i < pg_block_size s"
  shows "length (fst (row_bits_at s b i)) = pg_k_width s" "length (snd (row_bits_at s b i)) = pg_v_width s"
  using place_fits [OF assms(2,3), of "pg_k_width s"] place_fits [OF assms(2,3), of "pg_v_width s"] assms(1)
  by (simp_all add: row_bits_at_def slot_def store_ok_def)

lemma to_contiguous_ok:
  assumes "store_ok n s" "set (pc_table c) \<subseteq> {..<n}" "pc_seq_len c \<le> length (pc_table c) * pg_block_size s"
    "0 < pg_k_width s"
  shows "\<exists>cache. pc_to_contiguous hc s c = Some cache \<and> holds cache (seq_rows s c)
    \<and> kc_rows cache = pc_seq_len c \<and> kc_dtype cache = paged_dtype s \<and> kc_recurrent cache = pc_recurrent c
    \<and> kc_window cache = None \<and> kc_eviction_forbidden cache
    \<and> kc_k_width cache = pg_k_width s \<and> kc_v_width cache = pg_v_width s \<and> kb_dtype (kc_v cache) = paged_dtype s"
proof -
  let ?bs = "pg_block_size s"
  define at where "at p = row_bits_at s (pc_table c ! (p div ?bs)) (p mod ?bs)" for p
  have pos: "0 < ?bs" using assms(1) by (simp add: store_ok_def)
  have idx: "p div ?bs < length (pc_table c)" if "p < pc_seq_len c" for p
    using that assms(3) pos by (simp add: div_less_iff_less_mult)
  define e where "e = (kc_with_capacity_split (pg_n_kv_heads s) (pg_head_dim s) (pg_v_head_dim s) (pc_seq_len c) :: 'a kv_cache)"
  obtain c0 where c0: "kc_with_dtype (paged_dtype s) e = Some c0"
    and d0: "kb_dtype (kc_k c0) = paged_dtype s" "kb_dtype (kc_v c0) = paged_dtype s"
    and b0: "buf_bits (kc_k c0) = []" "buf_bits (kc_v c0) = []"
    and w0: "kc_k_width c0 = pg_k_width s" "kc_v_width c0 = pg_v_width s"
    by (auto simp: kc_with_dtype_def e_def kc_with_capacity_split_def kb_is_empty_def kb_len_def
        kb_with_capacity_def rv_with_capacity_def kc_k_width_def kc_v_width_def pg_k_width_def pg_v_width_def
        buf_bits_def kb_view_def row_bits_def kb_dtype_def split: kv_dtype.splits)
  define c1 where "c1 = c0\<lparr>kc_k := kb_reserve_exact (pc_seq_len c * pg_k_width s) (kc_k c0),
    kc_v := kb_reserve_exact (pc_seq_len c * pg_v_width s) (kc_v c0)\<rparr>"
  have c1: "kb_dtype (kc_k c1) = paged_dtype s" "kb_dtype (kc_v c1) = paged_dtype s"
    "buf_bits (kc_k c1) = []" "buf_bits (kc_v c1) = []"
    by (simp_all add: c1_def d0 b0)
  have "p \<in> set [0..<pc_seq_len c] \<Longrightarrow> p div ?bs < length (pc_table c)" for p using idx by simp
  from gather_ok [where ps = "[0..<pc_seq_len c]" and hc = hc, OF assms(1,2) this c1(1,2)]
  obtain k v where g: "pc_gather hc s (pc_table c) [0..<pc_seq_len c] c1 = Some (c1\<lparr>kc_k := k, kc_v := v\<rparr>)"
    and kd: "kb_dtype k = paged_dtype s" "kb_dtype v = paged_dtype s"
    and kb: "buf_bits k = concat (map (fst \<circ> at) [0..<pc_seq_len c])"
      "buf_bits v = concat (map (snd \<circ> at) [0..<pc_seq_len c])"
    by (auto simp: c1 at_def comp_def)
  have rows: "seq_rows s c = map at [0..<pc_seq_len c]" by (simp add: seq_rows_def table_rows_def at_def)
  have "length (fst (at p)) = pg_k_width s \<and> length (snd (at p)) = pg_v_width s" if "p < pc_seq_len c" for p
  proof -
    have "pc_table c ! (p div ?bs) < n" using idx [OF that] assms(2) nth_mem by blast
    moreover have "p mod ?bs < ?bs" using pos by simp
    ultimately show ?thesis using length_row_bits_at [OF assms(1)] by (simp add: at_def)
  qed
  then have sw: "same_width (pg_k_width s) (map fst (seq_rows s c))" "same_width (pg_v_width s) (map snd (seq_rows s c))"
    by (auto simp: same_width_def rows)
  define c2 where "c2 = c1\<lparr>kc_k := k, kc_v := v, kc_positions := pc_seq_len c, kc_eviction_forbidden := True,
    kc_window := None, kc_recurrent := pc_recurrent c\<rparr>"
  have c2: "kc_k c2 = k" "kc_v c2 = v" "kc_positions c2 = pc_seq_len c" "kc_window c2 = None"
    "kc_eviction_forbidden c2" "kc_recurrent c2 = pc_recurrent c"
    "kc_k_width c2 = pg_k_width s" "kc_v_width c2 = pg_v_width s"
    using w0 by (simp_all add: c2_def c1_def kc_k_width_def kc_v_width_def)
  have bits: "buf_bits k = concat (map fst (seq_rows s c))" "buf_bits v = concat (map snd (seq_rows s c))"
    by (simp_all add: kb rows)
  have "kb_len k = pc_seq_len c * pg_k_width s"
    using length_concat_width [OF sw(1)] length_buf_bits [of k] by (simp add: bits(1)) (simp add: rows)
  then have n_rows: "kc_rows c2 = pc_seq_len c" using assms(4) by (simp add: kc_rows_def c2)
  have len: "length (seq_rows s c) = pc_seq_len c" by (simp add: rows)
  have "holds c2 (seq_rows s c)" using sw bits by (simp add: holds_def c2 n_rows len end_of_def)
  moreover have "kc_forbid_eviction (kc_set_positions (pc_seq_len c) (c1\<lparr>kc_k := k, kc_v := v\<rparr>))
      = Some (c2\<lparr>kc_recurrent := kc_recurrent c1\<rparr>)"
  proof -
    define c3 where "c3 = kc_set_positions (pc_seq_len c) (c1\<lparr>kc_k := k, kc_v := v\<rparr>)"
    have "kc_rows c3 = kc_rows c2" "kc_positions c3 = pc_seq_len c"
      by (simp_all add: c3_def c2_def kc_set_positions_def kc_rows_def kc_k_width_def)
    then have "kc_forbid_eviction c3 = Some (c3\<lparr>kc_eviction_forbidden := True, kc_window := None\<rparr>)"
      by (simp add: kc_forbid_eviction_def n_rows)
    also have "c3\<lparr>kc_eviction_forbidden := True, kc_window := None\<rparr> = c2\<lparr>kc_recurrent := kc_recurrent c1\<rparr>"
      by (simp add: c3_def c2_def kc_set_positions_def)
    finally show ?thesis by (simp add: c3_def)
  qed
  then have "pc_to_contiguous hc s c = Some c2"
    using c0 g by (simp add: pc_to_contiguous_def e_def c1_def [symmetric]) (simp add: c2_def)
  moreover have "kc_dtype c2 = paged_dtype s" "kb_dtype (kc_v c2) = paged_dtype s" by (simp_all add: kc_dtype_def c2 kd)
  ultimately show ?thesis using c2 n_rows by blast
qed

section \<open>A fleet of sequences over one store\<close>

type_synonym 'r fleet = "paged_store \<times> 'r paged_cache list"

datatype fleet_op = FPush nat kv_rows kv_rows | FAppend nat kv_rows kv_rows nat | FReserve nat nat | FRelease nat

text \<open>The operation on its sequence, then the new state and whether it was done.\<close>

definition settle :: "nat \<Rightarrow> 'r fleet \<Rightarrow> 'r pc_result \<Rightarrow> (bool \<times> 'r fleet) option" where
  "settle i f r =
     map_option (\<lambda>r. case r of Inl PagedStoreExhausted \<Rightarrow> (False, f)
                              | Inr (c, s) \<Rightarrow> (True, (s, (snd f)[i := c]))) r"

fun fleet_step :: "half_crate \<Rightarrow> fleet_op \<Rightarrow> 'r fleet \<Rightarrow> (bool \<times> 'r fleet) option" where
  "fleet_step hc (FPush i k v) (s, cs) = settle i (s, cs) (pc_push_rows hc k v s (cs ! i))"
| "fleet_step hc (FAppend i k v m) (s, cs) = settle i (s, cs) (pc_append_contiguous hc k v m s (cs ! i))"
| "fleet_step hc (FReserve i m) (s, cs) = settle i (s, cs) (pc_reserve s m (cs ! i))"
| "fleet_step hc (FRelease i) (s, cs) = settle i (s, cs) (Some (Inr (pc_release s (cs ! i))))"

lemma settle_refused: "settle i f r = Some (ok, f') \<Longrightarrow> \<not> ok \<Longrightarrow> f' = f"
proof (cases r)
  case (Some z)
  assume "settle i f r = Some (ok, f')" "\<not> ok"
  then show ?thesis
    by (cases z) (auto simp: Some settle_def split: paged_store_exhausted.splits)
qed (simp add: settle_def)

fun op_seq :: "fleet_op \<Rightarrow> nat" where
  "op_seq (FPush i k v) = i" | "op_seq (FAppend i k v m) = i" | "op_seq (FReserve i m) = i" | "op_seq (FRelease i) = i"

fun op_rows :: "fleet_op \<Rightarrow> nat" where
  "op_rows (FPush i k v) = 1" | "op_rows (FAppend i k v m) = m" | "op_rows (FReserve i m) = m" | "op_rows (FRelease i) = 0"

text \<open>What the caller has to respect: the index and the row widths the code asserts.\<close>

fun op_fits :: "paged_store \<Rightarrow> nat \<Rightarrow> fleet_op \<Rightarrow> bool" where
  "op_fits s m (FPush i k v) \<longleftrightarrow> i < m \<and> row_fits s (k, v)"
| "op_fits s m (FAppend i k v n_rows) \<longleftrightarrow>
     i < m \<and> rows_len k = n_rows * pg_k_width s \<and> rows_len v = n_rows * pg_v_width s"
| "op_fits s m (FReserve i n_rows) \<longleftrightarrow> i < m"
| "op_fits s m (FRelease i) \<longleftrightarrow> i < m"

text \<open>The specification: independent histories.\<close>

fun op_spec :: "half_crate \<Rightarrow> paged_store \<Rightarrow> fleet_op \<Rightarrow> history list \<Rightarrow> history list" where
  "op_spec hc s (FPush i k v) hs = hs[i := hs ! i @ [row_kept hc s (k, v)]]"
| "op_spec hc s (FAppend i k v m) hs = hs[i := hs ! i @ map (kept_at hc s k v) [0..<m]]"
| "op_spec hc s (FReserve i m) hs = hs"
| "op_spec hc s (FRelease i) hs = hs[i := []]"

definition histories :: "'r fleet \<Rightarrow> history list" where
  "histories = (\<lambda>(s, cs). map (seq_rows s) cs)"

text \<open>Every block is free or in one table, once.\<close>

definition fleet_ok :: "nat \<Rightarrow> 'r fleet \<Rightarrow> bool" where
  "fleet_ok n = (\<lambda>(s, cs).
     store_ok n s \<and> mset (pg_free s @ concat (map pc_table cs)) = mset [0..<n]
     \<and> (\<forall>c \<in> set cs. pc_seq_len c \<le> length (pc_table c) * pg_block_size s))"

lemma mset_concat_update:
  "i < length cs \<Longrightarrow>
     mset (concat (map f (cs[i := c]))) + mset (f (cs ! i)) = mset (concat (map f cs)) + mset (f c)"
  by (induction cs arbitrary: i) (auto split: nat.splits)

lemma distinct_concat_disjoint:
  "distinct (concat xss) \<Longrightarrow> i < length xss \<Longrightarrow> j < length xss \<Longrightarrow> i \<noteq> j \<Longrightarrow> set (xss ! i) \<inter> set (xss ! j) = {}"
proof (induction xss arbitrary: i j)
  case (Cons xs xss)
  have head: "set xs \<inter> set (xss ! m) = {}" if "m < length xss" for m
  proof -
    have "set (xss ! m) \<subseteq> set (concat xss)" using nth_mem [OF that] by auto
    then show ?thesis using Cons.prems(1) by auto
  qed
  consider m where "i = 0" "j = Suc m" | m where "i = Suc m" "j = 0" | a b where "i = Suc a" "j = Suc b"
    using Cons.prems(4) by (cases i; cases j) auto
  then show ?case
  proof cases
    case 1
    then show ?thesis using head [of m] Cons.prems by simp
  next
    case 2
    then show ?thesis using head [of m] Cons.prems by (simp add: Int_commute)
  next
    case 3
    then show ?thesis using Cons.IH [of a b] Cons.prems by simp
  qed
qed simp

lemma fleet_tables:
  assumes "fleet_ok n (s, cs)"
  shows "distinct (pg_free s @ concat (map pc_table cs))" "set (pg_free s @ concat (map pc_table cs)) = {..<n}"
proof -
  have ms: "mset (pg_free s @ concat (map pc_table cs)) = mset [0..<n]" using assms by (simp add: fleet_ok_def)
  from mset_eq_imp_distinct_iff [OF ms] mset_eq_setD [OF ms]
  show "distinct (pg_free s @ concat (map pc_table cs))" "set (pg_free s @ concat (map pc_table cs)) = {..<n}"
    by (simp_all add: atLeast0LessThan)
qed

lemma fleet_seq:
  assumes "fleet_ok n (s, cs)" "i < length cs"
  shows "seq_ok n s (cs ! i)"
proof -
  note ft = fleet_tables [OF assms(1)]
  have c: "cs ! i \<in> set cs" using assms(2) by simp
  have sub: "set (pc_table (cs ! i)) \<subseteq> set (concat (map pc_table cs))" using c by auto
  have "distinct (concat (map pc_table cs))" using ft(1) by simp
  then have "distinct (pc_table (cs ! i))" using c by (simp add: distinct_concat_iff image_iff) (metis imageI)
  then show ?thesis using assms ft sub c by (auto simp: seq_ok_def fleet_ok_def)
qed

lemma used_subset:
  assumes "len \<le> length table * bs" "0 < bs"
  shows "used_blocks bs table len \<subseteq> set table"
proof -
  have "p div bs < length table" if "p < len" for p
    using that assms by (simp add: div_less_iff_less_mult)
  then show ?thesis by (auto simp: used_blocks_def)
qed

lemma fleet_update:
  assumes "fleet_ok n (s, cs)" "i < length cs" "seq_ok n s' c'" "others_same n (s, cs ! i) (s', c')"
  shows "fleet_ok n (s', cs[i := c'])" "histories (s', cs[i := c']) = (histories (s, cs))[i := seq_rows s' c']"
proof -
  have bs: "pg_block_size s' = pg_block_size s" and ms: "mset (pg_free s' @ pc_table c') = mset (pg_free s @ pc_table (cs ! i))"
    using assms(4) by (simp_all add: others_same_def store_shape_def)
  have "mset (concat (map pc_table (cs[i := c']))) + mset (pc_table (cs ! i)) = mset (concat (map pc_table cs)) + mset (pc_table c')"
    using assms(2) by (rule mset_concat_update)
  with ms have "mset (pg_free s' @ concat (map pc_table (cs[i := c']))) = mset (pg_free s @ concat (map pc_table cs))"
    by (simp add: multiset_eq_iff) (smt (verit) add.assoc add.commute add_right_cancel)
  moreover have "\<forall>c \<in> set (cs[i := c']). pc_seq_len c \<le> length (pc_table c) * pg_block_size s'"
    using assms(1,3) by (auto simp: fleet_ok_def seq_ok_def bs dest!: set_update_subset_insert [THEN subsetD])
  ultimately show "fleet_ok n (s', cs[i := c'])"
    using assms(1,3) by (simp add: fleet_ok_def seq_ok_def)
  have "seq_rows s' (cs ! j) = seq_rows s (cs ! j)" if j: "j < length cs" "j \<noteq> i" for j
  proof -
    note ft = fleet_tables [OF assms(1)]
    have "set (pc_table (cs ! j)) \<subseteq> set (concat (map pc_table cs))" using nth_mem [OF j(1)] by auto
    moreover have "set (pc_table (cs ! j)) \<inter> set (pc_table (cs ! i)) = {}"
      using distinct_concat_disjoint [of "map pc_table cs" j i] ft(1) j assms(2) by simp
    ultimately have "set (pc_table (cs ! j)) \<subseteq> {..<n} - set (pg_free s @ pc_table (cs ! i))"
      using ft by auto
    moreover have "used_blocks (pg_block_size s) (pc_table (cs ! j)) (pc_seq_len (cs ! j)) \<subseteq> set (pc_table (cs ! j))"
      using fleet_seq [OF assms(1) j(1)] by (intro used_subset) (simp_all add: seq_ok_def store_ok_def)
    ultimately show ?thesis using assms(4) by (simp add: others_same_def seq_rows_def bs)
  qed
  then show "histories (s', cs[i := c']) = (histories (s, cs))[i := seq_rows s' c']"
    using assms(2) by - (rule nth_equalityI, auto simp: histories_def nth_list_update)
qed


lemma fleet_step_ok:
  assumes "fleet_ok n (s, cs)" "op_fits s (length cs) opn"
  shows "\<exists>ok s' cs'. fleet_step hc opn (s, cs) = Some (ok, (s', cs')) \<and> fleet_ok n (s', cs')
    \<and> (ok \<longleftrightarrow> pc_blocks_needed_for s (op_rows opn) (cs ! op_seq opn) \<le> free_block_count s)
    \<and> histories (s', cs') = (if ok then op_spec hc s opn (histories (s, cs)) else histories (s, cs))
    \<and> store_shape s' = store_shape s \<and> length cs' = length cs"
proof -
  define i where "i = op_seq opn"
  have i: "i < length cs" using assms(2) by (cases opn) (simp_all add: i_def)
  note seq = fleet_seq [OF assms(1) i]
  have hist: "histories (s, cs) ! i = seq_rows s (cs ! i)" using i by (simp add: histories_def)
  have applied: ?thesis
    if r: "fleet_step hc opn (s, cs) = settle i (s, cs) (Some (Inr (c', s')))"
      and c': "seq_ok n s' c'" "others_same n (s, cs ! i) (s', c')"
      and room: "pc_blocks_needed_for s (op_rows opn) (cs ! i) \<le> free_block_count s"
      and spec: "(histories (s, cs))[i := seq_rows s' c'] = op_spec hc s opn (histories (s, cs))" for c' s'
    using fleet_update [OF assms(1) i c'] r room spec c'(2)
    by (intro exI [of _ True] exI [of _ s'] exI [of _ "cs[i := c']"])
      (simp add: settle_def i_def [symmetric] others_same_def)
  have refused: ?thesis
    if "fleet_step hc opn (s, cs) = settle i (s, cs) (Some (Inl PagedStoreExhausted))"
      and "\<not> pc_blocks_needed_for s (op_rows opn) (cs ! i) \<le> free_block_count s"
    using that assms(1) by (intro exI [of _ False] exI [of _ s] exI [of _ cs]) (simp add: settle_def i_def [symmetric])
  show ?thesis
  proof (cases opn)
    case (FPush j k v)
    then have j: "j = i" and fits: "row_fits s (k, v)" using assms(2) by (simp_all add: i_def)
    note r = push_rows_ok [OF seq fits, of hc]
    show ?thesis
    proof (cases "pc_blocks_needed_for s 1 (cs ! i) \<le> free_block_count s")
      case True
      with r obtain c' s' where r: "pc_push_rows hc k v s (cs ! i) = Some (Inr (c', s'))" "seq_ok n s' c'"
        "others_same n (s, cs ! i) (s', c')" "seq_rows s' c' = seq_rows s (cs ! i) @ [row_kept hc s (k, v)]" by auto
      show ?thesis
        by (rule applied [of c' s']) (use FPush j r True hist in simp_all)
    qed (use r in \<open>intro refused; simp add: FPush j\<close>)
  next
    case (FAppend j k v m)
    then have j: "j = i" and fits: "rows_len k = m * pg_k_width s" "rows_len v = m * pg_v_width s"
      using assms(2) by (simp_all add: i_def)
    note r = append_contiguous_ok [OF seq fits, of hc]
    show ?thesis
    proof (cases "pc_blocks_needed_for s m (cs ! i) \<le> free_block_count s")
      case True
      with r obtain c' s' where r: "pc_append_contiguous hc k v m s (cs ! i) = Some (Inr (c', s'))" "seq_ok n s' c'"
        "others_same n (s, cs ! i) (s', c')" "seq_rows s' c' = seq_rows s (cs ! i) @ map (kept_at hc s k v) [0..<m]" by auto
      show ?thesis
        by (rule applied [of c' s']) (use FAppend j r True hist in simp_all)
    qed (use r in \<open>intro refused; simp add: FAppend j\<close>)
  next
    case (FReserve j m)
    then have j: "j = i" by (simp add: i_def)
    have same: "(histories (s, cs))[i := seq_rows s (cs ! i)] = histories (s, cs)"
      using hist by (metis list_update_id)
    note r = reserve_ok [OF seq, of m]
    show ?thesis
    proof (cases "pc_blocks_needed_for s m (cs ! i) \<le> free_block_count s")
      case True
      with r obtain c' s' where r: "pc_reserve s m (cs ! i) = Some (Inr (c', s'))" "seq_ok n s' c'"
        "others_same n (s, cs ! i) (s', c')" "seq_rows s' c' = seq_rows s (cs ! i)" by auto
      show ?thesis
        by (rule applied [of c' s']) (use FReserve j r True same in simp_all)
    qed (use r in \<open>intro refused; simp add: FReserve j\<close>)
  next
    case (FRelease j)
    obtain c' s' where r: "pc_release s (cs ! i) = (c', s')" by fastforce
    have "pc_blocks_needed_for s 0 (cs ! i) = 0" by (simp add: pc_blocks_needed_for_def div_ceil_def)
    with FRelease release_ok [OF seq r] r show ?thesis by (intro applied [of c' s']) (simp_all add: i_def)
  qed
qed

text \<open>Runs.\<close>

fun fleet_run :: "half_crate \<Rightarrow> fleet_op list \<Rightarrow> 'r fleet \<Rightarrow> (bool list \<times> 'r fleet) option" where
  "fleet_run hc [] f = Some ([], f)"
| "fleet_run hc (opn # ops) f =
     (case fleet_step hc opn f of
        None \<Rightarrow> None
      | Some (ok, f) \<Rightarrow> map_option (\<lambda>(oks, f). (ok # oks, f)) (fleet_run hc ops f))"

fun fleet_spec :: "half_crate \<Rightarrow> paged_store \<Rightarrow> (bool \<times> fleet_op) list \<Rightarrow> history list \<Rightarrow> history list" where
  "fleet_spec hc s [] hs = hs"
| "fleet_spec hc s ((ok, opn) # ops) hs = fleet_spec hc s ops (if ok then op_spec hc s opn hs else hs)"

lemma op_fits_shape: "store_shape s' = store_shape s \<Longrightarrow> op_fits s' m opn = op_fits s m opn"
  using store_shape_eq [of s' s] by (cases opn) auto

lemma op_spec_shape: "store_shape s' = store_shape s \<Longrightarrow> op_spec hc s' opn = op_spec hc s opn"
proof -
  assume h: "store_shape s' = store_shape s"
  show ?thesis by (rule ext, cases opn) (simp_all add: store_shape_eq [OF h] kept_at_shape [OF h])
qed

lemma fleet_spec_shape: "store_shape s' = store_shape s \<Longrightarrow> fleet_spec hc s' ops hs = fleet_spec hc s ops hs"
proof (induction ops arbitrary: hs)
  case (Cons x ops)
  then show ?case by (cases x; cases "fst x") (simp_all add: op_spec_shape [OF Cons.prems])
qed simp

lemma fleet_run_ok:
  assumes "fleet_ok n f" "list_all (op_fits (fst f) (length (snd f))) ops"
  shows "\<exists>oks f'. fleet_run hc ops f = Some (oks, f') \<and> length oks = length ops \<and> fleet_ok n f'
    \<and> histories f' = fleet_spec hc (fst f) (zip oks ops) (histories f)"
  using assms
proof (induction ops arbitrary: f)
  case (Cons opn ops)
  obtain s cs where f: "f = (s, cs)" by fastforce
  from Cons.prems f obtain ok s1 cs1 where st: "fleet_step hc opn (s, cs) = Some (ok, (s1, cs1))"
    "fleet_ok n (s1, cs1)" "store_shape s1 = store_shape s" "length cs1 = length cs"
    "histories (s1, cs1) = (if ok then op_spec hc s opn (histories (s, cs)) else histories (s, cs))"
    using fleet_step_ok [of n s cs opn hc] by auto
  have "list_all (op_fits s1 (length cs1)) ops"
    using Cons.prems(2) f st(4) by (auto simp: list_all_iff op_fits_shape [OF st(3)])
  with Cons.IH [of "(s1, cs1)"] st(2) obtain oks f' where "fleet_run hc ops (s1, cs1) = Some (oks, f')"
    "length oks = length ops" "fleet_ok n f'"
    "histories f' = fleet_spec hc s1 (zip oks ops) (histories (s1, cs1))" by auto
  with st show ?case by (simp add: f fleet_spec_shape [OF st(3)])
qed simp

lemma kb_len_zeroed [simp]: "kb_len (kb_zeroed dt m) = m"
  by (simp flip: length_buf_bits)

lemma new_fleet_ok:
  assumes "paged_new_split bs n heads head_dim v_head_dim = Some s0" "paged_with_dtype dt s0 = Some s"
  shows "fleet_ok n (s, replicate m paged_cache_new)" "histories (s, replicate m (paged_cache_new :: 'r paged_cache)) = replicate m []"
proof -
  note new = paged_new_ok [OF assms(1)]
  have "store_ok n s \<and> pg_free s = pg_free s0"
    using assms(2) new
    by (auto simp: paged_with_dtype_def store_ok_def pg_k_width_def pg_v_width_def split: if_splits)
  moreover have "concat (map pc_table (replicate m paged_cache_new)) = []"
    by (induction m) (simp_all add: paged_cache_new_def)
  ultimately show "fleet_ok n (s, replicate m paged_cache_new)" 
    using new by (auto simp: fleet_ok_def paged_cache_new_def)
  show "histories (s, replicate m (paged_cache_new :: 'r paged_cache)) = replicate m []"
    by (simp add: histories_def seq_rows_def table_rows_def paged_cache_new_def)
qed

section \<open>Properties\<close>

text \<open>A store of two blocks of two rows, for the witnesses.\<close>

definition sample_store :: paged_store where
  "sample_store = the (paged_new 2 2 1 1)"

lemma sample_store: "paged_new_split 2 2 1 1 1 = Some sample_store" "paged_with_dtype F32 sample_store = Some sample_store"
  by code_simp+

definition sample_ops :: "fleet_op list" where
  "sample_ops = [FAppend 0 (RowsF32 [1, 2, 3]) (RowsF32 [4, 5, 6]) 3, FPush 1 (RowsF32 [7]) (RowsF32 [8]),
     FPush 0 (RowsF32 [9]) (RowsF32 [9]), FRelease 0, FReserve 1 2, FPush 1 (RowsF32 [2]) (RowsF32 [3])]"

text \<open>
  C26. Sequences that share one page store are independent.  Whatever pushes, bulk appends,
  reservations and releases are run on them, no operation panics, no block is ever lost or owned
  twice, and the rows each sequence reads back through its block table are exactly the rows
  written to it and not released since, as the store's width keeps them, whether its blocks were
  used by another sequence before or not.  An operation that is refused leaves everything as it
  was, a bulk append included.
\<close>

theorem paged_fleet_refines_histories:
  assumes "paged_new_split bs n heads head_dim v_head_dim = Some s0" "paged_with_dtype dt s0 = Some s"
    and "list_all (op_fits s m) ops"
  shows "\<exists>oks f. fleet_run hc ops (s, replicate m (paged_cache_new :: 'r paged_cache)) = Some (oks, f)
    \<and> length oks = length ops \<and> fleet_ok n f
    \<and> histories f = fleet_spec hc s (zip oks ops) (replicate m [])"
proof -
  have start: "histories (s, replicate m (paged_cache_new :: 'r paged_cache)) = replicate m []"
    by (rule new_fleet_ok(2) [OF assms(1,2)])
  have "list_all (op_fits (fst (s, replicate m (paged_cache_new :: 'r paged_cache)))
      (length (snd (s, replicate m (paged_cache_new :: 'r paged_cache))))) ops"
    using assms(3) by simp
  from fleet_run_ok [OF new_fleet_ok(1) [OF assms(1,2)] this, of hc] show ?thesis
    by (simp only: start fst_conv)
qed

theorem paged_fleet_refines_histories_witness:
  "\<exists>oks f. fleet_run sample_half sample_ops (sample_store, replicate 2 (paged_cache_new :: unit paged_cache)) = Some (oks, f)
    \<and> oks = [True, False, True, True, True, True] \<and> histories f = [[], [([2], [3])]] \<and> fleet_ok 2 f"
proof -
  have flags: "map_option fst (fleet_run sample_half sample_ops (sample_store, replicate 2 (paged_cache_new :: unit paged_cache)))
      = Some [True, False, True, True, True, True]"
    by code_simp
  have "list_all (op_fits sample_store 2) sample_ops" by code_simp
  from paged_fleet_refines_histories [OF sample_store this, of sample_half]
  obtain oks f where f: "fleet_run sample_half sample_ops (sample_store, replicate 2 (paged_cache_new :: unit paged_cache)) = Some (oks, f)"
    "fleet_ok 2 f" "histories f = fleet_spec sample_half sample_store (zip oks sample_ops) (replicate 2 [])"
    by blast
  moreover have "fleet_spec sample_half sample_store (zip [True, False, True, True, True, True] sample_ops) (replicate 2 [])
      = [[], [([2], [3])]]"
    by code_simp
  ultimately show ?thesis using flags by auto
qed



text \<open>
  Copying a sequence out of the page store gives a contiguous cache that holds exactly its
  rows, bit for bit, at its positions, and that will never evict; appending rows first and then
  copying gives the old rows followed by the new ones.
\<close>

theorem contiguous_round_trip:
  assumes "seq_ok n s c" "0 < pg_k_width s"
    and "rows_len k = m * pg_k_width s" "rows_len v = m * pg_v_width s"
    and "pc_append_contiguous hc k v m s c = Some (Inr (c', s'))"
  shows "\<exists>old new. pc_to_contiguous hc s c = Some old \<and> holds old (seq_rows s c)
    \<and> pc_to_contiguous hc s' c' = Some new \<and> holds new (seq_rows s c @ map (kept_at hc s k v) [0..<m])
    \<and> kc_rows new = kc_rows old + m \<and> kc_eviction_forbidden new"
proof -
  have room: "pc_blocks_needed_for s m c \<le> free_block_count s"
    using append_contiguous_ok [OF assms(1,3,4), of hc] assms(5) by (auto split: if_splits)
  with append_contiguous_ok [OF assms(1,3,4), of hc] assms(5)
  have new: "seq_ok n s' c'" "others_same n (s, c) (s', c')"
    "seq_rows s' c' = seq_rows s c @ map (kept_at hc s k v) [0..<m]" by auto
  have len: "length (seq_rows t d) = pc_seq_len d" for t and d :: "'a paged_cache"
    by (simp add: seq_rows_def table_rows_def)
  have "pc_seq_len c' = pc_seq_len c + m"
    using arg_cong [OF new(3), of length] by (simp add: len)
  moreover have "0 < pg_k_width s'"
    using new(2) assms(2) store_shape_eq(2) [of s' s] by (simp add: others_same_def)
  ultimately show ?thesis
    using to_contiguous_ok [of n s c hc] to_contiguous_ok [of n s' c' hc] assms(1,2) new(1)
    by (auto simp: seq_ok_def new(3))
qed

text \<open>
  Releasing a sequence whose table names a block at several positions, as a recycling window
  makes it, gives every distinct block back exactly once: the free list never holds a block twice.
\<close>

theorem release_each_block_once:
  assumes "distinct (pg_free s)" "set (pg_free s) \<inter> set (pc_table c) = {}"
  shows "case pc_release s c of (c', s') \<Rightarrow>
    distinct (pg_free s') \<and> set (pg_free s') = set (pg_free s) \<union> set (pc_table c) \<and> pc_table c' = []"
proof -
  have "mset (pg_free (release_distinct [] (pc_table c) s)) = mset (pg_free s) + mset_set (set (pc_table c))"
    by (simp add: release_distinct_free)
  also have "\<dots> = mset (pg_free s @ remdups (pc_table c))" by (simp add: mset_set_set [symmetric])
  finally have ms: "mset (pg_free (release_distinct [] (pc_table c) s)) = mset (pg_free s @ remdups (pc_table c))" .
  have "distinct (pg_free s @ remdups (pc_table c))" using assms by simp
  with mset_eq_imp_distinct_iff [OF ms] mset_eq_setD [OF ms] show ?thesis
    by (simp add: pc_release_def)
qed

end
