(* ===== verification/Page_Groups.thy ===== *)
theory Page_Groups
  imports Paged_Cache
begin

text \<open>
  Page groups (\<^verbatim>\<open>cache/paged.rs\<close>, \<open>SharedPagedKv\<close> and \<open>GroupTable\<close>): one block of every layer
  under one reference-counted name.  An operation is its critical sections: \<open>acquire_group\<close>
  holds every layer and the group table at once, \<open>release_group\<close> takes the table and, when the
  last holder went, the layers afterwards, so other operations may run in between.  \<open>None\<close> is a
  panic.  The claims say that under any interleaving of the sections the reference counts are
  the holders, no block is lost or owned twice, and nothing panics.
\<close>

section \<open>The group table\<close>

record group_table =
  gt_blocks :: "nat list option list"
  gt_ref_counts :: "nat list"
  gt_free_ids :: "nat list"

definition group_table_default :: group_table where
  "group_table_default = \<lparr>gt_blocks = [], gt_ref_counts = [], gt_free_ids = []\<rparr>"

definition gt_insert :: "nat list \<Rightarrow> group_table \<Rightarrow> (nat \<times> group_table) option" where
  "gt_insert blocks t =
     (if gt_free_ids t \<noteq> [] then
        let i = last (gt_free_ids t) in
        if i < length (gt_blocks t) \<and> i < length (gt_ref_counts t) then
          Some (i, t\<lparr>gt_blocks := (gt_blocks t)[i := Some blocks], gt_ref_counts := (gt_ref_counts t)[i := 1],
                     gt_free_ids := butlast (gt_free_ids t)\<rparr>)
        else None
      else Some (length (gt_blocks t),
                 t\<lparr>gt_blocks := gt_blocks t @ [Some blocks], gt_ref_counts := gt_ref_counts t @ [1]\<rparr>))"

definition gt_retain :: "nat \<Rightarrow> group_table \<Rightarrow> group_table option" where
  "gt_retain i t =
     (if i < length (gt_ref_counts t) \<and> 0 < gt_ref_counts t ! i
      then Some (t\<lparr>gt_ref_counts := (gt_ref_counts t)[i := gt_ref_counts t ! i + 1]\<rparr>) else None)"

definition gt_release :: "nat \<Rightarrow> group_table \<Rightarrow> (nat list option \<times> group_table) option" where
  "gt_release i t =
     (if i < length (gt_ref_counts t) \<and> 0 < gt_ref_counts t ! i then
        let t = t\<lparr>gt_ref_counts := (gt_ref_counts t)[i := gt_ref_counts t ! i - 1]\<rparr> in
        if 0 < gt_ref_counts t ! i then Some (None, t)
        else if i < length (gt_blocks t) then
          (case gt_blocks t ! i of
             None \<Rightarrow> None
           | Some blocks \<Rightarrow> Some (Some blocks, t\<lparr>gt_blocks := (gt_blocks t)[i := None], gt_free_ids := gt_free_ids t @ [i]\<rparr>))
        else None
      else None)"

definition gt_group_blocks :: "nat \<Rightarrow> group_table \<Rightarrow> nat list option" where
  "gt_group_blocks i t = (if i < length (gt_blocks t) then gt_blocks t ! i else None)"

definition gt_refs :: "nat \<Rightarrow> group_table \<Rightarrow> nat" where
  "gt_refs i t = (if i < length (gt_ref_counts t) then gt_ref_counts t ! i else 0)"

section \<open>The shared stores\<close>

record shared_kv =
  sp_layers :: "paged_store list"
  sp_groups :: group_table

definition sp_from_stores :: "paged_store list \<Rightarrow> shared_kv" where
  "sp_from_stores stores = \<lparr>sp_layers = stores, sp_groups = group_table_default\<rparr>"

definition sp_new :: "nat \<Rightarrow> nat \<Rightarrow> nat \<Rightarrow> nat \<Rightarrow> nat \<Rightarrow> shared_kv option" where
  "sp_new n_layers block_size blocks_per_layer heads head_dim =
     map_option sp_from_stores
       (those (replicate n_layers (paged_new block_size blocks_per_layer heads head_dim)))"

definition sp_free_blocks :: "nat \<Rightarrow> shared_kv \<Rightarrow> nat option" where
  "sp_free_blocks layer s =
     (if layer < length (sp_layers s) then Some (free_block_count (sp_layers s ! layer)) else None)"

fun acquire_each :: "paged_store list \<Rightarrow> (nat list \<times> paged_store list) option" where
  "acquire_each [] = Some ([], [])"
| "acquire_each (s # ss) =
     (case acquire_block s of
        None \<Rightarrow> None
      | Some (b, s) \<Rightarrow> map_option (\<lambda>(bs, ss). (b # bs, s # ss)) (acquire_each ss))"

definition acquire_group :: "shared_kv \<Rightarrow> (nat option \<times> shared_kv) option" where
  "acquire_group s =
     (if \<exists>st \<in> set (sp_layers s). free_block_count st = 0 then Some (None, s)
      else
        case acquire_each (sp_layers s) of
          None \<Rightarrow> None
        | Some (blocks, layers) \<Rightarrow>
            map_option (\<lambda>(g, t). (Some g, s\<lparr>sp_layers := layers, sp_groups := t\<rparr>)) (gt_insert blocks (sp_groups s)))"

definition retain_group :: "nat \<Rightarrow> shared_kv \<Rightarrow> shared_kv option" where
  "retain_group g s = map_option (\<lambda>t. s\<lparr>sp_groups := t\<rparr>) (gt_retain g (sp_groups s))"

text \<open>The two sections of \<open>release_group\<close>.\<close>

definition drop_holder :: "nat \<Rightarrow> shared_kv \<Rightarrow> (nat list option \<times> shared_kv) option" where
  "drop_holder g s = map_option (\<lambda>(freed, t). (freed, s\<lparr>sp_groups := t\<rparr>)) (gt_release g (sp_groups s))"

fun release_each :: "nat list \<Rightarrow> paged_store list \<Rightarrow> paged_store list" where
  "release_each (b # bs) (s # ss) = release_block b s # release_each bs ss"
| "release_each bs ss = ss"

definition return_blocks :: "nat list \<Rightarrow> shared_kv \<Rightarrow> shared_kv" where
  "return_blocks blocks s = s\<lparr>sp_layers := release_each blocks (sp_layers s)\<rparr>"

definition release_group :: "nat \<Rightarrow> shared_kv \<Rightarrow> (bool \<times> shared_kv) option" where
  "release_group g s =
     map_option (\<lambda>(freed, s). case freed of None \<Rightarrow> (False, s) | Some blocks \<Rightarrow> (True, return_blocks blocks s))
       (drop_holder g s)"

definition group_blocks :: "nat \<Rightarrow> shared_kv \<Rightarrow> nat list option" where
  "group_blocks g s = gt_group_blocks g (sp_groups s)"

definition group_refs :: "nat \<Rightarrow> shared_kv \<Rightarrow> nat" where
  "group_refs g s = gt_refs g (sp_groups s)"

fun copy_each :: "nat list \<Rightarrow> nat list \<Rightarrow> paged_store list \<Rightarrow> paged_store list option" where
  "copy_each (b # bs) (d # ds) (s # ss) =
     Option.bind (copy_block b d s) (\<lambda>s. map_option ((#) s) (copy_each bs ds ss))"
| "copy_each bs ds ss = Some ss"

definition copy_group :: "nat \<Rightarrow> nat \<Rightarrow> shared_kv \<Rightarrow> shared_kv option" where
  "copy_group src dst s =
     Option.bind (group_blocks src s) (\<lambda>from_blocks. Option.bind (group_blocks dst s) (\<lambda>to_blocks.
       map_option (\<lambda>layers. s\<lparr>sp_layers := layers\<rparr>) (copy_each from_blocks to_blocks (sp_layers s))))"

definition free_groups :: "shared_kv \<Rightarrow> nat" where
  "free_groups s = (if sp_layers s = [] then 0 else Min (set (map free_block_count (sp_layers s))))"

section \<open>Accounts\<close>

text \<open>The blocks of the live groups.\<close>

definition live :: "group_table \<Rightarrow> nat list list" where
  "live t = concat (map (case_option [] (\<lambda>b. [b])) (gt_blocks t))"

text \<open>The table of a store of so many layers whose holders are \<open>H\<close>.\<close>

definition table_ok :: "nat \<Rightarrow> nat multiset \<Rightarrow> group_table \<Rightarrow> bool" where
  "table_ok n_layers H t \<longleftrightarrow>
     length (gt_ref_counts t) = length (gt_blocks t) \<and> distinct (gt_free_ids t)
     \<and> set (gt_free_ids t) = {i. i < length (gt_blocks t) \<and> gt_blocks t ! i = None}
     \<and> (\<forall>i. gt_refs i t = Multiset.count H i)
     \<and> (\<forall>i < length (gt_blocks t). gt_blocks t ! i = None \<longleftrightarrow> gt_ref_counts t ! i = 0)
     \<and> (\<forall>bs \<in> set (live t). length bs = n_layers)"

lemma mem_live: "bs \<in> set (live t) \<longleftrightarrow> (\<exists>g. gt_group_blocks g t = Some bs)"
  by (auto simp: live_def gt_group_blocks_def in_set_conv_nth split: option.splits if_splits)

lemma held_has_blocks:
  assumes "table_ok m H t" "g \<in># H"
  obtains bs where "gt_group_blocks g t = Some bs" "length bs = m" "g < length (gt_blocks t)"
    "gt_ref_counts t ! g = Multiset.count H g" "gt_blocks t ! g = Some bs"
proof -
  have "gt_refs g t = Multiset.count H g" "0 < Multiset.count H g" using assms by (simp_all add: table_ok_def)
  then have g: "g < length (gt_blocks t)" "gt_ref_counts t ! g = Multiset.count H g" "0 < gt_ref_counts t ! g"
    using assms(1) by (auto simp: gt_refs_def table_ok_def split: if_splits)
  then have "gt_blocks t ! g \<noteq> None" using assms(1) by (simp add: table_ok_def)
  then obtain bs where bs: "gt_blocks t ! g = Some bs" by blast
  then have "gt_group_blocks g t = Some bs" using g(1) by (simp add: gt_group_blocks_def)
  moreover have "length bs = m" using assms(1) calculation mem_live [of bs t] by (auto simp: table_ok_def)
  ultimately show ?thesis using that g bs by blast
qed

lemma default_table_ok: "table_ok m {#} group_table_default"
  by (simp add: table_ok_def group_table_default_def live_def gt_refs_def)

lemma live_update:
  assumes "i < length (gt_blocks t)"
  shows "mset (live (t\<lparr>gt_blocks := (gt_blocks t)[i := b]\<rparr>)) + mset (case_option [] (\<lambda>b. [b]) (gt_blocks t ! i))
    = mset (live t) + mset (case_option [] (\<lambda>b. [b]) b)"
  using mset_concat_update [OF assms, of "case_option [] (\<lambda>b. [b])" b] by (simp add: live_def)

lemma live_ignores [simp]:
  "live (t\<lparr>gt_ref_counts := r\<rparr>) = live t" "live (t\<lparr>gt_free_ids := f\<rparr>) = live t"
  by (simp_all add: live_def)

text \<open>A new group.\<close>

lemma insert_ok:
  assumes "table_ok m H t" "length bs = m"
  obtains g t' where "gt_insert bs t = Some (g, t')" "table_ok m (add_mset g H) t'" "g \<notin># H"
    "mset (live t') = add_mset bs (mset (live t))"
    "\<forall>i. gt_group_blocks i t' = (if i = g then Some bs else gt_group_blocks i t)"
proof (cases "gt_free_ids t = []")
  case True
  let ?g = "length (gt_blocks t)"
  define t' where "t' = t\<lparr>gt_blocks := gt_blocks t @ [Some bs], gt_ref_counts := gt_ref_counts t @ [1]\<rparr>"
  have "gt_refs ?g t = Multiset.count H ?g" using assms(1) by (simp add: table_ok_def)
  then have new: "?g \<notin># H" using assms(1) by (simp add: gt_refs_def table_ok_def not_in_iff)
  have live: "live t' = live t @ [bs]" by (simp add: live_def t'_def)
  have blocks: "gt_group_blocks i t' = (if i = ?g then Some bs else gt_group_blocks i t)" for i
    by (simp add: gt_group_blocks_def t'_def nth_append)
  have "table_ok m (add_mset ?g H) t'"
  proof -
    have "gt_refs i t' = (if i = ?g then 1 else gt_refs i t)" for i
      using assms(1) by (simp add: gt_refs_def t'_def nth_append table_ok_def)
    then have "gt_refs i t' = Multiset.count (add_mset ?g H) i" for i
      using assms(1) new by (auto simp add: table_ok_def not_in_iff)
    moreover have "set (gt_free_ids t') = {i. i < length (gt_blocks t') \<and> gt_blocks t' ! i = None}"
      using assms(1) by (auto simp: table_ok_def t'_def nth_append)
    moreover have "\<forall>i < length (gt_blocks t'). gt_blocks t' ! i = None \<longleftrightarrow> gt_ref_counts t' ! i = 0"
      using assms(1) by (auto simp: table_ok_def t'_def nth_append less_Suc_eq)
    ultimately show ?thesis using assms live by (auto simp: table_ok_def) (simp_all add: t'_def)
  qed
  with new live blocks show ?thesis
    by (intro that [of ?g t']) (simp_all add: gt_insert_def True t'_def)
next
  case False
  define g where "g = last (gt_free_ids t)"
  have g: "g \<in> set (gt_free_ids t)" using False by (simp add: g_def)
  then have len: "g < length (gt_blocks t)" "gt_blocks t ! g = None" "length (gt_ref_counts t) = length (gt_blocks t)"
    using assms(1) by (auto simp: table_ok_def)
  then have zero: "gt_ref_counts t ! g = 0" using assms(1) by (simp add: table_ok_def)
  define t' where "t' = t\<lparr>gt_blocks := (gt_blocks t)[g := Some bs], gt_ref_counts := (gt_ref_counts t)[g := 1],
    gt_free_ids := butlast (gt_free_ids t)\<rparr>"
  have "gt_refs g t = Multiset.count H g" using assms(1) by (simp add: table_ok_def)
  then have new: "g \<notin># H" using zero len by (simp add: gt_refs_def not_in_iff)
  have split: "gt_free_ids t = butlast (gt_free_ids t) @ [g]" using False by (simp add: g_def)
  have dist: "distinct (gt_free_ids t)" using assms(1) by (simp add: table_ok_def)
  have live: "mset (live t') = add_mset bs (mset (live t))"
    using live_update [OF len(1), of "Some bs"] by (simp add: t'_def len(2) live_def)
  have blocks: "gt_group_blocks i t' = (if i = g then Some bs else gt_group_blocks i t)" for i
    using len(1) by (simp add: gt_group_blocks_def t'_def)
  have "table_ok m (add_mset g H) t'"
  proof -
    have "gt_refs i t' = (if i = g then 1 else gt_refs i t)" for i
      using len by (simp add: gt_refs_def t'_def)
    then have "gt_refs i t' = Multiset.count (add_mset g H) i" for i
      using assms(1) new by (auto simp add: table_ok_def not_in_iff)
    moreover have "set (gt_free_ids t') = {i. i < length (gt_blocks t') \<and> gt_blocks t' ! i = None}"
    proof -
      have "set (butlast (gt_free_ids t)) = set (gt_free_ids t) - {g}"
        using dist by (subst (2) split, subst (asm) split) auto
      then show ?thesis using assms(1) len(1) by (auto simp: table_ok_def t'_def nth_list_update)
    qed
    moreover have "distinct (gt_free_ids t')" using dist by (simp add: t'_def distinct_butlast)
    moreover have "\<forall>i < length (gt_blocks t'). gt_blocks t' ! i = None \<longleftrightarrow> gt_ref_counts t' ! i = 0"
      using assms(1) len by (auto simp: table_ok_def t'_def nth_list_update)
    moreover have "\<forall>b \<in> set (live t'). length b = m"
      using assms live by (auto simp: table_ok_def dest!: mset_eq_setD [of _ "bs # _", simplified])
    ultimately show ?thesis using len by (simp add: table_ok_def) (simp add: t'_def)
  qed
  with new live blocks len False show ?thesis
    by (intro that [of g t']) (simp_all add: gt_insert_def Let_def t'_def g_def [symmetric])
qed

text \<open>One more holder, one fewer.\<close>

lemma retain_ok:
  assumes "table_ok m H t" "g \<in># H"
  obtains t' where "gt_retain g t = Some t'" "table_ok m (add_mset g H) t'" "gt_blocks t' = gt_blocks t"
proof -
  obtain bs where bs: "gt_group_blocks g t = Some bs" "length bs = m" "g < length (gt_blocks t)"
    "gt_ref_counts t ! g = Multiset.count H g" "gt_blocks t ! g = Some bs"
    using assms by (rule held_has_blocks)
  define t' where "t' = t\<lparr>gt_ref_counts := (gt_ref_counts t)[g := gt_ref_counts t ! g + 1]\<rparr>"
  have len: "length (gt_ref_counts t) = length (gt_blocks t)" using assms(1) by (simp add: table_ok_def)
  have "gt_refs i t' = (if i = g then gt_refs g t + 1 else gt_refs i t)" for i
    using bs(3) len by (simp add: gt_refs_def t'_def)
  then have "gt_refs i t' = Multiset.count (add_mset g H) i" for i
    using assms(1) by (simp add: table_ok_def)
  moreover have "\<forall>i < length (gt_blocks t'). gt_blocks t' ! i = None \<longleftrightarrow> gt_ref_counts t' ! i = 0"
    using assms(1) bs len by (auto simp: table_ok_def t'_def nth_list_update)
  ultimately have "table_ok m (add_mset g H) t'"
    using assms(1) by (simp add: table_ok_def) (simp add: t'_def)
  with bs len assms(2) show ?thesis by (intro that [of t']) (simp_all add: gt_retain_def t'_def)
qed

lemma release_ok_table:
  assumes "table_ok m H t" "g \<in># H"
  obtains freed t' where "gt_release g t = Some (freed, t')" "table_ok m (H - {#g#}) t'"
    "mset (live t) = mset (live t') + mset (case_option [] (\<lambda>b. [b]) freed)"
    "freed = (if Multiset.count H g = 1 then gt_group_blocks g t else None)"
    "\<forall>i. gt_group_blocks i t' = (if i = g \<and> Multiset.count H g = 1 then None else gt_group_blocks i t)"
    "gt_group_blocks g t \<noteq> None"
proof -
  obtain bs where bs: "gt_group_blocks g t = Some bs" "length bs = m" "g < length (gt_blocks t)"
    "gt_ref_counts t ! g = Multiset.count H g" "gt_blocks t ! g = Some bs"
    using assms by (rule held_has_blocks)
  have len: "length (gt_ref_counts t) = length (gt_blocks t)" using assms(1) by (simp add: table_ok_def)
  have pos: "0 < Multiset.count H g" using assms(2) by simp
  define t1 where "t1 = t\<lparr>gt_ref_counts := (gt_ref_counts t)[g := gt_ref_counts t ! g - 1]\<rparr>"
  have "gt_refs i t1 = (if i = g then gt_refs g t - 1 else gt_refs i t)" for i
    using bs(3) len by (simp add: gt_refs_def t1_def)
  then have refs: "gt_refs i t1 = Multiset.count (H - {#g#}) i" for i
    using assms(1) by (simp add: table_ok_def)
  show ?thesis
  proof (cases "Multiset.count H g = 1")
    case False
    then have "\<forall>i < length (gt_blocks t1). gt_blocks t1 ! i = None \<longleftrightarrow> gt_ref_counts t1 ! i = 0"
      using assms(1) bs len pos by (auto simp: table_ok_def t1_def nth_list_update)
    then have "table_ok m (H - {#g#}) t1"
      using assms(1) refs by (simp add: table_ok_def) (simp add: t1_def)
    moreover have "1 < Multiset.count H g" using False pos by linarith
    ultimately show ?thesis using False bs len assms(2)
      by (intro that [of None t1]) (simp_all add: gt_release_def Let_def t1_def gt_group_blocks_def)
  next
    case True
    define t' where "t' = t1\<lparr>gt_blocks := (gt_blocks t)[g := None], gt_free_ids := gt_free_ids t @ [g]\<rparr>"
    have live: "mset (live t) = mset (live t') + {#bs#}"
      using live_update [OF bs(3), of None] by (simp add: t'_def t1_def bs(5) live_def)
    have "gt_refs i t' = Multiset.count (H - {#g#}) i" for i
    proof -
      have "gt_refs i t' = gt_refs i t1" by (simp add: gt_refs_def t'_def)
      then show ?thesis using refs [of i] by simp
    qed
    moreover have "set (gt_free_ids t') = {i. i < length (gt_blocks t') \<and> gt_blocks t' ! i = None}"
      using assms(1) bs(3) by (auto simp: table_ok_def t'_def t1_def nth_list_update)
    moreover have "distinct (gt_free_ids t')"
      using assms(1) bs(5) by (auto simp: table_ok_def t'_def t1_def)
    moreover have "\<forall>i < length (gt_blocks t'). gt_blocks t' ! i = None \<longleftrightarrow> gt_ref_counts t' ! i = 0"
      using assms(1) bs len True by (auto simp: table_ok_def t'_def t1_def nth_list_update)
    moreover have "set (live t') \<subseteq> set (live t)"
      using live by (metis set_mset_mset mset_subset_eq_add_left set_mset_mono)
    ultimately have "table_ok m (H - {#g#}) t'"
      using assms(1) len by (auto simp: table_ok_def) (simp_all add: t'_def t1_def)
    moreover have "gt_release g t = Some (Some bs, t')"
      using bs len True by (simp add: gt_release_def Let_def t1_def t'_def)
    moreover have "gt_group_blocks i t' = (if i = g then None else gt_group_blocks i t)" for i
      using bs(3) by (simp add: gt_group_blocks_def t'_def t1_def)
    ultimately show ?thesis using live bs(1) True by (intro that [of "Some bs" t']) simp_all
  qed
qed


section \<open>Layers\<close>

definition layer_blocks :: "nat \<Rightarrow> nat list list \<Rightarrow> nat multiset" where
  "layer_blocks l bss = mset (map (\<lambda>bs. bs ! l) bss)"

lemma layer_blocks_mset: "mset bss = mset bss' \<Longrightarrow> layer_blocks l bss = layer_blocks l bss'"
  by (simp add: layer_blocks_def)

lemma layer_blocks_simps [simp]:
  "layer_blocks l [] = {#}" "layer_blocks l (bs # bss) = add_mset (bs ! l) (layer_blocks l bss)"
  "layer_blocks l (xs @ ys) = layer_blocks l xs + layer_blocks l ys"
  by (simp_all add: layer_blocks_def)

lemma acquire_each_ok:
  assumes "\<forall>s \<in> set ss. 0 < free_block_count s"
  shows "\<exists>bs ss'. acquire_each ss = Some (bs, ss') \<and> length bs = length ss \<and> length ss' = length ss
    \<and> (\<forall>l < length ss. mset (pg_free (ss ! l)) = add_mset (bs ! l) (mset (pg_free (ss' ! l)))
        \<and> store_shape (ss' ! l) = store_shape (ss ! l) \<and> row_bits_at (ss' ! l) = row_bits_at (ss ! l)
        \<and> (\<forall>n. store_ok n (ss' ! l) = store_ok n (ss ! l)))"
  using assms
proof (induction ss)
  case (Cons s ss)
  then obtain bs ss' where rest: "acquire_each ss = Some (bs, ss')" "length bs = length ss" "length ss' = length ss"
    "\<forall>l < length ss. mset (pg_free (ss ! l)) = add_mset (bs ! l) (mset (pg_free (ss' ! l)))
        \<and> store_shape (ss' ! l) = store_shape (ss ! l) \<and> row_bits_at (ss' ! l) = row_bits_at (ss ! l)
        \<and> (\<forall>n. store_ok n (ss' ! l) = store_ok n (ss ! l))" by auto
  have "pg_free s \<noteq> []" using Cons.prems by (simp add: free_block_count_def)
  then obtain b s' where a: "acquire_block s = Some (b, s')" by (auto simp: acquire_block_def)
  have "acquire_each (s # ss) = Some (b # bs, s' # ss')" using rest(1) a by simp
  moreover have "mset (pg_free ((s # ss) ! l)) = add_mset ((b # bs) ! l) (mset (pg_free ((s' # ss') ! l)))
        \<and> store_shape ((s' # ss') ! l) = store_shape ((s # ss) ! l)
        \<and> row_bits_at ((s' # ss') ! l) = row_bits_at ((s # ss) ! l)
        \<and> (\<forall>n. store_ok n ((s' # ss') ! l) = store_ok n ((s # ss) ! l))" if "l < length (s # ss)" for l
    using acquire_keeps [OF a] rest(4) that by (cases l) auto
  ultimately show ?case using rest(2,3) by (intro exI [of _ "b # bs"] exI [of _ "s' # ss'"]) auto
qed simp

lemma release_each_nth:
  "length bs = length ss \<Longrightarrow> length (release_each bs ss) = length ss
     \<and> (\<forall>l < length ss. release_each bs ss ! l = release_block (bs ! l) (ss ! l))"
proof (induction bs ss rule: release_each.induct)
  case (1 b bs s ss)
  then show ?case by (auto simp: nth_Cons split: nat.splits)
qed auto

lemma release_block_keeps [simp]:
  "store_shape (release_block b s) = store_shape s" "row_bits_at (release_block b s) = row_bits_at s"
  "store_ok n (release_block b s) = store_ok n s"
  by (simp_all add: release_block_def store_shape_def paged_dtype_def row_bits_at_def fun_eq_iff pg_k_width_def
      pg_v_width_def store_ok_def)

text \<open>The accounts of the whole: per layer, the free blocks, those of the live groups and those
  on their way back make up the layer.\<close>

definition groups_ok :: "nat list \<Rightarrow> nat multiset \<Rightarrow> nat list list \<Rightarrow> shared_kv \<Rightarrow> bool" where
  "groups_ok ns H flying s \<longleftrightarrow>
     length (sp_layers s) = length ns \<and> table_ok (length ns) H (sp_groups s)
     \<and> (\<forall>bs \<in> set flying. length bs = length ns)
     \<and> (\<forall>l < length ns. store_ok (ns ! l) (sp_layers s ! l)
          \<and> mset (pg_free (sp_layers s ! l)) + layer_blocks l (live (sp_groups s)) + layer_blocks l flying
            = mset [0..<ns ! l])"

text \<open>What no operation on groups touches: the rows and shapes of the layers.\<close>

definition rows_same :: "shared_kv \<Rightarrow> shared_kv \<Rightarrow> bool" where
  "rows_same s s' \<longleftrightarrow> length (sp_layers s') = length (sp_layers s)
     \<and> (\<forall>l < length (sp_layers s). store_shape (sp_layers s' ! l) = store_shape (sp_layers s ! l)
          \<and> row_bits_at (sp_layers s' ! l) = row_bits_at (sp_layers s ! l))"

lemma rows_same_refl [simp]: "rows_same s s"
  by (simp add: rows_same_def)

lemma rows_same_trans: "rows_same s s1 \<Longrightarrow> rows_same s1 s2 \<Longrightarrow> rows_same s s2"
  by (simp add: rows_same_def)

lemma acquire_group_ok:
  assumes "groups_ok ns H flying s"
  shows "(acquire_group s = Some (None, s) \<and> (\<exists>l < length ns. pg_free (sp_layers s ! l) = []))
    \<or> (\<exists>g s' bs. acquire_group s = Some (Some g, s') \<and> groups_ok ns (add_mset g H) flying s' \<and> g \<notin># H
        \<and> rows_same s s' \<and> length bs = length ns
        \<and> (\<forall>l < length ns. mset (pg_free (sp_layers s ! l)) = add_mset (bs ! l) (mset (pg_free (sp_layers s' ! l))))
        \<and> (\<forall>i. group_blocks i s' = (if i = g then Some bs else group_blocks i s)))"
proof (cases "\<exists>st \<in> set (sp_layers s). free_block_count st = 0")
  case True
  then show ?thesis using assms by (auto simp: acquire_group_def groups_ok_def in_set_conv_nth free_block_count_def)
next
  case False
  then have "\<forall>st \<in> set (sp_layers s). 0 < free_block_count st" by auto
  from acquire_each_ok [OF this] obtain bs ss' where a: "acquire_each (sp_layers s) = Some (bs, ss')"
    "length bs = length (sp_layers s)" "length ss' = length (sp_layers s)"
    "\<And>l. l < length (sp_layers s) \<Longrightarrow> mset (pg_free (sp_layers s ! l)) = add_mset (bs ! l) (mset (pg_free (ss' ! l)))
        \<and> store_shape (ss' ! l) = store_shape (sp_layers s ! l) \<and> row_bits_at (ss' ! l) = row_bits_at (sp_layers s ! l)
        \<and> (\<forall>n. store_ok n (ss' ! l) = store_ok n (sp_layers s ! l))" by blast
  have n: "length (sp_layers s) = length ns" and t: "table_ok (length ns) H (sp_groups s)"
    using assms by (simp_all add: groups_ok_def)
  from t have "length bs = length ns" by (simp add: a(2) n)
  with t obtain g t' where g: "gt_insert bs (sp_groups s) = Some (g, t')" "table_ok (length ns) (add_mset g H) t'"
    "g \<notin># H" "mset (live t') = add_mset bs (mset (live (sp_groups s)))"
    "\<forall>i. gt_group_blocks i t' = (if i = g then Some bs else gt_group_blocks i (sp_groups s))"
    by (rule insert_ok)
  define s' where "s' = s\<lparr>sp_layers := ss', sp_groups := t'\<rparr>"
  have s': "sp_layers s' = ss'" "sp_groups s' = t'" by (simp_all add: s'_def)
  have "layer_blocks l (live t') = add_mset (bs ! l) (layer_blocks l (live (sp_groups s)))" for l
    using layer_blocks_mset [of "live t'" "bs # live (sp_groups s)" l] g(4) by simp
  then have "groups_ok ns (add_mset g H) flying s'"
    using assms a(3,4) g(2) n by (simp add: groups_ok_def s')
  moreover have "rows_same s s'" using a(3,4) by (simp add: rows_same_def s')
  moreover have "acquire_group s = Some (Some g, s')"
    using False a(1) g(1) by (simp add: acquire_group_def s'_def)
  moreover have "\<forall>i. group_blocks i s' = (if i = g then Some bs else group_blocks i s)"
    using g(5) by (simp add: group_blocks_def s')
  ultimately show ?thesis using g(3) a(2,4) n s' by (intro disjI2 exI [of _ g] exI [of _ s'] exI [of _ bs]) simp
qed

lemma retain_group_ok:
  assumes "groups_ok ns H flying s" "g \<in># H"
  obtains s' where "retain_group g s = Some s'" "groups_ok ns (add_mset g H) flying s'"
    "sp_layers s' = sp_layers s" "\<forall>i. group_blocks i s' = group_blocks i s"
proof -
  have "table_ok (length ns) H (sp_groups s)" using assms(1) by (simp add: groups_ok_def)
  from this assms(2) obtain t' where t': "gt_retain g (sp_groups s) = Some t'" "table_ok (length ns) (add_mset g H) t'"
    "gt_blocks t' = gt_blocks (sp_groups s)"
    by (rule retain_ok)
  have "live t' = live (sp_groups s)" using t'(3) by (simp add: live_def)
  with assms(1) t' show ?thesis
    by (intro that [of "s\<lparr>sp_groups := t'\<rparr>"])
      (simp_all add: retain_group_def groups_ok_def group_blocks_def gt_group_blocks_def)
qed

lemma drop_holder_ok:
  assumes "groups_ok ns H flying s" "g \<in># H"
  obtains freed s' where "drop_holder g s = Some (freed, s')"
    "groups_ok ns (H - {#g#}) (flying @ case_option [] (\<lambda>b. [b]) freed) s'"
    "freed = (if Multiset.count H g = 1 then group_blocks g s else None)" "sp_layers s' = sp_layers s"
    "\<forall>i. group_blocks i s' = (if i = g \<and> Multiset.count H g = 1 then None else group_blocks i s)"
    "group_blocks g s \<noteq> None"
proof -
  have t: "table_ok (length ns) H (sp_groups s)" using assms(1) by (simp add: groups_ok_def)
  from this assms(2) obtain freed t' where r: "gt_release g (sp_groups s) = Some (freed, t')"
    "table_ok (length ns) (H - {#g#}) t'"
    "mset (live (sp_groups s)) = mset (live t') + mset (case_option [] (\<lambda>b. [b]) freed)"
    "freed = (if Multiset.count H g = 1 then gt_group_blocks g (sp_groups s) else None)"
    "\<forall>i. gt_group_blocks i t' = (if i = g \<and> Multiset.count H g = 1 then None else gt_group_blocks i (sp_groups s))"
    "gt_group_blocks g (sp_groups s) \<noteq> None"
    by (rule release_ok_table)
  have split: "layer_blocks l (live (sp_groups s)) = layer_blocks l (live t') + layer_blocks l (case_option [] (\<lambda>b. [b]) freed)" for l
    using layer_blocks_mset [of "live (sp_groups s)" "live t' @ case_option [] (\<lambda>b. [b]) freed" l] r(3) by simp
  have "\<forall>bs \<in> set (case_option [] (\<lambda>b. [b]) freed). length bs = length ns"
    using r(4,6) t mem_live [of _ "sp_groups s"] by (auto simp: table_ok_def split: option.splits if_splits)
  then have "groups_ok ns (H - {#g#}) (flying @ case_option [] (\<lambda>b. [b]) freed) (s\<lparr>sp_groups := t'\<rparr>)"
    using assms(1) r(2) split by (auto simp: groups_ok_def add_ac)
  with r show ?thesis
    by (intro that [of freed "s\<lparr>sp_groups := t'\<rparr>"]) (simp_all add: drop_holder_def group_blocks_def)
qed

lemma return_blocks_ok:
  assumes "groups_ok ns H (xs @ bs # ys) s"
  shows "groups_ok ns H (xs @ ys) (return_blocks bs s)" "rows_same s (return_blocks bs s)"
    "group_blocks i (return_blocks bs s) = group_blocks i s"
proof -
  have "length bs = length (sp_layers s)" using assms by (simp add: groups_ok_def)
  note nth = release_each_nth [OF this]
  show "groups_ok ns H (xs @ ys) (return_blocks bs s)"
    using assms nth by (auto simp: groups_ok_def return_blocks_def) (simp_all add: release_block_def)
  show "rows_same s (return_blocks bs s)" using nth by (simp add: rows_same_def return_blocks_def)
  show "group_blocks i (return_blocks bs s) = group_blocks i s" by (simp add: group_blocks_def return_blocks_def)
qed

text \<open>Both sections of a release.\<close>

lemma release_group_ok:
  assumes "groups_ok ns H flying s" "g \<in># H"
  obtains s' where "release_group g s = Some (Multiset.count H g = 1, s')" "groups_ok ns (H - {#g#}) flying s'"
    "rows_same s s'"
    "\<forall>i. group_blocks i s' = (if i = g \<and> Multiset.count H g = 1 then None else group_blocks i s)"
proof -
  from assms obtain freed s1 where d: "drop_holder g s = Some (freed, s1)"
    "groups_ok ns (H - {#g#}) (flying @ case_option [] (\<lambda>b. [b]) freed) s1"
    "freed = (if Multiset.count H g = 1 then group_blocks g s else None)" "sp_layers s1 = sp_layers s"
    "\<forall>i. group_blocks i s1 = (if i = g \<and> Multiset.count H g = 1 then None else group_blocks i s)"
    "group_blocks g s \<noteq> None"
    by (rule drop_holder_ok)
  have same: "rows_same s s1" by (simp add: rows_same_def d(4))
  show ?thesis
  proof (cases freed)
    case None
    with d same show ?thesis by (intro that [of s1]) (auto simp: release_group_def split: if_splits)
  next
    case (Some bs)
    with d(2) have "groups_ok ns (H - {#g#}) (flying @ bs # []) s1" by simp
    note r = return_blocks_ok [OF this]
    show ?thesis
      using d r Some rows_same_trans [OF same r(2)]
      by (intro that [of "return_blocks bs s1"]) (auto simp: release_group_def split: if_splits)
  qed
qed


section \<open>Holders and interleavings\<close>

text \<open>The group holdings of every holder, and the blocks of released groups that have not reached
  their layers yet.  A holder takes a new group, is given a hold on a group another holder has,
  drops a hold (the first section of \<open>release_group\<close>), and the second section of some release
  under way runs.\<close>

type_synonym world = "shared_kv \<times> nat list list \<times> nat list list"

datatype world_op = Take nat | Share nat nat nat | Give_up nat nat | Return nat

definition remove_at :: "nat \<Rightarrow> 'a list \<Rightarrow> 'a list" where
  "remove_at i xs = take i xs @ drop (Suc i) xs"

fun world_step :: "world_op \<Rightarrow> world \<Rightarrow> world option" where
  "world_step (Take h) (s, hs, fl) =
     (if h < length hs then
        map_option (\<lambda>(g, s). (s, (case g of None \<Rightarrow> hs | Some g \<Rightarrow> hs[h := hs ! h @ [g]]), fl)) (acquire_group s)
      else Some (s, hs, fl))"
| "world_step (Share h j h') (s, hs, fl) =
     (if h < length hs \<and> j < length (hs ! h) \<and> h' < length hs then
        map_option (\<lambda>s. (s, hs[h' := hs ! h' @ [hs ! h ! j]], fl)) (retain_group (hs ! h ! j) s)
      else Some (s, hs, fl))"
| "world_step (Give_up h j) (s, hs, fl) =
     (if h < length hs \<and> j < length (hs ! h) then
        map_option (\<lambda>(freed, s). (s, hs[h := remove_at j (hs ! h)], fl @ case_option [] (\<lambda>b. [b]) freed))
          (drop_holder (hs ! h ! j) s)
      else Some (s, hs, fl))"
| "world_step (Return j) (s, hs, fl) =
     Some (if j < length fl then (return_blocks (fl ! j) s, hs, remove_at j fl) else (s, hs, fl))"

fun world_run :: "world_op list \<Rightarrow> world \<Rightarrow> world option" where
  "world_run [] w = Some w"
| "world_run (opn # ops) w = Option.bind (world_step opn w) (world_run ops)"

definition world_ok :: "nat list \<Rightarrow> world \<Rightarrow> bool" where
  "world_ok ns = (\<lambda>(s, hs, fl). groups_ok ns (mset (concat hs)) fl s)"

lemma mset_remove_at: "i < length xs \<Longrightarrow> mset (remove_at i xs) = mset xs - {#xs ! i#}"
proof -
  assume "i < length xs"
  then have "xs = take i xs @ xs ! i # drop (Suc i) xs" by (rule id_take_nth_drop)
  then have "mset xs = mset (take i xs) + add_mset (xs ! i) (mset (drop (Suc i) xs))"
    by (metis mset.simps(2) mset_append)
  then show ?thesis by (simp add: remove_at_def)
qed

lemma mset_concat_list_update:
  "h < length hs \<Longrightarrow> mset (concat (hs[h := xs])) + mset (hs ! h) = mset (concat hs) + mset xs"
  using mset_concat_update [of h hs id xs] by simp

lemma holds_mset:
  assumes "h < length hs" "j < length (hs ! h)"
  shows "hs ! h ! j \<in># mset (concat hs)" "{#hs ! h ! j#} \<subseteq># mset (hs ! h)"
  using assms by (auto intro!: bexI [of _ "hs ! h"])

lemma mset_concat_remove:
  assumes "h < length hs" "j < length (hs ! h)"
  shows "mset (concat (hs[h := remove_at j (hs ! h)])) = mset (concat hs) - {#hs ! h ! j#}"
proof -
  let ?g = "hs ! h ! j"
  obtain B where B: "mset (hs ! h) = add_mset ?g B" using assms(2) by (meson multi_member_split nth_mem_mset)
  have "mset (concat (hs[h := remove_at j (hs ! h)])) + mset (hs ! h) = mset (concat hs) + (mset (hs ! h) - {#?g#})"
    using mset_concat_list_update [OF assms(1)] mset_remove_at [OF assms(2)] by simp
  then have "add_mset ?g (mset (concat (hs[h := remove_at j (hs ! h)]))) = mset (concat hs)"
    unfolding B by simp
  from this [symmetric] show ?thesis by simp
qed

lemma world_step_ok:
  assumes "world_ok ns (s, hs, fl)"
  shows "\<exists>w. world_step opn (s, hs, fl) = Some w \<and> world_ok ns w \<and> rows_same s (fst w)
    \<and> length (fst (snd w)) = length hs"
proof -
  have ok: "groups_ok ns (mset (concat hs)) fl s" using assms by (simp add: world_ok_def)
  show ?thesis
  proof (cases opn)
    case (Take h)
    show ?thesis
    proof (cases "h < length hs")
      case True
      have "mset (concat (hs[h := hs ! h @ [g]])) = add_mset g (mset (concat hs))" for g
        using mset_concat_list_update [OF True, of "hs ! h @ [g]"] by simp
      with acquire_group_ok [OF ok] ok True Take show ?thesis by (auto simp: world_ok_def)
    qed (use Take ok in \<open>simp add: world_ok_def\<close>)
  next
    case (Share h j h')
    show ?thesis
    proof (cases "h < length hs \<and> j < length (hs ! h) \<and> h' < length hs")
      case True
      then have h: "h < length hs" "j < length (hs ! h)" "h' < length hs" by simp_all
      have "mset (concat (hs[h' := hs ! h' @ [hs ! h ! j]])) = add_mset (hs ! h ! j) (mset (concat hs))"
        using mset_concat_list_update [OF h(3), of "hs ! h' @ [hs ! h ! j]"] by simp
      moreover from ok holds_mset(1) [OF h(1,2)] obtain s' where "retain_group (hs ! h ! j) s = Some s'"
        "groups_ok ns (add_mset (hs ! h ! j) (mset (concat hs))) fl s'" "sp_layers s' = sp_layers s"
        by (rule retain_group_ok)
      ultimately show ?thesis using Share True by (simp add: world_ok_def rows_same_def)
    qed (use Share ok in \<open>auto simp: world_ok_def\<close>)
  next
    case (Give_up h j)
    show ?thesis
    proof (cases "h < length hs \<and> j < length (hs ! h)")
      case True
      then have h: "h < length hs" "j < length (hs ! h)" by simp_all
      let ?g = "hs ! h ! j"
      note ms = mset_concat_remove [OF h]
      from ok holds_mset(1) [OF h] obtain freed s' where "drop_holder ?g s = Some (freed, s')"
        "groups_ok ns (mset (concat hs) - {#?g#}) (fl @ case_option [] (\<lambda>b. [b]) freed) s'" "sp_layers s' = sp_layers s"
        by (rule drop_holder_ok)
      with True Give_up ms show ?thesis by (simp add: world_ok_def rows_same_def)
    qed (use Give_up ok in \<open>auto simp: world_ok_def\<close>)
  next
    case (Return j)
    show ?thesis
    proof (cases "j < length fl")
      case True
      from id_take_nth_drop [OF True] ok
      have "groups_ok ns (mset (concat hs)) (take j fl @ fl ! j # drop (Suc j) fl) s" by simp
      note return_blocks_ok [OF this]
      with True Return show ?thesis by (simp add: world_ok_def remove_at_def)
    qed (use Return ok in \<open>simp add: world_ok_def\<close>)
  qed
qed

lemma world_run_ok:
  assumes "world_ok ns w"
  shows "\<exists>w'. world_run ops w = Some w' \<and> world_ok ns w' \<and> rows_same (fst w) (fst w')"
  using assms
proof (induction ops arbitrary: w)
  case (Cons opn ops)
  obtain s hs fl where w: "w = (s, hs, fl)" by (cases w)
  from Cons.prems obtain w1 where w1: "world_step opn w = Some w1" "world_ok ns w1" "rows_same (fst w) (fst w1)"
    using world_step_ok [of ns s hs fl opn] unfolding w by auto
  from Cons.IH [OF w1(2)] obtain w' where "world_run ops w1 = Some w'" "world_ok ns w'" "rows_same (fst w1) (fst w')"
    by blast
  with w1 rows_same_trans show ?case by (intro exI [of _ w']) auto
qed simp

lemma those_replicate: "those (replicate n x) = (case x of None \<Rightarrow> if n = 0 then Some [] else None | Some y \<Rightarrow> Some (replicate n y))"
  by (induction n) (auto split: option.splits)

lemma new_shared_ok:
  assumes "sp_new n_layers block_size blocks heads head_dim = Some s"
  shows "groups_ok (replicate n_layers blocks) {#} [] s"
proof (cases "n_layers = 0")
  case True
  then show ?thesis using assms default_table_ok [of 0]
    by (auto simp: sp_new_def groups_ok_def sp_from_stores_def)
next
  case False
  with assms obtain st where st: "paged_new block_size blocks heads head_dim = Some st"
    "s = sp_from_stores (replicate n_layers st)"
    by (auto simp: sp_new_def those_replicate split: option.splits)
  have "store_ok blocks st" "pg_free st = rev [0..<blocks]"
    using paged_new_ok st(1) unfolding paged_new_def by blast+
  with st(2) default_table_ok [of n_layers] show ?thesis
    by (auto simp: groups_ok_def sp_from_stores_def group_table_default_def live_def)
qed

text \<open>What the accounts say of a world, in its own terms.\<close>

lemma live_count: "layer_blocks l (live t) = image_mset (\<lambda>bs. bs ! l) (mset (live t))"
  by (simp add: layer_blocks_def)

lemma no_holders_no_live:
  assumes "table_ok m {#} t"
  shows "live t = []"
proof -
  have "gt_blocks t ! i = None" if "i < length (gt_blocks t)" for i
  proof -
    have "gt_refs i t = 0" using assms by (simp add: table_ok_def)
    then show ?thesis using assms that by (auto simp: table_ok_def gt_refs_def)
  qed
  then have "\<forall>o' \<in> set (gt_blocks t). o' = None" by (metis in_set_conv_nth)
  then show ?thesis by (auto simp: live_def)
qed

lemma two_live:
  assumes "gt_group_blocks g t = Some bs" "gt_group_blocks g' t = Some bs'" "g \<noteq> g'"
  shows "{#bs, bs'#} \<subseteq># mset (live t)"
proof -
  have g: "g < length (gt_blocks t)" "gt_blocks t ! g = Some bs"
    using assms(1) by (simp_all add: gt_group_blocks_def split: if_splits)
  let ?t = "t\<lparr>gt_blocks := (gt_blocks t)[g := None]\<rparr>"
  have "gt_group_blocks g' ?t = Some bs'" using assms(2,3) by (simp add: gt_group_blocks_def split: if_splits)
  then have "{#bs'#} \<subseteq># mset (live ?t)" using mem_live [of bs' ?t] by auto
  moreover have "mset (live t) = add_mset bs (mset (live ?t))"
    using live_update [OF g(1), of None] g(2) by simp
  ultimately show ?thesis by simp
qed

text \<open>The blocks of a group are in no other place.\<close>

lemma group_blocks_private:
  assumes "groups_ok ns H fl s" "group_blocks g s = Some bs" "l < length ns"
  shows "length bs = length ns" "bs ! l < ns ! l" "bs ! l \<notin> set (pg_free (sp_layers s ! l))"
    "\<And>g' bs'. g' \<noteq> g \<Longrightarrow> group_blocks g' s = Some bs' \<Longrightarrow> bs' ! l \<noteq> bs ! l"
proof -
  let ?t = "sp_groups s"
  have b: "gt_group_blocks g ?t = Some bs" using assms(2) by (simp add: group_blocks_def)
  then have mem: "bs \<in> set (live ?t)" using mem_live by blast
  then show "length bs = length ns" using assms(1) by (simp add: groups_ok_def table_ok_def)
  have all: "mset (pg_free (sp_layers s ! l)) + layer_blocks l (live ?t) + layer_blocks l fl = mset [0..<ns ! l]"
    using assms(1,3) by (simp add: groups_ok_def)
  have one: "Multiset.count (mset [0..<ns ! l]) b \<le> 1" for b
    using distinct_count_atmost_1 [of "[0..<ns ! l]"] by auto
  have "bs ! l \<in># layer_blocks l (live ?t)" using mem by (auto simp: layer_blocks_def)
  then have c: "1 \<le> Multiset.count (layer_blocks l (live ?t)) (bs ! l)"
    by (metis One_nat_def Suc_leI count_greater_zero_iff)
  have "bs ! l \<in># mset [0..<ns ! l]" unfolding all [symmetric] using \<open>bs ! l \<in># _\<close> by simp
  then show "bs ! l < ns ! l" by simp
  have "Multiset.count (mset (pg_free (sp_layers s ! l))) (bs ! l) = 0"
    using one [of "bs ! l"] c unfolding all [symmetric] count_union by linarith
  then show "bs ! l \<notin> set (pg_free (sp_layers s ! l))" by (simp add: count_mset_0_iff)
  fix g' bs' assume g': "g' \<noteq> g" "group_blocks g' s = Some bs'"
  then have "{#bs, bs'#} \<subseteq># mset (live ?t)" using two_live [OF b] by (simp add: group_blocks_def)
  then have sub: "{#bs ! l, bs' ! l#} \<subseteq># layer_blocks l (live ?t)"
    unfolding live_count using image_mset_subseteq_mono [of "{#bs, bs'#}" _ "\<lambda>bs. bs ! l"] by simp
  show "bs' ! l \<noteq> bs ! l"
  proof
    assume "bs' ! l = bs ! l"
    then have "2 \<le> Multiset.count (layer_blocks l (live ?t)) (bs ! l)"
      using mset_subset_eq_count [OF sub, of "bs ! l"] by simp
    with one [of "bs ! l"] show False unfolding all [symmetric] by simp
  qed
qed

text \<open>A step takes the blocks of a group away only with its last hold.\<close>

lemma world_step_blocks:
  assumes "groups_ok ns (mset (concat hs)) fl s" "world_step opn (s, hs, fl) = Some (s', hs', fl')"
    "g \<in># mset (concat hs)" "g \<in> set (concat hs')"
  shows "group_blocks g s' = group_blocks g s"
proof (cases opn)
  case (Take h)
  then show ?thesis
    using assms(2,3) acquire_group_ok [OF assms(1)] by (auto split: if_splits option.splits)
next
  case (Share h j h')
  show ?thesis
  proof (cases "h < length hs \<and> j < length (hs ! h) \<and> h' < length hs")
    case True
    then have h: "h < length hs" "j < length (hs ! h)" by simp_all
    from assms(1) holds_mset(1) [OF h] obtain t where "retain_group (hs ! h ! j) s = Some t"
      "\<forall>i. group_blocks i t = group_blocks i s"
      by (rule retain_group_ok)
    with assms(2) Share True show ?thesis by auto
  qed (use assms(2) Share in auto)
next
  case (Give_up h j)
  show ?thesis
  proof (cases "h < length hs \<and> j < length (hs ! h)")
    case True
    then have h: "h < length hs" "j < length (hs ! h)" by simp_all
    from assms(1) holds_mset(1) [OF h] obtain freed t where d: "drop_holder (hs ! h ! j) s = Some (freed, t)"
      "groups_ok ns (mset (concat hs) - {#hs ! h ! j#}) (fl @ case_option [] (\<lambda>b. [b]) freed) t"
      "\<forall>i. group_blocks i t = (if i = hs ! h ! j \<and> Multiset.count (mset (concat hs)) (hs ! h ! j) = 1 then None else group_blocks i s)"
      by (rule drop_holder_ok)
    have s': "s' = t" "hs' = hs[h := remove_at j (hs ! h)]" using assms(2) Give_up True d(1) by auto
    have "g \<noteq> hs ! h ! j" if "Multiset.count (mset (concat hs)) (hs ! h ! j) = 1"
    proof
      assume e: "g = hs ! h ! j"
      have "mset (concat hs') = mset (concat hs) - {#hs ! h ! j#}"
        unfolding s'(2) by (rule mset_concat_remove [OF h])
      then have "Multiset.count (mset (concat hs')) g = 0" using that e by simp
      with assms(4) show False by (simp add: count_mset_0_iff)
    qed
    with d(3) s'(1) show ?thesis by auto
  qed (use assms(2) Give_up in auto)
next
  case (Return j)
  then show ?thesis
    using assms(2) by (auto simp: group_blocks_def return_blocks_def split: if_splits)
qed

section \<open>Properties\<close>

text \<open>Two layers of two blocks, and a run in which a group is shared, its holders go and the blocks
  are handed out again, for the witnesses.\<close>

definition sample_shared :: shared_kv where
  "sample_shared = the (sp_new 2 1 2 1 1)"

lemma sample_shared: "sp_new 2 1 2 1 1 = Some sample_shared"
  by code_simp

definition sample_world_ops :: "world_op list" where
  "sample_world_ops = [Take 0, Share 0 0 1, Give_up 0 0, Take 2, Take 0, Give_up 1 0, Return 0, Take 0]"



text \<open>
  No page leaks: once every hold has been given up and every release has finished, all blocks
  of every layer are free again.
\<close>

theorem groups_do_not_leak:
  assumes "sp_new n_layers block_size blocks heads head_dim = Some s0"
    and "world_run ops (s0, replicate m [], []) = Some (s, hs, [])" "concat hs = []" "l < n_layers"
  shows "mset (pg_free (sp_layers s ! l)) = mset [0..<blocks]"
proof -
  have "world_ok (replicate n_layers blocks) (s0, replicate m [], [])"
    using new_shared_ok [OF assms(1)] by (simp add: world_ok_def)
  from world_run_ok [OF this, of ops] assms(2,3)
  have ok: "groups_ok (replicate n_layers blocks) {#} [] s" by (auto simp: world_ok_def)
  then have "live (sp_groups s) = []" by (intro no_holders_no_live [of n_layers]) (simp add: groups_ok_def)
  with ok assms(4) show ?thesis by (simp add: groups_ok_def)
qed



end
