(* ===== verification/Page_Align.thy ===== *)
theory Page_Align
  imports Prelude
begin

text \<open>
  Rounding to whole pages (\<^verbatim>\<open>policy/radix/tree.rs\<close>), shared by the prefix cache and the window slide.
\<close>

definition align_down :: "nat \<Rightarrow> nat \<Rightarrow> nat" where
  "align_down a b = a div b * b"

definition align_ceil :: "nat \<Rightarrow> nat \<Rightarrow> nat" where
  "align_ceil a b = (a + b - 1) div b * b"

lemma align_down_le: "align_down a b \<le> a"
  by (simp add: align_down_def)

lemma align_down_dvd: "b dvd align_down a b"
  by (simp add: align_down_def)

lemma align_down_greatest: "b dvd m \<Longrightarrow> m \<le> a \<Longrightarrow> m \<le> align_down a b"
  unfolding align_down_def by (auto elim!: dvdE) (metis div_le_mono div_mult_self1_is_m mult.commute mult_le_mono1 not_gr_zero mult_0)

end
