(* ===== verification/Window_Slide.thy ===== *)
theory Window_Slide
  imports Prelude "HOL-Library.Signed_Division" Page_Align
begin

text \<open>
  The window slide of a decoding request and its tool-call anchor (\<^verbatim>\<open>policy/anchor.rs\<close>, with the
  two constants of \<^verbatim>\<open>policy/pool_budget.rs\<close> and the window state of a lease from
  \<^verbatim>\<open>generate.rs\<close>).  Positions are natural numbers, thresholds are signed as in the code; a page
  size is positive, as the store that has it asserts.  The claims say that a slide only ever
  frees whole pages no later query reads, and that what a request holds stays below the bound
  the admission pays for, however long it runs and whatever anchors it takes.
\<close>

section \<open>Anchors\<close>

text \<open>The served tokenizer's encoder is the parameter \<open>encode\<close>.\<close>

definition resolve_anchor_token :: "string option \<Rightarrow> (string \<Rightarrow> u32 list) \<Rightarrow> u32 option" where
  "resolve_anchor_token opener encode =
     (case opener of
        None \<Rightarrow> None
      | Some opener \<Rightarrow> if opener = [] then None else (case encode opener of [single] \<Rightarrow> Some single | _ \<Rightarrow> None))"

record anchor_state =
  anchor_len :: "nat option"

definition anchor_new :: anchor_state where
  "anchor_new = \<lparr>anchor_len = None\<rparr>"

definition anchor_clear :: "anchor_state \<Rightarrow> anchor_state" where
  "anchor_clear a = a\<lparr>anchor_len := None\<rparr>"

definition anchor_observe :: "u32 \<Rightarrow> u32 option \<Rightarrow> nat \<Rightarrow> bool \<Rightarrow> anchor_state \<Rightarrow> bool \<times> anchor_state" where
  "anchor_observe token anchor_token position finished a =
     (if finished \<or> anchor_len a \<noteq> None \<or> anchor_token \<noteq> Some token then (False, a)
      else (True, a\<lparr>anchor_len := Some position\<rparr>))"

section \<open>Slides\<close>

definition swa_retain_gap :: nat where
  "swa_retain_gap = 16"

definition default_swa_eviction_interval :: nat where
  "default_swa_eviction_interval = 128"

record window_policy =
  wp_sliding_window :: nat
  wp_page_size :: nat
  wp_eviction_interval :: nat

definition window_policy_new :: "nat \<Rightarrow> nat \<Rightarrow> window_policy" where
  "window_policy_new sliding_window page_size =
     \<lparr>wp_sliding_window = sliding_window, wp_page_size = page_size,
      wp_eviction_interval = default_swa_eviction_interval\<rparr>"

definition with_eviction_interval :: "nat \<Rightarrow> window_policy \<Rightarrow> window_policy" where
  "with_eviction_interval interval p = p\<lparr>wp_eviction_interval := max interval 1\<rparr>"

record sliding_request =
  sr_position :: nat
  sr_already_released :: nat
  sr_locked_prefix :: nat
  sr_decode_step :: nat

record slide_decision =
  free_from :: nat
  free_to :: nat
  drop_anchor :: bool

definition frees_nothing :: "slide_decision \<Rightarrow> bool" where
  "frees_nothing d \<longleftrightarrow> free_to d \<le> free_from d"

definition released :: "slide_decision \<Rightarrow> nat" where
  "released d = free_to d - free_from d"

text \<open>The remainder of the code is the truncated one.\<close>

definition release_span :: "int \<Rightarrow> sliding_request \<Rightarrow> int \<Rightarrow> bool \<Rightarrow> slide_decision" where
  "release_span threshold request page drops =
     (let aligned = (if threshold < 0 then threshold - (page + threshold smod page) smod page
                     else int (align_down (nat threshold) (nat page)));
          start = max (sr_already_released request) (sr_locked_prefix request);
          free_to = (if int start < aligned then nat aligned else start) in
      \<lparr>free_from = start, free_to = free_to, drop_anchor = drops\<rparr>)"

definition decode_slide ::
  "sliding_request \<Rightarrow> nat option \<Rightarrow> window_policy \<Rightarrow> nat \<Rightarrow> slide_decision option" where
  "decode_slide request anchor policy forward_iter =
     (if \<not> wp_eviction_interval policy dvd forward_iter then None
      else if sr_decode_step request < 1 then None
      else
        let window = int (wp_sliding_window policy);
            gap = int swa_retain_gap;
            page = int (wp_page_size policy);
            threshold = (int (sr_position request) - 1) - window - page;
            (threshold, drops) =
              (case anchor of
                 None \<Rightarrow> (threshold, False)
               | Some len \<Rightarrow>
                   let cap = int len - window - gap in
                   if threshold - cap > window + gap then (threshold, True) else (min threshold cap, False)) in
        Some (release_span threshold request page drops))"

definition prefill_slide :: "sliding_request \<Rightarrow> window_policy \<Rightarrow> slide_decision" where
  "prefill_slide request policy =
     (let threshold = int (sr_position request) - int (wp_sliding_window policy) - int (wp_page_size policy) in
      release_span threshold request (int (wp_page_size policy)) False)"

section \<open>The window of a lease\<close>

record window_slide =
  ws_policy :: window_policy
  ws_released :: nat
  ws_locked_prefix :: nat
  ws_decode_step :: nat
  ws_anchor :: anchor_state
  ws_anchor_token :: "u32 option"

definition slide_hold_bound :: "nat \<Rightarrow> window_policy \<Rightarrow> nat" where
  "slide_hold_bound window policy =
     2 * (window + swa_retain_gap) + wp_eviction_interval policy + 2 * wp_page_size policy"

text \<open>The part of \<open>PagedLease::slide\<close> that decides: the positions it frees, if any.\<close>

definition slide_window :: "nat \<Rightarrow> window_slide \<Rightarrow> (nat \<times> nat) option \<times> window_slide" where
  "slide_window position w =
     (let w = w\<lparr>ws_decode_step := ws_decode_step w + 1\<rparr>;
          request = \<lparr>sr_position = position, sr_already_released = ws_released w,
                     sr_locked_prefix = ws_locked_prefix w, sr_decode_step = ws_decode_step w\<rparr> in
      case decode_slide request (anchor_len (ws_anchor w)) (ws_policy w) (ws_decode_step w) of
        None \<Rightarrow> (None, w)
      | Some decision \<Rightarrow>
          let w = (if drop_anchor decision then w\<lparr>ws_anchor := anchor_clear (ws_anchor w)\<rparr> else w) in
          if frees_nothing decision then (None, w)
          else (Some (free_from decision, free_to decision), w\<lparr>ws_released := free_to decision\<rparr>))"

definition observe_sampled :: "u32 \<Rightarrow> nat \<Rightarrow> bool \<Rightarrow> window_slide \<Rightarrow> window_slide" where
  "observe_sampled token position finished w =
     w\<lparr>ws_anchor := snd (anchor_observe token (ws_anchor_token w) position finished (ws_anchor w))\<rparr>"

section \<open>What a span is\<close>

text \<open>A threshold is aligned down, negative or not.\<close>

lemma aligned_eq:
  assumes "0 < page"
  shows "(if t < 0 then t - (page + t smod page) smod page else int (align_down (nat t) (nat page))) = t div page * page"
proof (cases "t < 0")
  case False
  then have "int (align_down (nat t) (nat page)) = t div page * page"
    using assms by (simp add: align_down_def zdiv_int)
  with False show ?thesis by simp
next
  case True
  have "t smod page = - ((- t) mod page)"
    using True assms by (simp add: signed_modulo_int_def)
  moreover have "0 \<le> (- t) mod page" "(- t) mod page < page" using assms by simp_all
  ultimately have r: "- page < t smod page" "t smod page \<le> 0" by simp_all
  then have "(page + t smod page) smod page = (page + t smod page) mod page"
    using assms by (intro smod_mod_positive) simp_all
  also have "\<dots> = (t smod page) mod page" by simp
  also have "\<dots> = t mod page"
    unfolding \<open>t smod page = _\<close> by (simp add: mod_minus_eq)
  finally show ?thesis using True by (simp add: minus_mod_eq_div_mult)
qed

lemma release_span_eq:
  assumes "0 < page"
  shows "release_span t r page d =
    \<lparr>free_from = max (sr_already_released r) (sr_locked_prefix r),
     free_to = nat (max (int (max (sr_already_released r) (sr_locked_prefix r))) (t div page * page)), drop_anchor = d\<rparr>"
  unfolding release_span_def Let_def aligned_eq [OF assms] by (simp add: max_def)

text \<open>The threshold a slide works with.\<close>

definition slide_threshold :: "sliding_request \<Rightarrow> nat option \<Rightarrow> window_policy \<Rightarrow> int" where
  "slide_threshold request anchor policy =
     (let w = int (wp_sliding_window policy); gap = int swa_retain_gap;
          t = int (sr_position request) - 1 - w - int (wp_page_size policy) in
      case anchor of
        None \<Rightarrow> t
      | Some a \<Rightarrow> if t - (int a - w - gap) > w + gap then t else min t (int a - w - gap))"

lemma decode_slide_eq:
  assumes "decode_slide r a p i = Some d" "0 < wp_page_size p"
  shows "free_from d = max (sr_already_released r) (sr_locked_prefix r)"
    "int (free_to d) = max (int (free_from d)) (slide_threshold r a p div int (wp_page_size p) * int (wp_page_size p))"
    "drop_anchor d \<longleftrightarrow> (\<exists>l. a = Some l \<and> int (sr_position r) - 1 - int (wp_sliding_window p) - int (wp_page_size p)
        - (int l - int (wp_sliding_window p) - int swa_retain_gap) > int (wp_sliding_window p) + int swa_retain_gap)"
  using assms
  by (auto simp: decode_slide_def Let_def slide_threshold_def release_span_eq split: if_splits option.splits)

lemma slide_threshold_le:
  "slide_threshold r a p \<le> int (sr_position r) - 1 - int (wp_sliding_window p) - int (wp_page_size p)"
  by (simp add: slide_threshold_def Let_def split: option.splits)

lemma slide_threshold_ge:
  "int (sr_position r) - 1 - int (wp_sliding_window p) - int (wp_page_size p)
     - (int (wp_sliding_window p) + int swa_retain_gap) \<le> slide_threshold r a p"
  by (simp add: slide_threshold_def Let_def split: option.splits)

lemma align_int: "0 < (page :: int) \<Longrightarrow> t div page * page \<le> t \<and> t - page < t div page * page"
  using pos_mod_bound [of page t] pos_mod_sign [of page t] by (simp add: minus_mod_eq_div_mult [symmetric])

section \<open>Long runs\<close>

text \<open>A decoding request: at every step its window slides for the position about to be written and
  then a sampled token is offered to the anchor detector.\<close>

type_synonym sampled = "u32 \<times> nat \<times> bool"

fun decode_run :: "nat \<Rightarrow> sampled list \<Rightarrow> window_slide \<Rightarrow> window_slide" where
  "decode_run position [] w = w"
| "decode_run position ((token, seen_at, finished) # ts) w =
     decode_run (position + 1) ts (observe_sampled token seen_at finished (snd (slide_window position w)))"

definition held_from :: "window_slide \<Rightarrow> nat" where
  "held_from w = max (ws_released w) (ws_locked_prefix w)"

text \<open>The slide lags the cursor by no more than this right after it has run.\<close>

definition slide_lag :: "window_policy \<Rightarrow> nat" where
  "slide_lag p = 2 * wp_sliding_window p + swa_retain_gap + 2 * wp_page_size p"

lemma slide_window_keeps:
  "ws_policy (snd (slide_window p w)) = ws_policy w" "ws_locked_prefix (snd (slide_window p w)) = ws_locked_prefix w"
  "ws_decode_step (snd (slide_window p w)) = Suc (ws_decode_step w)"
  "ws_anchor_token (snd (slide_window p w)) = ws_anchor_token w"
  by (simp_all add: slide_window_def Let_def split: option.splits)

lemma observe_keeps [simp]:
  "ws_policy (observe_sampled t a f w) = ws_policy w" "ws_locked_prefix (observe_sampled t a f w) = ws_locked_prefix w"
  "ws_decode_step (observe_sampled t a f w) = ws_decode_step w" "ws_released (observe_sampled t a f w) = ws_released w"
  "held_from (observe_sampled t a f w) = held_from w"
  by (simp_all add: observe_sampled_def held_from_def)

lemma slide_window_none:
  assumes "\<not> wp_eviction_interval (ws_policy w) dvd Suc (ws_decode_step w)"
  shows "slide_window p w = (None, w\<lparr>ws_decode_step := Suc (ws_decode_step w)\<rparr>)"
  using assms by (simp add: slide_window_def Let_def decode_slide_def)

lemma slide_window_freed:
  assumes "slide_window p w = (Some (a, b), w')" "0 < wp_page_size (ws_policy w)"
  shows "a = held_from w" "a < b" "ws_released w' = b" "held_from w' = b" "int b \<le> int p - 1 - int (wp_sliding_window (ws_policy w)) - int (wp_page_size (ws_policy w))"
    "wp_page_size (ws_policy w) dvd b"
proof -
  let ?r = "\<lparr>sr_position = p, sr_already_released = ws_released w, sr_locked_prefix = ws_locked_prefix w,
    sr_decode_step = Suc (ws_decode_step w)\<rparr>" and ?p = "ws_policy w" and ?a = "anchor_len (ws_anchor w)"
  from assms(1) obtain d where d: "decode_slide ?r ?a ?p (Suc (ws_decode_step w)) = Some d" "\<not> frees_nothing d"
    "a = free_from d" "b = free_to d" "ws_released w' = b" "ws_locked_prefix w' = ws_locked_prefix w"
    by (auto simp: slide_window_def Let_def split: option.splits if_splits)
  note eq = decode_slide_eq [OF d(1) assms(2)]
  show a: "a = held_from w" using eq(1) d(3) by (simp add: held_from_def)
  show lt: "a < b" using d(2-4) by (simp add: frees_nothing_def)
  show "ws_released w' = b" by (rule d(5))
  then show "held_from w' = b" using lt a d(6) by (simp add: held_from_def)
  have b: "int b = slide_threshold ?r ?a ?p div int (wp_page_size ?p) * int (wp_page_size ?p)"
    using eq(2) lt d(3,4) by (simp add: max_def split: if_splits)
  then show "wp_page_size ?p dvd b" by (metis dvd_triv_right int_dvd_int_iff)
  show "int b \<le> int p - 1 - int (wp_sliding_window ?p) - int (wp_page_size ?p)"
    using slide_threshold_le [of ?r ?a ?p] align_int [of "int (wp_page_size ?p)" "slide_threshold ?r ?a ?p"] assms(2) b
    by simp
qed

lemma slide_window_still:
  assumes "fst (slide_window p w) = None"
  shows "ws_released (snd (slide_window p w)) = ws_released w"
  using assms by (auto simp: slide_window_def Let_def split: option.splits if_splits)

lemma held_from_mono: "0 < wp_page_size (ws_policy w) \<Longrightarrow> held_from w \<le> held_from (snd (slide_window p w))"
proof (cases "slide_window p w")
  case (Pair x w')
  assume "0 < wp_page_size (ws_policy w)"
  then show ?thesis
    using slide_window_freed [of p w] slide_window_still [of p w] slide_window_keeps(2) [of p w] Pair
    by (cases x) (auto simp: held_from_def)
qed

lemma slide_window_due:
  assumes "wp_eviction_interval (ws_policy w) dvd Suc (ws_decode_step w)" "0 < wp_page_size (ws_policy w)"
  shows "p \<le> held_from (snd (slide_window p w)) + slide_lag (ws_policy w)"
proof -
  let ?r = "\<lparr>sr_position = p, sr_already_released = ws_released w, sr_locked_prefix = ws_locked_prefix w,
    sr_decode_step = Suc (ws_decode_step w)\<rparr>" and ?p = "ws_policy w" and ?a = "anchor_len (ws_anchor w)"
  obtain d where d: "decode_slide ?r ?a ?p (Suc (ws_decode_step w)) = Some d"
    using assms(1) by (cases "decode_slide ?r ?a ?p (Suc (ws_decode_step w))")
      (simp_all add: decode_slide_def Let_def split: prod.splits)
  note eq = decode_slide_eq [OF d assms(2)]
  define t where "t = slide_threshold ?r ?a ?p"
  have "int p - 1 - int (wp_sliding_window ?p) - int (wp_page_size ?p) - (int (wp_sliding_window ?p) + int swa_retain_gap) \<le> t"
    using slide_threshold_ge [of ?r ?p ?a] by (simp add: t_def)
  moreover have "t - int (wp_page_size ?p) < t div int (wp_page_size ?p) * int (wp_page_size ?p)"
    using align_int [of "int (wp_page_size ?p)" t] assms(2) by simp
  moreover have "t div int (wp_page_size ?p) * int (wp_page_size ?p) \<le> int (free_to d)"
    using eq(2) by (simp add: t_def)
  moreover have "int (slide_lag ?p) = 2 * int (wp_sliding_window ?p) + int swa_retain_gap + 2 * int (wp_page_size ?p)"
    by (simp add: slide_lag_def)
  ultimately have "int p - 1 - int (slide_lag ?p) < int (free_to d)" by linarith
  moreover have "held_from (snd (slide_window p w)) = free_to d"
    using d eq(1,2) by (auto simp: slide_window_def Let_def held_from_def frees_nothing_def)
  ultimately show ?thesis by linarith
qed

text \<open>Between two slides the cursor moves on; \<open>first\<close> is where the request started.\<close>

definition lag_ok :: "nat \<Rightarrow> nat \<Rightarrow> window_slide \<Rightarrow> bool" where
  "lag_ok first position w \<longleftrightarrow>
     position = first + ws_decode_step w
     \<and> (position \<le> held_from w + slide_lag (ws_policy w) + ws_decode_step w mod wp_eviction_interval (ws_policy w) + 1
        \<or> ws_decode_step w < wp_eviction_interval (ws_policy w))"

lemma mod_Suc_not_dvd: "\<not> n dvd Suc k \<Longrightarrow> Suc k mod n = Suc (k mod n)"
  by (simp add: mod_Suc dvd_eq_mod_eq_0 split: if_splits)

lemma lag_step:
  assumes "lag_ok first position w" "0 < wp_page_size (ws_policy w)" "0 < wp_eviction_interval (ws_policy w)"
  shows "lag_ok first (Suc position) (snd (slide_window position w))"
proof (cases "wp_eviction_interval (ws_policy w) dvd Suc (ws_decode_step w)")
  case True
  with slide_window_due [OF True assms(2)] assms(1) show ?thesis
    by (simp add: lag_ok_def slide_window_keeps)
next
  case False
  then have "held_from (snd (slide_window position w)) = held_from w"
    by (simp add: slide_window_none held_from_def)
  moreover have "Suc (ws_decode_step w) \<noteq> wp_eviction_interval (ws_policy w)" using False by auto
  ultimately show ?thesis
    using assms(1) mod_Suc_not_dvd [OF False] by (auto simp: lag_ok_def slide_window_keeps)
qed

lemma lag_run:
  assumes "lag_ok first position w" "0 < wp_page_size (ws_policy w)" "0 < wp_eviction_interval (ws_policy w)"
  shows "lag_ok first (position + length ts) (decode_run position ts w)"
  using assms
proof (induction position ts w rule: decode_run.induct)
  case (2 position token seen_at finished ts w)
  let ?w = "observe_sampled token seen_at finished (snd (slide_window position w))"
  have "lag_ok first (position + 1) ?w"
    using lag_step [OF 2(2-4)] by (auto simp: lag_ok_def)
  from 2(1) [OF this] 2(3,4) show ?case by (simp add: slide_window_keeps)
qed simp

lemma decode_run_keeps:
  "ws_policy (decode_run p ts w) = ws_policy w \<and> ws_locked_prefix (decode_run p ts w) = ws_locked_prefix w
   \<and> ws_decode_step (decode_run p ts w) = ws_decode_step w + length ts"
  by (induction p ts w rule: decode_run.induct) (simp_all add: slide_window_keeps)


section \<open>Properties\<close>

text \<open>A window of four, pages of two, sliding every third step, for the witnesses.\<close>

definition sample_slide :: window_slide where
  "sample_slide = \<lparr>ws_policy = with_eviction_interval 3 (window_policy_new 4 2), ws_released = 0,
     ws_locked_prefix = 2, ws_decode_step = 0, ws_anchor = anchor_new, ws_anchor_token = Some 9\<rparr>"

text \<open>
  What a slide frees is dead: it begins where the last one ended, or at the end of the prefix
  that is shared, ends on a page boundary, and every position in it lies before the window of
  any query from the current position on.  A slide that frees nothing releases nothing.
\<close>

theorem slide_frees_dead_pages:
  assumes "slide_window position w = (Some (a, b), w')" "0 < wp_page_size (ws_policy w)"
    and "wp_page_size (ws_policy w) dvd ws_released w" "wp_page_size (ws_policy w) dvd ws_locked_prefix w"
  shows "ws_locked_prefix w \<le> a \<and> ws_released w \<le> a \<and> a < b \<and> ws_released w' = b
    \<and> wp_page_size (ws_policy w) dvd a \<and> wp_page_size (ws_policy w) dvd b
    \<and> (\<forall>t < b. t + wp_sliding_window (ws_policy w) + wp_page_size (ws_policy w) < position)"
proof -
  note freed = slide_window_freed [OF assms(1,2)]
  have "wp_page_size (ws_policy w) dvd a" using freed(1) assms(3,4) by (simp add: held_from_def max_def)
  with freed show ?thesis by (auto simp: held_from_def)
qed

text \<open>
  An anchor only ever holds more: with an anchor a slide frees no position it would not have
  freed without one; while the anchor is kept the window before it stays, and a slide that
  drops the anchor frees exactly what it would have freed without it.
\<close>

theorem anchor_only_holds_more:
  assumes "decode_slide r (Some l) p i = Some d" "decode_slide r None p i = Some d'" "0 < wp_page_size p"
  shows "free_from d = free_from d' \<and> free_to d \<le> free_to d'
    \<and> (if drop_anchor d then free_to d = free_to d'
       else frees_nothing d \<or> free_to d + wp_sliding_window p + swa_retain_gap \<le> l)"
proof -
  note a = decode_slide_eq [OF assms(1,3)] and n = decode_slide_eq [OF assms(2,3)]
  define page where "page = int (wp_page_size p)"
  define t where "t = slide_threshold r (Some l) p"
  define t' where "t' = slide_threshold r None p"
  have page: "0 < page" using assms(3) by (simp add: page_def)
  have from_eq: "free_from d = free_from d'" using a(1) n(1) by simp
  have to: "int (free_to d) = max (int (free_from d)) (t div page * page)"
    "int (free_to d') = max (int (free_from d)) (t' div page * page)"
    using a(2) n(2) from_eq by (simp_all add: t_def t'_def page_def)
  have "t \<le> t'" by (simp add: t_def t'_def slide_threshold_def Let_def)
  then have "t div page * page \<le> t' div page * page"
    using page by (intro mult_right_mono zdiv_mono1) simp_all
  then have "int (free_to d) \<le> int (free_to d')" unfolding to by linarith
  moreover have "free_to d = free_to d'" if "drop_anchor d"
  proof -
    have "t = t'" using that a(3) by (simp add: t_def t'_def slide_threshold_def Let_def)
    then have "int (free_to d) = int (free_to d')" using to by simp
    then show ?thesis by simp
  qed
  moreover have "frees_nothing d \<or> free_to d + wp_sliding_window p + swa_retain_gap \<le> l" if "\<not> drop_anchor d"
  proof -
    have "t \<le> int l - int (wp_sliding_window p) - int swa_retain_gap"
      using that a(3) by (simp add: t_def slide_threshold_def Let_def)
    then have "t div page * page + int (wp_sliding_window p) + int swa_retain_gap \<le> int l"
      using align_int [OF page, of t] by simp
    then show ?thesis using to(1) by (auto simp: frees_nothing_def max_def split: if_splits)
  qed
  ultimately show ?thesis using from_eq by simp
qed

text \<open>
  C30. What a request holds is bounded: however long it decodes and whatever tokens, anchors
  included, it samples on the way, the positions from the last released one, or from the end of
  the shared prefix, up to the cursor never exceed the bound admission pays for, unless the
  first slide has not come round yet.
\<close>

theorem sliding_hold_bounded:
  assumes "ws_decode_step w = 0" "0 < wp_page_size (ws_policy w)" "0 < wp_eviction_interval (ws_policy w)"
  shows "first + length ts - held_from (decode_run first ts w)
      \<le> slide_hold_bound (wp_sliding_window (ws_policy w)) (ws_policy w)
    \<or> length ts < wp_eviction_interval (ws_policy w)"
proof -
  have "lag_ok first first w" using assms(1,3) by (simp add: lag_ok_def)
  from lag_run [OF this assms(2,3), of ts] decode_run_keeps [of first ts w] assms(1)
  have "first + length ts \<le> held_from (decode_run first ts w) + slide_lag (ws_policy w)
      + length ts mod wp_eviction_interval (ws_policy w) + 1 \<or> length ts < wp_eviction_interval (ws_policy w)"
    by (simp add: lag_ok_def)
  moreover have "length ts mod wp_eviction_interval (ws_policy w) < wp_eviction_interval (ws_policy w)"
    using assms(3) by simp
  ultimately show ?thesis by (auto simp: slide_hold_bound_def slide_lag_def)
qed

theorem sliding_hold_bounded_witness:
  "5 + length (replicate 60 (9, 30, False)) - held_from (decode_run 5 (replicate 60 (9, 30, False)) sample_slide)
    \<le> slide_hold_bound 4 (ws_policy sample_slide)"
  using sliding_hold_bounded [of sample_slide 5 "replicate 60 (9, 30, False)"]
  by (simp add: sample_slide_def window_policy_new_def with_eviction_interval_def)

end
