(* ===== verification/Paged_Lease.thy ===== *)
theory Paged_Lease
  imports Page_Groups Window_Slide
begin

text \<open>
  The lease of a request on the shared page store (\<^verbatim>\<open>generate.rs\<close>, \<open>PagedLease\<close>): the page
  groups it holds, in position order, its block tables, the groups its window recycled, and the
  operations that fork it, slide it, extend it and give it back.  \<open>None\<close> is a panic.  The radix
  tree is outside: a lease only carries the handle it must unlock.
\<close>

section \<open>The lease\<close>

type_synonym u64 = "64 word"

datatype fork_refused = SlidingWindow | StoreExhausted

record ('r, 'h) lease =
  pl_caches :: "'r paged_cache list"
  pl_groups :: "nat option list"
  pl_spare :: "nat list"
  pl_adopted :: "(nat \<times> 'h) option"
  pl_has_radix :: bool
  pl_salt :: "u64 option"
  pl_window :: "window_slide option"

definition lease_block_size :: "shared_kv \<Rightarrow> nat option" where
  "lease_block_size s = (if sp_layers s = [] then None else Some (pg_block_size (hd (sp_layers s))))"

definition adopted_positions :: "nat \<Rightarrow> ('r, 'h) lease \<Rightarrow> nat" where
  "adopted_positions block_size l = (case pl_adopted l of None \<Rightarrow> 0 | Some (groups, _) \<Rightarrow> groups * block_size)"

fun release_all :: "nat list \<Rightarrow> shared_kv \<Rightarrow> shared_kv option" where
  "release_all [] s = Some s"
| "release_all (g # gs) s = Option.bind (release_group g s) (\<lambda>(_, s). release_all gs s)"

definition held_groups :: "nat option list \<Rightarrow> nat list" where
  "held_groups gs = List.map_filter id gs"

text \<open>Dropping a lease: the node to unlock first, and the store without its holds.\<close>

definition lease_drop :: "('r, 'h) lease \<Rightarrow> shared_kv \<Rightarrow> ('h option \<times> shared_kv) option" where
  "lease_drop l s =
     map_option (Pair (if pl_has_radix l then map_option snd (pl_adopted l) else None))
       (release_all (held_groups (pl_groups l) @ pl_spare l) s)"

section \<open>Forking\<close>

text \<open>Fresh groups, or those taken so far given back.\<close>

fun take_fresh :: "nat \<Rightarrow> nat list \<Rightarrow> shared_kv \<Rightarrow> (nat list option \<times> shared_kv) option" where
  "take_fresh 0 fresh s = Some (Some fresh, s)"
| "take_fresh (Suc n) fresh s =
     Option.bind (acquire_group s) (\<lambda>(g, s). case g of
        None \<Rightarrow> map_option (Pair None) (release_all fresh s)
      | Some g \<Rightarrow> take_fresh n (fresh @ [g]) s)"

text \<open>A hold on each shared group; a hole stops it.\<close>

fun share_groups :: "nat option list \<Rightarrow> nat option list \<Rightarrow> shared_kv \<Rightarrow> (nat option list option \<times> shared_kv) option" where
  "share_groups [] acc s = Some (Some acc, s)"
| "share_groups (None # slots) acc s = Some (None, s)"
| "share_groups (Some g # slots) acc s =
     Option.bind (retain_group g s) (share_groups slots (acc @ [Some g]))"

text \<open>The table of one layer, and of all of them.\<close>

definition layer_table :: "shared_kv \<Rightarrow> nat option list \<Rightarrow> nat \<Rightarrow> nat list option" where
  "layer_table s groups layer =
     those (map (\<lambda>g. Option.bind g (\<lambda>g. Option.bind (group_blocks g s) (\<lambda>bs.
       if layer < length bs then Some (bs ! layer) else None))) groups)"

fun retable_all :: "shared_kv \<Rightarrow> nat option list \<Rightarrow> nat \<Rightarrow> 'r paged_cache list \<Rightarrow> 'r paged_cache list option" where
  "retable_all s groups layer [] = Some []"
| "retable_all s groups layer (c # cs) =
     Option.bind (layer_table s groups layer) (\<lambda>table. Option.bind (pc_retable table c) (\<lambda>c.
       map_option ((#) c) (retable_all s groups (Suc layer) cs)))"

definition lease_fork ::
  "('r, 'h) lease \<Rightarrow> shared_kv \<Rightarrow> ((fork_refused, ('r, 'h) lease) result \<times> shared_kv) option" where
  "lease_fork l s =
     (if pl_window l \<noteq> None then Some (Inl SlidingWindow, s)
      else Option.bind (lease_block_size s) (\<lambda>block_size.
        let seq_len = (case pl_caches l of [] \<Rightarrow> 0 | c # _ \<Rightarrow> pc_seq_len c); shared = seq_len div block_size in
        if length (pl_groups l) < shared then Some (Inl SlidingWindow, s)
        else Option.bind (take_fresh (length (pl_groups l) - shared) [] s) (\<lambda>(fresh, s). case fresh of
            None \<Rightarrow> Some (Inl StoreExhausted, s)
          | Some fresh \<Rightarrow>
              Option.bind (share_groups (take shared (pl_groups l)) [] s) (\<lambda>(groups, s). case groups of
                  None \<Rightarrow> map_option (Pair (Inl SlidingWindow)) (release_all fresh s)
                | Some groups \<Rightarrow>
                    Option.bind
                      (if seq_len mod block_size \<noteq> 0 \<and> shared < length (pl_groups l) then
                         (case pl_groups l ! shared of
                            None \<Rightarrow> Some s
                          | Some tail \<Rightarrow> if fresh = [] then None else copy_group tail (hd fresh) s)
                       else Some s)
                      (\<lambda>s. let groups = groups @ map Some fresh in
                         map_option (\<lambda>caches.
                           (Inr \<lparr>pl_caches = caches, pl_groups = groups, pl_spare = [], pl_adopted = None,
                                 pl_has_radix = False, pl_salt = pl_salt l, pl_window = None\<rparr>, s))
                           (retable_all s groups 0 (pl_caches l)))))))"

section \<open>Sliding\<close>

definition has_slid :: "('r, 'h) lease \<Rightarrow> bool" where
  "has_slid l = (case pl_window l of None \<Rightarrow> False | Some w \<Rightarrow> 0 < ws_released w)"

definition slides :: "('r, 'h) lease \<Rightarrow> bool" where
  "slides l \<longleftrightarrow> pl_window l \<noteq> None"

definition lease_observe :: "u32 \<Rightarrow> nat \<Rightarrow> bool \<Rightarrow> ('r, 'h) lease \<Rightarrow> ('r, 'h) lease" where
  "lease_observe token position finished l = l\<lparr>pl_window := map_option (observe_sampled token position finished) (pl_window l)\<rparr>"

definition lease_slide :: "nat \<Rightarrow> nat \<Rightarrow> ('r, 'h) lease \<Rightarrow> ('r, 'h) lease option" where
  "lease_slide position block_size l =
     (case pl_window l of
        None \<Rightarrow> Some l
      | Some w \<Rightarrow>
          (case slide_window position w of
             (None, w) \<Rightarrow> Some (l\<lparr>pl_window := Some w\<rparr>)
           | (Some (a, b), w) \<Rightarrow>
               let i = a div block_size; j = b div block_size in
               if i \<le> j \<and> j \<le> length (pl_groups l) then
                 Some (l\<lparr>pl_window := Some w,
                         pl_groups := take i (pl_groups l) @ replicate (j - i) None @ drop j (pl_groups l),
                         pl_spare := pl_spare l @ held_groups (take (j - i) (drop i (pl_groups l)))\<rparr>)
               else None))"

definition next_group :: "('r, 'h) lease \<Rightarrow> shared_kv \<Rightarrow> (nat option \<times> ('r, 'h) lease \<times> shared_kv) option" where
  "next_group l s =
     (if pl_spare l \<noteq> [] then Some (Some (last (pl_spare l)), l\<lparr>pl_spare := butlast (pl_spare l)\<rparr>, s)
      else map_option (\<lambda>(g, s). (g, l, s)) (acquire_group s))"

fun append_blocks :: "nat list \<Rightarrow> 'r paged_cache list \<Rightarrow> 'r paged_cache list" where
  "append_blocks (b # bs) (c # cs) = pc_append_block b c # append_blocks bs cs"
| "append_blocks bs cs = cs"

text \<open>The loop runs while the groups do not reach the index: once per missing group.\<close>

fun extend_by :: "nat \<Rightarrow> ('r, 'h) lease \<Rightarrow> shared_kv \<Rightarrow> (('r, 'h) lease \<times> shared_kv) option" where
  "extend_by 0 l s = Some (l, s)"
| "extend_by (Suc n) l s =
     Option.bind (next_group l s) (\<lambda>(g, l, s). case g of
        None \<Rightarrow> Some (l, s)
      | Some g \<Rightarrow> Option.bind (group_blocks g s) (\<lambda>blocks.
          extend_by n (l\<lparr>pl_caches := append_blocks blocks (pl_caches l), pl_groups := pl_groups l @ [Some g]\<rparr>) s))"

definition extend_to :: "nat \<Rightarrow> nat \<Rightarrow> ('r, 'h) lease \<Rightarrow> shared_kv \<Rightarrow> (('r, 'h) lease \<times> shared_kv) option" where
  "extend_to position block_size l s = extend_by (position div block_size + 1 - length (pl_groups l)) l s"

definition before_step :: "nat \<Rightarrow> ('r, 'h) lease \<Rightarrow> shared_kv \<Rightarrow> (('r, 'h) lease \<times> shared_kv) option" where
  "before_step position l s =
     (if pl_window l = None then Some (l, s)
      else Option.bind (lease_block_size s) (\<lambda>block_size.
        Option.bind (lease_slide position block_size l) (\<lambda>l. extend_to position block_size l s)))"

section \<open>Admission\<close>

definition paged_hold_positions :: "nat \<Rightarrow> nat \<Rightarrow> nat \<Rightarrow> window_policy option \<Rightarrow> nat" where
  "paged_hold_positions max_seq_len prompt_len block_size window =
     (case window of
        None \<Rightarrow> max_seq_len
      | Some policy \<Rightarrow> min (prompt_len + slide_hold_bound (wp_sliding_window policy) policy + block_size) max_seq_len)"

definition paged_groups_needed :: "nat \<Rightarrow> nat \<Rightarrow> nat \<Rightarrow> window_policy option \<Rightarrow> nat" where
  "paged_groups_needed max_seq_len prompt_len block_size window =
     max (div_ceil (paged_hold_positions max_seq_len prompt_len block_size window) block_size) 1"

text \<open>The tables of a new lease: every layer adopts its blocks of the groups.\<close>

fun seed_layers :: "shared_kv \<Rightarrow> nat list \<Rightarrow> nat \<Rightarrow> nat \<Rightarrow> nat list \<Rightarrow> 'r paged_cache list option" where
  "seed_layers s groups cached_len block_size [] = Some []"
| "seed_layers s groups cached_len block_size (layer # ls) =
     Option.bind (layer_table s (map Some groups) layer) (\<lambda>table.
       Option.bind (pc_adopt_blocks table cached_len block_size paged_cache_new) (\<lambda>c.
         map_option ((#) c) (seed_layers s groups cached_len block_size ls)))"

definition seed_caches :: "shared_kv \<Rightarrow> nat \<Rightarrow> nat list \<Rightarrow> nat \<Rightarrow> nat \<Rightarrow> 'r paged_cache list option" where
  "seed_caches s n_layers groups cached_len block_size =
     seed_layers s groups cached_len block_size [0..<n_layers]"

definition make_window :: "nat \<Rightarrow> u32 option \<Rightarrow> window_policy \<Rightarrow> window_slide" where
  "make_window cached_len anchor_token policy =
     \<lparr>ws_policy = policy, ws_released = 0, ws_locked_prefix = cached_len, ws_decode_step = 0,
      ws_anchor = anchor_new, ws_anchor_token = anchor_token\<rparr>"

text \<open>One pass of the admission loop, with the prefix the tree gave: the groups it does not cover
  are taken fresh, and given back if they cannot all be had.\<close>

definition admit_attempt ::
  "nat \<Rightarrow> (nat \<times> 'h \<times> nat list) option \<Rightarrow> nat \<Rightarrow> nat \<Rightarrow> window_policy option \<Rightarrow> u32 option \<Rightarrow> u64 option \<Rightarrow> bool
    \<Rightarrow> shared_kv \<Rightarrow> (('r, 'h) lease option \<times> shared_kv) option" where
  "admit_attempt n_layers adopted max_seq_len prompt_len policy anchor_token salt has_radix s =
     Option.bind (lease_block_size s) (\<lambda>block_size.
       let (cached_len, adopted_groups) = (case adopted of None \<Rightarrow> (0, []) | Some (len, _, gs) \<Rightarrow> (len, gs));
           need = paged_groups_needed max_seq_len prompt_len block_size policy - length adopted_groups in
       Option.bind (take_fresh need [] s) (\<lambda>(fresh, s). case fresh of
           None \<Rightarrow> Some (None, s)
         | Some fresh \<Rightarrow>
             let groups = adopted_groups @ fresh in
             map_option (\<lambda>caches. (Some
                \<lparr>pl_caches = caches, pl_groups = map Some groups, pl_spare = [],
                 pl_adopted = map_option (\<lambda>(len, node, _). (len div block_size, node)) adopted,
                 pl_has_radix = has_radix, pl_salt = salt,
                 pl_window = map_option (make_window cached_len anchor_token) policy\<rparr>, s))
               (seed_caches s n_layers groups cached_len block_size)))"


section \<open>A sliding lease lives on what it was admitted with\<close>

lemma held_groups_simps [simp]:
  "held_groups [] = []" "held_groups (x # xs) = (case x of None \<Rightarrow> held_groups xs | Some g \<Rightarrow> g # held_groups xs)"
  "held_groups (xs @ ys) = held_groups xs @ held_groups ys" "held_groups (replicate n None) = []"
  "held_groups (map Some gs) = gs"
proof -
  show "held_groups (xs @ ys) = held_groups xs @ held_groups ys"
    by (induction xs) (auto simp: held_groups_def map_filter_def)
  show "held_groups (replicate n None) = []" by (induction n) (auto simp: held_groups_def map_filter_def)
  show "held_groups (map Some gs) = gs" by (induction gs) (auto simp: held_groups_def map_filter_def)
qed (auto simp: held_groups_def map_filter_def split: option.splits)

lemma held_groups_all: "(\<forall>x \<in> set xs. x \<noteq> None) \<Longrightarrow> length (held_groups xs) = length xs"
  by (induction xs) auto

lemma held_groups_split: "held_groups xs = held_groups (take i xs) @ held_groups (take (j - i) (drop i xs)) @ held_groups (drop j xs)"
  if "i \<le> j"
proof -
  have "xs = take i xs @ take (j - i) (drop i xs) @ drop j xs"
    using that by (metis append.assoc append_take_drop_id drop_drop le_add_diff_inverse2)
  then show ?thesis by (metis held_groups_simps(3))
qed

text \<open>\<open>G\<close> are the groups the lease was admitted with, \<open>n\<close> of them; all its positions from where its
  holes end are backed, and every group it does not need is spare.\<close>

definition sliding_core ::
  "nat \<Rightarrow> nat set \<Rightarrow> window_policy \<Rightarrow> nat \<Rightarrow> nat \<Rightarrow> window_slide \<Rightarrow> ('r, 'h) lease \<Rightarrow> bool" where
  "sliding_core n G pol first position w l \<longleftrightarrow>
     (let bs = wp_page_size pol in
      pl_window l = Some w \<and> ws_policy w = pol \<and> 0 < bs \<and> 0 < wp_eviction_interval pol
      \<and> lag_ok first position w \<and> bs dvd ws_released w \<and> bs dvd ws_locked_prefix w
      \<and> ws_locked_prefix w \<le> first \<and> held_from w \<le> position
      \<and> set (held_groups (pl_groups l)) \<union> set (pl_spare l) \<subseteq> G
      \<and> length (held_groups (pl_groups l)) + length (pl_spare l) = n
      \<and> length (held_groups (pl_groups l)) + held_from w div bs = length (pl_groups l) + ws_locked_prefix w div bs
      \<and> (\<forall>i < length (pl_groups l). held_from w div bs \<le> i \<longrightarrow> pl_groups l ! i \<noteq> None)
      \<and> n \<le> length (pl_groups l))"

definition sliding_lease :: "nat \<Rightarrow> nat set \<Rightarrow> window_policy \<Rightarrow> nat \<Rightarrow> nat \<Rightarrow> ('r, 'h) lease \<Rightarrow> bool" where
  "sliding_lease n G pol first position l \<longleftrightarrow>
     (\<exists>w. sliding_core n G pol first position w l) \<and> position div wp_page_size pol \<le> length (pl_groups l)"

lemma lease_slide_ok:
  assumes "sliding_core n G pol first position w l" "position div wp_page_size pol \<le> length (pl_groups l)"
  shows "\<exists>l' w'. lease_slide position (wp_page_size pol) l = Some l' \<and> sliding_core n G pol first (Suc position) w' l'
    \<and> length (pl_groups l') = length (pl_groups l) \<and> held_from w' \<le> position"
proof -
  define bs where "bs = wp_page_size pol"
  have core: "pl_window l = Some w" "ws_policy w = pol" "0 < bs" "0 < wp_eviction_interval pol"
    "lag_ok first position w" "bs dvd ws_released w" "bs dvd ws_locked_prefix w" "ws_locked_prefix w \<le> first"
    "held_from w \<le> position"
    "set (held_groups (pl_groups l)) \<union> set (pl_spare l) \<subseteq> G"
    "length (held_groups (pl_groups l)) + length (pl_spare l) = n"
    "length (held_groups (pl_groups l)) + held_from w div bs = length (pl_groups l) + ws_locked_prefix w div bs"
    "\<And>i. i < length (pl_groups l) \<Longrightarrow> held_from w div bs \<le> i \<Longrightarrow> pl_groups l ! i \<noteq> None"
    "n \<le> length (pl_groups l)"
    using assms(1) by (simp_all add: sliding_core_def Let_def bs_def)
  have page: "0 < wp_page_size (ws_policy w)" "wp_page_size (ws_policy w) = bs" using core by (simp_all add: bs_def)
  define w' where "w' = snd (slide_window position w)"
  have lag: "lag_ok first (Suc position) w'"
    unfolding w'_def using core page by (intro lag_step) simp_all
  have keep: "ws_policy w' = pol" "ws_locked_prefix w' = ws_locked_prefix w"
    by (simp_all add: w'_def slide_window_keeps core(2))
  show ?thesis
  proof (cases "fst (slide_window position w)")
    case None
    then have rel: "ws_released w' = ws_released w" unfolding w'_def by (rule slide_window_still)
    then have held: "held_from w' = held_from w" using keep by (simp add: held_from_def)
    have sw: "slide_window position w = (None, w')" using None by (simp add: w'_def prod_eq_iff)
    let ?l = "l\<lparr>pl_window := Some w'\<rparr>"
    have "lease_slide position bs l = Some ?l" by (simp add: lease_slide_def core(1) sw)
    moreover have "sliding_core n G pol first (Suc position) w' ?l"
      using core lag keep rel held by (simp add: sliding_core_def Let_def bs_def)
    ultimately show ?thesis using core(9) held unfolding bs_def by auto
  next
    case (Some ab)
    then obtain a b where sw: "slide_window position w = (Some (a, b), w')"
      by (cases ab) (simp add: w'_def prod_eq_iff)
    note freed = slide_window_freed [OF sw page(1)]
    have b: "bs dvd b" "b \<le> position" using freed(5,6) page(2) by simp_all
    have dvd_a: "bs dvd a" using freed(1) core(6,7) by (simp add: held_from_def max_def)
    define i where "i = a div bs"
    define j where "j = b div bs"
    have ij: "i \<le> j" using freed(2) unfolding i_def j_def by (intro div_le_mono) simp
    have j: "j \<le> length (pl_groups l)" using b(2) assms(2) div_le_mono [OF b(2), of bs] by (simp add: j_def bs_def)
    define mid where "mid = take (j - i) (drop i (pl_groups l))"
    have mid_len: "length mid = j - i" using j by (simp add: mid_def)
    have "\<forall>x \<in> set mid. x \<noteq> None"
    proof
      fix x assume "x \<in> set mid"
      then obtain k where "k < j - i" "x = pl_groups l ! (i + k)"
        using j by (auto simp: mid_def in_set_conv_nth)
      then show "x \<noteq> None" using core(13) [of "i + k"] freed(1) j by (simp add: i_def)
    qed
    then have mid: "length (held_groups mid) = j - i" using held_groups_all mid_len by metis
    note split = held_groups_split [OF ij, of "pl_groups l", folded mid_def]
    let ?gs = "take i (pl_groups l) @ replicate (j - i) None @ drop j (pl_groups l)"
    let ?l = "l\<lparr>pl_window := Some w', pl_groups := ?gs, pl_spare := pl_spare l @ held_groups mid\<rparr>"
    have len: "length ?gs = length (pl_groups l)" using ij j by simp
    have nth: "?gs ! k = pl_groups l ! k" if "j \<le> k" "k < length (pl_groups l)" for k
    proof -
      have "\<not> k < i" "\<not> k - i < j - i" using that ij by simp_all
      then show ?thesis using that ij j by (simp add: nth_append)
    qed
    have "lease_slide position bs l = Some ?l"
      using ij j by (simp add: lease_slide_def core(1) sw Let_def i_def j_def mid_def)
    moreover have "sliding_core n G pol first (Suc position) w' ?l"
    proof -
      have "held_from w' div bs = j" using freed(4) by (simp add: j_def)
      moreover have "length (held_groups (pl_groups l)) = length (held_groups (take i (pl_groups l))) + (j - i)
          + length (held_groups (drop j (pl_groups l)))"
        using split mid by simp
      moreover have "held_from w div bs = i" using freed(1) by (simp add: i_def)
      moreover have "set (held_groups (pl_groups l)) = set (held_groups (take i (pl_groups l))) \<union> set (held_groups mid)
          \<union> set (held_groups (drop j (pl_groups l)))"
        using arg_cong [OF split, of set] by auto
      moreover have "bs dvd ws_released w'" "held_from w' \<le> Suc position" using freed(3,4) b by simp_all
      ultimately show ?thesis
        using core lag keep mid ij len nth
        unfolding sliding_core_def Let_def bs_def [symmetric] by (simp del: length_append) auto
    qed
    ultimately show ?thesis using len freed(4) b(2) unfolding bs_def by auto
  qed
qed


lemma append_blocks_length [simp]: "length (append_blocks bs cs) = length cs"
  by (induction bs cs rule: append_blocks.induct) simp_all

text \<open>One missing page comes from the spare ones.\<close>

lemma extend_to_ok:
  assumes "sliding_core n G pol first (Suc position) w l" "position div wp_page_size pol \<le> length (pl_groups l)"
    "held_from w \<le> position" "position < max_seq"
    "min (first + slide_hold_bound (wp_sliding_window pol) pol) max_seq \<le> n * wp_page_size pol"
    "\<forall>g \<in> G. group_blocks g s \<noteq> None"
  shows "\<exists>l'. extend_to position (wp_page_size pol) l s = Some (l', s) \<and> sliding_core n G pol first (Suc position) w l'
    \<and> position div wp_page_size pol < length (pl_groups l')"
proof -
  define bs where "bs = wp_page_size pol"
  define q where "q = position div bs"
  have core: "pl_window l = Some w" "ws_policy w = pol" "0 < bs" "0 < wp_eviction_interval pol"
    "lag_ok first (Suc position) w" "bs dvd ws_released w" "bs dvd ws_locked_prefix w" "ws_locked_prefix w \<le> first"
    "set (held_groups (pl_groups l)) \<union> set (pl_spare l) \<subseteq> G"
    "length (held_groups (pl_groups l)) + length (pl_spare l) = n"
    "length (held_groups (pl_groups l)) + held_from w div bs = length (pl_groups l) + ws_locked_prefix w div bs"
    "\<And>i. i < length (pl_groups l) \<Longrightarrow> held_from w div bs \<le> i \<Longrightarrow> pl_groups l ! i \<noteq> None"
    "n \<le> length (pl_groups l)"
    using assms(1) by (simp_all add: sliding_core_def Let_def bs_def)
  show ?thesis
  proof (cases "q < length (pl_groups l)")
    case True
    then have "q + 1 - length (pl_groups l) = 0" by simp
    then have "extend_to position bs l s = Some (l, s)" by (simp add: extend_to_def q_def)
    with True assms(1) show ?thesis unfolding q_def bs_def by auto
  next
    case False
    with assms(2) have q: "q = length (pl_groups l)" by (simp add: q_def bs_def)
    have qpos: "q * bs \<le> position" by (simp add: q_def)
    have "pl_spare l \<noteq> []"
    proof
      assume none: "pl_spare l = []"
      have "n * bs \<le> q * bs" using core(13) q by (intro mult_le_mono1) simp
      with qpos have le: "n * bs \<le> position" by linarith
      with assms(4,5) have low: "first + slide_hold_bound (wp_sliding_window pol) pol \<le> n * bs"
        unfolding bs_def min_def by (auto split: if_splits)
      have "ws_decode_step w mod wp_eviction_interval pol < wp_eviction_interval pol" using core(4) by simp
      with core(5) low le have near: "position < held_from w + slide_hold_bound (wp_sliding_window pol) pol"
        by (auto simp: lag_ok_def core(2) slide_hold_bound_def slide_lag_def swa_retain_gap_def)
      have "bs dvd held_from w" using core(6,7) by (simp add: held_from_def max_def)
      then have h: "held_from w div bs * bs = held_from w" by simp
      have L: "ws_locked_prefix w div bs * bs = ws_locked_prefix w" using core(7) by simp
      have "n + held_from w div bs = q + ws_locked_prefix w div bs" using core(10,11) none q by simp
      then have "n * bs + held_from w = q * bs + ws_locked_prefix w"
        using h L by (metis add_mult_distrib)
      with qpos near low core(8) show False by linarith
    qed
    then have spare: "pl_spare l = butlast (pl_spare l) @ [last (pl_spare l)]" by simp
    define g where "g = last (pl_spare l)"
    have "g \<in> set (pl_spare l)" using \<open>pl_spare l \<noteq> []\<close> by (simp add: g_def)
    then have gG: "g \<in> G" using core(9) by auto
    then obtain blocks where blocks: "group_blocks g s = Some blocks" using assms(6) by auto
    define l' where "l' = l\<lparr>pl_spare := butlast (pl_spare l), pl_caches := append_blocks blocks (pl_caches l),
      pl_groups := pl_groups l @ [Some g]\<rparr>"
    have "extend_by 1 l s = Some (l', s)"
      using blocks \<open>pl_spare l \<noteq> []\<close> by (simp add: next_group_def g_def l'_def numeral_eq_Suc)
    moreover have "q + 1 - length (pl_groups l) = 1" using q by simp
    ultimately have "extend_to position bs l s = Some (l', s)" by (simp add: extend_to_def q_def)
    moreover have "sliding_core n G pol first (Suc position) w l'"
    proof -
      have "length (pl_spare l) = Suc (length (butlast (pl_spare l)))" "set (butlast (pl_spare l)) \<subseteq> set (pl_spare l)"
        using \<open>pl_spare l \<noteq> []\<close> by (simp_all add: in_set_butlastD subsetI)
      then show ?thesis
        using assms(1) gG unfolding sliding_core_def Let_def
        by (auto simp: l'_def nth_append dest: in_set_butlastD)
    qed
    ultimately show ?thesis using q unfolding bs_def by (auto simp: l'_def q_def bs_def)
  qed
qed

lemma before_step_ok:
  assumes "sliding_lease n G pol first position l" "position < max_seq"
    "min (first + slide_hold_bound (wp_sliding_window pol) pol) max_seq \<le> n * wp_page_size pol"
    "lease_block_size s = Some (wp_page_size pol)" "\<forall>g \<in> G. group_blocks g s \<noteq> None"
  shows "\<exists>l'. before_step position l s = Some (l', s) \<and> sliding_lease n G pol first (Suc position) l'
    \<and> position div wp_page_size pol < length (pl_groups l')
    \<and> pl_groups l' ! (position div wp_page_size pol) \<noteq> None"
proof -
  let ?bs = "wp_page_size pol"
  obtain w where w: "sliding_core n G pol first position w l" "position div ?bs \<le> length (pl_groups l)"
    using assms(1) by (auto simp: sliding_lease_def)
  from lease_slide_ok [OF this] obtain l1 w1 where l1: "lease_slide position ?bs l = Some l1"
    "sliding_core n G pol first (Suc position) w1 l1" "length (pl_groups l1) = length (pl_groups l)" "held_from w1 \<le> position"
    by blast
  have len: "position div ?bs \<le> length (pl_groups l1)" using w(2) l1(3) by simp
  from extend_to_ok [OF l1(2) len l1(4) assms(2,3,5)] obtain l2 where l2: "extend_to position ?bs l1 s = Some (l2, s)"
    "sliding_core n G pol first (Suc position) w1 l2" "position div ?bs < length (pl_groups l2)"
    by blast
  have "pl_window l = Some w" using w(1) by (simp add: sliding_core_def Let_def)
  then have "before_step position l s = Some (l2, s)"
    using l1(1) l2(1) assms(4) by (simp add: before_step_def)
  moreover have "Suc position div ?bs \<le> length (pl_groups l2)"
    using l2(3) div_Suc [of position ?bs] by (auto split: if_splits)
  moreover have "pl_groups l2 ! (position div ?bs) \<noteq> None"
    using l2(2,3) div_le_mono [OF l1(4), of ?bs] by (simp add: sliding_core_def Let_def)
  ultimately show ?thesis using l2 by (auto simp: sliding_lease_def)
qed

lemma lease_observe_sliding:
  "sliding_lease n G pol first position l \<Longrightarrow> sliding_lease n G pol first position (lease_observe t a f l)"
  by (auto simp: sliding_lease_def lease_observe_def sliding_core_def Let_def lag_ok_def)

text \<open>The decode loop: at each step other requests have left the store in some state \<open>s\<close>; the lease
  slides and extends, the page of the position is written, and the sampled token is offered to
  the anchor detector.  \<open>None\<close> is a panic, a page taken from the store, or a missing page.\<close>

fun decode_lease :: "nat \<Rightarrow> nat \<Rightarrow> (shared_kv \<times> u32 \<times> bool) list \<Rightarrow> ('r, 'h) lease \<Rightarrow> ('r, 'h) lease option" where
  "decode_lease bs position [] l = Some l"
| "decode_lease bs position ((s, token, finished) # ts) l =
     Option.bind (before_step position l s) (\<lambda>(l, s').
       if s' = s \<and> position div bs < length (pl_groups l) \<and> pl_groups l ! (position div bs) \<noteq> None
       then decode_lease bs (position + 1) ts (lease_observe token (position + 1) finished l)
       else None)"

lemma decode_lease_ok:
  assumes "sliding_lease n G pol first position l" "position + length ts \<le> max_seq"
    "min (first + slide_hold_bound (wp_sliding_window pol) pol) max_seq \<le> n * wp_page_size pol"
    "\<forall>(s, t) \<in> set ts. lease_block_size s = Some (wp_page_size pol) \<and> (\<forall>g \<in> G. group_blocks g s \<noteq> None)"
  shows "\<exists>l'. decode_lease (wp_page_size pol) position ts l = Some l' \<and> sliding_lease n G pol first (position + length ts) l'"
  using assms
proof (induction ts arbitrary: position l)
  case (Cons x ts)
  obtain s token finished where x: "x = (s, token, finished)" by (cases x)
  have "position < max_seq" using Cons.prems(2) by simp
  moreover have "lease_block_size s = Some (wp_page_size pol)" "\<forall>g \<in> G. group_blocks g s \<noteq> None"
    using Cons.prems(4) x by auto
  ultimately obtain l1 where l1: "before_step position l s = Some (l1, s)" "sliding_lease n G pol first (Suc position) l1"
    "position div wp_page_size pol < length (pl_groups l1)" "pl_groups l1 ! (position div wp_page_size pol) \<noteq> None"
    using before_step_ok [OF Cons.prems(1) _ Cons.prems(3), of s] by blast
  have "\<exists>l'. decode_lease (wp_page_size pol) (Suc position) ts (lease_observe token (Suc position) finished l1) = Some l'
      \<and> sliding_lease n G pol first (Suc position + length ts) l'"
    using Cons.prems(2,4) by (intro Cons.IH Cons.prems(3) lease_observe_sliding l1(2)) auto
  with l1 show ?case by (simp add: x)
qed simp


text \<open>An admitted lease starts that way.\<close>

lemma take_fresh_length:
  "take_fresh n fresh s = Some (Some gs, s') \<Longrightarrow> length gs = length fresh + n"
  by (induction n fresh s rule: take_fresh.induct) (auto simp: bind_eq_Some_conv split: option.splits)

lemma admitted_slides:
  assumes "admit_attempt n_layers adopted max_seq prompt_len (Some pol) anchor_token salt has_radix s = Some (Some l, s')"
    and "lease_block_size s = Some (wp_page_size pol)" "0 < wp_page_size pol" "0 < wp_eviction_interval pol"
    and "prompt_len \<le> max_seq"
    and "case adopted of None \<Rightarrow> True | Some (len, node, gs) \<Rightarrow> len \<le> prompt_len \<and> len = length gs * wp_page_size pol"
  shows "sliding_lease (length (pl_groups l)) (set (held_groups (pl_groups l))) pol prompt_len prompt_len l
    \<and> min (prompt_len + slide_hold_bound (wp_sliding_window pol) pol) max_seq \<le> length (pl_groups l) * wp_page_size pol"
proof -
  define bs where "bs = wp_page_size pol"
  define len where "len = (case adopted of None \<Rightarrow> 0 | Some (len, _) \<Rightarrow> len)"
  define gs where "gs = (case adopted of None \<Rightarrow> [] | Some (_, _, gs) \<Rightarrow> gs)"
  have len: "len \<le> prompt_len" "len = length gs * bs"
    using assms(6) by (auto simp: len_def gs_def bs_def split: option.splits)
  define need where "need = paged_groups_needed max_seq prompt_len bs (Some pol)"
  obtain fresh caches where l: "length fresh = need - length gs"
    "pl_groups l = map Some (gs @ fresh)" "pl_spare l = []" "pl_window l = Some (make_window len anchor_token pol)"
    using assms(1,2) take_fresh_length
    by (fastforce simp: admit_attempt_def Let_def bs_def len_def gs_def need_def bind_eq_Some_conv split: option.splits)
  have need: "need \<le> length (pl_groups l)" using l(1,2) by simp
  have "div_ceil (paged_hold_positions max_seq prompt_len bs (Some pol)) bs \<le> need"
    by (simp add: need_def paged_groups_needed_def)
  then have "paged_hold_positions max_seq prompt_len bs (Some pol) \<le> need * bs"
    using assms(3) by (simp add: div_ceil_le_iff bs_def)
  also have "\<dots> \<le> length (pl_groups l) * bs" using need by (rule mult_le_mono1)
  finally have hold: "min (prompt_len + slide_hold_bound (wp_sliding_window pol) pol + bs) max_seq \<le> length (pl_groups l) * bs"
    by (simp add: paged_hold_positions_def)
  then have "prompt_len \<le> length (pl_groups l) * bs" using assms(5) by simp
  then have at: "prompt_len div bs \<le> length (pl_groups l)"
    using div_le_mono [of prompt_len "length (pl_groups l) * bs" bs] assms(3) by (simp add: bs_def)
  have core: "sliding_core (length (pl_groups l)) (set (held_groups (pl_groups l))) pol prompt_len prompt_len
      (make_window len anchor_token pol) l"
    using assms(3,4) len l(2-4)
    by (simp add: sliding_core_def Let_def make_window_def lag_ok_def held_from_def bs_def [symmetric] nth_append
        del: map_append)
  have "min (prompt_len + slide_hold_bound (wp_sliding_window pol) pol) max_seq \<le> length (pl_groups l) * bs"
    using hold by linarith
  with core at show ?thesis by (auto simp: sliding_lease_def bs_def)
qed

section \<open>Properties\<close>



text \<open>A model with one layer, pages of two and a window of two, for the witnesses.\<close>

definition sample_policy :: window_policy where
  "sample_policy = with_eviction_interval 2 (window_policy_new 2 2)"

definition lease_shared :: shared_kv where
  "lease_shared = the (sp_new 1 2 25 1 1)"

definition sample_lease :: "(unit, unit) lease" where
  "sample_lease = the (fst (the (admit_attempt 1 None 70 3 (Some sample_policy) None None False lease_shared)))"

definition sample_lease_shared :: shared_kv where
  "sample_lease_shared = snd (the (admit_attempt 1 None 70 3 (Some sample_policy) None None False lease_shared
     :: ((unit, unit) lease option \<times> shared_kv) option))"

lemma sample_lease:
  "admit_attempt 1 None 70 3 (Some sample_policy) None None False lease_shared = Some (Some sample_lease, sample_lease_shared)"
  "length (pl_groups sample_lease) = 24"
  by code_simp+

lemma sample_lease_held:
  "\<forall>g \<in> set (held_groups (pl_groups sample_lease)). group_blocks g sample_lease_shared \<noteq> None"
proof -
  have "list_all (\<lambda>g. \<not> Option.is_none (group_blocks g sample_lease_shared)) (held_groups (pl_groups sample_lease))"
    by code_simp
  then show ?thesis by (simp add: list_all_iff Option.is_none_def)
qed


end
