(* ===== verification/Paged_Forward.thy ===== *)
theory Paged_Forward
  imports Page_Groups
begin

text \<open>
  The key/value traffic of a forward pass over paged storage (\<^verbatim>\<open>decoder/paged.rs\<close>): one decode
  token, which reserves a position in every layer and then pushes into each, and one prefill
  batch, which reserves, copies every layer out, runs the model on the contiguous copies and
  scatters the new rows back.  The model itself is a parameter: the rows it computes for a
  decode token, and what it does to the contiguous caches.  \<open>None\<close> is a panic.
\<close>

section \<open>Reserving in every layer\<close>

fun layers_have_room :: "nat \<Rightarrow> paged_store list \<Rightarrow> 'r paged_cache list \<Rightarrow> bool" where
  "layers_have_room n (s # ss) (c # cs) \<longleftrightarrow>
     \<not> free_block_count s < pc_blocks_needed_for s n c \<and> layers_have_room n ss cs"
| "layers_have_room n ss cs \<longleftrightarrow> True"

fun reserve_layers :: "nat \<Rightarrow> paged_store list \<Rightarrow> 'r paged_cache list \<Rightarrow> ('r paged_cache list \<times> paged_store list) option" where
  "reserve_layers n (s # ss) (c # cs) =
     (case pc_reserve s n c of
        Some (Inr (c, s)) \<Rightarrow> map_option (\<lambda>(cs, ss). (c # cs, s # ss)) (reserve_layers n ss cs)
      | _ \<Rightarrow> None)"
| "reserve_layers n ss cs = Some (cs, ss)"

type_synonym 'r forward_result = "(paged_store_exhausted, 'r paged_cache list \<times> paged_store list) result option"

definition reserve_all :: "nat \<Rightarrow> paged_store list \<Rightarrow> 'r paged_cache list \<Rightarrow> 'r forward_result" where
  "reserve_all n stores caches =
     (if \<not> layers_have_room n stores caches then Some (Inl PagedStoreExhausted)
      else map_option Inr (reserve_layers n stores caches))"

section \<open>A decode token\<close>

text \<open>A layer without key/value rows (absent or linear attention) pushes nothing.\<close>

fun push_layers ::
  "half_crate \<Rightarrow> (u32 list \<times> u32 list) option list \<Rightarrow> paged_store list \<Rightarrow> 'r paged_cache list
    \<Rightarrow> ('r paged_cache list \<times> paged_store list) option" where
  "push_layers hc (Some (k, v) # rows) (s # ss) (c # cs) =
     (case pc_push hc k v s c of
        Some (Inr (c, s)) \<Rightarrow> map_option (\<lambda>(cs, ss). (c # cs, s # ss)) (push_layers hc rows ss cs)
      | _ \<Rightarrow> None)"
| "push_layers hc (None # rows) (s # ss) (c # cs) =
     map_option (\<lambda>(cs, ss). (c # cs, s # ss)) (push_layers hc rows ss cs)"
| "push_layers hc rows ss cs = Some (cs, ss)"

text \<open>The row a layer ends up with, and whether it fits the layer's store.\<close>

definition pushed_rows :: "half_crate \<Rightarrow> paged_store \<Rightarrow> (u32 list \<times> u32 list) option \<Rightarrow> history" where
  "pushed_rows hc s row = (case row of None \<Rightarrow> [] | Some (k, v) \<Rightarrow> [row_kept hc s (RowsF32 k, RowsF32 v)])"

definition pushable :: "paged_store \<Rightarrow> (u32 list \<times> u32 list) option \<Rightarrow> bool" where
  "pushable s row \<longleftrightarrow> (case row of None \<Rightarrow> True | Some (k, v) \<Rightarrow> row_fits s (RowsF32 k, RowsF32 v))"

definition forward_token_kv ::
  "half_crate \<Rightarrow> (u32 list \<times> u32 list) option list \<Rightarrow> paged_store list \<Rightarrow> 'r paged_cache list \<Rightarrow> 'r forward_result" where
  "forward_token_kv hc rows stores caches =
     (if length caches \<noteq> length stores then None
      else bind_run (reserve_all 1 stores caches) (\<lambda>(caches, stores).
        map_option Inr (push_layers hc rows stores caches)))"

section \<open>A prefill batch\<close>

fun gather_layers :: "half_crate \<Rightarrow> paged_store list \<Rightarrow> 'r paged_cache list \<Rightarrow> 'r kv_cache list option" where
  "gather_layers hc (s # ss) (c # cs) =
     (case pc_to_contiguous hc s c of
        None \<Rightarrow> None
      | Some g \<Rightarrow> map_option ((#) g) (gather_layers hc ss cs))"
| "gather_layers hc ss cs = Some []"

text \<open>The rows of \<^emph>\<open>both\<close> buffers are cut at the width of a K row.\<close>

definition scatter_layer ::
  "half_crate \<Rightarrow> nat \<Rightarrow> 'r kv_cache \<Rightarrow> paged_store \<Rightarrow> 'r paged_cache \<Rightarrow> ('r paged_cache \<times> paged_store) option" where
  "scatter_layer hc n gathered store c =
     (let width = pg_n_kv_heads store * pg_head_dim store; base = pc_seq_len c * width in
      case (rows_slice base (kb_len (kc_k gathered)) (kc_k_rows gathered),
            rows_slice base (kb_len (kc_v gathered)) (kc_v_rows gathered)) of
        (Some k, Some v) \<Rightarrow>
          (case pc_append_contiguous hc k v n store c of
             Some (Inr (c, store)) \<Rightarrow> Some (c\<lparr>pc_recurrent := kc_recurrent gathered\<rparr>, store)
           | _ \<Rightarrow> None)
      | _ \<Rightarrow> None)"

fun scatter_layers ::
  "half_crate \<Rightarrow> nat \<Rightarrow> 'r kv_cache list \<Rightarrow> paged_store list \<Rightarrow> 'r paged_cache list
    \<Rightarrow> ('r paged_cache list \<times> paged_store list) option" where
  "scatter_layers hc n (g # gs) (s # ss) (c # cs) =
     Option.bind (scatter_layer hc n g s c) (\<lambda>(c, s).
       map_option (\<lambda>(cs, ss). (c # cs, s # ss)) (scatter_layers hc n gs ss cs))"
| "scatter_layers hc n gs ss cs = Some (cs, ss)"

definition forward_batch_kv ::
  "half_crate \<Rightarrow> ('r kv_cache list \<Rightarrow> 'r kv_cache list) \<Rightarrow> nat \<Rightarrow> paged_store list \<Rightarrow> 'r paged_cache list
    \<Rightarrow> 'r forward_result" where
  "forward_batch_kv hc model n_tokens stores caches =
     (if length caches \<noteq> length stores then None
      else if n_tokens = 0 then Some (Inr (caches, stores))
      else bind_run (reserve_all n_tokens stores caches) (\<lambda>(caches, stores).
        Option.bind (gather_layers hc stores caches) (\<lambda>scratch.
          map_option Inr (scatter_layers hc n_tokens (model scratch) stores caches))))"

section \<open>Layer by layer\<close>

definition layers_ok :: "nat list \<Rightarrow> paged_store list \<Rightarrow> 'r paged_cache list \<Rightarrow> bool" where
  "layers_ok ns ss cs \<longleftrightarrow> length ss = length ns \<and> length cs = length ns
     \<and> (\<forall>l < length ns. seq_ok (ns ! l) (ss ! l) (cs ! l))"

lemma layers_ok_Cons:
  "layers_ok (n # ns) (s # ss) (c # cs) \<longleftrightarrow> seq_ok n s c \<and> layers_ok ns ss cs"
  by (auto simp: layers_ok_def nth_Cons split: nat.splits)

lemma layers_ok_cases:
  assumes "layers_ok ns ss cs"
  obtains "ns = []" "ss = []" "cs = []" | n ns' s ss' c cs' where "ns = n # ns'" "ss = s # ss'" "cs = c # cs'"
    "seq_ok n s c" "layers_ok ns' ss' cs'"
proof (cases ns)
  case Nil
  with assms show ?thesis using that(1) by (simp add: layers_ok_def)
next
  case (Cons n ns')
  with assms obtain s ss' c cs' where "ss = s # ss'" "cs = c # cs'"
    by (auto simp: layers_ok_def length_Suc_conv)
  with Cons assms show ?thesis using that(2) by (simp add: layers_ok_Cons)
qed

text \<open>Room after reserving.\<close>

definition has_room :: "nat \<Rightarrow> paged_store \<Rightarrow> 'r paged_cache \<Rightarrow> bool" where
  "has_room n s c \<longleftrightarrow> pc_seq_len c + n \<le> length (pc_table c) * pg_block_size s"

lemma reserve_layers_ok:
  assumes "layers_ok ns ss cs" "layers_have_room n ss cs"
  shows "\<exists>cs' ss'. reserve_layers n ss cs = Some (cs', ss') \<and> layers_ok ns ss' cs' \<and> list_all2 (has_room n) ss' cs'
    \<and> map2 seq_rows ss' cs' = map2 seq_rows ss cs \<and> map store_shape ss' = map store_shape ss
    \<and> map pc_seq_len cs' = map pc_seq_len cs \<and> map pc_recurrent cs' = map pc_recurrent cs"
  using assms
proof (induction ss cs arbitrary: ns rule: list_induct2')
  case (4 s ss c cs)
  then obtain m ns' where ns: "ns = m # ns'" "seq_ok m s c" "layers_ok ns' ss cs"
    by (auto elim: layers_ok_cases)
  have "pc_blocks_needed_for s n c \<le> free_block_count s" using 4(3) by simp
  with reserve_ok [OF ns(2), of n] obtain c' s' where r: "pc_reserve s n c = Some (Inr (c', s'))" "seq_ok m s' c'"
    "others_same m (s, c) (s', c')" "seq_rows s' c' = seq_rows s c" "has_room n s' c'"
    "pc_recurrent c' = pc_recurrent c" "pc_seq_len c' = pc_seq_len c"
    by (auto simp: has_room_def)
  have "layers_have_room n ss cs" using 4(3) by simp
  from 4(1) [OF ns(3) this] obtain cs' ss' where "reserve_layers n ss cs = Some (cs', ss')" "layers_ok ns' ss' cs'"
    "list_all2 (has_room n) ss' cs'" "map2 seq_rows ss' cs' = map2 seq_rows ss cs" "map store_shape ss' = map store_shape ss"
    "map pc_seq_len cs' = map pc_seq_len cs" "map pc_recurrent cs' = map pc_recurrent cs" by blast
  with r show ?case
    by (intro exI [of _ "c' # cs'"] exI [of _ "s' # ss'"]) (auto simp: ns(1) layers_ok_Cons others_same_def)
qed (auto elim: layers_ok_cases)

lemma has_room_needed:
  assumes "seq_ok n s c" "has_room m s c"
  shows "pc_blocks_needed_for s m c = 0"
proof -
  have "0 < pg_block_size s" "pc_seq_len c \<le> length (pc_table c) * pg_block_size s"
    using assms(1) by (simp_all add: seq_ok_def store_ok_def)
  from needed_le_iff [OF this, of m 0] assms(2) show ?thesis by (simp add: has_room_def)
qed

lemma push_layers_ok:
  assumes "layers_ok ns ss cs" "list_all2 (has_room 1) ss cs" "length rows = length ns" "list_all2 pushable ss rows"
  shows "\<exists>cs' ss'. push_layers hc rows ss cs = Some (cs', ss') \<and> layers_ok ns ss' cs'
    \<and> (\<forall>l < length ns. seq_rows (ss' ! l) (cs' ! l) = seq_rows (ss ! l) (cs ! l) @ pushed_rows hc (ss ! l) (rows ! l))
    \<and> map store_shape ss' = map store_shape ss"
  using assms
proof (induction ss cs arbitrary: ns rows rule: list_induct2')
  case (4 s ss c cs)
  from 4(2) obtain m ns' where ns: "ns = m # ns'" "seq_ok m s c" "layers_ok ns' ss cs"
    by (auto elim: layers_ok_cases)
  from 4(4) ns(1) obtain row rest where rows: "rows = row # rest" by (cases rows) auto
  obtain cs' ss' where r: "push_layers hc rest ss cs = Some (cs', ss')" "layers_ok ns' ss' cs'"
    "\<And>l. l < length ns' \<Longrightarrow> seq_rows (ss' ! l) (cs' ! l) = seq_rows (ss ! l) (cs ! l) @ pushed_rows hc (ss ! l) (rest ! l)"
    "map store_shape ss' = map store_shape ss"
    using 4(1) [OF ns(3), of rest] 4(3-5) rows ns(1) by auto
  have "\<exists>c' s'. push_layers hc rows (s # ss) (c # cs) = Some (c' # cs', s' # ss') \<and> seq_ok m s' c'
      \<and> seq_rows s' c' = seq_rows s c @ pushed_rows hc s row \<and> store_shape s' = store_shape s"
  proof (cases row)
    case None
    with r(1) ns(2) show ?thesis by (intro exI [of _ c] exI [of _ s]) (simp add: rows pushed_rows_def)
  next
    case (Some kv)
    obtain k v where kv: "kv = (k, v)" by (cases kv)
    have fits: "row_fits s (RowsF32 k, RowsF32 v)" using 4(5) rows Some kv by (simp add: pushable_def)
    have "pc_blocks_needed_for s 1 c = 0" using has_room_needed [OF ns(2)] 4(3) by simp
    with push_rows_ok [OF ns(2) fits, of hc] obtain c' s' where p: "pc_push hc k v s c = Some (Inr (c', s'))" "seq_ok m s' c'"
      "others_same m (s, c) (s', c')" "seq_rows s' c' = seq_rows s c @ [row_kept hc s (RowsF32 k, RowsF32 v)]"
      by (auto simp: pc_push_def)
    with r(1) show ?thesis
      by (intro exI [of _ c'] exI [of _ s']) (simp add: rows Some kv pushed_rows_def others_same_def)
  qed
  then obtain c' s' where p: "push_layers hc rows (s # ss) (c # cs) = Some (c' # cs', s' # ss')" "seq_ok m s' c'"
    "seq_rows s' c' = seq_rows s c @ pushed_rows hc s row" "store_shape s' = store_shape s" by blast
  have "seq_rows ((s' # ss') ! l) ((c' # cs') ! l) = seq_rows ((s # ss) ! l) ((c # cs) ! l) @ pushed_rows hc ((s # ss) ! l) (rows ! l)"
    if "l < length ns" for l
    using that p(3) r(3) by (cases l) (simp_all add: rows ns(1))
  with p r show ?case
    by (intro exI [of _ "c' # cs'"] exI [of _ "s' # ss'"]) (simp add: ns(1) layers_ok_Cons)
qed (auto elim: layers_ok_cases)


section \<open>Out and back\<close>

lemma slot_concat:
  assumes "same_width w xss" "i < length xss"
  shows "slot w i (concat xss) = xss ! i"
proof -
  have "slot w i (concat xss) = take w (concat (drop i xss))"
    using assms(1) by (simp add: slot_def drop_concat_width)
  also have "drop i xss = xss ! i # drop (Suc i) xss" using assms(2) by (simp add: Cons_nth_drop_Suc)
  also have "take w (concat \<dots>) = xss ! i" using assms by (simp add: same_width_def)
  finally show ?thesis .
qed

text \<open>What the model does to a contiguous cache: it appends its rows.\<close>

definition extended :: "nat \<times> nat \<times> kv_dtype \<Rightarrow> history \<Rightarrow> 'r kv_cache \<Rightarrow> 'r kv_cache \<Rightarrow> bool" where
  "extended = (\<lambda>(kw, vw, dt) new c g.
     \<forall>h. holds c h \<and> kc_rows c = length h \<longrightarrow>
       holds g (h @ new) \<and> kc_rows g = length h + length new \<and> kc_k_width g = kw \<and> kc_v_width g = vw
       \<and> kc_dtype g = dt \<and> kb_dtype (kc_v g) = dt)"

definition layer_dims :: "paged_store \<Rightarrow> nat \<times> nat \<times> kv_dtype" where
  "layer_dims s = (pg_k_width s, pg_v_width s, paged_dtype s)"

definition has_dims :: "nat \<times> nat \<times> kv_dtype \<Rightarrow> 'r kv_cache \<Rightarrow> bool" where
  "has_dims = (\<lambda>(kw, vw, dt) c. kc_k_width c = kw \<and> kc_v_width c = vw \<and> kc_dtype c = dt \<and> kb_dtype (kc_v c) = dt)"

definition model_appends ::
  "(nat \<times> nat \<times> kv_dtype) list \<Rightarrow> history list \<Rightarrow> ('r kv_cache list \<Rightarrow> 'r kv_cache list) \<Rightarrow> bool" where
  "model_appends dims news model \<longleftrightarrow>
     (\<forall>cs. list_all2 has_dims dims cs \<longrightarrow> length (model cs) = length cs
        \<and> (\<forall>l < length cs. extended (dims ! l) (news ! l) (cs ! l) (model cs ! l)))"

lemma holds_all_bits:
  assumes "holds g h" "kc_rows g = length h"
  shows "buf_bits (kc_k g) = concat (map fst h)" "buf_bits (kc_v g) = concat (map snd h)"
  using assms by (simp_all add: holds_def end_of_def)

text \<open>With equal widths the new rows arrive.\<close>

lemma scatter_layer_ok:
  assumes "seq_ok n s c" "has_room m s c" "pg_v_width s = pg_k_width s"
    "holds g (seq_rows s c @ new)" "kc_rows g = length (seq_rows s c) + m" "length new = m"
    "has_dims (layer_dims s) g"
  shows "\<exists>c' s'. scatter_layer hc m g s c = Some (c', s') \<and> seq_ok n s' c' \<and> others_same n (s, c) (s', c')
    \<and> seq_rows s' c' = seq_rows s c @ new \<and> pc_recurrent c' = kc_recurrent g"
proof -
  let ?w = "pg_k_width s" and ?old = "seq_rows s c"
  have len: "length ?old = pc_seq_len c" by (simp add: seq_rows_def table_rows_def)
  have dims: "kc_k_width g = ?w" "kc_v_width g = ?w" "kb_dtype (kc_k g) = paged_dtype s" "kb_dtype (kc_v g) = paged_dtype s"
    using assms(3,7) by (simp_all add: has_dims_def layer_dims_def kc_dtype_def)
  have "kc_rows g = length (?old @ new)" using assms(5,6) by simp
  note bits = holds_all_bits [OF assms(4) this]
  have sw: "same_width ?w (map fst (?old @ new))" "same_width ?w (map snd (?old @ new))"
    using assms(4) dims by (simp_all add: holds_def)
  have cut: "\<exists>r. rows_slice (pc_seq_len c * ?w) (kb_len b) (kb_view b) = Some r \<and> rows_len r = m * ?w
      \<and> stored hc (paged_dtype s) r = concat (map f new)"
    if b: "buf_bits b = concat (map f (?old @ new))" "same_width ?w (map f (?old @ new))" "kb_dtype b = paged_dtype s"
    for b and f :: "u32 list \<times> u32 list \<Rightarrow> u32 list"
  proof -
    have kl: "kb_len b = (pc_seq_len c + m) * ?w"
      using arg_cong [OF b(1), of length] length_concat_width [OF b(2)] assms(6) len by simp
    then obtain r where r: "rows_slice (pc_seq_len c * ?w) (kb_len b) (kb_view b) = Some r"
      using rows_slice_ok [of "pc_seq_len c * ?w" "kb_len b" "kb_view b"] by auto
    note s = rows_slice_iff [OF r]
    have "row_bits (kb_view b) = concat (map f (?old @ new))" using b(1) by (simp add: buf_bits_def)
    moreover have "row_bits r = take (kb_len b - pc_seq_len c * ?w) (drop (pc_seq_len c * ?w) (row_bits (kb_view b)))"
      using s by blast
    moreover have "\<dots> = drop (pc_seq_len c * ?w) (row_bits (kb_view b))" by simp
    ultimately have "row_bits r = drop (pc_seq_len c * ?w) (concat (map f (?old @ new)))" by metis
    also have "\<dots> = concat (drop (pc_seq_len c) (map f (?old @ new)))" using b(2) by (rule drop_concat_width)
    also have "\<dots> = concat (map f new)" by (simp add: len)
    finally have bits_r: "row_bits r = concat (map f new)" .
    have "rows_dtype r = paged_dtype s" using s b(3) by simp
    then have "stored hc (paged_dtype s) r = concat (map f new)" using stored_same bits_r by metis
    moreover have "rows_len r = m * ?w"
      using arg_cong [OF bits_r, of length] length_concat_width [of ?w "map f new"] b(2) assms(6) by simp
    ultimately show ?thesis using r by blast
  qed
  from cut [OF bits(1) sw(1) dims(3)] obtain k where k: "rows_slice (pc_seq_len c * ?w) (kb_len (kc_k g)) (kc_k_rows g) = Some k"
    "rows_len k = m * ?w" "stored hc (paged_dtype s) k = concat (map fst new)" by (auto simp: kc_k_rows_def)
  from cut [OF bits(2) sw(2) dims(4)] obtain v where v: "rows_slice (pc_seq_len c * ?w) (kb_len (kc_v g)) (kc_v_rows g) = Some v"
    "rows_len v = m * ?w" "stored hc (paged_dtype s) v = concat (map snd new)" by (auto simp: kc_v_rows_def)
  have kept: "map (kept_at hc s k v) [0..<m] = new"
  proof (rule nth_equalityI)
    fix i assume "i < length (map (kept_at hc s k v) [0..<m])"
    then have i: "i < m" by simp
    have "slot ?w i (concat (map f new)) = f (new ! i)" if "same_width ?w (map f (?old @ new))"
      for f :: "u32 list \<times> u32 list \<Rightarrow> u32 list"
      using slot_concat [of ?w "map f new" i] that i assms(6) by simp
    then show "map (kept_at hc s k v) [0..<m] ! i = new ! i"
      using i sw k(3) v(3) assms(3) by (simp add: kept_at_def)
  qed (simp add: assms(6))
  have "rows_len v = m * pg_v_width s" using v(2) assms(3) by simp
  from append_contiguous_ok [OF assms(1) k(2) this, of hc] has_room_needed [OF assms(1,2)]
  obtain c1 s' where a: "pc_append_contiguous hc k v m s c = Some (Inr (c1, s'))" "seq_ok n s' c1"
    "others_same n (s, c) (s', c1)" "seq_rows s' c1 = ?old @ new"
    unfolding kept by auto
  let ?c = "c1\<lparr>pc_recurrent := kc_recurrent g\<rparr>"
  have "scatter_layer hc m g s c = Some (?c, s')"
    using k(1) v(1) a(1) by (simp add: scatter_layer_def Let_def pg_k_width_def)
  moreover have "seq_ok n s' ?c" "others_same n (s, c) (s', ?c)" "seq_rows s' ?c = ?old @ new"
    using a by (simp_all add: seq_ok_def others_same_def seq_rows_def)
  ultimately show ?thesis by (intro exI [of _ ?c] exI [of _ s']) simp
qed

text \<open>With unequal widths the cut of the V rows is wrong unless the sequence is empty.\<close>

lemma scatter_layer_split_widths:
  assumes "pg_v_width s \<noteq> pg_k_width s" "0 < pc_seq_len c" "0 < m"
    "kb_len (kc_v g) = (pc_seq_len c + m) * pg_v_width s"
  shows "scatter_layer hc m g s c = None"
proof (cases "rows_slice (pc_seq_len c * pg_k_width s) (kb_len (kc_v g)) (kc_v_rows g)")
  case None
  then show ?thesis by (simp add: scatter_layer_def Let_def pg_k_width_def split: option.splits)
next
  case (Some v)
  note s = rows_slice_iff [OF Some]
  have "rows_len v = kb_len (kc_v g) - pc_seq_len c * pg_k_width s"
    using s arg_cong [of "row_bits v" _ length] by (simp add: kc_v_rows_def) (metis length_row_bits length_take length_drop min.idem rows_len_view)
  moreover have "pc_seq_len c * pg_k_width s \<le> (pc_seq_len c + m) * pg_v_width s" using s assms(4) by simp
  moreover have "pc_seq_len c * pg_k_width s \<noteq> pc_seq_len c * pg_v_width s" using assms(1,2) by simp
  moreover have "r \<noteq> B" if "r = A + B - K" "K \<le> A + B" "K \<noteq> A" for r A B K :: nat using that by linarith
  ultimately have "rows_len v \<noteq> m * pg_v_width s" using assms(4) by (metis add_mult_distrib)
  then have "pc_append_contiguous hc k v m s c = None" for k by (simp add: pc_append_contiguous_def)
  then show ?thesis using Some by (simp add: scatter_layer_def Let_def pg_k_width_def split: option.splits)
qed


section \<open>All layers\<close>

lemma gather_layers_ok:
  assumes "layers_ok ns ss cs" "\<forall>s \<in> set ss. 0 < pg_k_width s"
  shows "\<exists>gs. gather_layers hc ss cs = Some gs \<and> length gs = length ns \<and> list_all2 has_dims (map layer_dims ss) gs
    \<and> (\<forall>l < length ns. holds (gs ! l) (seq_rows (ss ! l) (cs ! l)) \<and> kc_rows (gs ! l) = length (seq_rows (ss ! l) (cs ! l)))"
  using assms
proof (induction ss cs arbitrary: ns rule: list_induct2')
  case (4 s ss c cs)
  from 4(2) obtain n ns' where ns: "ns = n # ns'" "seq_ok n s c" "layers_ok ns' ss cs"
    by (auto elim: layers_ok_cases)
  have len: "length (seq_rows s c) = pc_seq_len c" by (simp add: seq_rows_def table_rows_def)
  obtain g where g: "pc_to_contiguous hc s c = Some g" "holds g (seq_rows s c)" "kc_rows g = length (seq_rows s c)"
    "has_dims (layer_dims s) g"
    using to_contiguous_ok [of n s c hc] ns(2) 4(3) len by (auto simp: seq_ok_def has_dims_def layer_dims_def)
  obtain gs where gs: "gather_layers hc ss cs = Some gs" "length gs = length ns'" "list_all2 has_dims (map layer_dims ss) gs"
    "\<And>l. l < length ns' \<Longrightarrow> holds (gs ! l) (seq_rows (ss ! l) (cs ! l)) \<and> kc_rows (gs ! l) = length (seq_rows (ss ! l) (cs ! l))"
    using 4(1) [OF ns(3)] 4(3) by auto
  have "holds ((g # gs) ! l) (seq_rows ((s # ss) ! l) ((c # cs) ! l))
      \<and> kc_rows ((g # gs) ! l) = length (seq_rows ((s # ss) ! l) ((c # cs) ! l))" if "l < length ns" for l
    using that g gs(4) by (cases l) (simp_all add: ns(1))
  with g gs show ?case by (intro exI [of _ "g # gs"]) (simp add: ns(1))
qed (auto elim: layers_ok_cases)

lemma scatter_layers_ok:
  assumes "layers_ok ns ss cs" "list_all2 (has_room m) ss cs" "\<forall>s \<in> set ss. pg_v_width s = pg_k_width s"
    "length gs = length ns" "length news = length ns"
    "\<And>l. l < length ns \<Longrightarrow> holds (gs ! l) (seq_rows (ss ! l) (cs ! l) @ news ! l)
       \<and> kc_rows (gs ! l) = length (seq_rows (ss ! l) (cs ! l)) + m \<and> length (news ! l) = m \<and> has_dims (layer_dims (ss ! l)) (gs ! l)"
  shows "\<exists>cs' ss'. scatter_layers hc m gs ss cs = Some (cs', ss') \<and> layers_ok ns ss' cs'
    \<and> (\<forall>l < length ns. seq_rows (ss' ! l) (cs' ! l) = seq_rows (ss ! l) (cs ! l) @ news ! l)
    \<and> map store_shape ss' = map store_shape ss"
  using assms
proof (induction ss cs arbitrary: ns gs news rule: list_induct2')
  case (4 s ss c cs)
  from 4(2) obtain n ns' where ns: "ns = n # ns'" "seq_ok n s c" "layers_ok ns' ss cs"
    by (auto elim: layers_ok_cases)
  from 4(5) ns(1) obtain g gs' where gs: "gs = g # gs'" by (cases gs) auto
  from 4(6) ns(1) obtain new news' where news: "news = new # news'" by (cases news) auto
  have room: "has_room m s c" "list_all2 (has_room m) ss cs" and w: "pg_v_width s = pg_k_width s" using 4(3,4) by simp_all
  have "holds g (seq_rows s c @ new)" "kc_rows g = length (seq_rows s c) + m" "length new = m" "has_dims (layer_dims s) g"
    using 4(7) [of 0] by (simp_all add: ns(1) gs news)
  from scatter_layer_ok [OF ns(2) room(1) w this, of hc] obtain c' s' where st: "scatter_layer hc m g s c = Some (c', s')"
    "seq_ok n s' c'" "others_same n (s, c) (s', c')" "seq_rows s' c' = seq_rows s c @ new" by blast
  have "\<exists>cs' ss'. scatter_layers hc m gs' ss cs = Some (cs', ss') \<and> layers_ok ns' ss' cs'
    \<and> (\<forall>l < length ns'. seq_rows (ss' ! l) (cs' ! l) = seq_rows (ss ! l) (cs ! l) @ news' ! l)
    \<and> map store_shape ss' = map store_shape ss"
    using 4(7) [of "Suc _"] 4(4-6) ns gs news room(2) by (intro 4(1)) auto
  then obtain cs' ss' where r: "scatter_layers hc m gs' ss cs = Some (cs', ss')" "layers_ok ns' ss' cs'"
    "\<And>l. l < length ns' \<Longrightarrow> seq_rows (ss' ! l) (cs' ! l) = seq_rows (ss ! l) (cs ! l) @ news' ! l"
    "map store_shape ss' = map store_shape ss" by blast
  have "seq_rows ((s' # ss') ! l) ((c' # cs') ! l) = seq_rows ((s # ss) ! l) ((c # cs) ! l) @ news ! l" if "l < length ns" for l
    using that st(4) r(3) by (cases l) (simp_all add: ns(1) news)
  with st r show ?case
    by (intro exI [of _ "c' # cs'"] exI [of _ "s' # ss'"]) (simp add: gs ns(1) layers_ok_Cons others_same_def)
qed (auto elim: layers_ok_cases)

section \<open>Properties\<close>

text \<open>A model that computes the same row in every layer, for the witnesses.\<close>

definition sample_model :: "u32 list \<Rightarrow> u32 list \<Rightarrow> unit kv_cache list \<Rightarrow> unit kv_cache list" where
  "sample_model k v = map (\<lambda>c. c\<lparr>kc_k := kb_extend_f32 sample_half k (kc_k c),
     kc_v := kb_extend_f32 sample_half v (kc_v c), kc_positions := kc_positions c + 1\<rparr>)"

lemma sample_model_appends:
  assumes "0 < length k"
  shows "model_appends (replicate n (length k, length v, F32)) (replicate n [(k, v)]) (sample_model k v)"
proof -
  have "extended (length k, length v, F32) [(k, v)] c (hd (sample_model k v [c]))"
    if c: "has_dims (length k, length v, F32) c" for c
  proof -
    define g where "g = hd (sample_model k v [c])"
    have g: "kc_k g = kb_extend_f32 sample_half k (kc_k c)" "kc_v g = kb_extend_f32 sample_half v (kc_v c)"
      "kc_positions g = kc_positions c + 1" "kc_k_width g = kc_k_width c" "kc_v_width g = kc_v_width c"
      by (simp_all add: g_def sample_model_def kc_k_width_def kc_v_width_def)
    have d: "kc_k_width c = length k" "kc_v_width c = length v" "kb_dtype (kc_k c) = F32" "kb_dtype (kc_v c) = F32"
      using c by (simp_all add: has_dims_def kc_dtype_def)
    have bits: "stored sample_half F32 (RowsF32 xs) = xs" for xs by (simp add: stored_def rows_to_f32_def)
    show ?thesis unfolding g_def [symmetric] extended_def
    proof (simp, intro allI impI, elim conjE)
      fix h assume h: "holds c h" "kc_rows c = length h"
      note b = holds_all_bits [OF h]
      have len: "kb_len (kc_k c) = length h * length k" using holds_lengths(1) [OF h(1)] h(2) d(1) by simp
      then have "kc_rows g = Suc (length h)" using assms by (simp add: kc_rows_def g(1,4) d(1))
      then show "holds g (h @ [(k, v)]) \<and> kc_rows g = Suc (length h) \<and> kc_k_width g = length k
          \<and> kc_v_width g = length v \<and> kc_dtype g = F32 \<and> kb_dtype (kc_v g) = F32"
        using h b d by (simp add: holds_def g bits kc_dtype_def end_of_def)
    qed
  qed
  then show ?thesis
    by (auto simp: model_appends_def list_all2_conv_all_nth sample_model_def)
qed

definition sample_paged :: "unit paged_cache \<times> paged_store" where
  "sample_paged = (case pc_push sample_half [1] [2] (the (paged_new 2 2 1 1)) paged_cache_new of Some (Inr x) \<Rightarrow> x)"

definition sample_split :: "unit paged_cache \<times> paged_store" where
  "sample_split = (case pc_push sample_half [1] [2, 3] (the (paged_new_split 2 2 1 1 2)) paged_cache_new of Some (Inr x) \<Rightarrow> x)"



text \<open>
  A decode token over pages advances every layer or none, by the row each layer computed, if it has one.
\<close>

theorem paged_decode_all_or_none:
  assumes "layers_ok ns ss cs" "length rows = length ns"
    "list_all2 pushable ss rows"
  shows "if layers_have_room 1 ss cs
    then \<exists>cs' ss'. forward_token_kv hc rows ss cs = Some (Inr (cs', ss')) \<and> layers_ok ns ss' cs'
      \<and> (\<forall>l < length ns. seq_rows (ss' ! l) (cs' ! l) = seq_rows (ss ! l) (cs ! l) @ pushed_rows hc (ss ! l) (rows ! l))
    else forward_token_kv hc rows ss cs = Some (Inl PagedStoreExhausted)"
proof (cases "layers_have_room 1 ss cs")
  case False
  with assms(1) show ?thesis by (simp add: forward_token_kv_def reserve_all_def bind_run_def layers_ok_def)
next
  case True
  have len: "length ss = length ns" "length cs = length ns" using assms(1) by (simp_all add: layers_ok_def)
  from reserve_layers_ok [OF assms(1) True] obtain cs1 ss1 where r: "reserve_layers 1 ss cs = Some (cs1, ss1)"
    "layers_ok ns ss1 cs1" "list_all2 (has_room 1) ss1 cs1" "map2 seq_rows ss1 cs1 = map2 seq_rows ss cs"
    "map store_shape ss1 = map store_shape ss" by blast
  have len1: "length ss1 = length ns" "length cs1 = length ns" using r(2) by (simp_all add: layers_ok_def)
  have shape: "store_shape (ss1 ! l) = store_shape (ss ! l)" if "l < length ns" for l
    using arg_cong [OF r(5), of "\<lambda>xs. xs ! l"] that len(1) len1(1) by simp
  have rows1: "seq_rows (ss1 ! l) (cs1 ! l) = seq_rows (ss ! l) (cs ! l)" if "l < length ns" for l
    using arg_cong [OF r(4), of "\<lambda>xs. xs ! l"] that len len1 by simp
  have kept1: "pushed_rows hc (ss1 ! l) = pushed_rows hc (ss ! l)" "pushable (ss1 ! l) = pushable (ss ! l)" if "l < length ns" for l
    using store_shape_eq [OF shape [OF that]] by (simp_all add: pushed_rows_def pushable_def fun_eq_iff split: option.splits)
  have "list_all2 pushable ss1 rows"
    using assms(2,3) len len1 kept1(2) by (auto simp: list_all2_conv_all_nth)
  from push_layers_ok [OF r(2,3) assms(2) this, of hc] obtain cs' ss' where
    "push_layers hc rows ss1 cs1 = Some (cs', ss')" "layers_ok ns ss' cs'"
    "\<And>l. l < length ns \<Longrightarrow> seq_rows (ss' ! l) (cs' ! l) = seq_rows (ss1 ! l) (cs1 ! l) @ pushed_rows hc (ss1 ! l) (rows ! l)"
    by blast
  with True r(1) len rows1 kept1(1) show ?thesis
    by (simp add: forward_token_kv_def reserve_all_def bind_run_def)
qed

text \<open>
  C33. The scatter cuts the new V rows at the width of a K row.  For a layer whose V rows have another
  width, a short convolution or a model with a separate V head width, a batch that continues a
  non-empty sequence, a later prefill chunk or an adopted prefix, therefore always panics.
\<close>

theorem split_width_prefill_panics:
  assumes "layers_ok [n] [s] [c]" "0 < m" "0 < pg_k_width s" "pg_v_width s \<noteq> pg_k_width s" "0 < pc_seq_len c"
    and "model_appends [layer_dims s] [new] model" "length new = m" "layers_have_room m [s] [c]"
  shows "forward_batch_kv hc model m [s] [c] = None"
proof -
  from reserve_layers_ok [OF assms(1,8)] obtain c1 s1 where r: "reserve_layers m [s] [c] = Some ([c1], [s1])"
    "layers_ok [n] [s1] [c1]" "store_shape s1 = store_shape s" "pc_seq_len c1 = pc_seq_len c"
    by (auto simp: layers_ok_def length_Suc_conv)
  note eqs = store_shape_eq [OF r(3)]
  have "\<forall>s \<in> set [s1]. 0 < pg_k_width s" using assms(3) eqs by simp
  from gather_layers_ok [OF r(2) this, of hc] obtain g where g: "gather_layers hc [s1] [c1] = Some [g]"
    "has_dims (layer_dims s1) g" "holds g (seq_rows s1 c1)" "kc_rows g = length (seq_rows s1 c1)"
    by (auto simp: length_Suc_conv)
  have "layer_dims s1 = layer_dims s" using eqs by (simp add: layer_dims_def)
  with assms(6) g(2) obtain g' where g': "model [g] = [g']" "extended (layer_dims s) new g g'"
    by (auto simp: model_appends_def length_Suc_conv dest!: spec [of _ "[g]"])
  have "holds g' (seq_rows s1 c1 @ new)" "kc_rows g' = length (seq_rows s1 c1) + m" "kc_v_width g' = pg_v_width s"
    using g' g(3,4) assms(7) by (auto simp: extended_def layer_dims_def)
  then have "kb_len (kc_v g') = (pc_seq_len c1 + m) * pg_v_width s1"
    using holds_lengths(2) [of g'] by (simp add: seq_rows_def table_rows_def eqs)
  then have "scatter_layer hc m g' s1 c1 = None"
    using assms(2,4,5) r(4) by (intro scatter_layer_split_widths) (simp_all add: eqs)
  with r(1) g(1) g'(1) assms(2,8) show ?thesis
    by (simp add: forward_batch_kv_def reserve_all_def bind_run_def)
qed

theorem split_width_prefill_panics_witness:
  "forward_batch_kv sample_half (sample_model [7] [8, 9]) 1 [snd sample_split] [fst sample_split] = None
    \<and> layers_have_room 1 [snd sample_split] [fst sample_split]"
proof -
  have dims: "layer_dims (snd sample_split) = (length [7 :: u32], length [8 :: u32, 9], F32)" by code_simp
  have "layers_ok [2] [snd sample_split] [fst sample_split]"
    unfolding layers_ok_Cons by (simp add: layers_ok_def) code_simp
  moreover have "layers_have_room 1 [snd sample_split] [fst sample_split]" by code_simp
  moreover have "pg_k_width (snd sample_split) = 1" "pg_v_width (snd sample_split) = 2" "pc_seq_len (fst sample_split) = 1"
    by code_simp+
  ultimately show ?thesis
    using split_width_prefill_panics [of 2 "snd sample_split" "fst sample_split" 1 "[([7], [8, 9])]"
        "sample_model [7] [8, 9]" sample_half] sample_model_appends [of "[7]" 1 "[8, 9]"] dims
    by simp
qed

end
