(* ===== verification/Radix_Tree.thy ===== *)
theory Radix_Tree
  imports Page_Align "HOL-Library.AList" "HOL-Library.Sublist"
begin

text \<open>
  The arena the prefix cache lives in (\<^verbatim>\<open>policy/radix/tree.rs\<close>): a trie over pages of tokens, whose
  nodes carry a run of token ids and the page index of each of them.  A node is named by its
  slot; a child is registered under the first page of its key.

  \<open>None\<close> is a panic (an index outside the arena, a missing parent, a failed assertion) or a
  chain of parents that does not end.  The hash map of children is an association list: only
  \<open>rt_walk\<close> iterates over it, and what follows from a walk does not depend on its order.
\<close>

section \<open>Page keys\<close>

type_synonym page_key = "u32 list"
type_synonym node_id = nat

definition page_key :: "u32 list \<Rightarrow> nat \<Rightarrow> page_key" where
  "page_key input_ids page_size = take (min page_size (length input_ids)) input_ids"

definition match_len :: "u32 list \<Rightarrow> u32 list \<Rightarrow> nat" where
  "match_len a b = length (takeWhile (\<lambda>(x, y). x = y) (zip a b))"

section \<open>Nodes and the arena\<close>

record radix_node =
  rn_key :: "u32 list"
  rn_value :: "u32 list"
  rn_parent :: "node_id option"
  rn_children :: "(page_key \<times> node_id) list"
  rn_ref_count :: nat
  rn_timestamp :: int
  rn_mamba_value :: "u32 option"
  rn_mamba_ref_count :: nat
  rn_swa_tombstone :: bool
  rn_swa_ref_count :: nat
  rn_swa_uuid :: "64 word option"

definition node_new :: "int \<Rightarrow> radix_node" where
  "node_new timestamp = \<lparr>rn_key = [], rn_value = [], rn_parent = None, rn_children = [], rn_ref_count = 0,
     rn_timestamp = timestamp, rn_mamba_value = None, rn_mamba_ref_count = 0, rn_swa_tombstone = False,
     rn_swa_ref_count = 0, rn_swa_uuid = None\<rparr>"

definition rn_length :: "radix_node \<Rightarrow> nat" where
  "rn_length n = length (rn_key n)"

definition rn_is_leaf :: "radix_node \<Rightarrow> bool" where
  "rn_is_leaf n \<longleftrightarrow> rn_children n = []"

definition rn_is_root :: "radix_node \<Rightarrow> bool" where
  "rn_is_root n \<longleftrightarrow> rn_parent n = None"

record radix_tree =
  rt_nodes :: "radix_node list"
  rt_page_size :: nat
  rt_uuid :: "64 word"

definition radix_root :: node_id where
  "radix_root = 0"

definition radix_tree_new :: "nat \<Rightarrow> radix_tree option" where
  "radix_tree_new page_size =
     (if page_size = 0 then None
      else Some \<lparr>rt_nodes = [(node_new 0)\<lparr>rn_ref_count := 1\<rparr>], rt_page_size = page_size, rt_uuid = 0\<rparr>)"

definition rt_node :: "radix_tree \<Rightarrow> node_id \<Rightarrow> radix_node option" where
  "rt_node t i = (if i < length (rt_nodes t) then Some (rt_nodes t ! i) else None)"

text \<open>A write through the code's \<open>node_mut\<close>.\<close>

definition rt_node_mut :: "node_id \<Rightarrow> (radix_node \<Rightarrow> radix_node) \<Rightarrow> radix_tree \<Rightarrow> radix_tree option" where
  "rt_node_mut i f t =
     (if i < length (rt_nodes t) then Some (t\<lparr>rt_nodes := (rt_nodes t)[i := f (rt_nodes t ! i)]\<rparr>) else None)"

definition rt_parent :: "radix_tree \<Rightarrow> node_id \<Rightarrow> node_id option option" where
  "rt_parent t i = map_option rn_parent (rt_node t i)"

text \<open>A node id is a \<open>u32\<close>, cast from the length of the arena.\<close>

definition rt_alloc :: "int \<Rightarrow> radix_tree \<Rightarrow> node_id \<times> radix_tree" where
  "rt_alloc timestamp t =
     (unat (word_of_nat (length (rt_nodes t)) :: u32), t\<lparr>rt_nodes := rt_nodes t @ [node_new timestamp]\<rparr>)"

definition rt_next_uuid :: "radix_tree \<Rightarrow> 64 word \<times> radix_tree" where
  "rt_next_uuid t = (rt_uuid t + 1, t\<lparr>rt_uuid := rt_uuid t + 1\<rparr>)"

definition rt_set_key_value :: "node_id \<Rightarrow> u32 list \<Rightarrow> u32 list \<Rightarrow> radix_tree \<Rightarrow> radix_tree option" where
  "rt_set_key_value i key value t =
     (if length key \<noteq> length value then None
      else rt_node_mut i (\<lambda>n. n\<lparr>rn_key := key, rn_value := value\<rparr>) t)"

definition rt_set_parent :: "node_id \<Rightarrow> node_id \<Rightarrow> radix_tree \<Rightarrow> radix_tree option" where
  "rt_set_parent i parent t = do {
     n \<leftarrow> rt_node t i;
     let key = page_key (rn_key n) (rt_page_size t);
     t \<leftarrow> rt_node_mut i (\<lambda>n. n\<lparr>rn_parent := Some parent\<rparr>) t;
     rt_node_mut parent (\<lambda>p. p\<lparr>rn_children := AList.update key i (rn_children p)\<rparr>) t
   }"

definition rt_child :: "radix_tree \<Rightarrow> node_id \<Rightarrow> u32 list \<Rightarrow> node_id option option" where
  "rt_child t i input_ids =
     map_option (\<lambda>n. map_of (rn_children n) (page_key input_ids (rt_page_size t))) (rt_node t i)"

definition rt_unlink :: "node_id \<Rightarrow> radix_tree \<Rightarrow> (node_id \<times> radix_tree) option" where
  "rt_unlink i t = do {
     n \<leftarrow> rt_node t i;
     parent \<leftarrow> rn_parent n;
     let key = page_key (rn_key n) (rt_page_size t);
     t \<leftarrow> rt_node_mut parent (\<lambda>p. p\<lparr>rn_children := AList.delete key (rn_children p)\<rparr>) t;
     t \<leftarrow> rt_node_mut i (\<lambda>n. n\<lparr>rn_parent := None\<rparr>) t;
     Some (parent, t)
   }"

text \<open>The prefix is the new node; the old id keeps the suffix.\<close>

definition rt_split_at :: "node_id \<Rightarrow> nat \<Rightarrow> radix_tree \<Rightarrow> (node_id \<times> radix_tree) option" where
  "rt_split_at i pos t = do {
     n \<leftarrow> rt_node t i;
     if \<not> (0 < pos \<and> pos < rn_length n) then None else do {
       parent \<leftarrow> rn_parent n;
       let (prefix, t) = rt_alloc (rn_timestamp n) t;
       n \<leftarrow> rt_node t i;
       let (head_key, tail_key) = (take pos (rn_key n), drop pos (rn_key n));
       let (head_value, tail_value) = (take pos (rn_value n), drop pos (rn_value n));
       t \<leftarrow> rt_set_key_value prefix head_key head_value t;
       t \<leftarrow> rt_set_parent prefix parent t;
       original \<leftarrow> rt_node t i;
       t \<leftarrow> rt_node_mut prefix (\<lambda>h. h\<lparr>rn_ref_count := rn_ref_count original,
              rn_swa_ref_count := rn_swa_ref_count original, rn_swa_tombstone := rn_swa_tombstone original,
              rn_swa_uuid := rn_swa_uuid original\<rparr>) t;
       t \<leftarrow> rt_node_mut i (\<lambda>n. n\<lparr>rn_swa_uuid := None\<rparr>) t;
       t \<leftarrow> rt_set_key_value i tail_key tail_value t;
       t \<leftarrow> rt_set_parent i prefix t;
       Some (prefix, t)
     }
   }"

section \<open>Paths and walks\<close>

partial_function (option) rt_path_chunks :: "radix_tree \<Rightarrow> node_id \<Rightarrow> u32 list list \<Rightarrow> u32 list list option" where
  "rt_path_chunks t cur chunks = do {
     n \<leftarrow> rt_node t cur;
     case rn_parent n of
       None \<Rightarrow> Some chunks
     | Some parent \<Rightarrow> rt_path_chunks t parent (chunks @ [rn_value n])
   }"

definition rt_path_value :: "radix_tree \<Rightarrow> node_id \<Rightarrow> u32 list option" where
  "rt_path_value t i = map_option (\<lambda>chunks. concat (rev chunks)) (rt_path_chunks t i [])"

partial_function (option) rt_path_len_loop :: "radix_tree \<Rightarrow> node_id \<Rightarrow> nat \<Rightarrow> nat option" where
  "rt_path_len_loop t cur acc = do {
     n \<leftarrow> rt_node t cur;
     case rn_parent n of
       None \<Rightarrow> Some acc
     | Some parent \<Rightarrow> rt_path_len_loop t parent (acc + rn_length n)
   }"

definition rt_path_len :: "radix_tree \<Rightarrow> node_id \<Rightarrow> nat option" where
  "rt_path_len t i = rt_path_len_loop t i 0"

text \<open>The stack is written top first.\<close>

partial_function (option) rt_walk_loop :: "radix_tree \<Rightarrow> node_id list \<Rightarrow> node_id list \<Rightarrow> node_id list option" where
  "rt_walk_loop t stack out =
     (case stack of
        [] \<Rightarrow> Some out
      | i # stack \<Rightarrow> do {
          n \<leftarrow> rt_node t i;
          let children = map snd (rn_children n);
          rt_walk_loop t (rev children @ stack) (out @ children)
        })"

definition rt_walk :: "radix_tree \<Rightarrow> node_id list option" where
  "rt_walk t = rt_walk_loop t [radix_root] []"

definition rt_leaves :: "radix_tree \<Rightarrow> node_id list option" where
  "rt_leaves t = map_option (filter (\<lambda>i. case rt_node t i of None \<Rightarrow> False | Some n \<Rightarrow> rn_is_leaf n)) (rt_walk t)"

text \<open>Whether the structural assertions all hold.\<close>

definition node_structure_ok :: "radix_tree \<Rightarrow> node_id \<Rightarrow> bool" where
  "node_structure_ok t i =
     (case rt_node t i of
        None \<Rightarrow> False
      | Some n \<Rightarrow>
          (case rn_parent n of
             None \<Rightarrow> False
           | Some parent \<Rightarrow> rt_child t parent (rn_key n) = Some (Some i))
          \<and> length (rn_key n) = length (rn_value n)
          \<and> rn_length n mod rt_page_size t = 0)"

definition check_structure :: "radix_tree \<Rightarrow> bool" where
  "check_structure t = (case rt_walk t of None \<Rightarrow> False | Some ids \<Rightarrow> list_all (node_structure_ok t) ids)"

section \<open>What a well-formed arena is\<close>

abbreviation nd :: "radix_tree \<Rightarrow> node_id \<Rightarrow> radix_node" where
  "nd t i \<equiv> rt_nodes t ! i"

abbreviation arena :: "radix_tree \<Rightarrow> nat" where
  "arena t \<equiv> length (rt_nodes t)"

definition linked :: "radix_tree \<Rightarrow> node_id \<Rightarrow> bool" where
  "linked t i \<longleftrightarrow> i < arena t \<and> rn_parent (nd t i) \<noteq> None"

text \<open>The tokens and the page indices that the path from the root to a node spells.\<close>

inductive spells :: "radix_tree \<Rightarrow> node_id \<Rightarrow> u32 list \<Rightarrow> u32 list \<Rightarrow> bool" for t where
  spells_root: "spells t 0 [] []"
| spells_child: "\<lbrakk>spells t p ks vs; i < arena t; rn_parent (nd t i) = Some p; i \<noteq> 0\<rbrakk>
    \<Longrightarrow> spells t i (ks @ rn_key (nd t i)) (vs @ rn_value (nd t i))"

inductive_cases spellsE: "spells t i ks vs"

definition edge_ok :: "radix_tree \<Rightarrow> node_id \<Rightarrow> bool" where
  "edge_ok t i \<longleftrightarrow> (\<forall>p. rn_parent (nd t i) = Some p \<longrightarrow>
     p < arena t \<and> rn_key (nd t i) \<noteq> [] \<and> rt_page_size t dvd length (rn_key (nd t i))
     \<and> length (rn_value (nd t i)) = length (rn_key (nd t i)) \<and> (\<exists>ks vs. spells t i ks vs))"

definition children_ok :: "radix_tree \<Rightarrow> node_id \<Rightarrow> bool" where
  "children_ok t p \<longleftrightarrow> distinct (map fst (rn_children (nd t p)))
     \<and> (\<forall>key c. map_of (rn_children (nd t p)) key = Some c \<longleftrightarrow>
          c < arena t \<and> rn_parent (nd t c) = Some p \<and> take (rt_page_size t) (rn_key (nd t c)) = key)"

definition tree_ok :: "radix_tree \<Rightarrow> bool" where
  "tree_ok t \<longleftrightarrow> 0 < rt_page_size t \<and> 0 < arena t \<and> arena t \<le> 2 ^ 32 \<and> rn_parent (nd t 0) = None
     \<and> (\<forall>i < arena t. edge_ok t i) \<and> (\<forall>p < arena t. children_ok t p)"

lemma rt_node_some [simp]: "i < arena t \<Longrightarrow> rt_node t i = Some (nd t i)"
  by (simp add: rt_node_def)

lemma alloc_id [simp]: "arena t < 2 ^ 32 \<Longrightarrow> unat (word_of_nat (arena t) :: u32) = arena t"
  by (simp add: unat_of_nat)

lemma page_key_take [simp]: "page_key ids n = take n ids"
  by (simp add: page_key_def take_all min_def)

lemma tree_okD:
  assumes "tree_ok t"
  shows "0 < rt_page_size t" "0 < arena t" "arena t \<le> 2 ^ 32" "rn_parent (nd t 0) = None"
  using assms by (simp_all add: tree_ok_def)

lemma edgeD:
  assumes "tree_ok t" "i < arena t" "rn_parent (nd t i) = Some p"
  shows "p < arena t" "rn_key (nd t i) \<noteq> []" "rt_page_size t dvd length (rn_key (nd t i))"
    "length (rn_value (nd t i)) = length (rn_key (nd t i))" "i \<noteq> 0" "\<exists>ks vs. spells t i ks vs"
proof -
  from assms show "i \<noteq> 0" by (intro notI) (simp add: tree_ok_def)
qed (use assms in \<open>auto simp: tree_ok_def edge_ok_def\<close>)

lemma page_le_key:
  assumes "tree_ok t" "i < arena t" "rn_parent (nd t i) = Some p"
  shows "rt_page_size t \<le> length (rn_key (nd t i))"
  using edgeD(2,3) [OF assms] by (auto intro: dvd_imp_le)

lemma child_lookup:
  assumes "tree_ok t" "p < arena t"
  shows "map_of (rn_children (nd t p)) key = Some c \<longleftrightarrow>
    c < arena t \<and> rn_parent (nd t c) = Some p \<and> take (rt_page_size t) (rn_key (nd t c)) = key"
  using assms unfolding tree_ok_def children_ok_def by blast

lemma rt_child_lookup:
  assumes "tree_ok t" "p < arena t"
  shows "rt_child t p q = Some (map_of (rn_children (nd t p)) (take (rt_page_size t) q))"
  using assms by (simp add: rt_child_def)

lemma spells_arena: "spells t i ks vs \<Longrightarrow> tree_ok t \<Longrightarrow> i < arena t"
  by (erule spells.cases) (auto dest: tree_okD(2))

lemma spells_lengths:
  "spells t i ks vs \<Longrightarrow> tree_ok t \<Longrightarrow> length vs = length ks \<and> rt_page_size t dvd length ks"
  by (induction rule: spells.induct) (simp_all add: edgeD(3,4))

lemma spells_unique:
  "spells t i ks vs \<Longrightarrow> spells t i ks' vs' \<Longrightarrow> tree_ok t \<Longrightarrow> ks' = ks \<and> vs' = vs"
proof (induction arbitrary: ks' vs' rule: spells.induct)
  case spells_root
  from spells_root.prems(1) show ?case by (cases rule: spells.cases) auto
next
  case (spells_child p ks vs i)
  from spells_child.prems(1) spells_child.hyps(3,4) obtain ks2 vs2 where "spells t p ks2 vs2"
    "ks' = ks2 @ rn_key (nd t i)" "vs' = vs2 @ rn_value (nd t i)"
    by (auto elim: spells.cases)
  with spells_child.IH [OF _ spells_child.prems(2)] show ?case by blast
qed

lemma linked_spells: "tree_ok t \<Longrightarrow> linked t i \<Longrightarrow> \<exists>ks vs. spells t i ks vs"
  by (auto simp: linked_def edgeD)

lemma spells_linked: "spells t i ks vs \<Longrightarrow> i = 0 \<or> linked t i"
  by (cases rule: spells.cases) (auto simp: linked_def)

lemma spells_parent:
  assumes "spells t i ks vs" "i \<noteq> 0"
  obtains p ks' vs' where "spells t p ks' vs'" "i < arena t" "rn_parent (nd t i) = Some p"
    "ks = ks' @ rn_key (nd t i)" "vs = vs' @ rn_value (nd t i)"
  using assms by (cases rule: spells.cases) auto

text \<open>A node on the path from the root to another, or the other itself.\<close>

inductive above :: "radix_tree \<Rightarrow> node_id \<Rightarrow> node_id \<Rightarrow> bool" for t where
  above_refl: "above t i i"
| above_step: "\<lbrakk>above t i p; c < arena t; rn_parent (nd t c) = Some p\<rbrakk> \<Longrightarrow> above t i c"

lemma above_trans: "above t b c \<Longrightarrow> above t a b \<Longrightarrow> above t a c"
  by (induction rule: above.induct) (auto intro: above.intros)

lemma above_spells:
  assumes "above t a b" "tree_ok t" "spells t b ks vs"
  shows "\<exists>ks1 vs1. spells t a ks1 vs1 \<and> prefix ks1 ks \<and> prefix vs1 vs \<and> (a = b \<or> length ks1 < length ks)"
  using assms
proof (induction arbitrary: ks vs rule: above.induct)
  case (above_refl i)
  then show ?case by auto
next
  case (above_step i p c)
  from above_step.prems above_step.hyps obtain ks' vs' where p: "spells t p ks' vs'"
    "ks = ks' @ rn_key (nd t c)" "vs = vs' @ rn_value (nd t c)"
    by (metis edgeD(5) option.inject spells_parent)
  from edgeD(2) [OF above_step.prems(1) above_step.hyps(2,3)] have "length ks' < length ks" using p by simp
  from above_step.IH [OF above_step.prems(1) p(1)] obtain ks1 vs1 where a: "spells t i ks1 vs1"
    "prefix ks1 ks'" "prefix vs1 vs'" by blast
  then have "prefix ks1 ks" "prefix vs1 vs" "length ks1 < length ks"
    using p(2,3) \<open>length ks' < length ks\<close> prefix_length_le [OF a(2)] by (simp_all add: le_less_trans)
  with a(1) show ?case by blast
qed

lemma above_root: "spells t i ks vs \<Longrightarrow> above t 0 i"
  by (induction rule: spells.induct) (auto intro: above.intros)

lemma above_antisym:
  assumes "tree_ok t" "above t a b" "above t b a" "spells t a ks vs"
  shows "a = b"
proof (rule ccontr)
  assume "a \<noteq> b"
  from above_spells [OF assms(3,1,4)] obtain kb vb where b: "spells t b kb vb" "length kb < length ks"
    using \<open>a \<noteq> b\<close> by auto
  from above_spells [OF assms(2,1) b(1)] obtain ka va where "spells t a ka va" "length ka \<le> length kb"
    by (auto dest: prefix_length_le)
  with assms(4) b(2) show False using spells_unique [OF assms(4) _ assms(1)] by fastforce
qed

lemma above_parentD:
  assumes "above t a c" "a \<noteq> c"
  obtains p where "rn_parent (nd t c) = Some p" "c < arena t" "above t a p"
  using assms by (cases rule: above.cases) auto

lemma above_below_child:
  assumes "above t p b" "b \<noteq> p"
  shows "\<exists>c. c < arena t \<and> rn_parent (nd t c) = Some p \<and> above t c b"
  using assms
proof (induction rule: above.induct)
  case (above_step i q c)
  show ?case
  proof (cases "q = i")
    case True
    with above_step.hyps show ?thesis by (auto intro: above_refl)
  next
    case False
    with above_step.IH above_step.hyps show ?thesis by (blast intro: above.above_step)
  qed
qed simp

lemma spells_child_page:
  assumes "tree_ok t" "spells t p kp vp" "c < arena t" "rn_parent (nd t c) = Some p" "above t c b" "spells t b ks vs"
  shows "prefix (kp @ rn_key (nd t c)) ks" "prefix (vp @ rn_value (nd t c)) vs"
    "take (rt_page_size t) (drop (length kp) ks) = take (rt_page_size t) (rn_key (nd t c))"
proof -
  from spells_child [OF assms(2,3,4)] edgeD(5) [OF assms(1,3,4)]
  have c: "spells t c (kp @ rn_key (nd t c)) (vp @ rn_value (nd t c))" by simp
  from above_spells [OF assms(5,1,6)] show pre: "prefix (kp @ rn_key (nd t c)) ks" "prefix (vp @ rn_value (nd t c)) vs"
    using spells_unique [OF c _ assms(1)] by auto
  from pre(1) page_le_key [OF assms(1,3,4)]
  show "take (rt_page_size t) (drop (length kp) ks) = take (rt_page_size t) (rn_key (nd t c))"
    by (auto simp: prefix_def)
qed

lemma aligned_next:
  assumes "(d :: nat) dvd a" "d dvd b" "a < b"
  shows "a + d \<le> b"
proof -
  from assms(1,2) obtain x y where "a = d * x" "b = d * y" by (auto elim!: dvdE)
  with assms(3) have "x < y" by auto
  then have "d * (x + 1) \<le> d * y" by (intro mult_le_mono2) simp
  then show ?thesis using \<open>a = _\<close> \<open>b = _\<close> by simp
qed

text \<open>A path that agrees with another beyond the start of a node's key runs through that node.\<close>

lemma spells_through:
  assumes "tree_ok t" "spells t a ks vs" "spells t b ks' vs'"
    and "n \<le> length ks" "n \<le> length ks'" "take n ks' = take n ks" "rt_page_size t dvd n"
    and "a \<noteq> 0 \<longrightarrow> length ks < n + length (rn_key (nd t a))"
  shows "above t a b"
  using assms(2-8)
proof (induction arbitrary: n rule: spells.induct)
  case spells_root
  then show ?case by (auto intro: above_root)
next
  case (spells_child p ks vs i)
  let ?key = "rn_key (nd t i)"
  have lt: "length ks < n" using spells_child.prems(6) spells_child.hyps by simp
  have len: "rt_page_size t dvd length ks" using spells_lengths [OF spells_child.hyps(1) assms(1)] by simp
  have pb: "above t p b"
  proof (rule spells_child.IH [of "length ks"])
    show "take (length ks) ks' = take (length ks) ks"
      using arg_cong [OF spells_child.prems(4), of "take (length ks)"] lt by (simp add: min_def)
    show "p \<noteq> 0 \<longrightarrow> length ks < length ks + length (rn_key (nd t p))"
    proof
      assume "p \<noteq> 0"
      with spells_child.hyps(1) obtain q where "rn_parent (nd t p) = Some q" "p < arena t" by (auto elim: spells_parent)
      from edgeD(2) [OF assms(1) this(2,1)] show "length ks < length ks + length (rn_key (nd t p))" by simp
    qed
  qed (use lt spells_child.prems len in auto)
  moreover have "b \<noteq> p"
    using spells_unique [OF spells_child.hyps(1) _ assms(1)] spells_child.prems(1,3) lt by fastforce
  ultimately obtain c where c: "c < arena t" "rn_parent (nd t c) = Some p" "above t c b"
    using above_below_child by blast
  have step: "length ks + rt_page_size t \<le> n" using aligned_next [OF len spells_child.prems(5) lt] .
  then have fits: "rt_page_size t \<le> n - length ks" "length ks \<le> n" by simp_all
  have "take (rt_page_size t) (drop (length ks) ks') = take (rt_page_size t) (drop (length ks) (take n ks'))"
    using fits by (simp add: drop_take min_def)
  also have "\<dots> = take (rt_page_size t) ?key"
    unfolding spells_child.prems(4) using fits by (simp add: drop_take min_def)
  finally have "take (rt_page_size t) (rn_key (nd t c)) = take (rt_page_size t) ?key"
    using spells_child_page(3) [OF assms(1) spells_child.hyps(1) c spells_child.prems(1)] by simp
  moreover have "p < arena t" using spells_arena [OF spells_child.hyps(1) assms(1)] .
  ultimately have "c = i"
    using child_lookup [OF assms(1), of p "take (rt_page_size t) ?key"] c(1,2) spells_child.hyps(2,3)
    by (metis option.inject)
  with c(3) show ?case by simp
qed

section \<open>The prefixes an arena holds\<close>

definition held :: "radix_tree \<Rightarrow> u32 list \<Rightarrow> u32 list \<Rightarrow> bool" where
  "held t ts vs \<longleftrightarrow> rt_page_size t dvd length ts
     \<and> (\<exists>i ks vs'. spells t i ks vs' \<and> prefix ts ks \<and> vs = take (length ts) vs')"

lemma held_root: "held t [] []"
  unfolding held_def by (auto intro!: exI spells_root)

lemma spells_held: "tree_ok t \<Longrightarrow> spells t i ks vs \<Longrightarrow> held t ks vs"
  unfolding held_def using spells_lengths [of t i ks vs] by (intro conjI exI [of _ i] exI [of _ ks] exI [of _ vs]) auto

lemma spells_cover:
  assumes "spells t a ks vs" "tree_ok t" "0 < n" "n \<le> length ks"
  shows "\<exists>c kc vc. above t c a \<and> c \<noteq> 0 \<and> spells t c kc vc \<and> n \<le> length kc \<and> length kc < n + length (rn_key (nd t c))"
  using assms
proof (induction rule: spells.induct)
  case (spells_child p ks vs i)
  note whole = spells.spells_child [OF spells_child.hyps]
  show ?case
  proof (cases "n \<le> length ks")
    case True
    with spells_child.IH spells_child.prems obtain c kc vc where
      "above t c p" "c \<noteq> 0" "spells t c kc vc" "n \<le> length kc" "length kc < n + length (rn_key (nd t c))" by blast
    with spells_child.hyps(2,3) show ?thesis by (blast intro: above_step)
  next
    case False
    with spells_child.prems(3) whole spells_child.hyps(4) show ?thesis
      by (intro exI [of _ i] exI [of _ "ks @ rn_key (nd t i)"] exI [of _ "vs @ rn_value (nd t i)"])
        (auto intro: above_refl)
  qed
qed simp

lemma take_prefix: "prefix xs ys \<Longrightarrow> n \<le> length xs \<Longrightarrow> take n ys = take n xs"
  by (auto simp: prefix_def)

lemma held_unique:
  assumes "tree_ok t" "held t ts vs" "held t ts vs'"
  shows "vs' = vs"
proof (cases "ts = []")
  case True
  with assms show ?thesis by (auto simp: held_def)
next
  case False
  from assms(2) obtain a ka va where a: "spells t a ka va" "prefix ts ka" "vs = take (length ts) va"
    and al: "rt_page_size t dvd length ts" by (auto simp: held_def)
  from assms(3) obtain b kb vb where b: "spells t b kb vb" "prefix ts kb" "vs' = take (length ts) vb"
    by (auto simp: held_def)
  from spells_cover [OF a(1) assms(1), of "length ts"] False prefix_length_le [OF a(2)]
  obtain c kc vc where c: "above t c a" "spells t c kc vc" "length ts \<le> length kc" "length kc < length ts + length (rn_key (nd t c))"
    by auto
  from above_spells [OF c(1) assms(1) a(1)] spells_unique [OF c(2) _ assms(1)]
  have ca: "prefix kc ka" "prefix vc va" by auto
  have ts: "take (length ts) kc = ts" using take_prefix [OF ca(1) c(3)] take_prefix [OF a(2), of "length ts"] by simp
  have "above t c b"
    using spells_through [OF assms(1) c(2) b(1), of "length ts"] c(3,4) ts al take_prefix [OF b(2), of "length ts"]
      prefix_length_le [OF b(2)] by simp
  from above_spells [OF this assms(1) b(1)] spells_unique [OF c(2) _ assms(1)]
  have cb: "prefix vc vb" by auto
  have "length vc = length kc" using spells_lengths [OF c(2) assms(1)] by simp
  with take_prefix [OF ca(2)] take_prefix [OF cb] c(3) a(3) b(3) show ?thesis by simp
qed

lemma held_shorter:
  assumes "held t ts vs" "n \<le> length ts" "rt_page_size t dvd n"
  shows "held t (take n ts) (take n vs)"
proof -
  from assms(1) obtain i ks vs' where "spells t i ks vs'" "prefix ts ks" "vs = take (length ts) vs'"
    by (auto simp: held_def)
  with assms(2,3) show ?thesis
    unfolding held_def
    by (intro conjI exI [of _ i] exI [of _ ks] exI [of _ vs']) (auto simp: min_def intro: prefix_order.trans take_is_prefix)
qed

text \<open>The longest page-aligned prefix of a query that the arena holds.\<close>

definition longest_held :: "radix_tree \<Rightarrow> u32 list \<Rightarrow> nat \<Rightarrow> bool" where
  "longest_held t q n \<longleftrightarrow> n \<le> length q \<and> (\<exists>vs. held t (take n q) vs)
     \<and> (\<forall>m vs. n < m \<longrightarrow> m \<le> length q \<longrightarrow> \<not> held t (take m q) vs)"

lemma longest_held_unique: "longest_held t q n \<Longrightarrow> longest_held t q m \<Longrightarrow> n = m"
  unfolding longest_held_def by (metis linorder_neqE_nat)

section \<open>One step of a descent\<close>

lemma match_len_Cons [simp]:
  "match_len [] b = 0" "match_len a [] = 0"
  "match_len (x # a) (y # b) = (if x = y then Suc (match_len a b) else 0)"
  by (simp_all add: match_len_def)

lemma match_len_le: "match_len a b \<le> length a" "match_len a b \<le> length b"
  by (induction a b rule: list_induct2') simp_all

lemma match_len_take: "n \<le> match_len a b \<Longrightarrow> take n a = take n b"
proof (induction a b arbitrary: n rule: list_induct2')
  case (4 x a y b)
  then show ?case by (cases n) (auto split: if_splits)
qed simp_all

lemma match_len_greatest: "take n a = take n b \<Longrightarrow> n \<le> length a \<Longrightarrow> n \<le> length b \<Longrightarrow> n \<le> match_len a b"
proof (induction a b arbitrary: n rule: list_induct2')
  case (4 x a y b)
  then show ?case by (cases n) auto
qed simp_all

lemma held_beyond:
  assumes "tree_ok t" "spells t p (take n q) vs" "n \<le> length q" "held t (take m q) ws" "n < m" "m \<le> length q"
  shows "\<exists>c. c < arena t \<and> rn_parent (nd t c) = Some p \<and> rt_page_size t \<le> m - n
    \<and> take (rt_page_size t) (rn_key (nd t c)) = take (rt_page_size t) (drop n q)
    \<and> (let k = min (length (rn_key (nd t c))) (m - n) in take k (rn_key (nd t c)) = take k (drop n q))"
proof -
  from assms(4,6) obtain b kb vb where b: "spells t b kb vb" "prefix (take m q) kb" and al: "rt_page_size t dvd m"
    by (auto simp: held_def min_absorb2)
  have n: "rt_page_size t dvd n" using spells_lengths [OF assms(2,1)] assms(3) by (simp add: min_absorb2)
  have step: "rt_page_size t \<le> m - n" using aligned_next [OF n al assms(5)] by simp
  have kb: "take m kb = take m q" "m \<le> length kb"
    using take_prefix [OF b(2), of m] prefix_length_le [OF b(2)] assms(6) by simp_all
  have top: "p \<noteq> 0 \<longrightarrow> length (take n q) < n + length (rn_key (nd t p))"
  proof
    assume "p \<noteq> 0"
    with assms(2) obtain r where "rn_parent (nd t p) = Some r" "p < arena t" by (auto elim: spells_parent)
    from edgeD(2) [OF assms(1) this(2,1)] show "length (take n q) < n + length (rn_key (nd t p))"
      using assms(3) by simp
  qed
  have "take n kb = take n (take n q)" using arg_cong [OF kb(1), of "take n"] assms(5) by (simp add: min_def)
  from spells_through [OF assms(1,2) b(1) _ _ this n top] have "above t p b"
    using assms(3,5) kb(2) by simp
  moreover have "b \<noteq> p" using spells_unique [OF assms(2) _ assms(1)] b(1) kb(2) assms(3,5) by fastforce
  ultimately obtain c where c: "c < arena t" "rn_parent (nd t c) = Some p" "above t c b"
    using above_below_child by blast
  note page = spells_child_page [OF assms(1,2) c b(1)]
  have len: "length (take n q) = n" using assms(3) by simp
  have drop_kb: "take k (drop n kb) = take k (drop n q)" if "k \<le> m - n" for k
    using arg_cong [OF kb(1), of "\<lambda>xs. take k (drop n xs)"] that by (simp add: drop_take min_def split: if_splits)
  from page(3) drop_kb [OF step] have "take (rt_page_size t) (rn_key (nd t c)) = take (rt_page_size t) (drop n q)"
    by (simp only: len)
  moreover have "take k (rn_key (nd t c)) = take k (drop n q)" if "k = min (length (rn_key (nd t c))) (m - n)" for k
  proof -
    have "take k (rn_key (nd t c)) = take k (drop n kb)"
      using page(1) that len by (auto simp: prefix_def)
    then show ?thesis using drop_kb [of k] that by simp
  qed
  ultimately show ?thesis using c step by (intro exI [of _ c]) (simp add: Let_def)
qed

lemma descent_stops:
  assumes "tree_ok t" "spells t p (take n q) vs" "n \<le> length q"
    and "map_of (rn_children (nd t p)) (take (rt_page_size t) (drop n q)) = None"
  shows "longest_held t q n"
proof -
  have p: "p < arena t" using spells_arena [OF assms(2,1)] .
  have "\<not> held t (take m q) ws" if m: "n < m" "m \<le> length q" for m ws
  proof
    assume "held t (take m q) ws"
    from held_beyond [OF assms(1-3) this m] obtain c where "c < arena t" "rn_parent (nd t c) = Some p"
      "take (rt_page_size t) (rn_key (nd t c)) = take (rt_page_size t) (drop n q)" by blast
    then have "map_of (rn_children (nd t p)) (take (rt_page_size t) (drop n q)) = Some c"
      using child_lookup [OF assms(1) p] by blast
    with assms(4) show False by simp
  qed
  with spells_held [OF assms(1,2)] assms(3) show ?thesis by (auto simp: longest_held_def)
qed

lemma descent_ends:
  assumes "tree_ok t" "spells t p q vs"
  shows "longest_held t q (length q)"
  using spells_held [OF assms] by (auto simp: longest_held_def)

lemma descent_child:
  assumes "tree_ok t" "spells t p (take n q) vs" "n \<le> length q"
    and "map_of (rn_children (nd t p)) (take (rt_page_size t) (drop n q)) = Some c"
    and m: "m = align_down (match_len (rn_key (nd t c)) (drop n q)) (rt_page_size t)"
  shows "c < arena t" "rn_parent (nd t c) = Some p" "rt_page_size t \<le> m" "rt_page_size t dvd m"
    "m \<le> length (rn_key (nd t c))" "n + m \<le> length q"
    "take (n + m) q = take n q @ take m (rn_key (nd t c))"
    "spells t c (take n q @ rn_key (nd t c)) (vs @ rn_value (nd t c))"
    "m \<noteq> length (rn_key (nd t c)) \<Longrightarrow> longest_held t q (n + m)"
proof -
  have p: "p < arena t" using spells_arena [OF assms(2,1)] .
  with assms(1,4) show c: "c < arena t" "rn_parent (nd t c) = Some p" by (auto simp: child_lookup)
  let ?key = "rn_key (nd t c)"
  have page: "take (rt_page_size t) ?key = take (rt_page_size t) (drop n q)"
    using assms(1,4) p by (auto simp: child_lookup)
  have long: "rt_page_size t \<le> length ?key" using page_le_key [OF assms(1) c] .
  then have "rt_page_size t \<le> length (drop n q)" using arg_cong [OF page, of length] by simp
  with match_len_greatest [OF page long] have "rt_page_size t \<le> match_len ?key (drop n q)" by simp
  then show "rt_page_size t \<le> m" unfolding m by (intro align_down_greatest) simp_all
  show dvd: "rt_page_size t dvd m" unfolding m by (rule align_down_dvd)
  have le: "m \<le> match_len ?key (drop n q)" unfolding m by (rule align_down_le)
  then show mk: "m \<le> length ?key" "n + m \<le> length q"
    using match_len_le [of ?key "drop n q"] assms(3) by simp_all
  from match_len_take [OF le] show pre: "take (n + m) q = take n q @ take m ?key"
    by (simp add: take_add)
  show sp: "spells t c (take n q @ ?key) (vs @ rn_value (nd t c))"
    using spells_child [OF assms(2) c edgeD(5) [OF assms(1) c]] .
  have n: "rt_page_size t dvd n" using spells_lengths [OF assms(2,1)] assms(3) by (simp add: min_absorb2)
  have here: "held t (take (n + m) q) (take (n + m) (vs @ rn_value (nd t c)))"
    unfolding held_def
    by (intro conjI exI [of _ c] exI [of _ "take n q @ ?key"] exI [of _ "vs @ rn_value (nd t c)"])
      (use n dvd mk assms(3) sp in \<open>auto simp: pre min_absorb2 take_is_prefix\<close>)
  assume short: "m \<noteq> length ?key"
  have "\<not> held t (take k q) ws" if k: "n + m < k" "k \<le> length q" for k ws
  proof
    assume h: "held t (take k q) ws"
    from held_beyond [OF assms(1-3) h] k obtain d where d: "d < arena t" "rn_parent (nd t d) = Some p"
      "take (rt_page_size t) (rn_key (nd t d)) = take (rt_page_size t) (drop n q)"
      "let j = min (length (rn_key (nd t d))) (k - n) in take j (rn_key (nd t d)) = take j (drop n q)"
      by auto
    then have "map_of (rn_children (nd t p)) (take (rt_page_size t) (drop n q)) = Some d"
      using child_lookup [OF assms(1) p] by blast
    with assms(4) have "d = c" by simp
    let ?j = "min (length ?key) (k - n)"
    from d(4) have j: "take ?j ?key = take ?j (drop n q)" by (simp add: \<open>d = c\<close> Let_def)
    have "?j \<le> match_len ?key (drop n q)"
      using k by (intro match_len_greatest [OF j]) auto
    moreover have "rt_page_size t dvd k" using h k(2) by (auto simp: held_def min_absorb2)
    then have "rt_page_size t dvd ?j" using n edgeD(3) [OF assms(1) c] by (auto simp: min_def dvd_diff_nat)
    ultimately have "?j \<le> m" unfolding m by (intro align_down_greatest)
    moreover have "m < length ?key" "m < k - n" using short mk k by auto
    ultimately show False by simp
  qed
  with here mk(2) show "longest_held t q (n + m)" by (auto simp: longest_held_def)
qed

end
