(* ===== verification/Radix_Ops.thy ===== *)
theory Radix_Ops
  imports Radix_Tree
begin

text \<open>
  The edits of the radix arena: changes of a node's other fields, splitting a node, attaching and
  unlinking a leaf, each with what it does to the paths and to the prefixes held.
\<close>

section \<open>Changes that keep the shape\<close>

definition shape :: "radix_node \<Rightarrow> u32 list \<times> u32 list \<times> node_id option \<times> (page_key \<times> node_id) list" where
  "shape n = (rn_key n, rn_value n, rn_parent n, rn_children n)"

definition same_shape :: "radix_tree \<Rightarrow> radix_tree \<Rightarrow> bool" where
  "same_shape t t' \<longleftrightarrow> rt_page_size t' = rt_page_size t \<and> arena t' = arena t
     \<and> (\<forall>i < arena t. shape (nd t' i) = shape (nd t i))"

lemma same_shape_refl [simp]: "same_shape t t"
  by (simp add: same_shape_def)

lemma same_shape_trans: "same_shape t u \<Longrightarrow> same_shape u v \<Longrightarrow> same_shape t v"
  by (simp add: same_shape_def)

lemma same_shape_sym: "same_shape t u \<Longrightarrow> same_shape u t"
  by (simp add: same_shape_def)

lemma same_shapeD:
  assumes "same_shape t t'"
  shows "rt_page_size t' = rt_page_size t" "arena t' = arena t"
    "i < arena t \<Longrightarrow> rn_key (nd t' i) = rn_key (nd t i)" "i < arena t \<Longrightarrow> rn_value (nd t' i) = rn_value (nd t i)"
    "i < arena t \<Longrightarrow> rn_parent (nd t' i) = rn_parent (nd t i)"
    "i < arena t \<Longrightarrow> rn_children (nd t' i) = rn_children (nd t i)"
  using assms by (simp_all add: same_shape_def shape_def)

text \<open>Paths survive in any arena that keeps the edges they are made of.\<close>

lemma spells_mono:
  assumes "spells t i ks vs"
    and "\<And>j p. j < arena t \<Longrightarrow> rn_parent (nd t j) = Some p \<Longrightarrow> above t j i \<Longrightarrow> j < arena t'
      \<and> rn_parent (nd t' j) = Some p \<and> rn_key (nd t' j) = rn_key (nd t j) \<and> rn_value (nd t' j) = rn_value (nd t j)"
  shows "spells t' i ks vs"
  using assms
proof (induction rule: spells.induct)
  case spells_root
  show ?case by (rule spells.spells_root)
next
  case (spells_child p ks vs i)
  have "spells t' p ks vs"
    using spells_child.prems spells_child.hyps(2,3) by (intro spells_child.IH) (blast intro: above_step)
  moreover have "i < arena t' \<and> rn_parent (nd t' i) = Some p \<and> rn_key (nd t' i) = rn_key (nd t i)
      \<and> rn_value (nd t' i) = rn_value (nd t i)"
    using spells_child.prems spells_child.hyps(2,3) by (blast intro: above_refl)
  ultimately show ?case using spells.spells_child [of t' p ks vs i] spells_child.hyps(4) by simp
qed

lemma above_mono:
  assumes "above t a b"
    and "\<And>j p. j < arena t \<Longrightarrow> rn_parent (nd t j) = Some p \<Longrightarrow> above t j b \<Longrightarrow> j < arena t' \<and> rn_parent (nd t' j) = Some p"
  shows "above t' a b"
  using assms
proof (induction rule: above.induct)
  case (above_refl i)
  show ?case by (rule above.above_refl)
next
  case (above_step i p c)
  have "above t' i p"
    using above_step.prems above_step.hyps(2,3) by (intro above_step.IH) (blast intro: above.above_step)
  moreover have "c < arena t'" "rn_parent (nd t' c) = Some p"
    using above_step.prems above_step.hyps(2,3) by (blast intro: above.above_refl)+
  ultimately show ?case by (rule above.above_step)
qed

lemma same_shape_spells: "same_shape t t' \<Longrightarrow> spells t' i ks vs \<longleftrightarrow> spells t i ks vs"
  by (rule iffI; erule spells_mono) (auto simp: same_shapeD)

lemma same_shape_above: "same_shape t t' \<Longrightarrow> above t' a b \<longleftrightarrow> above t a b"
  by (rule iffI; erule above_mono) (auto simp: same_shapeD)

lemma same_shape_edge_ok: "same_shape t t' \<Longrightarrow> i < arena t \<Longrightarrow> edge_ok t' i \<longleftrightarrow> edge_ok t i"
  by (simp add: edge_ok_def same_shape_spells same_shapeD(1-5))

lemma same_shape_children_ok: "same_shape t t' \<Longrightarrow> p < arena t \<Longrightarrow> children_ok t' p \<longleftrightarrow> children_ok t p"
  unfolding children_ok_def by (simp add: same_shapeD cong: conj_cong)

lemma same_shape_tree_ok_imp:
  assumes "same_shape t t'" "tree_ok t"
  shows "tree_ok t'"
  using assms tree_okD [OF assms(2)] unfolding tree_ok_def
  by (simp add: same_shape_edge_ok same_shape_children_ok same_shapeD(1,2,5) del: length_greater_0_conv)

lemma same_shape_tree_ok: "same_shape t t' \<Longrightarrow> tree_ok t' \<longleftrightarrow> tree_ok t"
  using same_shape_tree_ok_imp same_shape_sym by blast

lemma same_shape_held: "same_shape t t' \<Longrightarrow> held t' ts vs \<longleftrightarrow> held t ts vs"
  by (simp add: held_def same_shape_spells same_shapeD)

lemma same_shape_longest: "same_shape t t' \<Longrightarrow> longest_held t' q n \<longleftrightarrow> longest_held t q n"
  by (simp add: longest_held_def same_shape_held)

lemma same_shape_linked: "same_shape t t' \<Longrightarrow> linked t' i \<longleftrightarrow> linked t i"
  by (auto simp: linked_def same_shapeD)

lemma node_mut_some [simp]:
  "i < arena t \<Longrightarrow> rt_node_mut i f t = Some (t\<lparr>rt_nodes := (rt_nodes t)[i := f (nd t i)]\<rparr>)"
  by (simp add: rt_node_mut_def)

lemma same_shape_update:
  assumes "i < arena t" "shape n = shape (nd t i)"
  shows "same_shape t (t\<lparr>rt_nodes := (rt_nodes t)[i := n]\<rparr>)"
  using assms by (auto simp: same_shape_def nth_list_update)

section \<open>Splitting a node\<close>

definition split_nodes :: "radix_tree \<Rightarrow> node_id \<Rightarrow> node_id \<Rightarrow> nat \<Rightarrow> radix_tree \<Rightarrow> bool" where
  "split_nodes t i p pos t' \<longleftrightarrow> arena t' = Suc (arena t) \<and> rt_page_size t' = rt_page_size t \<and> rt_uuid t' = rt_uuid t
     \<and> (let n = nd t i in
        nd t' (arena t) = (node_new (rn_timestamp n))\<lparr>rn_key := take pos (rn_key n), rn_value := take pos (rn_value n),
            rn_parent := Some p, rn_children := [(take (rt_page_size t) (drop pos (rn_key n)), i)],
            rn_ref_count := rn_ref_count n, rn_swa_ref_count := rn_swa_ref_count n,
            rn_swa_tombstone := rn_swa_tombstone n, rn_swa_uuid := rn_swa_uuid n\<rparr>
        \<and> nd t' i = n\<lparr>rn_key := drop pos (rn_key n), rn_value := drop pos (rn_value n), rn_swa_uuid := None,
            rn_parent := Some (arena t)\<rparr>
        \<and> nd t' p = (nd t p)\<lparr>rn_children := AList.update (take (rt_page_size t) (take pos (rn_key n))) (arena t) (rn_children (nd t p))\<rparr>
        \<and> (\<forall>j < arena t. j \<noteq> i \<longrightarrow> j \<noteq> p \<longrightarrow> nd t' j = nd t j))"

lemma parent_differs:
  assumes "tree_ok t" "i < arena t" "rn_parent (nd t i) = Some p"
  shows "p \<noteq> i"
proof
  assume "p = i"
  from edgeD(5,6) [OF assms] obtain ks vs where i: "spells t i ks vs" "i \<noteq> 0" by blast
  then obtain ks' vs' where "spells t i ks' vs'" "ks = ks' @ rn_key (nd t i)"
    using assms(3) \<open>p = i\<close> by (metis option.inject spells_parent)
  with spells_unique [OF i(1) _ assms(1)] edgeD(2) [OF assms] show False by auto
qed

lemma split_at_nodes:
  assumes "tree_ok t" "i < arena t" "rn_parent (nd t i) = Some p" "0 < pos" "pos < length (rn_key (nd t i))"
    and "arena t < 2 ^ 32"
  shows "\<exists>t'. rt_split_at i pos t = Some (arena t, t') \<and> split_nodes t i p pos t'"
proof -
  have p: "p < arena t" "p \<noteq> i" using edgeD(1) [OF assms(1-3)] parent_differs [OF assms(1-3)] by simp_all
  have len: "length (rn_value (nd t i)) = length (rn_key (nd t i))" using edgeD(4) [OF assms(1-3)] .
  show ?thesis
    using assms(2-6) p len
    by (auto simp: rt_split_at_def rt_alloc_def rt_set_key_value_def rt_set_parent_def rn_length_def split_nodes_def
        nth_append nth_list_update Let_def node_new_def)
qed

lemma key_update_lookup: "map_of (AList.update k v al) = (map_of al)(k \<mapsto> v)"
  by (rule update_conv')

lemma key_delete_lookup: "map_of (AList.delete k al) = (map_of al)(k := None)"
  by (rule delete_conv')

lemma split_nodesD:
  assumes "tree_ok t" "i < arena t" "rn_parent (nd t i) = Some p" "split_nodes t i p pos t'"
  shows "arena t' = Suc (arena t)" "rt_page_size t' = rt_page_size t"
    "\<And>j. j < arena t' \<Longrightarrow> rn_parent (nd t' j) =
      (if j = arena t then Some p else if j = i then Some (arena t) else rn_parent (nd t j))"
    "\<And>j. j < arena t' \<Longrightarrow> rn_key (nd t' j) = (if j = arena t then take pos (rn_key (nd t i))
      else if j = i then drop pos (rn_key (nd t i)) else rn_key (nd t j))"
    "\<And>j. j < arena t' \<Longrightarrow> rn_value (nd t' j) = (if j = arena t then take pos (rn_value (nd t i))
      else if j = i then drop pos (rn_value (nd t i)) else rn_value (nd t j))"
    "\<And>j. j < arena t' \<Longrightarrow> rn_children (nd t' j) =
      (if j = arena t then [(take (rt_page_size t) (drop pos (rn_key (nd t i))), i)]
       else if j = p then AList.update (take (rt_page_size t) (take pos (rn_key (nd t i)))) (arena t) (rn_children (nd t p))
       else rn_children (nd t j))"
  using assms(2,4) edgeD(1) [OF assms(1-3)] parent_differs [OF assms(1-3)]
  by (auto simp: split_nodes_def Let_def less_Suc_eq)

lemma split_tree_ok:
  assumes ok: "tree_ok t" and i: "i < arena t" "rn_parent (nd t i) = Some p"
    and pos: "0 < pos" "pos < length (rn_key (nd t i))" "rt_page_size t dvd pos"
    and room: "arena t < 2 ^ 32" and split: "split_nodes t i p pos t'" and sp: "spells t p kp vp"
  shows "tree_ok t'"
    and "spells t' (arena t) (kp @ take pos (rn_key (nd t i))) (vp @ take pos (rn_value (nd t i)))"
    and "\<And>j ks vs. spells t j ks vs \<Longrightarrow> spells t' j ks vs"
    and "\<And>ts vs. held t' ts vs \<longleftrightarrow> held t ts vs"
proof -
  note n = split_nodesD [OF ok i split]
  note e = edgeD [OF ok i]
  let ?x = "arena t" and ?ps = "rt_page_size t"
  have p: "p < ?x" "p \<noteq> i" using e(1) parent_differs [OF ok i] by simp_all
  have old: "j < ?x \<Longrightarrow> j < arena t'" for j using n(1) by simp
  have sub: "spells t' j ks vs" if "spells t j ks vs" for j ks vs
    using that
  proof (induction rule: spells.induct)
    case spells_root
    show ?case by (rule spells.spells_root)
  next
    case (spells_child q ks vs c)
    show ?case
    proof (cases "c = i")
      case True
      have "spells t' ?x (ks @ take pos (rn_key (nd t i))) (vs @ take pos (rn_value (nd t i)))"
        using spells.spells_child [OF spells_child.IH, of ?x] n(1,3-5) spells_child.hyps(3) True i p(1)
        by fastforce
      from spells.spells_child [OF this, of i] show ?thesis
        using n(3-5) [OF old [OF i(1)]] i(1) e(5) old [OF i(1)] True by simp
    next
      case False
      then show ?thesis
        using spells.spells_child [OF spells_child.IH, of c] n(3-5) [OF old [OF spells_child.hyps(2)]]
          spells_child.hyps old [OF spells_child.hyps(2)] by simp
    qed
  qed
  then show "\<And>j ks vs. spells t j ks vs \<Longrightarrow> spells t' j ks vs" .
  show x: "spells t' ?x (kp @ take pos (rn_key (nd t i))) (vp @ take pos (rn_value (nd t i)))"
    using spells.spells_child [OF sub [OF sp], of ?x] n(1,3-5) p(1) by fastforce
  have pg: "?ps \<le> pos" using pos(1,3) by (auto intro: dvd_imp_le)
  then have same_page: "min ?ps pos = ?ps" by (simp add: min_absorb1)
  show ok': "tree_ok t'"
    unfolding tree_ok_def
  proof (intro conjI allI impI)
    show "0 < rt_page_size t'" "0 < arena t'" "arena t' \<le> 2 ^ 32" "rn_parent (nd t' 0) = None"
      using tree_okD [OF ok] room n(1,2) n(3) [of 0] e(5) by auto
  next
    fix j assume j: "j < arena t'"
    show "edge_ok t' j"
    proof (cases "j = ?x \<or> j = i")
      case True
      have "\<exists>ks vs. spells t' j ks vs" using True x sub e(6) by blast
      with True n(3-5) [OF j] e(2-4) pos n(1,2) p(1) show ?thesis
        unfolding edge_ok_def by (auto simp: dvd_diff_nat)
    next
      case False
      then have "j < ?x" "edge_ok t j" using j n(1) ok by (auto simp: tree_ok_def)
      moreover have "rn_parent (nd t' j) = rn_parent (nd t j)" "rn_key (nd t' j) = rn_key (nd t j)"
        "rn_value (nd t' j) = rn_value (nd t j)"
        using n(3-5) [OF j] False by simp_all
      ultimately show ?thesis unfolding edge_ok_def n(1,2) using sub less_SucI by metis
    qed
  next
    fix q assume q: "q < arena t'"
    have dist: "distinct (map fst (rn_children (nd t j)))" if "j < ?x" for j
      using ok that by (simp add: tree_ok_def children_ok_def)
    have "map_of (rn_children (nd t' q)) key = Some c \<longleftrightarrow>
        c < arena t' \<and> rn_parent (nd t' c) = Some q \<and> take (rt_page_size t') (rn_key (nd t' c)) = key" for key c
    proof -
      have only: "rn_parent (nd t j) \<noteq> Some ?x" if "j < ?x" for j
        using edgeD(1) [OF ok that] by blast
      consider "q = ?x" | "q = p" | "q \<noteq> ?x" "q \<noteq> p" by blast
      then show ?thesis
      proof cases
        case 1
        then show ?thesis using n q only i(1) p by (auto simp: less_Suc_eq split: if_splits)
      next
        case 2
        have "map_of (rn_children (nd t' q)) key = Some c \<longleftrightarrow>
            (if key = take ?ps (rn_key (nd t i)) then c = ?x else map_of (rn_children (nd t p)) key = Some c)"
          using 2 n(6) [OF q] p(1) by (auto simp: key_update_lookup same_page)
        also have "\<dots> \<longleftrightarrow> c < arena t' \<and> rn_parent (nd t' c) = Some q \<and> take ?ps (rn_key (nd t' c)) = key"
        proof (cases "key = take ?ps (rn_key (nd t i))")
          case True
          have "map_of (rn_children (nd t p)) key = Some i"
            using child_lookup [OF ok p(1)] i True by blast
          then have "j = i" if "j < ?x" "rn_parent (nd t j) = Some p" "take ?ps (rn_key (nd t j)) = key" for j
            using child_lookup [OF ok p(1), of key j] that by simp
          with True 2 n(1,3,4) p same_page show ?thesis by (auto simp: less_Suc_eq split: if_splits)
        next
          case False
          with 2 n(1,3,4) p same_page show ?thesis
            by (auto simp: less_Suc_eq child_lookup [OF ok p(1)] split: if_splits)
        qed
        finally show ?thesis using n(2) by simp
      next
        case 3
        with q n(1) have "q < ?x" by simp
        with 3 n q i p show ?thesis
          by (auto simp: less_Suc_eq child_lookup [OF ok] split: if_splits)
      qed
    qed
    moreover have "distinct (map fst (rn_children (nd t' q)))"
      using n(6) [OF q] dist q n(1) p(1) by (auto simp: distinct_update less_Suc_eq)
    ultimately show "children_ok t' q" unfolding children_ok_def by blast
  qed
  have older: "spells t j ks vs" if "spells t' j ks vs" "j \<noteq> ?x" for j ks vs
  proof -
    have "j = 0 \<or> linked t j" using spells_linked [OF that(1)] that(2) n(1,3) i by (auto simp: linked_def split: if_splits)
    then obtain ks2 vs2 where j: "spells t j ks2 vs2" using linked_spells [OF ok] spells_root by blast
    with spells_unique [OF sub [OF j] that(1) ok'] show ?thesis by simp
  qed
  show "held t' ts vs \<longleftrightarrow> held t ts vs" for ts vs
  proof
    assume "held t ts vs"
    with sub show "held t' ts vs" unfolding held_def n(2) by blast
  next
    assume "held t' ts vs"
    then obtain j ks ws where j: "?ps dvd length ts" "spells t' j ks ws" "prefix ts ks" "vs = take (length ts) ws"
      unfolding held_def n(2) by blast
    show "held t ts vs"
    proof (cases "j = ?x")
      case True
      with spells_unique [OF x _ ok'] j(2) have
        eq: "ks = kp @ take pos (rn_key (nd t i))" "ws = vp @ take pos (rn_value (nd t i))" by auto
      have whole: "spells t i (kp @ rn_key (nd t i)) (vp @ rn_value (nd t i))"
        using spells_child [OF sp i e(5)] .
      have pre: "prefix ks (kp @ rn_key (nd t i))" "prefix ws (vp @ rn_value (nd t i))"
        using eq by (auto simp: take_is_prefix)
      have "length ts \<le> length ws"
        using prefix_length_le [OF j(3)] spells_lengths [OF j(2) ok'] by simp
      with j(1,4) whole prefix_order.trans [OF j(3) pre(1)] take_prefix [OF pre(2)] show ?thesis
        unfolding held_def by (intro conjI exI [of _ i] exI [of _ "kp @ rn_key (nd t i)"]
          exI [of _ "vp @ rn_value (nd t i)"]) simp_all
    next
      case False
      with older j show ?thesis unfolding held_def by blast
    qed
  qed
qed

lemma split_above:
  assumes ok: "tree_ok t" and i: "i < arena t" "rn_parent (nd t i) = Some p" and split: "split_nodes t i p pos t'"
  shows "a < arena t \<Longrightarrow> b < arena t \<Longrightarrow> above t' a b \<longleftrightarrow> above t a b"
    and "b < arena t \<Longrightarrow> above t' (arena t) b \<longleftrightarrow> above t i b"
    and "a < arena t \<Longrightarrow> above t' a (arena t) \<longleftrightarrow> above t a p"
proof -
  note n = split_nodesD [OF ok i split]
  let ?x = "arena t"
  have p: "p < ?x" "p \<noteq> i" using edgeD(1) [OF ok i] parent_differs [OF ok i] by simp_all
  have fwd: "above t' a b" if "above t a b" for a b
    using that
  proof (induction rule: above.induct)
    case (above_refl j)
    show ?case by (rule above.above_refl)
  next
    case (above_step j q c)
    show ?case
    proof (cases "c = i")
      case True
      then have "above t' j ?x"
        using above.above_step [OF above_step.IH, of ?x] n(1,3) above_step.hyps(3) i by simp
      then show ?thesis using above.above_step [of t' j ?x i] n(1,3) i True by simp
    next
      case False
      then show ?thesis using above.above_step [OF above_step.IH, of c] n(1,3) above_step.hyps by simp
    qed
  qed
  have bwd: "if b = ?x then above t a p else above t a b" if "above t' a b" "a < ?x" for a b
    using that
  proof (induction rule: above.induct)
    case (above_refl j)
    then show ?case by (simp add: above.above_refl)
  next
    case (above_step j q c)
    consider "c = ?x" | "c = i" | "c \<noteq> ?x" "c \<noteq> i" by blast
    then show ?case
    proof cases
      case 1
      then show ?thesis using above_step n(1,3) p by simp
    next
      case 2
      then have "q = ?x" using above_step.hyps n(1,3) i by simp
      with above_step have "above t j p" by simp
      then show ?thesis using 2 i above.above_step [of t j p i] by simp
    next
      case 3
      then have c: "c < ?x" "rn_parent (nd t c) = Some q" using above_step.hyps n(1,3) by simp_all
      then have "q \<noteq> ?x" using edgeD(1) [OF ok] by blast
      with above_step have "above t j q" by simp
      then show ?thesis using 3 c above.above_step [of t j q c] by simp
    qed
  qed
  show iff: "above t' a b \<longleftrightarrow> above t a b" if "a < ?x" "b < ?x" for a b
    using fwd bwd [of a b] that by auto
  show "above t' ?x b \<longleftrightarrow> above t i b" if "b < ?x"
  proof
    have "y = ?x \<longrightarrow> b \<noteq> ?x \<longrightarrow> above t i b" if "above t' y b" for y
      using that
    proof (induction rule: above.induct)
      case (above_step j q c)
      show ?case
      proof (cases "q = ?x")
        case True
        then have "c \<noteq> ?x \<longrightarrow> c = i" using above_step.hyps n(1,3) edgeD(1) [OF ok, of c ?x] by (auto simp: less_Suc_eq split: if_splits)
        then show ?thesis by (auto intro: above.above_refl)
      next
        case False
        then show ?thesis using above_step n(1,3) above.above_step [of t i q c]
          by (auto simp: less_Suc_eq split: if_splits)
      qed
    qed simp
    moreover assume "above t' ?x b"
    ultimately show "above t i b" using that by simp
  next
    assume "above t i b"
    moreover have "above t' ?x i"
      using above.above_step [OF above.above_refl, of i t' ?x] n(1,3) i by simp
    ultimately show "above t' ?x b" using fwd above_trans by blast
  qed
  show "above t' a ?x \<longleftrightarrow> above t a p" if "a < ?x"
    using bwd [of a ?x] fwd [of a p] above.above_step [of t' a p ?x] n(1,3) that by auto
qed

section \<open>Attaching a leaf\<close>

text \<open>What an insertion does to the arena: a new node, filled and linked.\<close>

definition rt_attach :: "int \<Rightarrow> u32 list \<Rightarrow> u32 list \<Rightarrow> node_id \<Rightarrow> radix_tree \<Rightarrow> (node_id \<times> radix_tree) option" where
  "rt_attach timestamp key value parent t = do {
     let (i, t) = rt_alloc timestamp t;
     t \<leftarrow> rt_set_key_value i key value t;
     t \<leftarrow> rt_set_parent i parent t;
     Some (i, t)
   }"

definition attach_nodes :: "radix_tree \<Rightarrow> int \<Rightarrow> u32 list \<Rightarrow> u32 list \<Rightarrow> node_id \<Rightarrow> radix_tree \<Rightarrow> bool" where
  "attach_nodes t timestamp key value p t' \<longleftrightarrow> arena t' = Suc (arena t) \<and> rt_page_size t' = rt_page_size t
     \<and> rt_uuid t' = rt_uuid t
     \<and> nd t' (arena t) = (node_new timestamp)\<lparr>rn_key := key, rn_value := value, rn_parent := Some p\<rparr>
     \<and> nd t' p = (nd t p)\<lparr>rn_children := AList.update (take (rt_page_size t) key) (arena t) (rn_children (nd t p))\<rparr>
     \<and> (\<forall>j < arena t. j \<noteq> p \<longrightarrow> nd t' j = nd t j)"

lemma attach_at_nodes:
  assumes "arena t < 2 ^ 32" "p < arena t" "length key = length value"
  shows "\<exists>t'. rt_attach timestamp key value p t = Some (arena t, t') \<and> attach_nodes t timestamp key value p t'"
  using assms
  by (auto simp: rt_attach_def rt_alloc_def rt_set_key_value_def rt_set_parent_def attach_nodes_def
      nth_append nth_list_update Let_def node_new_def)

lemma attach_nodesD:
  assumes "p < arena t" "attach_nodes t timestamp key value p t'"
  shows "arena t' = Suc (arena t)" "rt_page_size t' = rt_page_size t"
    "\<And>j. j < arena t' \<Longrightarrow> rn_parent (nd t' j) = (if j = arena t then Some p else rn_parent (nd t j))"
    "\<And>j. j < arena t' \<Longrightarrow> rn_key (nd t' j) = (if j = arena t then key else rn_key (nd t j))"
    "\<And>j. j < arena t' \<Longrightarrow> rn_value (nd t' j) = (if j = arena t then value else rn_value (nd t j))"
    "\<And>j. j < arena t' \<Longrightarrow> rn_children (nd t' j) =
      (if j = arena t then []
       else if j = p then AList.update (take (rt_page_size t) key) (arena t) (rn_children (nd t p))
       else rn_children (nd t j))"
  using assms by (auto simp: attach_nodes_def less_Suc_eq node_new_def)

lemma attach_above:
  assumes ok: "tree_ok t" and p: "p < arena t" and att: "attach_nodes t timestamp key value p t'"
  shows "b < arena t \<Longrightarrow> above t' a b \<longleftrightarrow> above t a b"
    and "above t' a (arena t) \<longleftrightarrow> a = arena t \<or> above t a p"
proof -
  note n = attach_nodesD [OF p att]
  have fwd: "above t' a b" if "above t a b" for a b
    using that by (rule above_mono) (use n(1,3) in auto)
  have bwd: "b < arena t \<longrightarrow> above t a b" if "above t' a b" for a b
    using that
  proof (induction rule: above.induct)
    case (above_step j q c)
    show ?case
    proof
      assume c: "c < arena t"
      then have "rn_parent (nd t c) = Some q" using above_step.hyps n(1,3) by simp
      with edgeD(1) [OF ok c this] c above_step.IH show "above t j c" by (auto intro: above.above_step)
    qed
  qed (simp add: above_refl)
  show "b < arena t \<Longrightarrow> above t' a b \<longleftrightarrow> above t a b" using fwd bwd by blast
  show "above t' a (arena t) \<longleftrightarrow> a = arena t \<or> above t a p"
  proof
    assume "above t' a (arena t)"
    then show "a = arena t \<or> above t a p"
      using bwd p n(1,3) by (cases rule: above.cases) auto
  next
    assume "a = arena t \<or> above t a p"
    then show "above t' a (arena t)"
      using fwd [of a p] n(1,3) above.above_step [of t' a p "arena t"] by (auto intro: above_refl)
  qed
qed

lemma attach_tree_ok:
  assumes ok: "tree_ok t" and sp: "spells t p kp vp" and room: "arena t < 2 ^ 32"
    and att: "attach_nodes t timestamp key value p t'"
    and key: "key \<noteq> []" "rt_page_size t dvd length key" "length value = length key"
    and fresh: "map_of (rn_children (nd t p)) (take (rt_page_size t) key) = None"
  shows "tree_ok t'"
    and "spells t' (arena t) (kp @ key) (vp @ value)"
    and "\<And>j ks vs. spells t j ks vs \<Longrightarrow> spells t' j ks vs"
    and "\<And>j ks vs. spells t' j ks vs \<Longrightarrow> j \<noteq> arena t \<Longrightarrow> spells t j ks vs"
    and "\<And>ts vs. held t' ts vs \<longleftrightarrow> held t ts vs \<or> rt_page_size t dvd length ts \<and> prefix ts (kp @ key) \<and>
      vs = take (length ts) (vp @ value)"
proof -
  have p: "p < arena t" using spells_arena [OF sp ok] .
  note n = attach_nodesD [OF p att]
  let ?x = "arena t" and ?ps = "rt_page_size t"
  have sub: "spells t' j ks vs" if "spells t j ks vs" for j ks vs
    using that by (rule spells_mono) (use n(1,3-5) in auto)
  then show "\<And>j ks vs. spells t j ks vs \<Longrightarrow> spells t' j ks vs" .
  show x: "spells t' ?x (kp @ key) (vp @ value)"
    using spells.spells_child [OF sub [OF sp], of ?x] n(1,3-5) p by fastforce
  show ok': "tree_ok t'"
    unfolding tree_ok_def
  proof (intro conjI allI impI)
    show "0 < rt_page_size t'" "0 < arena t'" "arena t' \<le> 2 ^ 32" "rn_parent (nd t' 0) = None"
      using tree_okD [OF ok] room n(1,2) n(3) [of 0] by auto
  next
    fix j assume j: "j < arena t'"
    show "edge_ok t' j"
    proof (cases "j = ?x")
      case True
      have "\<exists>ks vs. spells t' j ks vs" using True x by blast
      with True n(3-5) [OF j] key n(1,2) p show ?thesis unfolding edge_ok_def by simp
    next
      case False
      then have "j < ?x" "edge_ok t j" using j n(1) ok by (auto simp: tree_ok_def)
      moreover have "rn_parent (nd t' j) = rn_parent (nd t j)" "rn_key (nd t' j) = rn_key (nd t j)"
        "rn_value (nd t' j) = rn_value (nd t j)"
        using n(3-5) [OF j] False by simp_all
      ultimately show ?thesis unfolding edge_ok_def n(1,2) using sub less_SucI by metis
    qed
  next
    fix q assume q: "q < arena t'"
    have dist: "distinct (map fst (rn_children (nd t j)))" if "j < ?x" for j
      using ok that by (simp add: tree_ok_def children_ok_def)
    have only: "rn_parent (nd t j) \<noteq> Some ?x" if "j < ?x" for j
      using edgeD(1) [OF ok that] by blast
    have "map_of (rn_children (nd t' q)) k = Some c \<longleftrightarrow>
        c < arena t' \<and> rn_parent (nd t' c) = Some q \<and> take (rt_page_size t') (rn_key (nd t' c)) = k" for k c
    proof -
      consider "q = ?x" | "q = p" | "q \<noteq> ?x" "q \<noteq> p" by blast
      then show ?thesis
      proof cases
        case 1
        then show ?thesis using n q only p by (auto simp: less_Suc_eq split: if_splits)
      next
        case 2
        have old: "\<not> (j < ?x \<and> rn_parent (nd t j) = Some p \<and> take ?ps (rn_key (nd t j)) = take ?ps key)" for j
          using fresh child_lookup [OF ok p, of "take ?ps key" j] by simp
        have "map_of (rn_children (nd t' q)) k = Some c \<longleftrightarrow>
            (if k = take ?ps key then c = ?x else map_of (rn_children (nd t p)) k = Some c)"
          using 2 n(6) [OF q] p by (auto simp: key_update_lookup)
        with 2 n(1-4) p old show ?thesis
          by (auto simp: less_Suc_eq child_lookup [OF ok p] split: if_splits)
      next
        case 3
        with q n(1) have "q < ?x" by simp
        with 3 n q p show ?thesis
          by (auto simp: less_Suc_eq child_lookup [OF ok] split: if_splits)
      qed
    qed
    moreover have "distinct (map fst (rn_children (nd t' q)))"
      using n(6) [OF q] dist q n(1) p by (auto simp: distinct_update less_Suc_eq)
    ultimately show "children_ok t' q" unfolding children_ok_def by blast
  qed
  have older: "spells t j ks vs" if "spells t' j ks vs" "j \<noteq> ?x" for j ks vs
  proof -
    have "j = 0 \<or> linked t j" using spells_linked [OF that(1)] that(2) n(1,3) by (auto simp: linked_def)
    then obtain ks2 vs2 where j: "spells t j ks2 vs2" using linked_spells [OF ok] spells_root by blast
    with spells_unique [OF sub [OF j] that(1) ok'] show ?thesis by simp
  qed
  then show "\<And>j ks vs. spells t' j ks vs \<Longrightarrow> j \<noteq> ?x \<Longrightarrow> spells t j ks vs" .
  show "held t' ts vs \<longleftrightarrow> held t ts vs \<or> ?ps dvd length ts \<and> prefix ts (kp @ key) \<and> vs = take (length ts) (vp @ value)"
    for ts vs
  proof
    assume "held t' ts vs"
    then obtain j ks ws where j: "?ps dvd length ts" "spells t' j ks ws" "prefix ts ks" "vs = take (length ts) ws"
      unfolding held_def n(2) by blast
    show "held t ts vs \<or> ?ps dvd length ts \<and> prefix ts (kp @ key) \<and> vs = take (length ts) (vp @ value)"
    proof (cases "j = ?x")
      case True
      with spells_unique [OF x _ ok'] j show ?thesis by blast
    next
      case False
      with older j show ?thesis unfolding held_def by blast
    qed
  next
    assume "held t ts vs \<or> ?ps dvd length ts \<and> prefix ts (kp @ key) \<and> vs = take (length ts) (vp @ value)"
    with sub x show "held t' ts vs" unfolding held_def n(2) by blast
  qed
qed

section \<open>Unlinking a leaf\<close>

definition unlink_nodes :: "radix_tree \<Rightarrow> node_id \<Rightarrow> node_id \<Rightarrow> radix_tree \<Rightarrow> bool" where
  "unlink_nodes t i p t' \<longleftrightarrow> arena t' = arena t \<and> rt_page_size t' = rt_page_size t \<and> rt_uuid t' = rt_uuid t
     \<and> nd t' i = (nd t i)\<lparr>rn_parent := None\<rparr>
     \<and> nd t' p = (nd t p)\<lparr>rn_children := AList.delete (take (rt_page_size t) (rn_key (nd t i))) (rn_children (nd t p))\<rparr>
     \<and> (\<forall>j < arena t. j \<noteq> i \<longrightarrow> j \<noteq> p \<longrightarrow> nd t' j = nd t j)"

lemma unlink_at_nodes:
  assumes "tree_ok t" "i < arena t" "rn_parent (nd t i) = Some p"
  shows "\<exists>t'. rt_unlink i t = Some (p, t') \<and> unlink_nodes t i p t'"
  using assms(2,3) edgeD(1) [OF assms] parent_differs [OF assms]
  by (auto simp: rt_unlink_def unlink_nodes_def nth_list_update Let_def)

lemma unlink_nodesD:
  assumes "tree_ok t" "i < arena t" "rn_parent (nd t i) = Some p" "unlink_nodes t i p t'"
  shows "arena t' = arena t" "rt_page_size t' = rt_page_size t"
    "\<And>j. j < arena t \<Longrightarrow> rn_parent (nd t' j) = (if j = i then None else rn_parent (nd t j))"
    "\<And>j. j < arena t \<Longrightarrow> rn_key (nd t' j) = rn_key (nd t j)"
    "\<And>j. j < arena t \<Longrightarrow> rn_value (nd t' j) = rn_value (nd t j)"
    "\<And>j. j < arena t \<Longrightarrow> rn_children (nd t' j) =
      (if j = p then AList.delete (take (rt_page_size t) (rn_key (nd t i))) (rn_children (nd t p)) else rn_children (nd t j))"
  using assms(2,4) parent_differs [OF assms(1-3)] by (auto simp: unlink_nodes_def)

lemma leaf_above:
  assumes "tree_ok t" "i < arena t" "rn_children (nd t i) = []" "above t i b"
  shows "b = i"
proof (rule ccontr)
  assume "b \<noteq> i"
  with above_below_child [OF assms(4)] obtain c where "c < arena t" "rn_parent (nd t c) = Some i" by blast
  then have "map_of (rn_children (nd t i)) (take (rt_page_size t) (rn_key (nd t c))) = Some c"
    using child_lookup [OF assms(1,2)] by blast
  with assms(3) show False by simp
qed

lemma unlink_tree_ok:
  assumes ok: "tree_ok t" and i: "i < arena t" "rn_parent (nd t i) = Some p" and leaf: "rn_children (nd t i) = []"
    and un: "unlink_nodes t i p t'"
  shows "tree_ok t'"
    and "\<And>j ks vs. spells t' j ks vs \<longleftrightarrow> spells t j ks vs \<and> j \<noteq> i"
    and "\<And>a b. b \<noteq> i \<Longrightarrow> above t' a b \<longleftrightarrow> above t a b"
proof -
  note n = unlink_nodesD [OF ok i un]
  note e = edgeD [OF ok i]
  let ?ps = "rt_page_size t"
  have p: "p < arena t" "p \<noteq> i" using e(1) parent_differs [OF ok i] by simp_all
  have clear: "j \<noteq> i" if "above t j b" "b \<noteq> i" for j b
    using leaf_above [OF ok i(1) leaf] that by blast
  have fwd: "spells t' j ks vs" if "spells t j ks vs" "j \<noteq> i" for j ks vs
    using that(1) by (rule spells_mono) (use n clear that(2) in auto)
  have bwd: "spells t j ks vs" if "spells t' j ks vs" for j ks vs
    using that by (rule spells_mono) (use n in \<open>auto split: if_splits\<close>)
  have "\<not> spells t' i ks vs" for ks vs
  proof
    assume "spells t' i ks vs"
    from spells_linked [OF this] show False using n(1,3) i(1) e(5) by (simp add: linked_def)
  qed
  with fwd bwd show sp: "spells t' j ks vs \<longleftrightarrow> spells t j ks vs \<and> j \<noteq> i" for j ks vs by blast
  show "above t' a b \<longleftrightarrow> above t a b" if "b \<noteq> i" for a b
  proof
    assume "above t' a b"
    then show "above t a b" by (rule above_mono) (use n in \<open>auto split: if_splits\<close>)
  next
    assume "above t a b"
    then show "above t' a b" by (rule above_mono) (use n clear that in auto)
  qed
  have parent_not: "rn_parent (nd t c) \<noteq> Some i" if "c < arena t" for c
  proof
    assume "rn_parent (nd t c) = Some i"
    then have "above t i c" using that by (blast intro: above.intros)
    with leaf_above [OF ok i(1) leaf] have "c = i" by blast
    with i p(2) \<open>rn_parent (nd t c) = Some i\<close> show False by simp
  qed
  show "tree_ok t'"
    unfolding tree_ok_def
  proof (intro conjI allI impI)
    show "0 < rt_page_size t'" "0 < arena t'" "arena t' \<le> 2 ^ 32" "rn_parent (nd t' 0) = None"
      using tree_okD [OF ok] n(1,2) n(3) [of 0] by auto
  next
    fix j assume "j < arena t'"
    then have j: "j < arena t" using n(1) by simp
    then have "edge_ok t j" using ok by (simp add: tree_ok_def)
    moreover have "rn_parent (nd t' j) = (if j = i then None else rn_parent (nd t j))"
      "rn_key (nd t' j) = rn_key (nd t j)" "rn_value (nd t' j) = rn_value (nd t j)"
      using n(3-5) [OF j] by simp_all
    ultimately show "edge_ok t' j" unfolding edge_ok_def n(1,2) using sp by (metis option.distinct(1))
  next
    fix q assume "q < arena t'"
    then have q: "q < arena t" using n(1) by simp
    have "children_ok t q" using ok q by (simp add: tree_ok_def)
    then have dist: "distinct (map fst (rn_children (nd t q)))" by (simp add: children_ok_def)
    have "map_of (rn_children (nd t' q)) k = Some c \<longleftrightarrow>
        c < arena t' \<and> rn_parent (nd t' c) = Some q \<and> take (rt_page_size t') (rn_key (nd t' c)) = k" for k c
    proof (cases "q = p")
      case True
      have "map_of (rn_children (nd t p)) (take ?ps (rn_key (nd t i))) = Some i"
        using child_lookup [OF ok p(1)] i by blast
      then have only: "j = i" if "j < arena t" "rn_parent (nd t j) = Some p" "take ?ps (rn_key (nd t j)) = take ?ps (rn_key (nd t i))" for j
        using child_lookup [OF ok p(1), of "take ?ps (rn_key (nd t i))" j] that by simp
      with True n p show ?thesis
        by (auto simp: key_delete_lookup child_lookup [OF ok p(1)] split: if_splits)
    next
      case False
      with n q i p show ?thesis by (auto simp: child_lookup [OF ok q] split: if_splits)
    qed
    moreover have "distinct (map fst (rn_children (nd t' q)))"
      using n(6) [OF q] dist p(1) by (auto intro: distinct_delete)
    ultimately show "children_ok t' q" unfolding children_ok_def by blast
  qed
qed

section \<open>Following parents\<close>

lemma path_chunks_spells:
  "spells t i ks vs \<Longrightarrow> tree_ok t \<Longrightarrow> \<exists>ch. rt_path_chunks t i acc = Some (acc @ ch) \<and> concat (rev ch) = vs"
proof (induction arbitrary: acc rule: spells.induct)
  case spells_root
  then show ?case by (subst rt_path_chunks.simps) (simp add: tree_okD(4) rt_node_some [OF tree_okD(2)])
next
  case (spells_child p ks vs i)
  from spells_child.IH [OF spells_child.prems, of "acc @ [rn_value (nd t i)]"] spells_child.hyps show ?case
    by (subst rt_path_chunks.simps) auto
qed

lemma path_value_spells: "spells t i ks vs \<Longrightarrow> tree_ok t \<Longrightarrow> rt_path_value t i = Some vs"
  using path_chunks_spells [of t i ks vs "[]"] by (auto simp: rt_path_value_def)

lemma path_len_loop_spells:
  "spells t i ks vs \<Longrightarrow> tree_ok t \<Longrightarrow> rt_path_len_loop t i acc = Some (acc + length ks)"
proof (induction arbitrary: acc rule: spells.induct)
  case spells_root
  then show ?case by (subst rt_path_len_loop.simps) (simp add: tree_okD(4) rt_node_some [OF tree_okD(2)])
next
  case (spells_child p ks vs i)
  then show ?case by (subst rt_path_len_loop.simps) (simp add: rn_length_def)
qed

lemma path_len_spells: "spells t i ks vs \<Longrightarrow> tree_ok t \<Longrightarrow> rt_path_len t i = Some (length ks)"
  by (simp add: rt_path_len_def path_len_loop_spells)

end
