(* ===== verification/Radix_Walk.thy ===== *)
theory Radix_Walk
  imports Radix_Ops
begin

text \<open>
  Walking the arena: every linked node is visited once, so the structural check always passes.
\<close>

section \<open>A walk visits every linked node once\<close>

lemma children_set:
  assumes "tree_ok t" "p < arena t"
  shows "set (map snd (rn_children (nd t p))) = {c. c < arena t \<and> rn_parent (nd t c) = Some p}"
    and "distinct (map snd (rn_children (nd t p)))"
proof -
  have dist: "distinct (map fst (rn_children (nd t p)))"
    using assms by (simp add: tree_ok_def children_ok_def)
  have mem: "(k, c) \<in> set (rn_children (nd t p)) \<longleftrightarrow>
      c < arena t \<and> rn_parent (nd t c) = Some p \<and> take (rt_page_size t) (rn_key (nd t c)) = k" for k c
    using child_lookup [OF assms, of k c] dist by simp
  then show "set (map snd (rn_children (nd t p))) = {c. c < arena t \<and> rn_parent (nd t c) = Some p}"
    by (auto simp: image_iff Bex_def)
  from dist have "distinct (rn_children (nd t p))" by (simp add: distinct_map)
  moreover have "inj_on snd (set (rn_children (nd t p)))"
    by (rule inj_onI) (auto simp: mem)
  ultimately show "distinct (map snd (rn_children (nd t p)))" by (simp add: distinct_map)
qed

definition walk_inv :: "radix_tree \<Rightarrow> node_id list \<Rightarrow> node_id list \<Rightarrow> bool" where
  "walk_inv t stack out \<longleftrightarrow> distinct out \<and> distinct stack
     \<and> (\<forall>s \<in> set stack. s = 0 \<or> linked t s) \<and> (\<forall>a \<in> set stack. \<forall>b \<in> set stack. above t a b \<longrightarrow> a = b)
     \<and> (\<forall>c. c \<in> set out \<longleftrightarrow> linked t c \<and> \<not> (\<exists>s \<in> set stack. s \<noteq> c \<and> above t s c))"

lemma finite_linked: "finite {c. linked t c}"
  by (rule finite_subset [of _ "{..< arena t}"]) (auto simp: linked_def)

lemma linked_arena: "tree_ok t \<Longrightarrow> s = 0 \<or> linked t s \<Longrightarrow> s < arena t"
  by (auto simp: linked_def dest: tree_okD(2))

lemma linked_path: "tree_ok t \<Longrightarrow> s = 0 \<or> linked t s \<Longrightarrow> \<exists>ks vs. spells t s ks vs"
  using linked_spells spells_root by blast

lemma siblings_apart:
  assumes ok: "tree_ok t" and "a < arena t" "rn_parent (nd t a) = Some p" "b < arena t" "rn_parent (nd t b) = Some p"
    and "above t a b"
  shows "a = b"
proof (rule ccontr)
  assume "a \<noteq> b"
  with assms(5,6) have "above t a p" by (auto elim: above_parentD)
  moreover have "above t p a" using assms(2,3) by (blast intro: above.intros)
  moreover obtain ks vs where "spells t a ks vs" using edgeD(6) [OF ok assms(2,3)] by blast
  ultimately have "a = p" using above_antisym [OF ok] by blast
  with parent_differs [OF ok assms(2,3)] show False by simp
qed

lemma walk_inv_step:
  assumes ok: "tree_ok t" and inv: "walk_inv t (i # stack) out" and cs: "cs = map snd (rn_children (nd t i))"
  shows "walk_inv t (rev cs @ stack) (out @ cs)" "i < arena t" "set cs \<inter> set out = {}" "distinct cs"
    "set cs \<subseteq> {c. linked t c}"
proof -
  have i: "i = 0 \<or> linked t i" and di: "distinct out" "distinct stack" "i \<notin> set stack"
    and st: "\<And>s. s \<in> set stack \<Longrightarrow> s = 0 \<or> linked t s"
    and apart: "\<And>a b. a \<in> insert i (set stack) \<Longrightarrow> b \<in> insert i (set stack) \<Longrightarrow> above t a b \<Longrightarrow> a = b"
    and out: "\<And>c. c \<in> set out \<longleftrightarrow> linked t c \<and> \<not> (\<exists>s \<in> insert i (set stack). s \<noteq> c \<and> above t s c)"
    using inv by (auto simp: walk_inv_def)
  from linked_arena [OF ok i] show ia: "i < arena t" .
  note csd = children_set [OF ok ia, folded cs]
  show "distinct cs" by (rule csd)
  have child: "c < arena t \<and> rn_parent (nd t c) = Some i \<and> linked t c \<and> above t i c \<and> c \<noteq> i" if "c \<in> set cs" for c
  proof -
    have c: "c < arena t" "rn_parent (nd t c) = Some i" using that csd(1) by auto
    with parent_differs [OF ok c] show ?thesis by (auto simp: linked_def intro: above_step above_refl)
  qed
  then show "set cs \<subseteq> {c. linked t c}" by blast
  have "c \<notin> set out" if "c \<in> set cs" for c using child [OF that] out [of c] by auto
  then show disj: "set cs \<inter> set out = {}" by auto
  have not_stack: "c \<notin> set stack" if "c \<in> set cs" for c
    using apart [of i c] child [OF that] by blast
  have strict: "above t i c \<and> c \<noteq> i \<longleftrightarrow> (\<exists>d \<in> set cs. above t d c)" for c
  proof
    assume "above t i c \<and> c \<noteq> i"
    with above_below_child show "\<exists>d \<in> set cs. above t d c" unfolding csd(1) by blast
  next
    assume "\<exists>d \<in> set cs. above t d c"
    then obtain d where d: "d \<in> set cs" "above t d c" by blast
    with child [OF d(1)] have "above t i c" by (blast intro: above_trans)
    moreover have "c \<noteq> i"
    proof
      assume "c = i"
      with linked_path [OF ok i] obtain ks vs where "spells t i ks vs" by blast
      with above_antisym [OF ok, of i d] d child [OF d(1)] \<open>c = i\<close> show False by blast
    qed
    ultimately show "above t i c \<and> c \<noteq> i" by blast
  qed
  show "walk_inv t (rev cs @ stack) (out @ cs)"
    unfolding walk_inv_def
  proof (intro conjI ballI allI impI)
    show "distinct (out @ cs)" "distinct (rev cs @ stack)" using di csd(2) disj not_stack by auto
  next
    fix s assume "s \<in> set (rev cs @ stack)"
    then show "s = 0 \<or> linked t s" using st child by auto
  next
    fix a b assume ab: "a \<in> set (rev cs @ stack)" "b \<in> set (rev cs @ stack)" "above t a b"
    consider "a \<in> set cs" "b \<in> set cs" | "a \<in> set stack" "b \<in> set stack" | "a \<in> set cs" "b \<in> set stack"
      | "a \<in> set stack" "b \<in> set cs" using ab(1,2) by auto
    then show "a = b"
    proof cases
      case 1
      then show ?thesis using siblings_apart [OF ok] child ab(3) by blast
    next
      case 2
      then show ?thesis using apart ab(3) by blast
    next
      case 3
      then have "above t i b" using child ab(3) by (blast intro: above_trans)
      with apart [of i b] 3 di(3) show ?thesis by blast
    next
      case 4
      then show ?thesis
      proof (cases "a = b")
        case False
        with ab(3) child [OF 4(2)] have "above t a i" by (auto elim: above_parentD)
        with apart [of a i] 4 di(3) show ?thesis by blast
      qed simp
    qed
  next
    fix c
    show "c \<in> set (out @ cs) \<longleftrightarrow> linked t c \<and> \<not> (\<exists>s \<in> set (rev cs @ stack). s \<noteq> c \<and> above t s c)"
    proof (cases "c \<in> set cs")
      case True
      have "\<not> (\<exists>s \<in> set (rev cs @ stack). s \<noteq> c \<and> above t s c)"
      proof
        assume "\<exists>s \<in> set (rev cs @ stack). s \<noteq> c \<and> above t s c"
        then obtain s where s: "s \<in> set cs \<or> s \<in> set stack" "s \<noteq> c" "above t s c" by auto
        with siblings_apart [OF ok] child True have "s \<in> set stack" by blast
        moreover have "above t s i" using s(2,3) child [OF True] by (auto elim: above_parentD)
        ultimately show False using apart [of s i] di(3) by blast
      qed
      with True child show ?thesis by auto
    next
      case False
      have "(\<exists>s \<in> set (rev cs @ stack). s \<noteq> c \<and> above t s c) \<longleftrightarrow> (\<exists>s \<in> insert i (set stack). s \<noteq> c \<and> above t s c)"
        using strict [of c] False by auto
      with out [of c] False show ?thesis by simp
    qed
  qed
qed

lemma walk_loop_visits:
  assumes "tree_ok t" "walk_inv t stack out"
  shows "\<exists>ids. rt_walk_loop t stack out = Some ids \<and> distinct ids \<and> set ids = {c. linked t c}"
  using assms(2)
proof (induction "card {c. linked t c} - length out + length stack" arbitrary: stack out rule: less_induct)
  case less
  show ?case
  proof (cases stack)
    case Nil
    with less.prems show ?thesis by (subst rt_walk_loop.simps) (auto simp: walk_inv_def)
  next
    case (Cons i rest)
    define cs where "cs = map snd (rn_children (nd t i))"
    note step = walk_inv_step [OF assms(1) less.prems [unfolded Cons] cs_def]
    have "distinct (out @ cs)" "set (out @ cs) \<subseteq> {c. linked t c}"
      using step(1,5) less.prems by (auto simp: walk_inv_def)
    then have "length (out @ cs) \<le> card {c. linked t c}"
      using card_mono [OF finite_linked] distinct_card by metis
    then have "card {c. linked t c} - length (out @ cs) + length (rev cs @ rest)
        < card {c. linked t c} - length out + length stack"
      using Cons by simp
    from less.hyps [OF this step(1)] show ?thesis
      using step(2) Cons by (subst rt_walk_loop.simps) (simp add: cs_def Let_def)
  qed
qed

lemma walk_visits:
  assumes "tree_ok t"
  shows "\<exists>ids. rt_walk t = Some ids \<and> distinct ids \<and> set ids = {c. linked t c}"
proof -
  have "walk_inv t [radix_root] []"
    using linked_path [OF assms] edgeD(5) [OF assms]
    by (auto simp: walk_inv_def radix_root_def linked_def above_refl) (metis above_root)
  from walk_loop_visits [OF assms this] show ?thesis by (simp add: rt_walk_def)
qed

lemma leaves_visits:
  assumes "tree_ok t"
  shows "\<exists>ids. rt_leaves t = Some ids \<and> distinct ids \<and> set ids = {c. linked t c \<and> rn_children (nd t c) = []}"
  using walk_visits [OF assms] by (auto simp: rt_leaves_def linked_def rn_is_leaf_def)

lemma structure_holds:
  assumes "tree_ok t"
  shows "check_structure t"
proof -
  obtain ids where ids: "rt_walk t = Some ids" "set ids = {c. linked t c}"
    using walk_visits [OF assms] by blast
  have "node_structure_ok t i" if i: "linked t i" for i
  proof -
    from i obtain p where p: "i < arena t" "rn_parent (nd t i) = Some p" by (auto simp: linked_def)
    have "map_of (rn_children (nd t p)) (take (rt_page_size t) (rn_key (nd t i))) = Some i"
      using child_lookup [OF assms edgeD(1) [OF assms p]] p by blast
    with edgeD [OF assms p] p show ?thesis
      by (simp add: node_structure_ok_def rt_child_lookup [OF assms] rn_length_def)
  qed
  with ids show ?thesis by (simp add: check_structure_def list_all_iff)
qed

end
