(* ===== verification/Radix_Cache.thy ===== *)
theory Radix_Cache
  imports Radix_Walk "HOL-Library.Product_Lexorder" "HOL-Library.Multiset"
begin

text \<open>
  The plain prefix cache (\<^verbatim>\<open>policy/radix/plain.rs\<close>): lookups that split and stamp, insertion, locks
  from a node to the root, and eviction of the least recently matched unlocked leaves.

  \<open>None\<close> is a panic: besides those of the arena, the subtraction of a size that is too large, an
  unlock without a lock and an eviction of more than there is.  The clock is an integer and a lock
  depth a natural number: \<open>2 ^ 63\<close> walks and \<open>2 ^ 32\<close> locks of one node are out of reach.
  The binary heap of the evictor is a list from which the least pair is taken.
\<close>

section \<open>The cache\<close>

record match_result =
  mr_cached_len :: nat
  mr_node :: node_id

record insert_result =
  ir_cached_len :: nat
  ir_node :: node_id
  ir_inserted_len :: nat

record radix_cache =
  rc_tree :: radix_tree
  rc_evictable_size :: nat
  rc_protected_size :: nat
  rc_clock :: int

definition radix_cache_new :: "nat \<Rightarrow> radix_cache option" where
  "radix_cache_new page_size = map_option (\<lambda>t. \<lparr>rc_tree = t, rc_evictable_size = 0, rc_protected_size = 0,
     rc_clock = 0\<rparr>) (radix_tree_new page_size)"

definition rc_page_size :: "radix_cache \<Rightarrow> nat" where
  "rc_page_size c = rt_page_size (rc_tree c)"

definition rc_total_size :: "radix_cache \<Rightarrow> nat" where
  "rc_total_size c = rc_evictable_size c + rc_protected_size c"

definition rc_matched_indices :: "radix_cache \<Rightarrow> node_id \<Rightarrow> u32 list option" where
  "rc_matched_indices c i = rt_path_value (rc_tree c) i"

definition rc_tick :: "radix_cache \<Rightarrow> int \<times> radix_cache" where
  "rc_tick c = (rc_clock c + 1, c\<lparr>rc_clock := rc_clock c + 1\<rparr>)"

section \<open>Lookups\<close>

partial_function (option) rc_walk_loop ::
  "u32 list \<Rightarrow> int \<Rightarrow> node_id \<Rightarrow> nat \<Rightarrow> radix_tree \<Rightarrow> (node_id \<times> nat \<times> radix_tree) option" where
  "rc_walk_loop input_ids tic node prefix_len t =
     (if \<not> prefix_len < length input_ids then Some (node, prefix_len, t)
      else do {
        found \<leftarrow> rt_child t node (drop prefix_len input_ids);
        case found of
          None \<Rightarrow> Some (node, prefix_len, t)
        | Some child \<Rightarrow> do {
            n \<leftarrow> rt_node t child;
            let matched = align_down (match_len (rn_key n) (drop prefix_len input_ids)) (rt_page_size t);
            if matched \<noteq> rn_length n then do {
              (head, t) \<leftarrow> rt_split_at child matched t;
              t \<leftarrow> rt_node_mut head (\<lambda>n. n\<lparr>rn_timestamp := tic\<rparr>) t;
              Some (head, prefix_len + matched, t)
            } else do {
              t \<leftarrow> rt_node_mut child (\<lambda>n. n\<lparr>rn_timestamp := tic\<rparr>) t;
              rc_walk_loop input_ids tic child (prefix_len + matched) t
            }
          }
      })"

definition rc_tree_walk :: "u32 list \<Rightarrow> radix_cache \<Rightarrow> (node_id \<times> nat \<times> radix_cache) option" where
  "rc_tree_walk input_ids c =
     (let (tic, c) = rc_tick c in
      map_option (\<lambda>(node, len, t). (node, len, c\<lparr>rc_tree := t\<rparr>)) (rc_walk_loop input_ids tic radix_root 0 (rc_tree c)))"

partial_function (option) rc_peek_loop :: "u32 list \<Rightarrow> node_id \<Rightarrow> nat \<Rightarrow> radix_tree \<Rightarrow> nat option" where
  "rc_peek_loop input_ids node prefix_len t =
     (if \<not> prefix_len < length input_ids then Some prefix_len
      else do {
        found \<leftarrow> rt_child t node (drop prefix_len input_ids);
        case found of
          None \<Rightarrow> Some prefix_len
        | Some child \<Rightarrow> do {
            n \<leftarrow> rt_node t child;
            let matched = align_down (match_len (rn_key n) (drop prefix_len input_ids)) (rt_page_size t);
            if matched \<noteq> rn_length n then Some (prefix_len + matched)
            else rc_peek_loop input_ids child (prefix_len + matched) t
          }
      })"

definition rc_peek_cached_len :: "radix_cache \<Rightarrow> u32 list \<Rightarrow> nat option" where
  "rc_peek_cached_len c input_ids = rc_peek_loop input_ids radix_root 0 (rc_tree c)"

definition rc_match_prefix :: "u32 list \<Rightarrow> radix_cache \<Rightarrow> (match_result \<times> radix_cache) option" where
  "rc_match_prefix input_ids c =
     map_option (\<lambda>(node, cached_len, c). (\<lparr>mr_cached_len = cached_len, mr_node = node\<rparr>, c)) (rc_tree_walk input_ids c)"

definition rc_insert_prefix :: "u32 list \<Rightarrow> u32 list \<Rightarrow> radix_cache \<Rightarrow> (insert_result \<times> radix_cache) option" where
  "rc_insert_prefix input_ids indices c =
     (if length input_ids \<noteq> length indices then None
      else let insert_len = align_down (length input_ids) (rc_page_size c);
             input_ids = take insert_len input_ids; indices = take insert_len indices in do {
        (node, prefix_len, c) \<leftarrow> rc_tree_walk input_ids c;
        (node, c) \<leftarrow>
          (if prefix_len \<noteq> insert_len then do {
             let tic = rc_clock c;
             let (new_node, t) = rt_alloc tic (rc_tree c);
             t \<leftarrow> rt_set_key_value new_node (drop prefix_len input_ids) (drop prefix_len indices) t;
             t \<leftarrow> rt_set_parent new_node node t;
             n \<leftarrow> rt_node t new_node;
             Some (new_node, c\<lparr>rc_tree := t, rc_evictable_size := rc_evictable_size c + rn_length n\<rparr>)
           } else Some (node, c));
        Some (\<lparr>ir_cached_len = prefix_len, ir_node = node, ir_inserted_len = insert_len\<rparr>, c)
      })"

section \<open>Locks\<close>

partial_function (option) rc_lock :: "node_id \<Rightarrow> radix_cache \<Rightarrow> radix_cache option" where
  "rc_lock cur c = do {
     n \<leftarrow> rt_node (rc_tree c) cur;
     if rn_is_root n then Some c
     else do {
       c \<leftarrow> (if rn_ref_count n = 0 then
               if rc_evictable_size c < rn_length n then None
               else Some (c\<lparr>rc_evictable_size := rc_evictable_size c - rn_length n,
                            rc_protected_size := rc_protected_size c + rn_length n\<rparr>)
             else Some c);
       t \<leftarrow> rt_node_mut cur (\<lambda>n. n\<lparr>rn_ref_count := rn_ref_count n + 1\<rparr>) (rc_tree c);
       let c = c\<lparr>rc_tree := t\<rparr>;
       parent \<leftarrow> rn_parent n;
       rc_lock parent c
     }
   }"

partial_function (option) rc_unlock :: "node_id \<Rightarrow> radix_cache \<Rightarrow> radix_cache option" where
  "rc_unlock cur c = do {
     n \<leftarrow> rt_node (rc_tree c) cur;
     if rn_is_root n then Some c
     else if rn_ref_count n = 0 then None
     else do {
       t \<leftarrow> rt_node_mut cur (\<lambda>n. n\<lparr>rn_ref_count := rn_ref_count n - 1\<rparr>) (rc_tree c);
       let c = c\<lparr>rc_tree := t\<rparr>;
       c \<leftarrow> (if rn_ref_count n - 1 = 0 then
               if rc_protected_size c < rn_length n then None
               else Some (c\<lparr>rc_evictable_size := rc_evictable_size c + rn_length n,
                            rc_protected_size := rc_protected_size c - rn_length n\<rparr>)
             else Some c);
       parent \<leftarrow> rn_parent n;
       rc_unlock parent c
     }
   }"

section \<open>Eviction\<close>

text \<open>Taking the least entry of the evictor's heap.\<close>

definition heap_pop :: "(int \<times> node_id) list \<Rightarrow> ((int \<times> node_id) \<times> (int \<times> node_id) list) option" where
  "heap_pop heap = (if heap = [] then None else let m = Min (set heap) in Some (m, remove1 m heap))"

partial_function (option) rc_evict_loop ::
  "nat \<Rightarrow> (int \<times> node_id) list \<Rightarrow> u32 list \<Rightarrow> nat \<Rightarrow> radix_cache \<Rightarrow> (u32 list \<times> radix_cache) option" where
  "rc_evict_loop wanted heap evicted evicted_size c =
     (if \<not> evicted_size < wanted then Some (evicted, c)
      else do {
        ((_, i), heap) \<leftarrow> heap_pop heap;
        n \<leftarrow> rt_node (rc_tree c) i;
        let evicted_size = evicted_size + rn_length n;
        let evicted = evicted @ rn_value n;
        if rc_evictable_size c < rn_length n then None else do {
          let c = c\<lparr>rc_evictable_size := rc_evictable_size c - rn_length n\<rparr>;
          (parent, t) \<leftarrow> rt_unlink i (rc_tree c);
          let c = c\<lparr>rc_tree := t\<rparr>;
          p \<leftarrow> rt_node t parent;
          let heap = (if rn_is_leaf p \<and> rn_ref_count p = 0 \<and> \<not> rn_is_root p then (rn_timestamp p, parent) # heap else heap);
          rc_evict_loop wanted heap evicted evicted_size c
        }
      })"

definition unlocked_leaves :: "radix_tree \<Rightarrow> node_id list \<Rightarrow> (int \<times> node_id) list" where
  "unlocked_leaves t ids = map (\<lambda>i. (rn_timestamp (rt_nodes t ! i), i)) (filter (\<lambda>i. rn_ref_count (rt_nodes t ! i) = 0) ids)"

definition rc_evict :: "nat \<Rightarrow> radix_cache \<Rightarrow> (u32 list \<times> radix_cache) option" where
  "rc_evict wanted c =
     (if wanted = 0 then Some ([], c)
      else if rc_evictable_size c < wanted then None
      else do {
        leaves \<leftarrow> rt_leaves (rc_tree c);
        rc_evict_loop wanted (unlocked_leaves (rc_tree c) leaves) [] 0 c
      })"

text \<open>Whether every assertion of the integrity check holds.\<close>

definition rc_check_integrity :: "radix_cache \<Rightarrow> bool" where
  "rc_check_integrity c \<longleftrightarrow> check_structure (rc_tree c)
     \<and> (case rt_walk (rc_tree c) of
          None \<Rightarrow> False
        | Some ids \<Rightarrow>
            sum_list (map (\<lambda>i. let n = rt_nodes (rc_tree c) ! i in if rn_ref_count n = 0 then rn_length n else 0) ids) = rc_evictable_size c
            \<and> sum_list (map (\<lambda>i. let n = rt_nodes (rc_tree c) ! i in if rn_ref_count n = 0 then 0 else rn_length n) ids) = rc_protected_size c)"

section \<open>Sums over the linked nodes\<close>

definition tally :: "(u32 list \<Rightarrow> u32 list \<Rightarrow> nat \<Rightarrow> 'a :: comm_monoid_add) \<Rightarrow> radix_tree \<Rightarrow> 'a" where
  "tally f t = (\<Sum>i < arena t. if rn_parent (nd t i) = None then 0
     else f (rn_key (nd t i)) (rn_value (nd t i)) (rn_ref_count (nd t i)))"

definition idle_size :: "radix_tree \<Rightarrow> nat" where
  "idle_size = tally (\<lambda>k v r. if r = 0 then length k else 0)"

definition busy_size :: "radix_tree \<Rightarrow> nat" where
  "busy_size = tally (\<lambda>k v r. if r = 0 then 0 else length k)"

definition tree_pages :: "radix_tree \<Rightarrow> u32 multiset" where
  "tree_pages = tally (\<lambda>k v r. mset v)"

lemma sum_change_one:
  fixes f g :: "nat \<Rightarrow> 'a :: comm_monoid_add"
  assumes "j < n" "\<And>k. k < n \<Longrightarrow> k \<noteq> j \<Longrightarrow> f k = g k"
  shows "sum f {..<n} + g j = sum g {..<n} + f j"
proof -
  have "sum f {..<n} = f j + sum f ({..<n} - {j})" "sum g {..<n} = g j + sum g ({..<n} - {j})"
    using assms(1) by (simp_all add: sum.remove)
  moreover have "sum f ({..<n} - {j}) = sum g ({..<n} - {j})"
    using assms(2) by (intro sum.cong) auto
  ultimately show ?thesis by (simp add: add_ac)
qed

lemma tally_same:
  assumes "same_shape t t'" "\<And>i. i < arena t \<Longrightarrow> rn_ref_count (nd t' i) = rn_ref_count (nd t i)"
  shows "tally f t' = tally f t"
  unfolding tally_def same_shapeD(2) [OF assms(1)]
  by (intro sum.cong) (simp_all add: same_shapeD [OF assms(1)] assms(2))

lemma tally_ref:
  assumes "same_shape t t'" "i < arena t" "rn_parent (nd t i) \<noteq> None"
    and "\<And>j. j < arena t \<Longrightarrow> j \<noteq> i \<Longrightarrow> rn_ref_count (nd t' j) = rn_ref_count (nd t j)"
  shows "tally f t' + f (rn_key (nd t i)) (rn_value (nd t i)) (rn_ref_count (nd t i)) =
    tally f t + f (rn_key (nd t i)) (rn_value (nd t i)) (rn_ref_count (nd t' i))"
proof -
  let ?g = "\<lambda>t j. if rn_parent (nd t j) = None then 0 else f (rn_key (nd t j)) (rn_value (nd t j)) (rn_ref_count (nd t j))"
  have "sum (?g t') {..< arena t} + ?g t i = sum (?g t) {..< arena t} + ?g t' i"
    by (rule sum_change_one [OF assms(2)]) (simp add: same_shapeD [OF assms(1)] assms(4))
  moreover have "tally f t' = sum (?g t') {..< arena t}" "tally f t = sum (?g t) {..< arena t}"
    by (simp_all only: tally_def same_shapeD(2) [OF assms(1)])
  ultimately show ?thesis
    using assms(3) by (simp add: same_shapeD(3-5) [OF assms(1,2)])
qed

lemma tally_attach:
  assumes "p < arena t" "attach_nodes t ts key value p t'"
  shows "tally f t' = tally f t + f key value 0"
proof -
  note n = attach_nodesD [OF assms]
  have "rn_ref_count (nd t' i) = rn_ref_count (nd t i)" if "i < arena t" for i
    using assms(2) that by (cases "i = p") (auto simp: attach_nodes_def)
  moreover have "rn_ref_count (nd t' (arena t)) = 0" using assms(2) by (simp add: attach_nodes_def node_new_def)
  moreover have "(\<Sum>j < arena t. if rn_parent (nd t' j) = None then 0 else f (rn_key (nd t' j)) (rn_value (nd t' j)) (rn_ref_count (nd t' j)))
      = tally f t"
    unfolding tally_def using n calculation(1) by (intro sum.cong) simp_all
  ultimately show ?thesis
    using n by (simp add: tally_def)
qed

lemma tally_split:
  fixes f :: "u32 list \<Rightarrow> u32 list \<Rightarrow> nat \<Rightarrow> 'a :: cancel_comm_monoid_add"
  assumes ok: "tree_ok t" "i < arena t" "rn_parent (nd t i) = Some p" and split: "split_nodes t i p pos t'"
    and add: "\<And>k k' v v' r. f (k @ k') (v @ v') r = f k v r + f k' v' r"
  shows "tally f t' = tally f t"
proof -
  note n = split_nodesD [OF ok split]
  have ref: "rn_ref_count (nd t' j) = rn_ref_count (nd t j)" if "j < arena t" for j
    using split that by (cases "j = p"; cases "j = i") (auto simp: split_nodes_def Let_def)
  have new: "rn_ref_count (nd t' (arena t)) = rn_ref_count (nd t i)"
    using split by (simp add: split_nodes_def Let_def)
  let ?g = "\<lambda>t j. if rn_parent (nd t j) = None then 0 else f (rn_key (nd t j)) (rn_value (nd t j)) (rn_ref_count (nd t j))"
  let ?k = "rn_key (nd t i)" and ?v = "rn_value (nd t i)" and ?r = "rn_ref_count (nd t i)"
  have "sum (?g t') {..< arena t} + ?g t i = sum (?g t) {..< arena t} + ?g t' i"
    by (rule sum_change_one [OF ok(2)]) (use n ref in simp)
  then have "sum (?g t') {..< arena t} + (f (take pos ?k) (take pos ?v) ?r + f (drop pos ?k) (drop pos ?v) ?r)
      = sum (?g t) {..< arena t} + f (drop pos ?k) (drop pos ?v) ?r"
    using n ref ok(2,3) add [of "take pos ?k" "drop pos ?k" "take pos ?v" "drop pos ?v" ?r] by simp
  moreover have "tally f t' = sum (?g t') {..< arena t} + f (take pos ?k) (take pos ?v) ?r"
    using n new by (simp add: tally_def)
  moreover have "tally f t = sum (?g t) {..< arena t}" by (simp add: tally_def)
  ultimately have "tally f t' + f (drop pos ?k) (drop pos ?v) ?r = tally f t + f (drop pos ?k) (drop pos ?v) ?r"
    by (simp add: add_ac)
  then show ?thesis by simp
qed

lemma tally_unlink:
  assumes ok: "tree_ok t" "i < arena t" "rn_parent (nd t i) = Some p" and un: "unlink_nodes t i p t'"
  shows "tally f t = tally f t' + f (rn_key (nd t i)) (rn_value (nd t i)) (rn_ref_count (nd t i))"
proof -
  note n = unlink_nodesD [OF ok un]
  have ref: "rn_ref_count (nd t' j) = rn_ref_count (nd t j)" if "j < arena t" for j
    using un that by (cases "j = p"; cases "j = i") (auto simp: unlink_nodes_def)
  let ?g = "\<lambda>t j. if rn_parent (nd t j) = None then 0 else f (rn_key (nd t j)) (rn_value (nd t j)) (rn_ref_count (nd t j))"
  have "sum (?g t') {..< arena t} + ?g t i = sum (?g t) {..< arena t} + ?g t' i"
    by (rule sum_change_one [OF ok(2)]) (use n ref in simp)
  with n ok(2,3) show ?thesis by (simp add: tally_def add_ac)
qed

lemma tally_empty: "arena t = 1 \<Longrightarrow> rn_parent (nd t 0) = None \<Longrightarrow> tally f t = 0"
  by (simp add: tally_def)

end
