(* ===== verification/Radix_Lookup.thy ===== *)
theory Radix_Lookup
  imports Radix_Cache
begin

text \<open>
  Lookups in the prefix cache: the invariant of a cache with locks held, and that a walk lands on the
  longest held prefix of its query and keeps everything the cache holds, whether or not it splits.
\<close>

section \<open>The state of a cache with locks held\<close>

text \<open>The handles that are locked at present, one entry per lock.\<close>

definition locks_ok :: "node_id list \<Rightarrow> radix_tree \<Rightarrow> bool" where
  "locks_ok hs t \<longleftrightarrow> (\<forall>h \<in> set hs. h = 0 \<or> linked t h)
     \<and> (\<forall>i. linked t i \<longrightarrow> rn_ref_count (nd t i) = length (filter (above t i) hs))"

definition stamps_ok :: "int \<Rightarrow> radix_tree \<Rightarrow> bool" where
  "stamps_ok clock t \<longleftrightarrow> (\<forall>i p. i < arena t \<longrightarrow> rn_parent (nd t i) = Some p \<longrightarrow>
     rn_timestamp (nd t i) \<le> clock \<and> (p \<noteq> 0 \<longrightarrow> rn_timestamp (nd t i) \<le> rn_timestamp (nd t p)))"

definition arena_good :: "node_id list \<Rightarrow> int \<Rightarrow> radix_tree \<Rightarrow> bool" where
  "arena_good hs clock t \<longleftrightarrow> tree_ok t \<and> locks_ok hs t \<and> stamps_ok clock t"

definition cache_ok :: "node_id list \<Rightarrow> radix_cache \<Rightarrow> bool" where
  "cache_ok hs c \<longleftrightarrow> arena_good hs (rc_clock c) (rc_tree c)
     \<and> rc_evictable_size c = idle_size (rc_tree c) \<and> rc_protected_size c = busy_size (rc_tree c)"

text \<open>What a lookup leaves as it was: the paths of all nodes, the prefixes held, and all sizes.\<close>

definition keeps :: "radix_tree \<Rightarrow> radix_tree \<Rightarrow> bool" where
  "keeps t t' \<longleftrightarrow> rt_page_size t' = rt_page_size t \<and> (\<forall>i ks vs. spells t i ks vs \<longrightarrow> spells t' i ks vs)
     \<and> (\<forall>ts vs. held t' ts vs \<longleftrightarrow> held t ts vs)
     \<and> idle_size t' = idle_size t \<and> busy_size t' = busy_size t \<and> tree_pages t' = tree_pages t"

lemma keeps_refl: "keeps t t"
  by (simp add: keeps_def)

lemma keeps_trans: "keeps t u \<Longrightarrow> keeps u v \<Longrightarrow> keeps t v"
  by (simp add: keeps_def)

lemma keeps_longest: "keeps t t' \<Longrightarrow> longest_held t' q n \<longleftrightarrow> longest_held t q n"
  by (simp add: keeps_def longest_held_def)

lemma sizes_same:
  assumes "same_shape t t'" "\<And>i. i < arena t \<Longrightarrow> rn_ref_count (nd t' i) = rn_ref_count (nd t i)"
  shows "idle_size t' = idle_size t" "busy_size t' = busy_size t" "tree_pages t' = tree_pages t"
  by (simp_all add: idle_size_def busy_size_def tree_pages_def tally_same [OF assms])

lemma locks_ok_same:
  assumes "same_shape t t'" "\<And>i. i < arena t \<Longrightarrow> rn_ref_count (nd t' i) = rn_ref_count (nd t i)"
  shows "locks_ok hs t' \<longleftrightarrow> locks_ok hs t"
proof -
  have "above t' i = above t i" for i using same_shape_above [OF assms(1)] by blast
  moreover have "linked t i \<Longrightarrow> rn_ref_count (nd t' i) = rn_ref_count (nd t i)" for i
    using assms(2) by (simp add: linked_def)
  ultimately show ?thesis
    by (simp add: locks_ok_def same_shape_linked [OF assms(1)])
qed

subsection \<open>Stamping\<close>

definition stamp :: "int \<Rightarrow> node_id \<Rightarrow> radix_tree \<Rightarrow> radix_tree" where
  "stamp tic i t = t\<lparr>rt_nodes := (rt_nodes t)[i := (nd t i)\<lparr>rn_timestamp := tic\<rparr>]\<rparr>"

lemma stamp_shape: "i < arena t \<Longrightarrow> same_shape t (stamp tic i t)"
  unfolding stamp_def by (rule same_shape_update) (simp_all add: shape_def)

lemma stamp_fields:
  assumes "i < arena t"
  shows "rn_ref_count (nd (stamp tic i t) j) = rn_ref_count (nd t j)"
    "rn_timestamp (nd (stamp tic i t) j) = (if j = i then tic else rn_timestamp (nd t j))"
  using assms by (auto simp: stamp_def nth_list_update)

lemma stamp_good:
  assumes "arena_good hs tic t" "i < arena t" "rn_parent (nd t i) = Some p" "p = 0 \<or> rn_timestamp (nd t p) = tic"
  shows "arena_good hs tic (stamp tic i t)" "keeps t (stamp tic i t)"
proof -
  note sh = stamp_shape [OF assms(2), of tic]
  note f = stamp_fields [OF assms(2)]
  have st: "stamps_ok tic t" "tree_ok t" using assms(1) by (simp_all add: arena_good_def)
  have "stamps_ok tic (stamp tic i t)"
    using st(1) assms(3,4) unfolding stamps_ok_def
    by (auto simp: same_shapeD [OF sh] f)
  with assms(1) show "arena_good hs tic (stamp tic i t)"
    by (simp add: arena_good_def same_shape_tree_ok [OF sh] locks_ok_same [OF sh] f)
  show "keeps t (stamp tic i t)"
    by (simp add: keeps_def same_shapeD(1) [OF sh] same_shape_spells [OF sh] same_shape_held [OF sh]
        sizes_same [OF sh] f)
qed

subsection \<open>Splitting\<close>

lemma split_fields:
  assumes "tree_ok t" "i < arena t" "rn_parent (nd t i) = Some p" "split_nodes t i p pos t'"
  shows "j < arena t \<Longrightarrow> rn_ref_count (nd t' j) = rn_ref_count (nd t j)"
    "rn_ref_count (nd t' (arena t)) = rn_ref_count (nd t i)"
    "j < arena t \<Longrightarrow> rn_timestamp (nd t' j) = rn_timestamp (nd t j)"
    "rn_timestamp (nd t' (arena t)) = rn_timestamp (nd t i)"
  using assms(4) by (cases "j = p"; cases "j = i"; auto simp: split_nodes_def Let_def node_new_def)+

lemma split_good:
  assumes "arena_good hs tic t" "i < arena t" "rn_parent (nd t i) = Some p" "spells t p kp vp"
    and pos: "0 < pos" "pos < length (rn_key (nd t i))" "rt_page_size t dvd pos"
    and room: "arena t < 2 ^ 32" and split: "split_nodes t i p pos t'"
  shows "arena_good hs tic t'" "keeps t t'"
proof -
  have ok: "tree_ok t" and lk: "locks_ok hs t" and st: "stamps_ok tic t"
    using assms(1) by (simp_all add: arena_good_def)
  note so = split_tree_ok [OF ok assms(2,3) pos room split assms(4)]
  note sa = split_above [OF ok assms(2,3) split]
  note n = split_nodesD [OF ok assms(2,3) split]
  note f = split_fields [OF ok assms(2,3) split]
  have p: "p < arena t" using spells_arena [OF assms(4) ok] .
  have hs: "h < arena t" if "h \<in> set hs" for h
    using lk that linked_arena [OF ok] by (auto simp: locks_ok_def)
  have lnk: "linked t' j \<longleftrightarrow> j = arena t \<or> linked t j" for j
    using n(1,3) assms(2,3) by (auto simp: linked_def split: if_splits)
  have "locks_ok hs t'"
    unfolding locks_ok_def
  proof (intro conjI ballI allI impI)
    fix h assume "h \<in> set hs"
    with lk show "h = 0 \<or> linked t' h" by (auto simp: locks_ok_def lnk)
  next
    fix j assume "linked t' j"
    then have "j = arena t \<or> linked t j" by (simp add: lnk)
    then consider "j = arena t" | "j < arena t" "linked t j" by (auto simp: linked_def)
    then show "rn_ref_count (nd t' j) = length (filter (above t' j) hs)"
    proof cases
      case 1
      have "filter (above t' (arena t)) hs = filter (above t i) hs"
        by (rule filter_cong) (use sa(2) hs in auto)
      with 1 f(2) lk assms(2,3) show ?thesis by (simp add: locks_ok_def linked_def)
    next
      case 2
      have "filter (above t' j) hs = filter (above t j) hs"
        by (rule filter_cong) (use sa(1) hs 2 in auto)
      with 2 f(1) lk show ?thesis by (simp add: locks_ok_def)
    qed
  qed
  moreover have "stamps_ok tic t'"
    unfolding stamps_ok_def
  proof (intro allI impI)
    fix j q assume j: "j < arena t'" "rn_parent (nd t' j) = Some q"
    consider "j = arena t" | "j = i" | "j < arena t" "j \<noteq> i" using j(1) n(1) by linarith
    then show "rn_timestamp (nd t' j) \<le> tic \<and> (q \<noteq> 0 \<longrightarrow> rn_timestamp (nd t' j) \<le> rn_timestamp (nd t' q))"
    proof cases
      case 1
      then show ?thesis using j n(3) [OF j(1)] f(3,4) p st assms(2,3) by (auto simp: stamps_ok_def)
    next
      case 2
      then show ?thesis using j n(3) [OF j(1)] f(3,4) st assms(2,3) by (auto simp: stamps_ok_def)
    next
      case 3
      then have "rn_parent (nd t j) = Some q" using j n(3) [OF j(1)] by simp
      with 3 f(3) st edgeD(1) [OF ok] show ?thesis by (auto simp: stamps_ok_def)
    qed
  qed
  ultimately show "arena_good hs tic t'" using so(1) by (simp add: arena_good_def)
  have "idle_size t' = idle_size t" "busy_size t' = busy_size t" "tree_pages t' = tree_pages t"
    unfolding idle_size_def busy_size_def tree_pages_def
    by (rule tally_split [OF ok assms(2,3) split]; simp)+
  with so(3,4) n(2) show "keeps t t'" by (simp add: keeps_def)
qed

section \<open>Lookups\<close>

lemma walk_loop_lands:
  assumes "arena_good hs tic t" "spells t node (take n q) vs" "n \<le> length q" "arena t < 2 ^ 32"
    and "node = 0 \<or> rn_timestamp (nd t node) = tic"
  shows "\<exists>node' n' t' vs'. rc_walk_loop q tic node n t = Some (node', n', t') \<and> longest_held t q n'
    \<and> spells t' node' (take n' q) vs' \<and> arena_good hs tic t' \<and> keeps t t' \<and> arena t' \<le> Suc (arena t)
    \<and> (node' = 0 \<or> rn_timestamp (nd t' node') = tic)"
  using assms
proof (induction "length q - n" arbitrary: node n t vs rule: less_induct)
  case less
  have ok: "tree_ok t" using less.prems(1) by (simp add: arena_good_def)
  have node: "node < arena t" using spells_arena [OF less.prems(2) ok] .
  let ?ps = "rt_page_size t"
  show ?case
  proof (cases "n < length q")
    case False
    with less.prems(3) have "n = length q" by simp
    with less.prems descent_ends [OF ok] False show ?thesis
      by (subst rc_walk_loop.simps) (auto simp: keeps_refl)
  next
    case True
    show ?thesis
    proof (cases "map_of (rn_children (nd t node)) (take ?ps (drop n q))")
      case None
      with True less.prems descent_stops [OF ok less.prems(2,3) None] show ?thesis
        by (subst rc_walk_loop.simps) (auto simp: rt_child_lookup [OF ok node] keeps_refl)
    next
      case (Some c)
      define m where "m = align_down (match_len (rn_key (nd t c)) (drop n q)) ?ps"
      note d = descent_child [OF ok less.prems(2,3) Some m_def]
      have m: "0 < m" using d(3) tree_okD(1) [OF ok] by simp
      show ?thesis
      proof (cases "m = length (rn_key (nd t c))")
        case False
        with d(5) have short: "m < length (rn_key (nd t c))" by simp
        from split_at_nodes [OF ok d(1,2) m short less.prems(4)] obtain t1 where
          t1: "rt_split_at c m t = Some (arena t, t1)" "split_nodes t c node m t1" by blast
        note g1 = split_good [OF less.prems(1) d(1,2) less.prems(2) m short d(4) less.prems(4) t1(2)]
        note n1 = split_nodesD [OF ok d(1,2) t1(2)]
        have x: "arena t < arena t1" "rn_parent (nd t1 (arena t)) = Some node" using n1(1,3) by simp_all
        have node1: "node = 0 \<or> rn_timestamp (nd t1 node) = tic"
          using less.prems(5) split_fields(3) [OF ok d(1,2) t1(2)] node by auto
        define t2 where "t2 = stamp tic (arena t) t1"
        note g2 = stamp_good [OF g1(1) x node1, folded t2_def]
        have "spells t1 (arena t) (take n q @ take m (rn_key (nd t c))) (vs @ take m (rn_value (nd t c)))"
          using split_tree_ok(2) [OF ok d(1,2) m short d(4) less.prems(4) t1(2) less.prems(2)] .
        then have "spells t2 (arena t) (take (n + m) q) (vs @ take m (rn_value (nd t c)))"
          using g2(2) d(7) by (simp add: keeps_def)
        moreover have "rc_walk_loop q tic node n t = Some (arena t, n + m, t2)"
          using True Some t1(1) d(1) False x(1)
          by (subst rc_walk_loop.simps)
            (simp add: rt_child_lookup [OF ok node] m_def [symmetric] rn_length_def Let_def t2_def stamp_def)
        moreover have "arena t2 = Suc (arena t)" "rn_timestamp (nd t2 (arena t)) = tic"
          using n1(1) stamp_fields(2) [OF x(1)] by (simp_all add: t2_def stamp_def)
        ultimately show ?thesis using d(9) [OF False] g2 keeps_trans [OF g1(2) g2(2)] by auto
      next
        case full: True
        define t1 where "t1 = stamp tic c t"
        note g1 = stamp_good [OF less.prems(1) d(1,2) less.prems(5), folded t1_def]
        have sh: "same_shape t t1" unfolding t1_def by (rule stamp_shape [OF d(1)])
        have sp: "spells t1 c (take (n + m) q) (vs @ rn_value (nd t c))"
          using d(7,8) full same_shape_spells [OF sh] by simp
        have "length q - (n + m) < length q - n" using m True by simp
        moreover have "arena t1 < 2 ^ 32" using less.prems(4) same_shapeD(2) [OF sh] by simp
        moreover have "c = 0 \<or> rn_timestamp (nd t1 c) = tic"
          using stamp_fields(2) [OF d(1)] by (simp add: t1_def)
        ultimately obtain node' n' t' vs' where r: "rc_walk_loop q tic c (n + m) t1 = Some (node', n', t')"
          "longest_held t1 q n'" "spells t' node' (take n' q) vs'" "arena_good hs tic t'" "keeps t1 t'"
          "arena t' \<le> Suc (arena t1)" "node' = 0 \<or> rn_timestamp (nd t' node') = tic"
          using less.hyps [OF _ g1(1) sp d(6)] by blast
        have "rc_walk_loop q tic node n t = rc_walk_loop q tic c (n + m) t1"
          using True Some d(1) full
          by (subst rc_walk_loop.simps)
            (simp add: rt_child_lookup [OF ok node] m_def [symmetric] rn_length_def Let_def t1_def stamp_def)
        with r keeps_trans [OF g1(2) r(5)] keeps_longest [OF g1(2)] same_shapeD(2) [OF sh] show ?thesis
          by (intro exI [of _ node'] exI [of _ n'] exI [of _ t'] exI [of _ vs']) simp
      qed
    qed
  qed
qed

lemma peek_loop_longest:
  assumes "tree_ok t" "spells t node (take n q) vs" "n \<le> length q"
  shows "\<exists>m. rc_peek_loop q node n t = Some m \<and> longest_held t q m"
  using assms(2,3)
proof (induction "length q - n" arbitrary: node n vs rule: less_induct)
  case less
  note ok = assms(1)
  have node: "node < arena t" using spells_arena [OF less.prems(1) ok] .
  show ?case
  proof (cases "n < length q")
    case False
    with less.prems descent_ends [OF ok] show ?thesis
      by (subst rc_peek_loop.simps) auto
  next
    case True
    show ?thesis
    proof (cases "map_of (rn_children (nd t node)) (take (rt_page_size t) (drop n q))")
      case None
      with True descent_stops [OF ok less.prems None] show ?thesis
        by (subst rc_peek_loop.simps) (auto simp: rt_child_lookup [OF ok node])
    next
      case (Some c)
      define m where "m = align_down (match_len (rn_key (nd t c)) (drop n q)) (rt_page_size t)"
      note d = descent_child [OF ok less.prems Some m_def]
      have m: "0 < m" using d(3) tree_okD(1) [OF ok] by simp
      show ?thesis
      proof (cases "m = length (rn_key (nd t c))")
        case False
        with True Some d(1,9) show ?thesis
          by (subst rc_peek_loop.simps)
            (simp add: rt_child_lookup [OF ok node] m_def [symmetric] rn_length_def Let_def)
      next
        case full: True
        have "spells t c (take (n + m) q) (vs @ rn_value (nd t c))" using d(7,8) full by simp
        moreover have "length q - (n + m) < length q - n" using m True by simp
        ultimately obtain k where "rc_peek_loop q c (n + m) t = Some k" "longest_held t q k"
          using less.hyps d(6) by blast
        with True Some d(1) full show ?thesis
          by (subst rc_peek_loop.simps)
            (simp add: rt_child_lookup [OF ok node] m_def [symmetric] rn_length_def Let_def)
      qed
    qed
  qed
qed

text \<open>A lookup finds the longest held prefix and changes nothing that it holds.\<close>

lemma stamps_later: "stamps_ok clock t \<Longrightarrow> clock \<le> clock' \<Longrightarrow> stamps_ok clock' t"
  by (fastforce simp: stamps_ok_def)

lemma tree_walk_lands:
  assumes "cache_ok hs c" "arena (rc_tree c) < 2 ^ 32"
  shows "\<exists>node n c' vs. rc_tree_walk q c = Some (node, n, c') \<and> cache_ok hs c' \<and> longest_held (rc_tree c) q n
    \<and> spells (rc_tree c') node (take n q) vs \<and> keeps (rc_tree c) (rc_tree c')
    \<and> arena (rc_tree c') \<le> Suc (arena (rc_tree c))
    \<and> (node = 0 \<or> rn_timestamp (nd (rc_tree c') node) = rc_clock c')"
proof -
  let ?tic = "rc_clock c + 1"
  have g: "arena_good hs ?tic (rc_tree c)"
    using assms(1) stamps_later [of "rc_clock c" "rc_tree c" ?tic] by (auto simp: cache_ok_def arena_good_def)
  from walk_loop_lands [OF g, of radix_root 0 q "[]"] assms(2) spells_root [of "rc_tree c"]
  obtain node n t vs where w: "rc_walk_loop q ?tic radix_root 0 (rc_tree c) = Some (node, n, t)"
    "longest_held (rc_tree c) q n" "spells t node (take n q) vs" "arena_good hs ?tic t" "keeps (rc_tree c) t"
    "arena t \<le> Suc (arena (rc_tree c))" "node = 0 \<or> rn_timestamp (nd t node) = ?tic"
    by (auto simp: radix_root_def)
  moreover have "cache_ok hs (c\<lparr>rc_clock := ?tic, rc_tree := t\<rparr>)"
    using w(4,5) assms(1) by (simp add: cache_ok_def keeps_def)
  ultimately show ?thesis
    by (intro exI [of _ node] exI [of _ n] exI [of _ "c\<lparr>rc_clock := ?tic, rc_tree := t\<rparr>"] exI [of _ vs])
      (simp add: rc_tree_walk_def rc_tick_def)
qed

lemma peek_longest:
  assumes "tree_ok (rc_tree c)"
  shows "\<exists>n. rc_peek_cached_len c q = Some n \<and> longest_held (rc_tree c) q n"
  using peek_loop_longest [OF assms, of radix_root 0 q "[]"] spells_root [of "rc_tree c"]
  by (simp add: rc_peek_cached_len_def radix_root_def)

section \<open>Insertion\<close>

lemma above_arena: "above t a b \<Longrightarrow> tree_ok t \<Longrightarrow> b < arena t \<Longrightarrow> a < arena t"
  by (induction rule: above.induct) (auto dest: edgeD(1))

lemma attach_good:
  assumes "arena_good hs tic t" "spells t p kp vp" "arena t < 2 ^ 32" "attach_nodes t tic key value p t'"
    and "p = 0 \<or> rn_timestamp (nd t p) = tic"
    and key: "key \<noteq> []" "rt_page_size t dvd length key" "length value = length key"
    and fresh: "map_of (rn_children (nd t p)) (take (rt_page_size t) key) = None"
  shows "arena_good hs tic t'" "idle_size t' = idle_size t + length key" "busy_size t' = busy_size t"
    "tree_pages t' = tree_pages t + mset value"
proof -
  have ok: "tree_ok t" and lk: "locks_ok hs t" and st: "stamps_ok tic t"
    using assms(1) by (simp_all add: arena_good_def)
  have p: "p < arena t" using spells_arena [OF assms(2) ok] .
  note n = attach_nodesD [OF p assms(4)]
  note aa = attach_above [OF ok p assms(4)]
  have f: "rn_ref_count (nd t' j) = rn_ref_count (nd t j)" "rn_timestamp (nd t' j) = rn_timestamp (nd t j)"
    if "j < arena t" for j
    using assms(4) that by (cases "j = p"; auto simp: attach_nodes_def)+
  have x: "rn_ref_count (nd t' (arena t)) = 0" "rn_timestamp (nd t' (arena t)) = tic"
    using assms(4) by (simp_all add: attach_nodes_def node_new_def)
  have hs: "h < arena t" if "h \<in> set hs" for h
    using lk that linked_arena [OF ok] by (auto simp: locks_ok_def)
  have lnk: "linked t' j \<longleftrightarrow> j = arena t \<or> linked t j" for j
    using n(1,3) by (auto simp: linked_def)
  have "locks_ok hs t'"
    unfolding locks_ok_def
  proof (intro conjI ballI allI impI)
    fix h assume "h \<in> set hs"
    with lk show "h = 0 \<or> linked t' h" by (auto simp: locks_ok_def lnk)
  next
    fix j assume "linked t' j"
    then have "j = arena t \<or> linked t j" by (simp add: lnk)
    then consider "j = arena t" | "j < arena t" "linked t j" by (auto simp: linked_def)
    then show "rn_ref_count (nd t' j) = length (filter (above t' j) hs)"
    proof cases
      case 1
      have "\<not> above t' (arena t) h" if "h \<in> set hs" for h
        using above_arena [OF _ ok hs [OF that], of "arena t"] aa(1) [OF hs [OF that]] by blast
      with 1 x(1) show ?thesis by (simp add: filter_empty_conv)
    next
      case 2
      have "filter (above t' j) hs = filter (above t j) hs"
        by (rule filter_cong) (use aa(1) hs in auto)
      with 2 f(1) lk show ?thesis by (simp add: locks_ok_def)
    qed
  qed
  moreover have "stamps_ok tic t'"
    unfolding stamps_ok_def
  proof (intro allI impI)
    fix j q assume j: "j < arena t'" "rn_parent (nd t' j) = Some q"
    show "rn_timestamp (nd t' j) \<le> tic \<and> (q \<noteq> 0 \<longrightarrow> rn_timestamp (nd t' j) \<le> rn_timestamp (nd t' q))"
    proof (cases "j = arena t")
      case True
      then show ?thesis using j n(3) [OF j(1)] x(2) f(2) [OF p] assms(5) by auto
    next
      case False
      then have "j < arena t" "rn_parent (nd t j) = Some q" using j n(1) n(3) [OF j(1)] by simp_all
      with f(2) st edgeD(1) [OF ok this] show ?thesis by (auto simp: stamps_ok_def)
    qed
  qed
  ultimately show "arena_good hs tic t'"
    using attach_tree_ok(1) [OF ok assms(2,3,4) key fresh] by (simp add: arena_good_def)
  show "idle_size t' = idle_size t + length key" "busy_size t' = busy_size t" "tree_pages t' = tree_pages t + mset value"
    unfolding idle_size_def busy_size_def tree_pages_def by (simp_all add: tally_attach [OF p assms(4)])
qed

lemma no_child_past_longest:
  assumes "tree_ok t" "spells t p (take n q) vs" "longest_held t q n"
  shows "map_of (rn_children (nd t p)) (take (rt_page_size t) (drop n q)) = None"
proof (rule ccontr)
  have n: "n \<le> length q" using assms(3) by (simp add: longest_held_def)
  assume "map_of (rn_children (nd t p)) (take (rt_page_size t) (drop n q)) \<noteq> None"
  then obtain c where c: "map_of (rn_children (nd t p)) (take (rt_page_size t) (drop n q)) = Some c" by blast
  define m where "m = align_down (match_len (rn_key (nd t c)) (drop n q)) (rt_page_size t)"
  note d = descent_child [OF assms(1,2) n c m_def]
  have "0 < m" using d(3) tree_okD(1) [OF assms(1)] by simp
  show False
  proof (cases "m = length (rn_key (nd t c))")
    case True
    then have "held t (take (n + m) q) (vs @ rn_value (nd t c))"
      using spells_held [OF assms(1) d(8)] d(7) by simp
    with assms(3) d(6) \<open>0 < m\<close> show False by (auto simp: longest_held_def)
  next
    case False
    from longest_held_unique [OF assms(3) d(9) [OF False]] \<open>0 < m\<close> show False by simp
  qed
qed

end
