(* ===== verification/Radix_Lock.thy ===== *)
theory Radix_Lock
  imports Radix_Lookup
begin

text \<open>
  Insertion, locking and unlocking in the prefix cache, each as one change of what is held, of the sizes
  and of the locks.
\<close>

lemma held_take_unique:
  assumes "tree_ok t" "spells t i (take n q) vs" "n \<le> length q"
  shows "held t (take n q) ws \<longleftrightarrow> ws = vs"
  using held_unique [OF assms(1)] spells_held [OF assms(1,2)] by blast

lemma insert_lands:
  assumes "cache_ok hs c" "arena (rc_tree c) + 2 \<le> 2 ^ 32" "length ids = length idx"
    and "n = align_down (length ids) (rc_page_size c)"
  shows "\<exists>m i c' vs. rc_insert_prefix ids idx c = Some (\<lparr>ir_cached_len = m, ir_node = i, ir_inserted_len = n\<rparr>, c')
    \<and> cache_ok hs c' \<and> longest_held (rc_tree c) (take n ids) m \<and> held (rc_tree c) (take m ids) vs
    \<and> spells (rc_tree c') i (take n ids) (vs @ drop m (take n idx))
    \<and> (\<forall>j ks ws. spells (rc_tree c) j ks ws \<longrightarrow> spells (rc_tree c') j ks ws)
    \<and> (\<forall>ts ws. held (rc_tree c') ts ws \<longleftrightarrow> held (rc_tree c) ts ws
        \<or> rc_page_size c dvd length ts \<and> prefix ts (take n ids) \<and> ws = take (length ts) (vs @ drop m (take n idx)))
    \<and> rc_page_size c' = rc_page_size c
    \<and> tree_pages (rc_tree c') = tree_pages (rc_tree c) + mset (drop m (take n idx))
    \<and> rc_total_size c' = rc_total_size c + (n - m) \<and> arena (rc_tree c') \<le> arena (rc_tree c) + 2"
proof -
  let ?q = "take n ids" and ?idx = "take n idx"
  have n: "n \<le> length ids" "rc_page_size c dvd n" unfolding assms(4) by (simp_all add: align_down_le align_down_dvd)
  have ndef: "align_down (length idx) (rc_page_size c) = n" using assms(3,4) by simp
  have lq: "length ?q = n" "length ?idx = n" using n(1) assms(3) by simp_all
  have "arena (rc_tree c) < 2 ^ 32" using assms(2) by simp
  from tree_walk_lands [OF assms(1) this, of ?q] obtain node m c1 vs where w:
    "rc_tree_walk ?q c = Some (node, m, c1)" "cache_ok hs c1" "longest_held (rc_tree c) ?q m"
    "spells (rc_tree c1) node (take m ?q) vs" "keeps (rc_tree c) (rc_tree c1)"
    "arena (rc_tree c1) \<le> Suc (arena (rc_tree c))" "node = 0 \<or> rn_timestamp (nd (rc_tree c1) node) = rc_clock c1"
    by blast
  let ?t = "rc_tree c1"
  have ok: "tree_ok ?t" and g: "arena_good hs (rc_clock c1) ?t" using w(2) by (simp_all add: cache_ok_def arena_good_def)
  have ps: "rt_page_size ?t = rc_page_size c" using w(5) by (simp add: keeps_def rc_page_size_def)
  have m: "m \<le> n" "take m ?q = take m ids" using w(3) lq by (simp_all add: longest_held_def min_absorb1)
  have al: "rc_page_size c dvd m" using spells_lengths [OF w(4) ok] m n(1) ps by (simp add: min_absorb2)
  have vs: "held (rc_tree c) (take m ids) vs" using spells_held [OF ok w(4)] w(5) m(2) by (simp add: keeps_def)
  have lvs: "length vs = m" using spells_lengths [OF w(4) ok] m n(1) by simp
  have same: "held (rc_tree c1) ts ws = held (rc_tree c) ts ws" for ts ws using w(5) by (simp add: keeps_def)
  show ?thesis
  proof (cases "m = n")
    case True
    have whole: "spells ?t node ?q (vs @ drop m ?idx)" using w(4) True lq by simp
    have known: "held (rc_tree c) ts ws" if ts: "rc_page_size c dvd length ts" "prefix ts ?q"
      "ws = take (length ts) (vs @ drop m ?idx)" for ts ws
    proof -
      have "held ?t ts ws"
        unfolding held_def ps using ts whole by blast
      then show ?thesis by (simp add: same)
    qed
    have "rc_insert_prefix ids idx c = Some (\<lparr>ir_cached_len = m, ir_node = node, ir_inserted_len = n\<rparr>, c1)"
      using w(1) True assms(3) by (simp add: rc_insert_prefix_def Let_def ndef)
    moreover have "rc_total_size c1 = rc_total_size c"
      using w(2,5) assms(1) by (simp add: rc_total_size_def cache_ok_def keeps_def)
    ultimately show ?thesis
      using w(2,3,5,6) vs whole known True lq ps
      by (intro exI [of _ m] exI [of _ node] exI [of _ c1] exI [of _ vs]) (auto simp: keeps_def rc_page_size_def)
  next
    case False
    let ?key = "drop m ?q" and ?val = "drop m ?idx"
    from False m have lt: "m < n" by simp
    have room: "arena ?t < 2 ^ 32" using w(6) assms(2) by simp
    have p: "node < arena ?t" using spells_arena [OF w(4) ok] .
    have key: "?key \<noteq> []" "rt_page_size ?t dvd length ?key" "length ?val = length ?key" "length ?key = length ?val"
      using lt lq al n(2) ps by (auto simp: dvd_diff_nat)
    from attach_at_nodes [OF room p key(4)] obtain t2 where t2:
      "rt_attach (rc_clock c1) ?key ?val node ?t = Some (arena ?t, t2)"
      "attach_nodes ?t (rc_clock c1) ?key ?val node t2" by blast
    have "longest_held ?t ?q m" using w(3) keeps_longest [OF w(5)] by simp
    note fresh = no_child_past_longest [OF ok w(4) this]
    note ag = attach_good [OF g w(4) room t2(2) w(7) key(1-3) fresh]
    note at = attach_tree_ok [OF ok w(4) room t2(2) key(1-3) fresh]
    define c2 where "c2 = c1\<lparr>rc_tree := t2, rc_evictable_size := rc_evictable_size c1 + (n - m)\<rparr>"
    have nx: "rt_node t2 (arena ?t) = Some (nd t2 (arena ?t))" "rn_length (nd t2 (arena ?t)) = n - m"
      using t2(2) lq by (simp_all add: attach_nodes_def node_new_def rn_length_def)
    from t2(1) obtain ta tb where steps: "rt_alloc (rc_clock c1) ?t = (arena ?t, ta)"
      "rt_set_key_value (arena ?t) ?key ?val ta = Some tb" "rt_set_parent (arena ?t) node tb = Some t2"
      unfolding rt_attach_def by (auto simp: Let_def bind_eq_Some_conv split: prod.splits)
    have "rc_insert_prefix ids idx c = Some (\<lparr>ir_cached_len = m, ir_node = arena ?t, ir_inserted_len = n\<rparr>, c2)"
      using w(1) False assms(3) steps nx
      by (simp add: rc_insert_prefix_def Let_def ndef c2_def del: rt_node_some)
    moreover have "cache_ok hs c2"
      using ag w(2) lq by (simp add: cache_ok_def c2_def)
    moreover have "rc_total_size c2 = rc_total_size c + (n - m)"
      using w(2,5) assms(1) by (simp add: rc_total_size_def cache_ok_def keeps_def c2_def)
    moreover have "spells t2 (arena ?t) ?q (vs @ ?val)"
      using at(2) append_take_drop_id [of m ?q] by simp
    moreover have "held t2 ts ws \<longleftrightarrow> held (rc_tree c) ts ws
        \<or> rc_page_size c dvd length ts \<and> prefix ts ?q \<and> ws = take (length ts) (vs @ ?val)" for ts ws
      using at(5) [of ts ws] append_take_drop_id [of m ?q] by (simp only: same ps)
    moreover have "arena t2 \<le> arena (rc_tree c) + 2"
      using attach_nodesD(1) [OF p t2(2)] w(6) by simp
    moreover have "rt_page_size t2 = rc_page_size c" using attach_nodesD(2) [OF p t2(2)] ps by simp
    moreover have "spells t2 j ks ws" if "spells (rc_tree c) j ks ws" for j ks ws
      using at(3) w(5) that by (simp add: keeps_def)
    ultimately show ?thesis
      using w(3,5) vs ag(4)
      by (intro exI [of _ m] exI [of _ "arena ?t"] exI [of _ c2] exI [of _ vs])
        (simp add: c2_def rc_page_size_def keeps_def)
  qed
qed

section \<open>Locking and unlocking\<close>

definition acct_ok :: "radix_cache \<Rightarrow> bool" where
  "acct_ok c \<longleftrightarrow> rc_evictable_size c = idle_size (rc_tree c) \<and> rc_protected_size c = busy_size (rc_tree c)"

definition set_ref :: "node_id \<Rightarrow> nat \<Rightarrow> radix_tree \<Rightarrow> radix_tree" where
  "set_ref i r t = t\<lparr>rt_nodes := (rt_nodes t)[i := (nd t i)\<lparr>rn_ref_count := r\<rparr>]\<rparr>"

lemma set_ref_shape: "i < arena t \<Longrightarrow> same_shape t (set_ref i r t)"
  unfolding set_ref_def by (rule same_shape_update) (simp_all add: shape_def)

lemma set_ref_fields:
  assumes "i < arena t"
  shows "rn_ref_count (nd (set_ref i r t) j) = (if j = i then r else rn_ref_count (nd t j))"
    "rn_timestamp (nd (set_ref i r t) j) = rn_timestamp (nd t j)"
  using assms by (auto simp: set_ref_def nth_list_update)

lemma set_ref_sizes:
  assumes "linked t i"
  shows "idle_size (set_ref i r t) + (if rn_ref_count (nd t i) = 0 then length (rn_key (nd t i)) else 0) =
      idle_size t + (if r = 0 then length (rn_key (nd t i)) else 0)"
    "busy_size (set_ref i r t) + (if rn_ref_count (nd t i) = 0 then 0 else length (rn_key (nd t i))) =
      busy_size t + (if r = 0 then 0 else length (rn_key (nd t i)))"
proof -
  have i: "i < arena t" "rn_parent (nd t i) \<noteq> None" using assms by (simp_all add: linked_def)
  note r = tally_ref [OF set_ref_shape [OF i(1), of r] i, unfolded set_ref_fields [OF i(1)]]
  from r [of "\<lambda>k v r. if r = 0 then length k else 0"]
  show "idle_size (set_ref i r t) + (if rn_ref_count (nd t i) = 0 then length (rn_key (nd t i)) else 0) =
      idle_size t + (if r = 0 then length (rn_key (nd t i)) else 0)"
    by (simp add: idle_size_def)
  from r [of "\<lambda>k v r. if r = 0 then 0 else length k"]
  show "busy_size (set_ref i r t) + (if rn_ref_count (nd t i) = 0 then 0 else length (rn_key (nd t i))) =
      busy_size t + (if r = 0 then 0 else length (rn_key (nd t i)))"
    by (simp add: busy_size_def)
qed

text \<open>The effect of a walk to the root that changes the lock depths it meets.\<close>

definition refs_moved :: "(nat \<Rightarrow> nat) \<Rightarrow> node_id \<Rightarrow> radix_cache \<Rightarrow> radix_cache \<Rightarrow> bool" where
  "refs_moved f cur c c' \<longleftrightarrow> same_shape (rc_tree c) (rc_tree c') \<and> acct_ok c' \<and> rc_clock c' = rc_clock c
     \<and> (\<forall>i < arena (rc_tree c). rn_timestamp (nd (rc_tree c') i) = rn_timestamp (nd (rc_tree c) i)
          \<and> rn_ref_count (nd (rc_tree c') i) =
            (if linked (rc_tree c) i \<and> above (rc_tree c) i cur then f (rn_ref_count (nd (rc_tree c) i))
             else rn_ref_count (nd (rc_tree c) i)))"

lemma not_above_parent:
  assumes "tree_ok t" "i < arena t" "rn_parent (nd t i) = Some p"
  shows "\<not> above t i p"
proof
  assume "above t i p"
  moreover have "above t p i" using assms(2,3) by (blast intro: above.intros)
  moreover obtain ks vs where "spells t i ks vs" using edgeD(6) [OF assms] by blast
  ultimately have "i = p" using above_antisym [OF assms(1)] by blast
  with parent_differs [OF assms] show False by simp
qed

lemma refs_moved_step:
  assumes ok: "tree_ok (rc_tree c)" and i: "i < arena (rc_tree c)" "rn_parent (nd (rc_tree c) i) = Some p"
    and c1: "rc_tree c1 = set_ref i (f (rn_ref_count (nd (rc_tree c) i))) (rc_tree c)" "rc_clock c1 = rc_clock c"
    and rest: "refs_moved f p c1 c'"
  shows "refs_moved f i c c'"
proof -
  let ?t = "rc_tree c" and ?t1 = "rc_tree c1"
  have sh: "same_shape ?t ?t1" unfolding c1(1) by (rule set_ref_shape [OF i(1)])
  have up: "above ?t j i \<longleftrightarrow> j = i \<or> above ?t j p" for j
    using i above_step [of ?t j p i] by (auto elim: above_parentD intro: above_refl)
  have lnk: "linked ?t i" using i by (simp add: linked_def)
  have f1: "rn_ref_count (nd ?t1 j) = (if j = i then f (rn_ref_count (nd ?t i)) else rn_ref_count (nd ?t j))"
    "rn_timestamp (nd ?t1 j) = rn_timestamp (nd ?t j)" for j
    unfolding c1(1) by (simp_all add: set_ref_fields [OF i(1)])
  show ?thesis
    using rest not_above_parent [OF ok i] same_shape_trans [OF sh] lnk c1(2)
    unfolding refs_moved_def
    by (auto simp: same_shapeD(2) [OF sh] same_shape_linked [OF sh] same_shape_above [OF sh] up f1)
qed

lemma nothing_above_root:
  assumes "tree_ok t"
  shows "\<not> (linked t i \<and> above t i 0)"
proof
  assume i: "linked t i \<and> above t i 0"
  with tree_okD(4) [OF assms] have "i \<noteq> 0" by (intro notI) (simp add: linked_def)
  with i obtain p where "rn_parent (nd t 0) = Some p" by (auto elim: above_parentD)
  with tree_okD(4) [OF assms] show False by simp
qed

lemma refs_moved_root:
  assumes "tree_ok (rc_tree c)" "acct_ok c"
  shows "refs_moved f 0 c c"
  using assms(2) nothing_above_root [OF assms(1)] by (auto simp: refs_moved_def)

lemma lock_lands:
  "spells (rc_tree c) cur ks vs \<Longrightarrow> tree_ok (rc_tree c) \<Longrightarrow> acct_ok c
    \<Longrightarrow> \<exists>c'. rc_lock cur c = Some c' \<and> refs_moved Suc cur c c'"
proof (induction "length ks" arbitrary: c cur ks vs rule: less_induct)
  case less
  let ?t = "rc_tree c" and ?n = "nd (rc_tree c) cur"
  note ok = less.prems(2)
  show ?case
  proof (cases "cur = 0")
    case True
    have "rt_node ?t 0 = Some (nd ?t 0)" using tree_okD(2) [OF ok] by (rule rt_node_some)
    then have "rc_lock cur c = Some c"
      using True tree_okD(4) [OF ok] by (subst rc_lock.simps) (simp add: rn_is_root_def)
    with refs_moved_root [OF ok less.prems(3)] True show ?thesis by blast
  next
    case False
    with less.prems(1) obtain p kp vp where p: "spells ?t p kp vp" "cur < arena ?t" "rn_parent ?n = Some p"
      "ks = kp @ rn_key ?n" by (auto elim: spells_parent)
    then have lnk: "linked ?t cur" by (simp add: linked_def)
    define c1 where "c1 = (if rn_ref_count ?n = 0
      then c\<lparr>rc_evictable_size := rc_evictable_size c - rn_length ?n, rc_protected_size := rc_protected_size c + rn_length ?n\<rparr>
      else c)"
    define c2 where "c2 = c1\<lparr>rc_tree := set_ref cur (Suc (rn_ref_count ?n)) ?t\<rparr>"
    have sh: "same_shape ?t (rc_tree c2)" unfolding c2_def by (simp add: set_ref_shape [OF p(2)])
    note sz = set_ref_sizes [OF lnk, of "Suc (rn_ref_count ?n)"]
    have "acct_ok c2"
      using less.prems(3) sz by (auto simp: acct_ok_def c2_def c1_def rn_length_def)
    moreover have "spells (rc_tree c2) p kp vp" "tree_ok (rc_tree c2)"
      using p(1) ok same_shape_spells [OF sh] same_shape_tree_ok [OF sh] by simp_all
    moreover have "length kp < length ks" using p(4) edgeD(2) [OF ok p(2,3)] by simp
    ultimately obtain c' where c': "rc_lock p c2 = Some c'" "refs_moved Suc p c2 c'" using less.hyps by blast
    have "rn_ref_count ?n = 0 \<Longrightarrow> rn_length ?n \<le> rc_evictable_size c"
      using sz(1) less.prems(3) by (simp add: acct_ok_def rn_length_def)
    then have "rc_lock cur c = rc_lock p c2"
      using p(2,3) by (subst rc_lock.simps) (auto simp: rn_is_root_def c2_def c1_def set_ref_def Let_def)
    moreover have "refs_moved Suc cur c c'"
      by (rule refs_moved_step [OF ok p(2,3) _ _ c'(2)]) (simp_all add: c2_def c1_def)
    ultimately show ?thesis using c'(1) by auto
  qed
qed

lemma unlock_lands:
  "spells (rc_tree c) cur ks vs \<Longrightarrow> tree_ok (rc_tree c) \<Longrightarrow> acct_ok c
    \<Longrightarrow> \<forall>i. linked (rc_tree c) i \<longrightarrow> above (rc_tree c) i cur \<longrightarrow> 0 < rn_ref_count (nd (rc_tree c) i)
    \<Longrightarrow> \<exists>c'. rc_unlock cur c = Some c' \<and> refs_moved (\<lambda>r. r - 1) cur c c'"
proof (induction "length ks" arbitrary: c cur ks vs rule: less_induct)
  case less
  let ?t = "rc_tree c" and ?n = "nd (rc_tree c) cur"
  note ok = less.prems(2)
  show ?case
  proof (cases "cur = 0")
    case True
    have "rt_node ?t 0 = Some (nd ?t 0)" using tree_okD(2) [OF ok] by (rule rt_node_some)
    then have "rc_unlock cur c = Some c"
      using True tree_okD(4) [OF ok] by (subst rc_unlock.simps) (simp add: rn_is_root_def)
    with refs_moved_root [OF ok less.prems(3)] True show ?thesis by blast
  next
    case False
    with less.prems(1) obtain p kp vp where p: "spells ?t p kp vp" "cur < arena ?t" "rn_parent ?n = Some p"
      "ks = kp @ rn_key ?n" by (auto elim: spells_parent)
    then have lnk: "linked ?t cur" by (simp add: linked_def)
    have pos: "0 < rn_ref_count ?n" using less.prems(4) lnk by (blast intro: above_refl)
    let ?t2 = "set_ref cur (rn_ref_count ?n - 1) ?t"
    define c2 where "c2 = (if rn_ref_count ?n - 1 = 0
      then c\<lparr>rc_tree := ?t2, rc_evictable_size := rc_evictable_size c + rn_length ?n, rc_protected_size := rc_protected_size c - rn_length ?n\<rparr>
      else c\<lparr>rc_tree := ?t2\<rparr>)"
    have t2: "rc_tree c2 = ?t2" by (simp add: c2_def)
    have sh: "same_shape ?t (rc_tree c2)" unfolding t2 by (simp add: set_ref_shape [OF p(2)])
    note sz = set_ref_sizes [OF lnk, of "rn_ref_count ?n - 1"]
    have "acct_ok c2"
      using less.prems(3) sz pos by (auto simp: acct_ok_def c2_def rn_length_def)
    moreover have "spells (rc_tree c2) p kp vp" "tree_ok (rc_tree c2)"
      using p(1) ok same_shape_spells [OF sh] same_shape_tree_ok [OF sh] by simp_all
    moreover have "length kp < length ks" using p(4) edgeD(2) [OF ok p(2,3)] by simp
    moreover have "0 < rn_ref_count (nd (rc_tree c2) i)" if i: "linked (rc_tree c2) i" "above (rc_tree c2) i p" for i
    proof -
      have i': "linked ?t i" "above ?t i p"
        using i by (simp_all add: same_shape_linked [OF sh] same_shape_above [OF sh])
      then have "i \<noteq> cur" using not_above_parent [OF ok p(2,3)] by blast
      with i' less.prems(4) p(2,3) show ?thesis
        unfolding t2 by (simp add: set_ref_fields [OF p(2)]) (blast intro: above_step)
    qed
    ultimately obtain c' where c': "rc_unlock p c2 = Some c'" "refs_moved (\<lambda>r. r - 1) p c2 c'" using less.hyps by blast
    have "rn_ref_count ?n - 1 = 0 \<Longrightarrow> rn_length ?n \<le> rc_protected_size c"
      using sz(2) less.prems(3) pos by (simp add: acct_ok_def rn_length_def)
    then have "rc_unlock cur c = rc_unlock p c2"
      using p(2,3) pos by (subst rc_unlock.simps) (auto simp: rn_is_root_def c2_def set_ref_def Let_def)
    moreover have "refs_moved (\<lambda>r. r - 1) cur c c'"
      by (rule refs_moved_step [OF ok p(2,3) _ _ c'(2)]) (simp_all add: c2_def)
    ultimately show ?thesis using c'(1) by auto
  qed
qed

text \<open>At the level of the cache: one more entry among the locks held, or one less.\<close>

lemma refs_moved_keeps:
  assumes "refs_moved f cur c c'" "tree_ok (rc_tree c)"
  shows "tree_ok (rc_tree c')" "spells (rc_tree c') i ks vs \<longleftrightarrow> spells (rc_tree c) i ks vs"
    "held (rc_tree c') ts ws \<longleftrightarrow> held (rc_tree c) ts ws" "arena (rc_tree c') = arena (rc_tree c)"
    "rc_page_size c' = rc_page_size c" "tree_pages (rc_tree c') = tree_pages (rc_tree c)"
proof -
  have sh: "same_shape (rc_tree c) (rc_tree c')" using assms(1) by (simp add: refs_moved_def)
  show "tree_ok (rc_tree c')" "spells (rc_tree c') i ks vs \<longleftrightarrow> spells (rc_tree c) i ks vs"
    "held (rc_tree c') ts ws \<longleftrightarrow> held (rc_tree c) ts ws" "arena (rc_tree c') = arena (rc_tree c)"
    "rc_page_size c' = rc_page_size c"
    using assms(2) by (simp_all add: same_shape_tree_ok [OF sh] same_shape_spells [OF sh] same_shape_held [OF sh]
        same_shapeD [OF sh] rc_page_size_def)
  show "tree_pages (rc_tree c') = tree_pages (rc_tree c)"
    unfolding tree_pages_def tally_def same_shapeD(2) [OF sh]
    by (intro sum.cong) (simp_all add: same_shapeD [OF sh])
qed

lemma refs_moved_stamps:
  assumes "refs_moved f cur c c'" "stamps_ok (rc_clock c) (rc_tree c)" "tree_ok (rc_tree c)"
  shows "stamps_ok (rc_clock c') (rc_tree c')"
proof -
  have sh: "same_shape (rc_tree c) (rc_tree c')" using assms(1) by (simp add: refs_moved_def)
  show ?thesis
    unfolding stamps_ok_def
  proof (intro allI impI)
    fix i p assume i: "i < arena (rc_tree c')" "rn_parent (nd (rc_tree c') i) = Some p"
    then have i': "i < arena (rc_tree c)" "rn_parent (nd (rc_tree c) i) = Some p"
      using same_shapeD [OF sh] by simp_all
    with edgeD(1) [OF assms(3) i'] assms(1,2)
    show "rn_timestamp (nd (rc_tree c') i) \<le> rc_clock c' \<and>
        (p \<noteq> 0 \<longrightarrow> rn_timestamp (nd (rc_tree c') i) \<le> rn_timestamp (nd (rc_tree c') p))"
      by (auto simp: refs_moved_def stamps_ok_def)
  qed
qed

lemma cache_okD:
  assumes "cache_ok hs c"
  shows "tree_ok (rc_tree c)" "acct_ok c" "locks_ok hs (rc_tree c)" "stamps_ok (rc_clock c) (rc_tree c)"
  using assms by (simp_all add: cache_ok_def arena_good_def acct_ok_def)

lemma cache_okI:
  "tree_ok (rc_tree c) \<Longrightarrow> acct_ok c \<Longrightarrow> locks_ok hs (rc_tree c) \<Longrightarrow> stamps_ok (rc_clock c) (rc_tree c) \<Longrightarrow> cache_ok hs c"
  by (simp add: cache_ok_def arena_good_def acct_ok_def)

lemma lock_ok:
  assumes "cache_ok hs c" "spells (rc_tree c) h ks vs"
  shows "\<exists>c'. rc_lock h c = Some c' \<and> cache_ok (h # hs) c' \<and> refs_moved Suc h c c'"
proof -
  note ok = cache_okD [OF assms(1)]
  from lock_lands [OF assms(2) ok(1,2)] obtain c' where c': "rc_lock h c = Some c'" "refs_moved Suc h c c'" by blast
  have sh: "same_shape (rc_tree c) (rc_tree c')" using c'(2) by (simp add: refs_moved_def)
  have ab: "above (rc_tree c') i = above (rc_tree c) i" for i using same_shape_above [OF sh] by blast
  have "locks_ok (h # hs) (rc_tree c')"
    unfolding locks_ok_def
  proof (intro conjI ballI allI impI)
    fix g assume "g \<in> set (h # hs)"
    with ok(3) spells_linked [OF assms(2)] show "g = 0 \<or> linked (rc_tree c') g"
      by (auto simp: locks_ok_def same_shape_linked [OF sh])
  next
    fix i assume "linked (rc_tree c') i"
    then have "linked (rc_tree c) i" by (simp add: same_shape_linked [OF sh])
    with ok(3) c'(2) show "rn_ref_count (nd (rc_tree c') i) = length (filter (above (rc_tree c') i) (h # hs))"
      by (auto simp: locks_ok_def refs_moved_def linked_def ab)
  qed
  with refs_moved_keeps(1) [OF c'(2) ok(1)] refs_moved_stamps [OF c'(2) ok(4,1)] c' show ?thesis
    by (auto intro!: cache_okI simp: refs_moved_def)
qed

lemma unlock_ok:
  assumes "cache_ok hs c" "h \<in> set hs"
  shows "\<exists>c'. rc_unlock h c = Some c' \<and> cache_ok (remove1 h hs) c' \<and> refs_moved (\<lambda>r. r - 1) h c c'"
proof -
  note ok = cache_okD [OF assms(1)]
  have "h = 0 \<or> linked (rc_tree c) h" using ok(3) assms(2) by (auto simp: locks_ok_def)
  from linked_path [OF ok(1) this] obtain ks vs where sp: "spells (rc_tree c) h ks vs" by blast
  have "0 < rn_ref_count (nd (rc_tree c) i)" if "linked (rc_tree c) i" "above (rc_tree c) i h" for i
    using ok(3) that assms(2) by (auto simp: locks_ok_def filter_empty_conv)
  with unlock_lands [OF sp ok(1,2)] obtain c' where c': "rc_unlock h c = Some c'" "refs_moved (\<lambda>r. r - 1) h c c'" by blast
  have sh: "same_shape (rc_tree c) (rc_tree c')" using c'(2) by (simp add: refs_moved_def)
  have ab: "above (rc_tree c') i = above (rc_tree c) i" for i using same_shape_above [OF sh] by blast
  have filt: "length (filter P (remove1 h hs)) = (if P h then length (filter P hs) - 1 else length (filter P hs))" for P
    using assms(2) by (simp add: filter_remove1 length_remove1)
  have "locks_ok (remove1 h hs) (rc_tree c')"
    unfolding locks_ok_def
  proof (intro conjI ballI allI impI)
    fix g assume "g \<in> set (remove1 h hs)"
    then have "g \<in> set hs" using set_remove1_subset by fast
    with ok(3) show "g = 0 \<or> linked (rc_tree c') g" by (simp add: locks_ok_def same_shape_linked [OF sh])
  next
    fix i assume "linked (rc_tree c') i"
    then have "linked (rc_tree c) i" by (simp add: same_shape_linked [OF sh])
    with ok(3) c'(2) show "rn_ref_count (nd (rc_tree c') i) = length (filter (above (rc_tree c') i) (remove1 h hs))"
      by (auto simp: locks_ok_def refs_moved_def linked_def ab filt)
  qed
  with refs_moved_keeps(1) [OF c'(2) ok(1)] refs_moved_stamps [OF c'(2) ok(4,1)] c' show ?thesis
    by (auto intro!: cache_okI simp: refs_moved_def)
qed

end
