(* ===== verification/Radix_Evict.thy ===== *)
theory Radix_Evict
  imports Radix_Lock
begin

text \<open>
  Eviction from the prefix cache: the heap always holds exactly the unlocked leaves, so the loop frees what
  it was asked for, oldest first, and never a locked node.
\<close>

section \<open>Eviction\<close>

lemma unlink_good:
  assumes "arena_good hs clock t" and i: "i < arena t" "rn_parent (nd t i) = Some p"
    and leaf: "rn_children (nd t i) = []" "rn_ref_count (nd t i) = 0" and un: "unlink_nodes t i p t'"
  shows "arena_good hs clock t'" "idle_size t = idle_size t' + length (rn_key (nd t i))" "busy_size t = busy_size t'"
    "tree_pages t = tree_pages t' + mset (rn_value (nd t i))"
proof -
  have ok: "tree_ok t" and lk: "locks_ok hs t" and st: "stamps_ok clock t"
    using assms(1) by (simp_all add: arena_good_def)
  note n = unlink_nodesD [OF ok i un]
  note u = unlink_tree_ok [OF ok i leaf(1) un]
  have f: "rn_ref_count (nd t' j) = rn_ref_count (nd t j)" "rn_timestamp (nd t' j) = rn_timestamp (nd t j)"
    if "j < arena t" for j
    using un that by (cases "j = p"; cases "j = i"; auto simp: unlink_nodes_def)+
  have lnk: "linked t' j \<longleftrightarrow> linked t j \<and> j \<noteq> i" for j
    using n(1,3) by (auto simp: linked_def split: if_splits)
  have free: "h \<noteq> i" if "h \<in> set hs" for h
  proof
    assume "h = i"
    moreover have "filter (above t i) hs = []" using lk leaf(2) i by (simp add: locks_ok_def linked_def)
    ultimately show False using that above_refl [of t i] by (auto simp: filter_empty_conv)
  qed
  have "locks_ok hs t'"
    unfolding locks_ok_def
  proof (intro conjI ballI allI impI)
    fix h assume "h \<in> set hs"
    with lk free show "h = 0 \<or> linked t' h" by (auto simp: locks_ok_def lnk)
  next
    fix j assume j: "linked t' j"
    have "filter (above t' j) hs = filter (above t j) hs"
      by (rule filter_cong) (use u(3) free in auto)
    moreover have "linked t j" using j lnk [of j] by simp
    moreover have "j < arena t" using calculation(2) by (simp add: linked_def)
    ultimately show "rn_ref_count (nd t' j) = length (filter (above t' j) hs)"
      using lk f(1) by (simp add: locks_ok_def)
  qed
  moreover have "stamps_ok clock t'"
    unfolding stamps_ok_def
  proof (intro allI impI)
    fix j q assume j: "j < arena t'" "rn_parent (nd t' j) = Some q"
    then have j': "j < arena t" "rn_parent (nd t j) = Some q" using n(1,3) by (simp_all split: if_splits)
    with edgeD(1) [OF ok j'] st f
    show "rn_timestamp (nd t' j) \<le> clock \<and> (q \<noteq> 0 \<longrightarrow> rn_timestamp (nd t' j) \<le> rn_timestamp (nd t' q))"
      by (auto simp: stamps_ok_def)
  qed
  ultimately show "arena_good hs clock t'" using u(1) by (simp add: arena_good_def)
  show "idle_size t = idle_size t' + length (rn_key (nd t i))" "busy_size t = busy_size t'"
    "tree_pages t = tree_pages t' + mset (rn_value (nd t i))"
    unfolding idle_size_def busy_size_def tree_pages_def using leaf(2) by (simp_all add: tally_unlink [OF ok i un])
qed

text \<open>Below every linked node there is a leaf; below an unlocked one, an unlocked leaf.\<close>

lemma leaf_below:
  assumes "tree_ok t"
  shows "linked t j \<Longrightarrow> \<exists>d. above t j d \<and> linked t d \<and> rn_children (nd t d) = []"
proof (induction "card {e. linked t e \<and> above t j e}" arbitrary: j rule: less_induct)
  case less
  show ?case
  proof (cases "rn_children (nd t j) = []")
    case True
    with less.prems show ?thesis by (blast intro: above_refl)
  next
    case False
    then obtain c where "c \<in> set (map snd (rn_children (nd t j)))" by (cases "rn_children (nd t j)") auto
    then have c: "c < arena t" "rn_parent (nd t c) = Some j"
      using children_set(1) [OF assms, of j] less.prems by (auto simp: linked_def)
    have jc: "above t j c" using c by (blast intro: above.intros)
    have "j \<notin> {e. linked t e \<and> above t c e}"
    proof
      assume "j \<in> {e. linked t e \<and> above t c e}"
      with not_above_parent [OF assms c] show False by blast
    qed
    moreover have "{e. linked t e \<and> above t c e} \<subseteq> {e. linked t e \<and> above t j e}"
      using above_trans jc by blast
    moreover have "finite {e. linked t e \<and> above t j e}"
      using finite_linked by (rule rev_finite_subset) auto
    ultimately have "card {e. linked t e \<and> above t c e} < card {e. linked t e \<and> above t j e}"
      using less.prems by (intro psubset_card_mono) (auto intro: above_refl)
    moreover have "linked t c" using c by (simp add: linked_def)
    ultimately obtain d where "above t c d" "linked t d" "rn_children (nd t d) = []" using less.hyps by blast
    with above_trans jc show ?thesis by blast
  qed
qed

lemma unlocked_below:
  assumes "locks_ok hs t" "linked t j" "rn_ref_count (nd t j) = 0" "above t j d" "linked t d"
  shows "rn_ref_count (nd t d) = 0"
proof -
  have "filter (above t j) hs = []" using assms(1-3) by (simp add: locks_ok_def)
  then have "filter (above t d) hs = []" using above_trans [OF _ assms(4)] by (auto simp: filter_empty_conv)
  with assms(1,5) show ?thesis by (simp add: locks_ok_def)
qed

lemma stamp_below:
  "above t j d \<Longrightarrow> tree_ok t \<Longrightarrow> stamps_ok clock t \<Longrightarrow> linked t j \<Longrightarrow> rn_timestamp (nd t d) \<le> rn_timestamp (nd t j)"
proof (induction rule: above.induct)
  case (above_step i p c)
  have "p \<noteq> 0"
    using above_step.hyps(1) above_step.prems(3) nothing_above_root [OF above_step.prems(1), of i]
    by (intro notI) simp
  with above_step show ?case by (force simp: stamps_ok_def)
qed simp

lemma unlocked_leaf_exists:
  assumes "arena_good hs clock t" "linked t j" "rn_ref_count (nd t j) = 0"
  shows "\<exists>d. linked t d \<and> rn_children (nd t d) = [] \<and> rn_ref_count (nd t d) = 0
    \<and> rn_timestamp (nd t d) \<le> rn_timestamp (nd t j)"
proof -
  have ok: "tree_ok t" "locks_ok hs t" "stamps_ok clock t" using assms(1) by (simp_all add: arena_good_def)
  from leaf_below [OF ok(1) assms(2)] obtain d where "above t j d" "linked t d" "rn_children (nd t d) = []" by blast
  with unlocked_below [OF ok(2) assms(2,3)] stamp_below [OF _ ok(1,3) assms(2)] show ?thesis by blast
qed

definition heap_ok :: "radix_tree \<Rightarrow> (int \<times> node_id) list \<Rightarrow> bool" where
  "heap_ok t heap \<longleftrightarrow> distinct heap \<and>
     set heap = {(rn_timestamp (nd t i), i) | i. linked t i \<and> rn_children (nd t i) = [] \<and> rn_ref_count (nd t i) = 0}"

lemma heap_pop_least:
  assumes "heap \<noteq> []"
  shows "\<exists>m. heap_pop heap = Some (m, remove1 m heap) \<and> m \<in> set heap \<and> (\<forall>x \<in> set heap. m \<le> x)"
  using assms by (simp add: heap_pop_def Let_def)

lemma idle_linked:
  assumes "0 < idle_size t"
  shows "\<exists>j. linked t j \<and> rn_ref_count (nd t j) = 0"
proof (rule ccontr)
  assume "\<not> ?thesis"
  then have "idle_size t = 0"
    unfolding idle_size_def tally_def by (intro sum.neutral) (auto simp: linked_def)
  with assms show False by simp
qed

text \<open>What an eviction does, in one step and in many.\<close>

definition evicts :: "node_id list \<Rightarrow> radix_cache \<Rightarrow> radix_cache \<Rightarrow> u32 list \<Rightarrow> bool" where
  "evicts hs c c' freed \<longleftrightarrow> cache_ok hs c' \<and> rc_page_size c' = rc_page_size c \<and> arena (rc_tree c') = arena (rc_tree c)
     \<and> rc_evictable_size c = rc_evictable_size c' + length freed \<and> rc_protected_size c' = rc_protected_size c
     \<and> tree_pages (rc_tree c) = tree_pages (rc_tree c') + mset freed
     \<and> (\<forall>i. linked (rc_tree c') i \<longrightarrow> linked (rc_tree c) i)
     \<and> (\<forall>i. linked (rc_tree c) i \<longrightarrow> \<not> linked (rc_tree c') i \<longrightarrow> rn_ref_count (nd (rc_tree c) i) = 0)
     \<and> (\<forall>i. i < arena (rc_tree c) \<longrightarrow> rn_ref_count (nd (rc_tree c') i) = rn_ref_count (nd (rc_tree c) i)
          \<and> rn_timestamp (nd (rc_tree c') i) = rn_timestamp (nd (rc_tree c) i))
     \<and> (\<forall>i ks vs. spells (rc_tree c') i ks vs \<longleftrightarrow> spells (rc_tree c) i ks vs \<and> (i = 0 \<or> linked (rc_tree c') i))
     \<and> (\<forall>e s. linked (rc_tree c) e \<longrightarrow> \<not> linked (rc_tree c') e \<longrightarrow> linked (rc_tree c') s \<longrightarrow>
          rn_ref_count (nd (rc_tree c') s) = 0 \<longrightarrow> rn_timestamp (nd (rc_tree c) e) \<le> rn_timestamp (nd (rc_tree c) s))"

lemma evicts_refl: "cache_ok hs c \<Longrightarrow> evicts hs c c []"
  using spells_linked by (auto simp: evicts_def)

lemma evicts_trans:
  assumes "evicts hs c c1 f1" "evicts hs c1 c2 f2"
  shows "evicts hs c c2 (f1 @ f2)"
proof -
  have step: "linked (rc_tree c1) i \<Longrightarrow> linked (rc_tree c) i" "linked (rc_tree c2) i \<Longrightarrow> linked (rc_tree c1) i" for i
    using assms by (simp_all add: evicts_def)
  have arena1: "i < arena (rc_tree c)" if "linked (rc_tree c1) i" for i
    using step(1) [OF that] by (simp add: linked_def)
  have arena2: "i < arena (rc_tree c)" if "linked (rc_tree c2) i" for i
    using arena1 step(2) [OF that] by blast
  have first: "rn_timestamp (nd (rc_tree c) e) \<le> rn_timestamp (nd (rc_tree c) s)"
    if "linked (rc_tree c) e" "\<not> linked (rc_tree c2) e" "linked (rc_tree c2) s" "rn_ref_count (nd (rc_tree c2) s) = 0" for e s
  proof (cases "linked (rc_tree c1) e")
    case True
    then have "rn_timestamp (nd (rc_tree c1) e) \<le> rn_timestamp (nd (rc_tree c1) s)"
      using assms(2) that by (simp add: evicts_def)
    with assms(1) arena1 [OF True] arena2 [OF that(3)] show ?thesis by (simp add: evicts_def)
  next
    case False
    moreover have "linked (rc_tree c1) s" "rn_ref_count (nd (rc_tree c1) s) = 0"
      using assms that(3,4) arena2 [OF that(3)] by (simp_all add: evicts_def)
    ultimately show ?thesis using assms(1) that(1) by (simp add: evicts_def)
  qed
  have none: "rn_ref_count (nd (rc_tree c) i) = 0" if "linked (rc_tree c) i" "\<not> linked (rc_tree c2) i" for i
    using assms that arena1 [of i] by (cases "linked (rc_tree c1) i") (auto simp: evicts_def)
  have sizes: "cache_ok hs c2" "rc_page_size c2 = rc_page_size c" "arena (rc_tree c2) = arena (rc_tree c)"
    "rc_evictable_size c = rc_evictable_size c2 + length (f1 @ f2)" "rc_protected_size c2 = rc_protected_size c"
    "tree_pages (rc_tree c) = tree_pages (rc_tree c2) + mset (f1 @ f2)"
    using assms by (simp_all add: evicts_def)
  have links: "linked (rc_tree c2) i \<Longrightarrow> linked (rc_tree c) i" for i using step by blast
  have fields: "i < arena (rc_tree c) \<Longrightarrow> rn_ref_count (nd (rc_tree c2) i) = rn_ref_count (nd (rc_tree c) i)
      \<and> rn_timestamp (nd (rc_tree c2) i) = rn_timestamp (nd (rc_tree c) i)" for i
    using assms by (simp add: evicts_def)
  have paths1: "spells (rc_tree c1) i ks vs \<longleftrightarrow> spells (rc_tree c) i ks vs \<and> (i = 0 \<or> linked (rc_tree c1) i)"
    and paths2: "spells (rc_tree c2) i ks vs \<longleftrightarrow> spells (rc_tree c1) i ks vs \<and> (i = 0 \<or> linked (rc_tree c2) i)" for i ks vs
    using assms unfolding evicts_def by blast+
  have paths: "spells (rc_tree c2) i ks vs \<longleftrightarrow> spells (rc_tree c) i ks vs \<and> (i = 0 \<or> linked (rc_tree c2) i)" for i ks vs
    using paths1 [of i ks vs] paths2 [of i ks vs] step(2) [of i] by blast
  show ?thesis
    unfolding evicts_def
    using sizes links fields paths first none by (intro conjI allI impI) simp_all
qed

text \<open>The entry the loop adds for a parent that has become a leaf.\<close>

definition exposed :: "radix_tree \<Rightarrow> node_id \<Rightarrow> (int \<times> node_id) list" where
  "exposed t p = (if rn_is_leaf (nd t p) \<and> rn_ref_count (nd t p) = 0 \<and> \<not> rn_is_root (nd t p)
     then [(rn_timestamp (nd t p), p)] else [])"

lemma evict_step:
  assumes inv: "cache_ok hs c" and heap: "heap_ok (rc_tree c) heap" and pop: "(ts, i) \<in> set heap"
    and least: "\<forall>x \<in> set heap. (ts, i) \<le> x"
  shows "\<exists>p t. rt_node (rc_tree c) i = Some (nd (rc_tree c) i) \<and> rt_unlink i (rc_tree c) = Some (p, t)
    \<and> rt_node t p = Some (nd t p) \<and> 0 < rn_length (nd (rc_tree c) i) \<and> rn_length (nd (rc_tree c) i) \<le> rc_evictable_size c
    \<and> length (rn_value (nd (rc_tree c) i)) = rn_length (nd (rc_tree c) i)
    \<and> evicts hs c (c\<lparr>rc_evictable_size := rc_evictable_size c - rn_length (nd (rc_tree c) i), rc_tree := t\<rparr>) (rn_value (nd (rc_tree c) i))
    \<and> heap_ok t (exposed t p @ remove1 (ts, i) heap)"
proof -
  let ?t = "rc_tree c" and ?n = "nd (rc_tree c) i"
  have ok: "tree_ok ?t" and good: "arena_good hs (rc_clock c) ?t" using inv by (simp_all add: cache_ok_def arena_good_def)
  from pop heap have leaf: "linked ?t i" "rn_children ?n = []" "rn_ref_count ?n = 0" "ts = rn_timestamp ?n"
    by (auto simp: heap_ok_def)
  from leaf(1) obtain p where i: "i < arena ?t" "rn_parent ?n = Some p" by (auto simp: linked_def)
  from unlink_at_nodes [OF ok i] obtain t where t: "rt_unlink i ?t = Some (p, t)" "unlink_nodes ?t i p t" by blast
  note g = unlink_good [OF good i leaf(2,3) t(2)]
  note u = unlink_tree_ok [OF ok i leaf(2) t(2)]
  note n = unlink_nodesD [OF ok i t(2)]
  note e = edgeD [OF ok i]
  have p: "p < arena ?t" "p \<noteq> i" using e(1) parent_differs [OF ok i] by simp_all
  have f: "rn_ref_count (nd t j) = rn_ref_count (nd ?t j)" "rn_timestamp (nd t j) = rn_timestamp (nd ?t j)"
    if "j < arena ?t" for j
    using t(2) that by (cases "j = p"; cases "j = i"; auto simp: unlink_nodes_def)+
  have lnk: "linked t j \<longleftrightarrow> linked ?t j \<and> j \<noteq> i" for j
    using n(1,3) by (auto simp: linked_def split: if_splits)
  let ?c1 = "c\<lparr>rc_evictable_size := rc_evictable_size c - rn_length ?n, rc_tree := t\<rparr>"
  have size: "rn_length ?n \<le> rc_evictable_size c" using g(2) inv by (simp add: cache_ok_def rn_length_def)
  have old: "rn_timestamp ?n \<le> rn_timestamp (nd ?t s)" if "linked ?t s" "rn_ref_count (nd ?t s) = 0" for s
  proof -
    from unlocked_leaf_exists [OF good that] obtain d where d: "linked ?t d" "rn_children (nd ?t d) = []"
      "rn_ref_count (nd ?t d) = 0" "rn_timestamp (nd ?t d) \<le> rn_timestamp (nd ?t s)" by blast
    then have "(rn_timestamp (nd ?t d), d) \<in> set heap" using heap by (auto simp: heap_ok_def)
    with least d(4) leaf(4) show ?thesis by force
  qed
  have "evicts hs c ?c1 (rn_value ?n)"
    unfolding evicts_def
  proof (intro conjI allI impI)
    show "cache_ok hs ?c1" using g inv by (simp add: cache_ok_def rn_length_def)
    show "rc_page_size ?c1 = rc_page_size c" "arena (rc_tree ?c1) = arena ?t" using n(1,2) by (simp_all add: rc_page_size_def)
    show "rc_evictable_size c = rc_evictable_size ?c1 + length (rn_value ?n)" using size e(4) by (simp add: rn_length_def)
    show "rc_protected_size ?c1 = rc_protected_size c" by simp
    show "tree_pages ?t = tree_pages (rc_tree ?c1) + mset (rn_value ?n)" using g(4) by simp
  next
    fix j assume "linked (rc_tree ?c1) j"
    then show "linked ?t j" by (simp add: lnk)
  next
    fix j assume "linked ?t j" "\<not> linked (rc_tree ?c1) j"
    then have "j = i" by (simp add: lnk)
    with leaf(3) show "rn_ref_count (nd ?t j) = 0" by simp
  next
    fix j assume "j < arena ?t"
    with f show "rn_ref_count (nd (rc_tree ?c1) j) = rn_ref_count (nd ?t j)"
      "rn_timestamp (nd (rc_tree ?c1) j) = rn_timestamp (nd ?t j)" by simp_all
  next
    fix j ks vs
    show "spells (rc_tree ?c1) j ks vs \<longleftrightarrow> spells ?t j ks vs \<and> (j = 0 \<or> linked (rc_tree ?c1) j)"
      using u(2) [of j ks vs] spells_linked [of ?t j ks vs] e(5) by (auto simp: lnk)
  next
    fix a s assume "linked ?t a" "\<not> linked (rc_tree ?c1) a" "linked (rc_tree ?c1) s" "rn_ref_count (nd (rc_tree ?c1) s) = 0"
    then have "a = i" "linked ?t s" "rn_ref_count (nd t s) = 0" using lnk [of a] lnk [of s] by simp_all
    moreover have "s < arena ?t" using calculation(2) by (simp add: linked_def)
    ultimately have "a = i" "linked ?t s" "rn_ref_count (nd ?t s) = 0" using f(1) by simp_all
    with old show "rn_timestamp (nd ?t a) \<le> rn_timestamp (nd ?t s)" by simp
  qed
  moreover have "heap_ok t (exposed t p @ remove1 (ts, i) heap)"
  proof -
    have parent_open: "rn_children (nd ?t p) \<noteq> []"
    proof
      assume "rn_children (nd ?t p) = []"
      moreover have "above ?t p i" using i by (blast intro: above.intros)
      ultimately show False using leaf_above [OF ok p(1)] p(2) by blast
    qed
    have rest: "set (remove1 (ts, i) heap) = set heap - {(ts, i)}" "distinct (remove1 (ts, i) heap)"
      using heap by (simp_all add: heap_ok_def)
    have root: "rn_is_root (nd t p) \<longleftrightarrow> \<not> linked t p"
      using p n(1) by (auto simp: rn_is_root_def linked_def)
    have "(rn_timestamp (nd t p), p) \<notin> set (remove1 (ts, i) heap)"
      using parent_open heap rest(1) by (auto simp: heap_ok_def)
    then have dist: "distinct (exposed t p @ remove1 (ts, i) heap)" using rest(2) by (auto simp: exposed_def)
    have old_leaf: "linked t j \<and> j \<noteq> p \<and> rn_children (nd t j) = [] \<and> rn_ref_count (nd t j) = 0 \<longleftrightarrow>
        linked ?t j \<and> j \<noteq> i \<and> rn_children (nd ?t j) = [] \<and> rn_ref_count (nd ?t j) = 0" for j
    proof (cases "j < arena ?t")
      case True
      then show ?thesis using n(6) [OF True] f(1) [OF True] parent_open by (auto simp: lnk)
    next
      case False
      then show ?thesis using n(1) by (simp add: linked_def)
    qed
    have "set heap - {(ts, i)} = {(rn_timestamp (nd t j), j) | j. linked t j \<and> j \<noteq> p \<and> rn_children (nd t j) = [] \<and> rn_ref_count (nd t j) = 0}"
    proof (rule set_eqI)
      fix x :: "int \<times> node_id"
      obtain a j where x: "x = (a, j)" by (cases x)
      have "x \<in> set heap - {(ts, i)} \<longleftrightarrow> a = rn_timestamp (nd ?t j) \<and> linked ?t j \<and> j \<noteq> i \<and> rn_children (nd ?t j) = []
          \<and> rn_ref_count (nd ?t j) = 0"
        using heap leaf(4) by (auto simp: x heap_ok_def)
      also have "\<dots> \<longleftrightarrow> a = rn_timestamp (nd t j) \<and> linked t j \<and> j \<noteq> p \<and> rn_children (nd t j) = [] \<and> rn_ref_count (nd t j) = 0"
        using old_leaf [of j] f(2) [of j] by (auto simp: linked_def)
      finally show "x \<in> set heap - {(ts, i)} \<longleftrightarrow>
          x \<in> {(rn_timestamp (nd t j), j) | j. linked t j \<and> j \<noteq> p \<and> rn_children (nd t j) = [] \<and> rn_ref_count (nd t j) = 0}"
        by (simp add: x)
    qed
    moreover have "set (exposed t p) = {(rn_timestamp (nd t j), j) | j. linked t j \<and> j = p \<and> rn_children (nd t j) = [] \<and> rn_ref_count (nd t j) = 0}"
      by (auto simp: exposed_def root rn_is_leaf_def)
    ultimately show ?thesis using dist unfolding heap_ok_def by (simp only: set_append rest(1)) blast
  qed
  moreover have "rt_node t p = Some (nd t p)" using p n(1) by simp
  ultimately show ?thesis
    using t(1) i(1) size e(2,4) by (intro exI [of _ p] exI [of _ t]) (simp add: rn_length_def)
qed

lemma evict_loop_frees:
  assumes "cache_ok hs c" "heap_ok (rc_tree c) heap" "wanted \<le> got + rc_evictable_size c"
  shows "\<exists>freed c'. rc_evict_loop wanted heap evicted got c = Some (evicted @ freed, c') \<and> evicts hs c c' freed
    \<and> wanted \<le> got + length freed"
  using assms
proof (induction "wanted - got" arbitrary: c heap got evicted rule: less_induct)
  case less
  show ?case
  proof (cases "got < wanted")
    case False
    with evicts_refl [OF less.prems(1)] show ?thesis
      by (subst rc_evict_loop.simps) (intro exI [of _ "[]"] exI [of _ c], simp)
  next
    case True
    with less.prems(1,3) have "0 < idle_size (rc_tree c)" by (simp add: cache_ok_def)
    from idle_linked [OF this] obtain j where j: "linked (rc_tree c) j" "rn_ref_count (nd (rc_tree c) j) = 0" by blast
    have "arena_good hs (rc_clock c) (rc_tree c)" using less.prems(1) by (simp add: cache_ok_def)
    from unlocked_leaf_exists [OF this j] less.prems(2) have "heap \<noteq> []" by (fastforce simp: heap_ok_def)
    then obtain m where m: "heap_pop heap = Some (m, remove1 m heap)" "m \<in> set heap" "\<forall>x \<in> set heap. m \<le> x"
      using heap_pop_least by blast
    obtain ts i where mi: "m = (ts, i)" by (cases m)
    let ?n = "nd (rc_tree c) i"
    from evict_step [OF less.prems(1,2) m(2) [unfolded mi] m(3) [unfolded mi]] obtain p t where
      s: "rt_node (rc_tree c) i = Some ?n" "rt_unlink i (rc_tree c) = Some (p, t)" "rt_node t p = Some (nd t p)"
      "0 < rn_length ?n" "rn_length ?n \<le> rc_evictable_size c" "length (rn_value ?n) = rn_length ?n"
      "evicts hs c (c\<lparr>rc_evictable_size := rc_evictable_size c - rn_length ?n, rc_tree := t\<rparr>) (rn_value ?n)"
      "heap_ok t (exposed t p @ remove1 (ts, i) heap)" by blast
    define c1 where "c1 = c\<lparr>rc_evictable_size := rc_evictable_size c - rn_length ?n, rc_tree := t\<rparr>"
    note ev = s(7) [folded c1_def]
    have "wanted - (got + rn_length ?n) < wanted - got" using s(4) True by simp
    moreover have "cache_ok hs c1" using ev by (simp add: evicts_def)
    moreover have "heap_ok (rc_tree c1) (exposed t p @ remove1 (ts, i) heap)" using s(8) by (simp add: c1_def)
    moreover have "wanted \<le> got + rn_length ?n + rc_evictable_size c1" using less.prems(3) s(5) by (simp add: c1_def)
    ultimately obtain freed c' where r: "rc_evict_loop wanted (exposed t p @ remove1 (ts, i) heap)
        (evicted @ rn_value ?n) (got + rn_length ?n) c1 = Some ((evicted @ rn_value ?n) @ freed, c')"
      "evicts hs c1 c' freed" "wanted \<le> got + rn_length ?n + length freed"
      using less.hyps by blast
    have "rc_evict_loop wanted heap evicted got c = rc_evict_loop wanted (exposed t p @ remove1 (ts, i) heap)
        (evicted @ rn_value ?n) (got + rn_length ?n) c1"
      using True m(1) mi s(1-3,5) by (subst rc_evict_loop.simps) (simp add: Let_def c1_def exposed_def)
    with r evicts_trans [OF ev r(2)] s(6) show ?thesis
      by (intro exI [of _ "rn_value ?n @ freed"] exI [of _ c']) simp
  qed
qed

lemma evict_frees:
  assumes "cache_ok hs c" "wanted \<le> rc_evictable_size c"
  shows "\<exists>freed c'. rc_evict wanted c = Some (freed, c') \<and> evicts hs c c' freed \<and> wanted \<le> length freed"
proof (cases "wanted = 0")
  case True
  with evicts_refl [OF assms(1)] show ?thesis by (simp add: rc_evict_def)
next
  case False
  have "tree_ok (rc_tree c)" using assms(1) by (simp add: cache_ok_def arena_good_def)
  from leaves_visits [OF this] obtain ids where ids: "rt_leaves (rc_tree c) = Some ids" "distinct ids"
    "set ids = {i. linked (rc_tree c) i \<and> rn_children (nd (rc_tree c) i) = []}" by blast
  have "heap_ok (rc_tree c) (unlocked_leaves (rc_tree c) ids)"
    unfolding heap_ok_def unlocked_leaves_def using ids(2,3)
    by (auto simp: distinct_map inj_on_def)
  from evict_loop_frees [OF assms(1) this, of wanted 0 "[]"] assms(2) False ids(1) show ?thesis
    by (simp add: rc_evict_def)
qed

end
