(* ===== verification/Radix_Runs.thy ===== *)
theory Radix_Runs
  imports Radix_Evict
begin

text \<open>
  What the prefix cache promises its callers: the operations one by one over what the cache holds, and
  runs of them by a caller that unlocks only what it locked.
\<close>

section \<open>Evaluation\<close>

text \<open>The loops with their recursive calls in a branch, so that they can be evaluated by rewriting.\<close>

lemma rt_path_chunks_code [code]:
  "rt_path_chunks t cur chunks =
     (case rt_node t cur of
        None \<Rightarrow> None
      | Some n \<Rightarrow> (case rn_parent n of None \<Rightarrow> Some chunks | Some parent \<Rightarrow> rt_path_chunks t parent (chunks @ [rn_value n])))"
  by (subst rt_path_chunks.simps) (simp split: option.splits)

lemma rt_path_len_loop_code [code]:
  "rt_path_len_loop t cur acc =
     (case rt_node t cur of
        None \<Rightarrow> None
      | Some n \<Rightarrow> (case rn_parent n of None \<Rightarrow> Some acc | Some parent \<Rightarrow> rt_path_len_loop t parent (acc + rn_length n)))"
  by (subst rt_path_len_loop.simps) (simp split: option.splits)

lemma rt_walk_loop_code [code]:
  "rt_walk_loop t stack out =
     (case stack of
        [] \<Rightarrow> Some out
      | i # stack \<Rightarrow>
          (case rt_node t i of
             None \<Rightarrow> None
           | Some n \<Rightarrow> rt_walk_loop t (rev (map snd (rn_children n)) @ stack) (out @ map snd (rn_children n))))"
  by (subst rt_walk_loop.simps) (simp add: Let_def split: option.splits list.splits)

definition walk_matched :: "u32 list \<Rightarrow> nat \<Rightarrow> radix_tree \<Rightarrow> radix_node \<Rightarrow> nat" where
  "walk_matched input_ids prefix_len t n = align_down (match_len (rn_key n) (drop prefix_len input_ids)) (rt_page_size t)"

lemma rc_walk_loop_code [code]:
  "rc_walk_loop input_ids tic node prefix_len t =
     (if \<not> prefix_len < length input_ids then Some (node, prefix_len, t)
      else case rt_child t node (drop prefix_len input_ids) of
        None \<Rightarrow> None
      | Some None \<Rightarrow> Some (node, prefix_len, t)
      | Some (Some child) \<Rightarrow>
          (case rt_node t child of
             None \<Rightarrow> None
           | Some n \<Rightarrow>
               if walk_matched input_ids prefix_len t n \<noteq> rn_length n then do {
                 (head, t') \<leftarrow> rt_split_at child (walk_matched input_ids prefix_len t n) t;
                 t' \<leftarrow> rt_node_mut head (\<lambda>n. n\<lparr>rn_timestamp := tic\<rparr>) t';
                 Some (head, prefix_len + walk_matched input_ids prefix_len t n, t')
               } else
                 (case rt_node_mut child (\<lambda>n. n\<lparr>rn_timestamp := tic\<rparr>) t of
                    None \<Rightarrow> None
                  | Some t' \<Rightarrow> rc_walk_loop input_ids tic child (prefix_len + walk_matched input_ids prefix_len t n) t')))"
  by (subst rc_walk_loop.simps) (auto simp: Let_def walk_matched_def split: option.splits)

lemma rc_peek_loop_code [code]:
  "rc_peek_loop input_ids node prefix_len t =
     (if \<not> prefix_len < length input_ids then Some prefix_len
      else case rt_child t node (drop prefix_len input_ids) of
        None \<Rightarrow> None
      | Some None \<Rightarrow> Some prefix_len
      | Some (Some child) \<Rightarrow>
          (case rt_node t child of
             None \<Rightarrow> None
           | Some n \<Rightarrow>
               if walk_matched input_ids prefix_len t n \<noteq> rn_length n then Some (prefix_len + walk_matched input_ids prefix_len t n)
               else rc_peek_loop input_ids child (prefix_len + walk_matched input_ids prefix_len t n) t))"
  by (subst rc_peek_loop.simps) (auto simp: Let_def walk_matched_def split: option.splits)

definition lock_node :: "node_id \<Rightarrow> radix_node \<Rightarrow> radix_cache \<Rightarrow> radix_cache option" where
  "lock_node cur n c = do {
     c \<leftarrow> (if rn_ref_count n = 0 then
             if rc_evictable_size c < rn_length n then None
             else Some (c\<lparr>rc_evictable_size := rc_evictable_size c - rn_length n,
                          rc_protected_size := rc_protected_size c + rn_length n\<rparr>)
           else Some c);
     t \<leftarrow> rt_node_mut cur (\<lambda>n. n\<lparr>rn_ref_count := rn_ref_count n + 1\<rparr>) (rc_tree c);
     Some (c\<lparr>rc_tree := t\<rparr>)
   }"

lemma rc_lock_code [code]:
  "rc_lock cur c =
     (case rt_node (rc_tree c) cur of
        None \<Rightarrow> None
      | Some n \<Rightarrow>
          (case rn_parent n of
             None \<Rightarrow> Some c
           | Some parent \<Rightarrow>
               (case lock_node cur n c of None \<Rightarrow> None | Some c' \<Rightarrow> rc_lock parent c')))"
  by (subst rc_lock.simps) (auto simp: lock_node_def rn_is_root_def Let_def bind_eq_None_conv split: option.splits bind_splits)

definition unlock_node :: "node_id \<Rightarrow> radix_node \<Rightarrow> radix_cache \<Rightarrow> radix_cache option" where
  "unlock_node cur n c = do {
     t \<leftarrow> rt_node_mut cur (\<lambda>n. n\<lparr>rn_ref_count := rn_ref_count n - 1\<rparr>) (rc_tree c);
     let c = c\<lparr>rc_tree := t\<rparr>;
     (if rn_ref_count n - 1 = 0 then
        if rc_protected_size c < rn_length n then None
        else Some (c\<lparr>rc_evictable_size := rc_evictable_size c + rn_length n,
                     rc_protected_size := rc_protected_size c - rn_length n\<rparr>)
      else Some c)
   }"

lemma rc_unlock_code [code]:
  "rc_unlock cur c =
     (case rt_node (rc_tree c) cur of
        None \<Rightarrow> None
      | Some n \<Rightarrow>
          (case rn_parent n of
             None \<Rightarrow> Some c
           | Some parent \<Rightarrow>
               if rn_ref_count n = 0 then None
               else (case unlock_node cur n c of None \<Rightarrow> None | Some c' \<Rightarrow> rc_unlock parent c')))"
  by (subst rc_unlock.simps) (auto simp: unlock_node_def rn_is_root_def Let_def split: option.splits bind_splits)

definition evict_node :: "node_id \<Rightarrow> radix_node \<Rightarrow> (int \<times> node_id) list \<Rightarrow> radix_cache
    \<Rightarrow> ((int \<times> node_id) list \<times> radix_cache) option" where
  "evict_node i n heap c =
     (if rc_evictable_size c < rn_length n then None else do {
        let c = c\<lparr>rc_evictable_size := rc_evictable_size c - rn_length n\<rparr>;
        (parent, t) \<leftarrow> rt_unlink i (rc_tree c);
        let c = c\<lparr>rc_tree := t\<rparr>;
        p \<leftarrow> rt_node t parent;
        let heap = (if rn_is_leaf p \<and> rn_ref_count p = 0 \<and> \<not> rn_is_root p then (rn_timestamp p, parent) # heap else heap);
        Some (heap, c)
      })"

lemma rc_evict_loop_code [code]:
  "rc_evict_loop wanted heap evicted evicted_size c =
     (if \<not> evicted_size < wanted then Some (evicted, c)
      else case heap_pop heap of
        None \<Rightarrow> None
      | Some ((_, i), heap) \<Rightarrow>
          (case rt_node (rc_tree c) i of
             None \<Rightarrow> None
           | Some n \<Rightarrow>
               (case evict_node i n heap c of
                  None \<Rightarrow> None
                | Some (heap, c') \<Rightarrow> rc_evict_loop wanted heap (evicted @ rn_value n) (evicted_size + rn_length n) c')))"
  by (subst rc_evict_loop.simps) (auto simp: evict_node_def Let_def split: option.splits bind_splits prod.splits)

section \<open>A cache to try things on\<close>

definition sample_radix :: radix_cache where
  "sample_radix = snd (the (rc_insert_prefix [1, 2, 5, 6, 9] [20, 21, 22, 23, 24]
     (snd (the (rc_insert_prefix [1, 2, 3, 4] [10, 11, 12, 13] (the (radix_cache_new 2)))))))"

lemma new_ok:
  assumes "radix_cache_new ps = Some c"
  shows "cache_ok [] c" "arena (rc_tree c) = 1" "rc_page_size c = ps"
    "held (rc_tree c) ts vs \<longleftrightarrow> ts = [] \<and> vs = []" "tree_pages (rc_tree c) = {#}"
proof -
  have ps: "0 < ps" and c: "rt_nodes (rc_tree c) = [(node_new 0)\<lparr>rn_ref_count := 1\<rparr>]" "rt_page_size (rc_tree c) = ps"
    "rc_evictable_size c = 0" "rc_protected_size c = 0"
    using assms by (auto simp: radix_cache_new_def radix_tree_new_def split: if_splits)
  have n0: "rn_parent (nd (rc_tree c) 0) = None" "rn_children (nd (rc_tree c) 0) = []"
    using c(1) by (simp_all add: node_new_def)
  show a: "arena (rc_tree c) = 1" "rc_page_size c = ps" using c by (simp_all add: rc_page_size_def)
  have none: "\<not> linked (rc_tree c) i" for i using a(1) n0 by (cases "i = 0") (simp_all add: linked_def)
  have ok: "tree_ok (rc_tree c)"
    using ps n0 a(1) none unfolding tree_ok_def c(2)
    by (auto simp: edge_ok_def children_ok_def linked_def)
  have "stamps_ok (rc_clock c) (rc_tree c)" using n0 a(1) by (auto simp: stamps_ok_def)
  moreover have "locks_ok [] (rc_tree c)" using none by (simp add: locks_ok_def)
  moreover have "acct_ok c"
    using c(3,4) n0(1) a(1) by (simp add: acct_ok_def idle_size_def busy_size_def tally_empty)
  ultimately show "cache_ok [] c" using ok by (simp add: cache_okI)
  have "spells (rc_tree c) i ks vs \<Longrightarrow> ks = [] \<and> vs = []" for i ks vs
    using spells_linked [of "rc_tree c" i ks vs] none by (auto elim: spells.cases)
  then show "held (rc_tree c) ts vs \<longleftrightarrow> ts = [] \<and> vs = []"
    using held_root [of "rc_tree c"] by (fastforce simp: held_def)
  show "tree_pages (rc_tree c) = {#}" using n0(1) a(1) by (simp add: tree_pages_def tally_empty)
qed

section \<open>Operations\<close>

text \<open>
  C34. A lookup returns the longest prefix of the query that the cache holds in whole pages, and the
  indices under its handle are the pages held for that prefix.  It may split a node and it stamps its
  path, but what the cache holds, its sizes and the locks stay as they were.
\<close>

theorem lookup_finds_longest:
  assumes "cache_ok hs c" "arena (rc_tree c) < 2 ^ 32"
  shows "\<exists>n i vs c'. rc_match_prefix q c = Some (\<lparr>mr_cached_len = n, mr_node = i\<rparr>, c')
    \<and> longest_held (rc_tree c) q n \<and> held (rc_tree c) (take n q) vs \<and> rc_matched_indices c' i = Some vs
    \<and> cache_ok hs c' \<and> (\<forall>ts ws. held (rc_tree c') ts ws \<longleftrightarrow> held (rc_tree c) ts ws)
    \<and> rc_evictable_size c' = rc_evictable_size c \<and> rc_protected_size c' = rc_protected_size c"
proof -
  from tree_walk_lands [OF assms] obtain i n c' vs where w: "rc_tree_walk q c = Some (i, n, c')"
    "cache_ok hs c'" "longest_held (rc_tree c) q n" "spells (rc_tree c') i (take n q) vs" "keeps (rc_tree c) (rc_tree c')"
    by blast
  have ok': "tree_ok (rc_tree c')" using w(2) by (rule cache_okD)
  from spells_held [OF this w(4)] w(5) have "held (rc_tree c) (take n q) vs" by (simp add: keeps_def)
  moreover have "rc_matched_indices c' i = Some vs"
    using path_value_spells [OF w(4) ok'] by (simp add: rc_matched_indices_def)
  ultimately show ?thesis
    using w assms(1) by (intro exI [of _ n] exI [of _ i] exI [of _ vs] exI [of _ c'])
      (simp add: rc_match_prefix_def keeps_def cache_ok_def)
qed

text \<open>
  The lookup without effects answers exactly what a real lookup would, not only a lower bound.
\<close>

theorem peek_is_lookup:
  assumes "cache_ok hs c" "arena (rc_tree c) < 2 ^ 32"
  shows "rc_peek_cached_len c q = map_option (\<lambda>(m, c'). mr_cached_len m) (rc_match_prefix q c)
    \<and> rc_match_prefix q c \<noteq> None"
proof -
  from tree_walk_lands [OF assms] obtain i n c' where w: "rc_tree_walk q c = Some (i, n, c')"
    "longest_held (rc_tree c) q n" by blast
  moreover from peek_longest [OF cache_okD(1) [OF assms(1)]] obtain m where "rc_peek_cached_len c q = Some m"
    "longest_held (rc_tree c) q m" by blast
  ultimately show ?thesis using longest_held_unique by (fastforce simp: rc_match_prefix_def)
qed

text \<open>
  C35. An insertion adds exactly the whole-page prefixes of its tokens.  For the span that was
  already there it reports the length and keeps its own pages; beyond it, it stores the caller's, so
  every page handed in is either stored or in the reported span.  A lookup of the tokens then finds
  all of them.
\<close>

theorem insert_stores_whole_pages:
  assumes "cache_ok hs c" "arena (rc_tree c) + 2 \<le> 2 ^ 32" "length ids = length idx"
  shows "\<exists>r c' vs. rc_insert_prefix ids idx c = Some (r, c') \<and> cache_ok hs c'
    \<and> ir_inserted_len r = align_down (length ids) (rc_page_size c)
    \<and> (let full = take (ir_inserted_len r) ids; stored = drop (ir_cached_len r) (take (ir_inserted_len r) idx) in
        longest_held (rc_tree c) full (ir_cached_len r) \<and> held (rc_tree c) (take (ir_cached_len r) ids) vs
        \<and> (\<forall>ts ws. held (rc_tree c') ts ws \<longleftrightarrow> held (rc_tree c) ts ws
            \<or> rc_page_size c dvd length ts \<and> prefix ts full \<and> ws = take (length ts) (vs @ stored))
        \<and> rc_matched_indices c' (ir_node r) = Some (vs @ stored) \<and> longest_held (rc_tree c') full (length full)
        \<and> tree_pages (rc_tree c') = tree_pages (rc_tree c) + mset stored
        \<and> rc_total_size c' = rc_total_size c + length stored)"
proof -
  define n where "n = align_down (length ids) (rc_page_size c)"
  from insert_lands [OF assms n_def] obtain m i c' vs where r:
    "rc_insert_prefix ids idx c = Some (\<lparr>ir_cached_len = m, ir_node = i, ir_inserted_len = n\<rparr>, c')"
    "cache_ok hs c'" "longest_held (rc_tree c) (take n ids) m" "held (rc_tree c) (take m ids) vs"
    "spells (rc_tree c') i (take n ids) (vs @ drop m (take n idx))"
    "\<And>ts ws. held (rc_tree c') ts ws \<longleftrightarrow> held (rc_tree c) ts ws
        \<or> rc_page_size c dvd length ts \<and> prefix ts (take n ids) \<and> ws = take (length ts) (vs @ drop m (take n idx))"
    "tree_pages (rc_tree c') = tree_pages (rc_tree c) + mset (drop m (take n idx))"
    "rc_total_size c' = rc_total_size c + (n - m)"
    by blast
  have ok': "tree_ok (rc_tree c')" using r(2) by (rule cache_okD)
  have n: "n \<le> length idx" using assms(3) by (simp add: n_def align_down_le)
  have "rc_matched_indices c' i = Some (vs @ drop m (take n idx))"
    using path_value_spells [OF r(5) ok'] by (simp add: rc_matched_indices_def)
  moreover have "longest_held (rc_tree c') (take n ids) (length (take n ids))"
    using descent_ends [OF ok' r(5)] .
  ultimately show ?thesis
    using r n by (intro exI [of _ "\<lparr>ir_cached_len = m, ir_node = i, ir_inserted_len = n\<rparr>"] exI [of _ c'] exI [of _ vs])
      (simp add: n_def [symmetric] Let_def)
qed

lemma evicts_matched:
  assumes "cache_ok hs c" "evicts hs c c' freed" "h \<in> set hs"
  shows "rc_matched_indices c' h = rc_matched_indices c h"
proof -
  have ok: "tree_ok (rc_tree c)" "tree_ok (rc_tree c')" using assms(1,2) cache_okD(1) by (auto simp: evicts_def)
  have "h = 0 \<or> linked (rc_tree c') h" using assms(2,3) cache_okD(3) by (auto simp: evicts_def locks_ok_def)
  from linked_path [OF ok(2) this] obtain ks vs where sp: "spells (rc_tree c') h ks vs" by blast
  with assms(2) have "spells (rc_tree c) h ks vs" by (simp add: evicts_def)
  with path_value_spells [OF sp ok(2)] path_value_spells [OF _ ok(1)] show ?thesis
    by (simp add: rc_matched_indices_def)
qed

lemma evicts_held:
  assumes "evicts hs c c' freed" "held (rc_tree c') ts ws"
  shows "held (rc_tree c) ts ws"
  using assms by (auto simp: held_def evicts_def rc_page_size_def)

text \<open>
  C36. An eviction within the evictable size frees at least what was asked for: exactly the pages of
  the nodes it removes.  No locked node goes, every path that stays spells what it did, and each removed
  node was matched no later than any unlocked node that remains.
\<close>

theorem evict_oldest_unlocked:
  assumes "cache_ok hs c" "wanted \<le> rc_evictable_size c"
  shows "\<exists>freed c'. rc_evict wanted c = Some (freed, c') \<and> cache_ok hs c' \<and> wanted \<le> length freed
    \<and> rc_evictable_size c = rc_evictable_size c' + length freed \<and> rc_protected_size c' = rc_protected_size c
    \<and> tree_pages (rc_tree c) = tree_pages (rc_tree c') + mset freed
    \<and> (\<forall>h \<in> set hs. rc_matched_indices c' h = rc_matched_indices c h)
    \<and> (\<forall>ts ws. held (rc_tree c') ts ws \<longrightarrow> held (rc_tree c) ts ws)
    \<and> (\<forall>e s. linked (rc_tree c) e \<and> \<not> linked (rc_tree c') e \<and> linked (rc_tree c') s \<and> rn_ref_count (nd (rc_tree c') s) = 0
        \<longrightarrow> rn_ref_count (nd (rc_tree c) e) = 0 \<and> rn_timestamp (nd (rc_tree c) e) \<le> rn_timestamp (nd (rc_tree c) s))"
proof -
  from evict_frees [OF assms] obtain freed c' where r: "rc_evict wanted c = Some (freed, c')" "evicts hs c c' freed"
    "wanted \<le> length freed" by blast
  from r evicts_matched [OF assms(1) r(2)] evicts_held [OF r(2)] show ?thesis
    by (intro exI [of _ freed] exI [of _ c']) (simp add: evicts_def)
qed

text \<open>
  An eviction panics exactly when it asks for more than is evictable; unlocking a node panics
  exactly when no lock is held on it or below it.
\<close>

theorem misuse_panics:
  assumes "cache_ok hs c" "linked (rc_tree c) i"
  shows "(rc_evict wanted c = None \<longleftrightarrow> rc_evictable_size c < wanted)
    \<and> (rc_unlock i c = None \<longleftrightarrow> (\<forall>h \<in> set hs. \<not> above (rc_tree c) i h))"
proof
  show "rc_evict wanted c = None \<longleftrightarrow> rc_evictable_size c < wanted"
    using evict_frees [OF assms(1), of wanted] by (auto simp: rc_evict_def)
next
  note ok = cache_okD [OF assms(1)]
  have ref: "rn_ref_count (nd (rc_tree c) j) = length (filter (above (rc_tree c) j) hs)" if "linked (rc_tree c) j" for j
    using ok(3) that by (simp add: locks_ok_def)
  from linked_spells [OF ok(1) assms(2)] obtain ks vs where sp: "spells (rc_tree c) i ks vs" by blast
  have i: "i < arena (rc_tree c)" "rn_parent (nd (rc_tree c) i) \<noteq> None" using assms(2) by (simp_all add: linked_def)
  show "rc_unlock i c = None \<longleftrightarrow> (\<forall>h \<in> set hs. \<not> above (rc_tree c) i h)"
  proof
    assume "\<forall>h \<in> set hs. \<not> above (rc_tree c) i h"
    then have "rn_ref_count (nd (rc_tree c) i) = 0" using ref [OF assms(2)] by (simp add: filter_empty_conv)
    with i show "rc_unlock i c = None" by (subst rc_unlock.simps) (simp add: rn_is_root_def)
  next
    assume none: "rc_unlock i c = None"
    show "\<forall>h \<in> set hs. \<not> above (rc_tree c) i h"
    proof (rule ccontr)
      assume "\<not> (\<forall>h \<in> set hs. \<not> above (rc_tree c) i h)"
      then obtain h where h: "h \<in> set hs" "above (rc_tree c) i h" by blast
      have "0 < rn_ref_count (nd (rc_tree c) j)" if "linked (rc_tree c) j" "above (rc_tree c) j i" for j
        using ref [OF that(1)] above_trans [OF h(2) that(2)] h(1) by (auto simp: filter_empty_conv)
      with unlock_lands [OF sp ok(1,2)] none show False by auto
    qed
  qed
qed

section \<open>Runs\<close>

text \<open>A run keeps the locks its caller holds; the caller unlocks only those, locks only nodes that are in the
  tree and evicts no more than is evictable.\<close>

datatype radix_op =
    RadixMatch "u32 list"
  | RadixInsert "u32 list" "u32 list"
  | RadixLock node_id
  | RadixUnlock node_id
  | RadixEvict nat

fun radix_do :: "radix_op \<Rightarrow> radix_cache \<times> node_id list \<Rightarrow> (radix_cache \<times> node_id list) option" where
  "radix_do (RadixMatch q) (c, hs) = map_option (\<lambda>(_, c). (c, hs)) (rc_match_prefix q c)"
| "radix_do (RadixInsert ids idx) (c, hs) = map_option (\<lambda>(_, c). (c, hs)) (rc_insert_prefix ids idx c)"
| "radix_do (RadixLock h) (c, hs) = map_option (\<lambda>c. (c, h # hs)) (rc_lock h c)"
| "radix_do (RadixUnlock h) (c, hs) = map_option (\<lambda>c. (c, remove1 h hs)) (rc_unlock h c)"
| "radix_do (RadixEvict n) (c, hs) = map_option (\<lambda>(_, c). (c, hs)) (rc_evict n c)"

fun radix_polite :: "radix_op \<Rightarrow> radix_cache \<times> node_id list \<Rightarrow> bool" where
  "radix_polite (RadixMatch q) (c, hs) \<longleftrightarrow> True"
| "radix_polite (RadixInsert ids idx) (c, hs) \<longleftrightarrow> length ids = length idx"
| "radix_polite (RadixLock h) (c, hs) \<longleftrightarrow> h = radix_root \<or> linked (rc_tree c) h"
| "radix_polite (RadixUnlock h) (c, hs) \<longleftrightarrow> h \<in> set hs"
| "radix_polite (RadixEvict n) (c, hs) \<longleftrightarrow> n \<le> rc_evictable_size c"

fun radix_run :: "radix_op list \<Rightarrow> radix_cache \<times> node_id list \<Rightarrow> (radix_cache \<times> node_id list) option" where
  "radix_run [] s = Some s"
| "radix_run (x # xs) s = Option.bind (radix_do x s) (radix_run xs)"

fun polite_run :: "radix_op list \<Rightarrow> radix_cache \<times> node_id list \<Rightarrow> bool" where
  "polite_run [] s \<longleftrightarrow> True"
| "polite_run (x # xs) s \<longleftrightarrow> radix_polite x s \<and> (case radix_do x s of None \<Rightarrow> True | Some s \<Rightarrow> polite_run xs s)"

lemma radix_do_ok:
  assumes "cache_ok hs c" "arena (rc_tree c) + 2 \<le> 2 ^ 32" "radix_polite x (c, hs)"
  shows "\<exists>c' hs'. radix_do x (c, hs) = Some (c', hs') \<and> cache_ok hs' c' \<and> arena (rc_tree c') \<le> arena (rc_tree c) + 2
    \<and> (\<forall>h ks vs. h \<in> set hs \<longrightarrow> spells (rc_tree c) h ks vs \<longrightarrow> spells (rc_tree c') h ks vs)
    \<and> (\<forall>h \<in> set hs. x \<noteq> RadixUnlock h \<longrightarrow> h \<in> set hs')"
proof (cases x)
  case (RadixMatch q)
  from assms(2) have "arena (rc_tree c) < 2 ^ 32" by simp
  from tree_walk_lands [OF assms(1) this, of q] show ?thesis
    unfolding RadixMatch by (fastforce simp: rc_match_prefix_def keeps_def)
next
  case (RadixInsert ids idx)
  with assms(3) have "length ids = length idx" by simp
  from insert_lands [OF assms(1,2) this refl] show ?thesis
    unfolding RadixInsert by fastforce
next
  case (RadixLock h)
  with assms(3) have "h = 0 \<or> linked (rc_tree c) h" by (simp add: radix_root_def)
  from linked_path [OF cache_okD(1) [OF assms(1)] this] obtain ks vs where "spells (rc_tree c) h ks vs" by blast
  from lock_ok [OF assms(1) this] obtain c' where c': "rc_lock h c = Some c'" "cache_ok (h # hs) c'" "refs_moved Suc h c c'"
    by blast
  note k = refs_moved_keeps [OF c'(3) cache_okD(1) [OF assms(1)]]
  from c' k(2,4) show ?thesis unfolding RadixLock by simp
next
  case (RadixUnlock h)
  with assms(3) have "h \<in> set hs" by simp
  from unlock_ok [OF assms(1) this] obtain c' where c': "rc_unlock h c = Some c'" "cache_ok (remove1 h hs) c'"
    "refs_moved (\<lambda>r. r - 1) h c c'" by blast
  note k = refs_moved_keeps [OF c'(3) cache_okD(1) [OF assms(1)]]
  from c' k(2,4) show ?thesis unfolding RadixUnlock by simp
next
  case (RadixEvict n)
  with assms(3) have "n \<le> rc_evictable_size c" by simp
  from evict_frees [OF assms(1) this] obtain freed c' where c': "rc_evict n c = Some (freed, c')" "evicts hs c c' freed" by blast
  have ok': "cache_ok hs c'" using c'(2) by (simp add: evicts_def)
  have "h = 0 \<or> linked (rc_tree c') h" if "h \<in> set hs" for h
    using cache_okD(3) [OF ok'] that by (simp add: locks_ok_def)
  with c' ok' show ?thesis unfolding RadixEvict by (simp add: evicts_def)
qed

lemma radix_run_ok:
  assumes "cache_ok hs c" "arena (rc_tree c) + 2 * length xs \<le> 2 ^ 32" "polite_run xs (c, hs)"
  shows "\<exists>c' hs'. radix_run xs (c, hs) = Some (c', hs') \<and> cache_ok hs' c'
    \<and> (\<forall>h ks vs. h \<in> set hs \<longrightarrow> RadixUnlock h \<notin> set xs \<longrightarrow> spells (rc_tree c) h ks vs \<longrightarrow>
        h \<in> set hs' \<and> spells (rc_tree c') h ks vs)"
  using assms
proof (induction xs arbitrary: c hs)
  case Nil
  then show ?case by simp
next
  case (Cons x xs)
  have "arena (rc_tree c) + 2 \<le> 2 ^ 32" "radix_polite x (c, hs)" using Cons.prems by simp_all
  from radix_do_ok [OF Cons.prems(1) this] obtain c1 hs1 where s: "radix_do x (c, hs) = Some (c1, hs1)" "cache_ok hs1 c1"
    "arena (rc_tree c1) \<le> arena (rc_tree c) + 2"
    "\<forall>h ks vs. h \<in> set hs \<longrightarrow> spells (rc_tree c) h ks vs \<longrightarrow> spells (rc_tree c1) h ks vs"
    "\<forall>h \<in> set hs. x \<noteq> RadixUnlock h \<longrightarrow> h \<in> set hs1" by blast
  have "arena (rc_tree c1) + 2 * length xs \<le> 2 ^ 32" "polite_run xs (c1, hs1)"
    using s(1,3) Cons.prems by simp_all
  from Cons.IH [OF s(2) this] obtain c' hs' where r: "radix_run xs (c1, hs1) = Some (c', hs')" "cache_ok hs' c'"
    "\<forall>h ks vs. h \<in> set hs1 \<longrightarrow> RadixUnlock h \<notin> set xs \<longrightarrow> spells (rc_tree c1) h ks vs \<longrightarrow>
        h \<in> set hs' \<and> spells (rc_tree c') h ks vs" by blast
  have "h \<in> set hs' \<and> spells (rc_tree c') h ks vs"
    if "h \<in> set hs" "RadixUnlock h \<notin> set (x # xs)" "spells (rc_tree c) h ks vs" for h ks vs
  proof -
    have "x \<noteq> RadixUnlock h" using that(2) by auto
    with that s(4,5) have "h \<in> set hs1" "spells (rc_tree c1) h ks vs" by blast+
    with that(2) r(3) show ?thesis by simp
  qed
  with s(1) r(1,2) show ?case by simp
qed

lemma integrity_holds:
  assumes "cache_ok hs c"
  shows "rc_check_integrity c"
proof -
  let ?t = "rc_tree c"
  have ok: "tree_ok ?t" using assms by (rule cache_okD)
  from walk_visits [OF ok] obtain ids where ids: "rt_walk ?t = Some ids" "distinct ids" "set ids = {i. linked ?t i}" by blast
  have total: "sum_list (map f ids) = (\<Sum>i < arena ?t. if rn_parent (nd ?t i) = None then 0 else f i)" for f :: "nat \<Rightarrow> nat"
  proof -
    have "sum_list (map f ids) = sum f {i. linked ?t i}" using ids(2,3) by (simp add: sum_list_distinct_conv_sum_set)
    also have "{i. linked ?t i} = {i \<in> {..< arena ?t}. rn_parent (nd ?t i) \<noteq> None}" by (auto simp: linked_def)
    also have "sum f \<dots> = (\<Sum>i < arena ?t. if rn_parent (nd ?t i) \<noteq> None then f i else 0)"
      by (rule sum.inter_filter) simp
    also have "\<dots> = (\<Sum>i < arena ?t. if rn_parent (nd ?t i) = None then 0 else f i)"
      by (rule sum.cong) auto
    finally show ?thesis .
  qed
  show ?thesis
    using structure_holds [OF ok] cache_okD(2) [OF assms]
    by (simp add: rc_check_integrity_def ids(1) total acct_ok_def idle_size_def busy_size_def tally_def Let_def rn_length_def cong: if_cong)
qed

text \<open>
  C37. However lookups, insertions, locks, unlocks and evictions follow one another, no operation
  panics and the integrity check passes: the tree is well formed and both sizes are what the nodes say.
\<close>

theorem integrity_never_fails:
  assumes "radix_cache_new ps = Some c" "polite_run xs (c, [])" "2 * length xs < 2 ^ 32"
  shows "\<exists>c' hs. radix_run xs (c, []) = Some (c', hs) \<and> rc_check_integrity c'"
proof -
  note n = new_ok [OF assms(1)]
  have "arena (rc_tree c) + 2 * length xs \<le> 2 ^ 32" using n(2) assms(3) by simp
  from radix_run_ok [OF n(1) this assms(2)] integrity_holds show ?thesis by blast
qed

text \<open>
  C38. A locked prefix stays: as long as its lock is held the handle's pages are the same, whatever
  splits, insertions and evictions come in between.
\<close>

theorem locked_prefix_stays:
  assumes "cache_ok hs c" "h \<in> set hs" "polite_run xs (c, hs)" "RadixUnlock h \<notin> set xs"
    and "arena (rc_tree c) + 2 * length xs \<le> 2 ^ 32"
  shows "\<exists>c' hs' vs. radix_run xs (c, hs) = Some (c', hs') \<and> h \<in> set hs'
    \<and> rc_matched_indices c h = Some vs \<and> rc_matched_indices c' h = Some vs"
proof -
  from radix_run_ok [OF assms(1,5,3)] obtain c' hs' where r: "radix_run xs (c, hs) = Some (c', hs')" "cache_ok hs' c'"
    "\<forall>h ks vs. h \<in> set hs \<longrightarrow> RadixUnlock h \<notin> set xs \<longrightarrow> spells (rc_tree c) h ks vs \<longrightarrow>
        h \<in> set hs' \<and> spells (rc_tree c') h ks vs" by blast
  have "h = 0 \<or> linked (rc_tree c) h" using cache_okD(3) [OF assms(1)] assms(2) by (simp add: locks_ok_def)
  from linked_path [OF cache_okD(1) [OF assms(1)] this] obtain ks vs where sp: "spells (rc_tree c) h ks vs" by blast
  with r assms(2,4) have sp': "h \<in> set hs'" "spells (rc_tree c') h ks vs" by simp_all
  from path_value_spells [OF sp cache_okD(1) [OF assms(1)]] path_value_spells [OF sp'(2) cache_okD(1) [OF r(2)]] r(1) sp'(1)
  show ?thesis by (simp add: rc_matched_indices_def)
qed

section \<open>Witnesses\<close>

lemma sample_radix_run:
  "radix_run [RadixInsert [1, 2, 3, 4] [10, 11, 12, 13], RadixInsert [1, 2, 5, 6, 9] [20, 21, 22, 23, 24]]
     (the (radix_cache_new 2), []) = Some (sample_radix, [])"
  "polite_run [RadixInsert [1, 2, 3, 4] [10, 11, 12, 13], RadixInsert [1, 2, 5, 6, 9] [20, 21, 22, 23, 24]]
     (the (radix_cache_new 2), [])"
  by code_simp+

lemma sample_radix_ok: "cache_ok [] sample_radix"
proof -
  have "radix_cache_new 2 = Some (the (radix_cache_new 2))" by (simp add: radix_cache_new_def radix_tree_new_def)
  note n = new_ok [OF this]
  from radix_run_ok [OF n(1) _ sample_radix_run(2)] n(2) sample_radix_run(1) show ?thesis by auto
qed

lemma sample_radix_arena: "arena (rc_tree sample_radix) = 4"
  by code_simp

theorem lookup_finds_longest_witness:
  "\<exists>c'. rc_match_prefix [1, 2, 5, 9] sample_radix = Some (\<lparr>mr_cached_len = 2, mr_node = 2\<rparr>, c')
    \<and> longest_held (rc_tree sample_radix) [1, 2, 5, 9] 2 \<and> rc_matched_indices c' 2 = Some [10, 11]"
proof -
  have "map_option fst (rc_match_prefix [1, 2, 5, 9] sample_radix) = Some \<lparr>mr_cached_len = 2, mr_node = 2\<rparr>"
    "Option.bind (rc_match_prefix [1, 2, 5, 9] sample_radix) (\<lambda>(_, c). rc_matched_indices c 2) = Some [10, 11]"
    by code_simp+
  then show ?thesis
    using lookup_finds_longest [OF sample_radix_ok, of "[1, 2, 5, 9]"] sample_radix_arena by auto
qed

theorem insert_stores_whole_pages_witness:
  "\<exists>c'. rc_insert_prefix [1, 2, 5, 6, 7, 8, 9] [30, 31, 32, 33, 34, 35, 36] sample_radix
      = Some (\<lparr>ir_cached_len = 4, ir_node = 4, ir_inserted_len = 6\<rparr>, c')
    \<and> rc_matched_indices c' 4 = Some [10, 11, 22, 23, 34, 35]
    \<and> tree_pages (rc_tree c') = tree_pages (rc_tree sample_radix) + {#34, 35#}"
proof -
  let ?ins = "rc_insert_prefix [1, 2, 5, 6, 7, 8, 9] [30, 31, 32, 33, 34, 35, 36] sample_radix"
  have "map_option fst ?ins = Some \<lparr>ir_cached_len = 4, ir_node = 4, ir_inserted_len = 6\<rparr>"
    "Option.bind ?ins (\<lambda>(_, c). rc_matched_indices c 4) = Some [10, 11, 22, 23, 34, 35]"
    by code_simp+
  then show ?thesis
    using insert_stores_whole_pages [OF sample_radix_ok, of "[1, 2, 5, 6, 7, 8, 9]" "[30, 31, 32, 33, 34, 35, 36]"]
      sample_radix_arena by (auto simp: Let_def)
qed

theorem evict_oldest_unlocked_witness:
  "\<exists>c'. rc_evict 1 sample_radix = Some ([12, 13], c') \<and> rc_evictable_size c' = 4"
proof -
  have "map_option fst (rc_evict 1 sample_radix) = Some [12, 13]" "rc_evictable_size sample_radix = 6"
    by code_simp+
  then show ?thesis using evict_oldest_unlocked [OF sample_radix_ok, of 1] by auto
qed

definition sample_run :: "radix_op list" where
  "sample_run = [RadixInsert [1, 2, 3, 4] [10, 11, 12, 13], RadixMatch [1, 2, 3, 4], RadixLock 1,
     RadixInsert [1, 2, 5, 6] [20, 21, 22, 23], RadixEvict 2, RadixUnlock 1]"

theorem integrity_never_fails_witness:
  "\<exists>c'. radix_run sample_run (the (radix_cache_new 2), []) = Some (c', []) \<and> rc_check_integrity c'"
proof -
  have new: "radix_cache_new 2 = Some (the (radix_cache_new 2))" by (simp add: radix_cache_new_def radix_tree_new_def)
  have "polite_run sample_run (the (radix_cache_new 2), [])" "length sample_run = 6"
    "map_option snd (radix_run sample_run (the (radix_cache_new 2), [])) = Some []"
    by code_simp+
  then show ?thesis using integrity_never_fails [OF new, of sample_run] by auto
qed

theorem locked_prefix_stays_witness:
  "\<exists>c hs c' hs'. radix_run (take 3 sample_run) (the (radix_cache_new 2), []) = Some (c, hs)
    \<and> radix_run [RadixInsert [1, 2, 5, 6] [20, 21, 22, 23], RadixEvict 2] (c, hs) = Some (c', hs')
    \<and> rc_matched_indices c 1 = Some [10, 11, 12, 13] \<and> rc_matched_indices c' 1 = Some [10, 11, 12, 13]"
proof -
  let ?new = "the (radix_cache_new 2)" and ?more = "[RadixInsert [1, 2, 5, 6] [20, 21, 22, 23], RadixEvict 2]"
  have new: "radix_cache_new 2 = Some ?new" by (simp add: radix_cache_new_def radix_tree_new_def)
  define c where "c = fst (the (radix_run (take 3 sample_run) (?new, [])))"
  have run: "radix_run (take 3 sample_run) (?new, []) = Some (c, [1])" "polite_run (take 3 sample_run) (?new, [])"
    unfolding c_def by code_simp+
  from radix_run_ok [OF new_ok(1) [OF new] _ run(2)] run(1) new_ok(2) [OF new] have "cache_ok [1] c"
    by (auto simp: sample_run_def)
  moreover have "polite_run ?more (c, [1])" "arena (rc_tree c) = 2" "rc_matched_indices c 1 = Some [10, 11, 12, 13]"
    unfolding c_def by code_simp+
  ultimately show ?thesis using locked_prefix_stays [of "[1]" c 1 ?more] run(1) by auto
qed

end
