(* ===== verification/Salted_Radix.thy ===== *)
theory Salted_Radix
  imports Radix_Runs
begin

text \<open>
  One prefix cache per caller namespace over one page pool (\<^verbatim>\<open>policy/radix/salted.rs\<close>): a namespace
  is created on first use, a handle names the namespace it lives in, and eviction goes round the
  namespaces one node at a time.

  The hash map of namespaces is an association list; the only iterations over it are sums.  The
  eviction cursor is a 64-bit \<open>usize\<close> that wraps, as the code has it.
\<close>

section \<open>The caches\<close>

type_synonym salt = "64 word option"

record radix_handle =
  rh_salt :: salt
  rh_node :: node_id

record salted_match =
  sm_cached_len :: nat
  sm_handle :: radix_handle

record salted_insert =
  si_cached_len :: nat
  si_inserted_len :: nat
  si_handle :: radix_handle

record salted_radix =
  sr_page_size :: nat
  sr_namespaces :: "(salt \<times> radix_cache) list"
  sr_order :: "salt list"
  sr_evict_cursor :: "64 word"

definition salted_new :: "nat \<Rightarrow> salted_radix" where
  "salted_new page_size = \<lparr>sr_page_size = page_size, sr_namespaces = [], sr_order = [], sr_evict_cursor = 0\<rparr>"

text \<open>The namespace of a salt, created when it is new.\<close>

definition sr_tree :: "salt \<Rightarrow> salted_radix \<Rightarrow> (radix_cache \<times> salted_radix) option" where
  "sr_tree salt s =
     (case map_of (sr_namespaces s) salt of
        Some c \<Rightarrow> Some (c, s)
      | None \<Rightarrow>
          (case radix_cache_new (sr_page_size s) of
             None \<Rightarrow> None
           | Some c \<Rightarrow> Some (c, s\<lparr>sr_order := sr_order s @ [salt], sr_namespaces := AList.update salt c (sr_namespaces s)\<rparr>)))"

definition sr_store :: "salt \<Rightarrow> radix_cache \<Rightarrow> salted_radix \<Rightarrow> salted_radix" where
  "sr_store salt c s = s\<lparr>sr_namespaces := AList.update salt c (sr_namespaces s)\<rparr>"

definition sr_match_prefix :: "salt \<Rightarrow> u32 list \<Rightarrow> salted_radix \<Rightarrow> (salted_match \<times> salted_radix) option" where
  "sr_match_prefix salt input_ids s = do {
     (c, s) \<leftarrow> sr_tree salt s;
     (m, c) \<leftarrow> rc_match_prefix input_ids c;
     Some (\<lparr>sm_cached_len = mr_cached_len m, sm_handle = \<lparr>rh_salt = salt, rh_node = mr_node m\<rparr>\<rparr>, sr_store salt c s)
   }"

definition sr_cached_len :: "salted_radix \<Rightarrow> salt \<Rightarrow> u32 list \<Rightarrow> nat option" where
  "sr_cached_len s salt input_ids =
     (case map_of (sr_namespaces s) salt of None \<Rightarrow> Some 0 | Some c \<Rightarrow> rc_peek_cached_len c input_ids)"

definition sr_insert_prefix :: "salt \<Rightarrow> u32 list \<Rightarrow> u32 list \<Rightarrow> salted_radix \<Rightarrow> (salted_insert \<times> salted_radix) option" where
  "sr_insert_prefix salt input_ids indices s = do {
     (c, s) \<leftarrow> sr_tree salt s;
     (r, c) \<leftarrow> rc_insert_prefix input_ids indices c;
     Some (\<lparr>si_cached_len = ir_cached_len r, si_inserted_len = ir_inserted_len r,
            si_handle = \<lparr>rh_salt = salt, rh_node = ir_node r\<rparr>\<rparr>, sr_store salt c s)
   }"

definition sr_matched_indices :: "radix_handle \<Rightarrow> salted_radix \<Rightarrow> (u32 list \<times> salted_radix) option" where
  "sr_matched_indices h s = do {
     (c, s) \<leftarrow> sr_tree (rh_salt h) s;
     idx \<leftarrow> rc_matched_indices c (rh_node h);
     Some (idx, s)
   }"

definition sr_lock :: "radix_handle \<Rightarrow> salted_radix \<Rightarrow> salted_radix option" where
  "sr_lock h s = do {
     (c, s) \<leftarrow> sr_tree (rh_salt h) s;
     c \<leftarrow> rc_lock (rh_node h) c;
     Some (sr_store (rh_salt h) c s)
   }"

definition sr_unlock :: "radix_handle \<Rightarrow> salted_radix \<Rightarrow> salted_radix option" where
  "sr_unlock h s = do {
     (c, s) \<leftarrow> sr_tree (rh_salt h) s;
     c \<leftarrow> rc_unlock (rh_node h) c;
     Some (sr_store (rh_salt h) c s)
   }"

definition sr_evictable_size :: "salted_radix \<Rightarrow> nat" where
  "sr_evictable_size s = sum_list (map (\<lambda>(_, c). rc_evictable_size c) (sr_namespaces s))"

definition sr_protected_size :: "salted_radix \<Rightarrow> nat" where
  "sr_protected_size s = sum_list (map (\<lambda>(_, c). rc_protected_size c) (sr_namespaces s))"

definition sr_total_size :: "salted_radix \<Rightarrow> nat" where
  "sr_total_size s = sum_list (map (\<lambda>(_, c). rc_total_size c) (sr_namespaces s))"

text \<open>One pass over the namespaces: the first flag says whether anything was freed, the second whether
  the call returns from inside the pass.\<close>

fun sr_evict_pass :: "nat \<Rightarrow> nat \<Rightarrow> u32 list \<Rightarrow> nat \<Rightarrow> bool \<Rightarrow> salted_radix
    \<Rightarrow> (u32 list \<times> nat \<times> bool \<times> bool \<times> salted_radix) option" where
  "sr_evict_pass 0 wanted freed taken progress s = Some (freed, taken, progress, False, s)"
| "sr_evict_pass (Suc n) wanted freed taken progress s = do {
     let salt = sr_order s ! (unat (sr_evict_cursor s) mod length (sr_order s));
     let s = s\<lparr>sr_evict_cursor := sr_evict_cursor s + 1\<rparr>;
     c \<leftarrow> map_of (sr_namespaces s) salt;
     if rc_evictable_size c = 0 then sr_evict_pass n wanted freed taken progress s
     else do {
       (got, c) \<leftarrow> rc_evict 1 c;
       let s = sr_store salt c s;
       let taken = taken + length got;
       let freed = freed @ got;
       if wanted \<le> taken then Some (freed, taken, True, True, s)
       else sr_evict_pass n wanted freed taken True s
     }
   }"

partial_function (option) sr_evict_loop :: "nat \<Rightarrow> u32 list \<Rightarrow> nat \<Rightarrow> salted_radix \<Rightarrow> (u32 list \<times> salted_radix) option" where
  "sr_evict_loop wanted freed taken s =
     (case sr_evict_pass (length (sr_order s)) wanted freed taken False s of
        None \<Rightarrow> None
      | Some (freed, taken, progress, returned, s) \<Rightarrow>
          if returned \<or> \<not> progress then Some (freed, s)
          else sr_evict_loop wanted freed taken s)"

declare sr_evict_loop.simps [code]

definition sr_evict :: "nat \<Rightarrow> salted_radix \<Rightarrow> (u32 list \<times> salted_radix) option" where
  "sr_evict wanted s =
     (if wanted = 0 \<or> sr_order s = [] then Some ([], s) else sr_evict_loop wanted [] 0 s)"

section \<open>A well-formed set of namespaces\<close>

text \<open>\<open>L\<close> gives the locks held in each namespace.\<close>

definition salted_ok :: "(salt \<Rightarrow> node_id list) \<Rightarrow> salted_radix \<Rightarrow> bool" where
  "salted_ok L s \<longleftrightarrow> 0 < sr_page_size s \<and> distinct (map fst (sr_namespaces s)) \<and> distinct (sr_order s)
     \<and> set (sr_order s) = fst ` set (sr_namespaces s)
     \<and> (\<forall>salt. map_of (sr_namespaces s) salt = None \<longrightarrow> L salt = [])
     \<and> (\<forall>salt c. map_of (sr_namespaces s) salt = Some c \<longrightarrow> cache_ok (L salt) c \<and> rc_page_size c = sr_page_size s)"

abbreviation ns :: "salted_radix \<Rightarrow> salt \<rightharpoonup> radix_cache" where
  "ns s \<equiv> map_of (sr_namespaces s)"

text \<open>The cache a salt would be served from, before it is created too.\<close>

definition ns_or_new :: "salted_radix \<Rightarrow> salt \<Rightarrow> radix_cache" where
  "ns_or_new s salt = (case ns s salt of Some c \<Rightarrow> c | None \<Rightarrow> the (radix_cache_new (sr_page_size s)))"

lemma new_some: "0 < ps \<Longrightarrow> radix_cache_new ps = Some (the (radix_cache_new ps))"
  by (simp add: radix_cache_new_def radix_tree_new_def)

lemma salted_new_ok: "0 < ps \<Longrightarrow> salted_ok (\<lambda>_. []) (salted_new ps)"
  by (simp add: salted_ok_def salted_new_def)

lemma ns_or_new_ok:
  assumes "salted_ok L s"
  shows "cache_ok (L salt) (ns_or_new s salt)" "rc_page_size (ns_or_new s salt) = sr_page_size s"
proof -
  have ps: "0 < sr_page_size s" using assms by (simp add: salted_ok_def)
  note n = new_ok [OF new_some [OF ps]]
  show "cache_ok (L salt) (ns_or_new s salt)" "rc_page_size (ns_or_new s salt) = sr_page_size s"
    using assms n(1,3) by (auto simp: salted_ok_def ns_or_new_def split: option.splits)
qed

lemma sr_tree_ok:
  assumes "salted_ok L s"
  shows "\<exists>s'. sr_tree salt s = Some (ns_or_new s salt, s') \<and> salted_ok L s'
    \<and> ns s' = (ns s)(salt \<mapsto> ns_or_new s salt) \<and> sr_page_size s' = sr_page_size s"
proof (cases "ns s salt")
  case (Some c)
  then have "(ns s)(salt \<mapsto> c) = ns s" by auto
  with Some assms show ?thesis by (simp add: sr_tree_def ns_or_new_def)
next
  case None
  have ps: "0 < sr_page_size s" using assms by (simp add: salted_ok_def)
  let ?c = "the (radix_cache_new (sr_page_size s))"
  let ?s = "s\<lparr>sr_order := sr_order s @ [salt], sr_namespaces := AList.update salt ?c (sr_namespaces s)\<rparr>"
  note n = new_ok [OF new_some [OF ps]]
  have fresh: "salt \<notin> fst ` set (sr_namespaces s)" using None by (simp add: map_of_eq_None_iff)
  have "sr_tree salt s = Some (?c, ?s)"
    using None new_some [OF ps] by (cases "radix_cache_new (sr_page_size s)") (simp_all add: sr_tree_def)
  moreover have "salted_ok L ?s"
    using assms n(1,3) fresh None
    by (auto simp: salted_ok_def key_update_lookup distinct_update dom_update split: if_splits)
  ultimately show ?thesis using None by (auto simp: ns_or_new_def key_update_lookup)
qed

lemma sr_store_ok:
  assumes "salted_ok L s" "cache_ok hs c" "rc_page_size c = sr_page_size s" "ns s salt \<noteq> None"
  shows "salted_ok (L(salt := hs)) (sr_store salt c s)" "ns (sr_store salt c s) = (ns s)(salt \<mapsto> c)"
    "sr_page_size (sr_store salt c s) = sr_page_size s"
proof -
  have "salt \<in> fst ` set (sr_namespaces s)" using assms(4) by (simp add: map_of_eq_None_iff)
  then show "salted_ok (L(salt := hs)) (sr_store salt c s)"
    using assms(1-3) by (auto simp: salted_ok_def sr_store_def key_update_lookup distinct_update dom_update split: if_splits)
  show "ns (sr_store salt c s) = (ns s)(salt \<mapsto> c)" "sr_page_size (sr_store salt c s) = sr_page_size s"
    by (simp_all add: sr_store_def key_update_lookup)
qed

section \<open>Eviction across namespaces\<close>

definition sr_sum :: "(radix_cache \<Rightarrow> 'a :: comm_monoid_add) \<Rightarrow> salted_radix \<Rightarrow> 'a" where
  "sr_sum f s = sum_list (map (\<lambda>(_, c). f c) (sr_namespaces s))"

lemma sr_sums:
  "sr_evictable_size = sr_sum rc_evictable_size" "sr_protected_size = sr_sum rc_protected_size"
  "sr_total_size = sr_sum rc_total_size"
  by (simp_all add: fun_eq_iff sr_sum_def sr_evictable_size_def sr_protected_size_def sr_total_size_def)

lemma sum_update:
  "map_of al k = Some c \<Longrightarrow> distinct (map fst al) \<Longrightarrow>
    sum_list (map (\<lambda>(_, c). f c) (AList.update k c' al)) + f c = sum_list (map (\<lambda>(_, c). f c) al) + (f c' :: 'a :: comm_monoid_add)"
  by (induction al) (auto simp: add_ac)

lemma sr_sum_store:
  assumes "ns s salt = Some c" "salted_ok L s"
  shows "sr_sum f (sr_store salt c' s) + f c = sr_sum f s + f c'"
  using sum_update [OF assms(1), of f c'] assms(2) by (simp add: sr_sum_def sr_store_def salted_ok_def)

lemma sr_sum_le:
  fixes f :: "radix_cache \<Rightarrow> nat"
  assumes "ns s salt = Some c"
  shows "f c \<le> sr_sum f s"
proof -
  have "f c \<in> set (map (\<lambda>(_, c). f c) (sr_namespaces s))" using map_of_SomeD [OF assms] by force
  then show ?thesis unfolding sr_sum_def by (rule member_le_sum_list) simp
qed

definition sr_pages :: "salted_radix \<Rightarrow> u32 multiset" where
  "sr_pages = sr_sum (\<lambda>c. tree_pages (rc_tree c))"

definition sr_evicts :: "(salt \<Rightarrow> node_id list) \<Rightarrow> salted_radix \<Rightarrow> salted_radix \<Rightarrow> u32 list \<Rightarrow> bool" where
  "sr_evicts L s s' freed \<longleftrightarrow> salted_ok L s' \<and> sr_order s' = sr_order s \<and> sr_page_size s' = sr_page_size s
     \<and> (\<forall>salt. ns s salt = None \<longleftrightarrow> ns s' salt = None)
     \<and> (\<forall>salt c c'. ns s salt = Some c \<longrightarrow> ns s' salt = Some c' \<longrightarrow> (\<exists>f. evicts (L salt) c c' f))
     \<and> sr_evictable_size s = sr_evictable_size s' + length freed \<and> sr_protected_size s' = sr_protected_size s
     \<and> sr_pages s = sr_pages s' + mset freed"

lemma sr_evicts_refl: "salted_ok L s \<Longrightarrow> sr_evicts L s s []"
  using evicts_refl by (fastforce simp: sr_evicts_def salted_ok_def)

lemma sr_evicts_trans:
  assumes "sr_evicts L s s1 f1" "sr_evicts L s1 s2 f2"
  shows "sr_evicts L s s2 (f1 @ f2)"
proof -
  have "\<exists>f. evicts (L salt) c c2 f" if "ns s salt = Some c" "ns s2 salt = Some c2" for salt c c2
  proof -
    from assms that obtain c1 where c1: "ns s1 salt = Some c1" by (fastforce simp: sr_evicts_def)
    from assms that c1 obtain f g where "evicts (L salt) c c1 f" "evicts (L salt) c1 c2 g"
      unfolding sr_evicts_def by blast
    from evicts_trans [OF this] show ?thesis by blast
  qed
  moreover have "salted_ok L s2" "sr_order s2 = sr_order s" "sr_page_size s2 = sr_page_size s"
    "\<forall>salt. ns s salt = None \<longleftrightarrow> ns s2 salt = None"
    "sr_evictable_size s = sr_evictable_size s2 + length (f1 @ f2)" "sr_protected_size s2 = sr_protected_size s"
    "sr_pages s = sr_pages s2 + mset (f1 @ f2)"
    using assms by (simp_all add: sr_evicts_def)
  ultimately show ?thesis unfolding sr_evicts_def by blast
qed

lemma salted_cursor: "salted_ok L (s\<lparr>sr_evict_cursor := k\<rparr>) \<longleftrightarrow> salted_ok L s"
  by (simp add: salted_ok_def)

lemma sr_evicts_cursor: "sr_evicts L (s\<lparr>sr_evict_cursor := k\<rparr>) s' f \<longleftrightarrow> sr_evicts L s s' f"
  by (simp add: sr_evicts_def sr_evictable_size_def sr_protected_size_def sr_pages_def sr_sum_def)

text \<open>Taking one node from one namespace.\<close>

lemma evict_one:
  assumes "salted_ok L s" "ns s salt = Some c" "rc_evictable_size c \<noteq> 0"
  shows "\<exists>got c'. rc_evict 1 c = Some (got, c') \<and> got \<noteq> [] \<and> sr_evicts L s (sr_store salt c' s) got"
proof -
  have c: "cache_ok (L salt) c" "rc_page_size c = sr_page_size s" using assms(1,2) by (simp_all add: salted_ok_def)
  have "1 \<le> rc_evictable_size c" using assms(3) by simp
  from evict_frees [OF c(1) this] obtain got c' where g: "rc_evict 1 c = Some (got, c')" "evicts (L salt) c c' got"
    "1 \<le> length got" by blast
  have c': "cache_ok (L salt) c'" "rc_page_size c' = sr_page_size s" using g(2) c(2) by (simp_all add: evicts_def)
  from sr_store_ok [OF assms(1) c', of salt] assms(2)
  have st: "salted_ok L (sr_store salt c' s)" "ns (sr_store salt c' s) = (ns s)(salt \<mapsto> c')" by simp_all
  have "sr_evicts L s (sr_store salt c' s) got"
    unfolding sr_evicts_def
  proof (intro conjI allI impI)
    show "salted_ok L (sr_store salt c' s)" by (rule st)
    show "sr_order (sr_store salt c' s) = sr_order s" "sr_page_size (sr_store salt c' s) = sr_page_size s"
      by (simp_all add: sr_store_def)
    show "sr_evictable_size s = sr_evictable_size (sr_store salt c' s) + length got"
      using sr_sum_store [OF assms(2,1), of rc_evictable_size c'] g(2) by (simp add: sr_sums evicts_def)
    show "sr_protected_size (sr_store salt c' s) = sr_protected_size s"
      using sr_sum_store [OF assms(2,1), of rc_protected_size c'] g(2) by (simp add: sr_sums evicts_def)
    show "sr_pages s = sr_pages (sr_store salt c' s) + mset got"
      using sr_sum_store [OF assms(2,1), of "\<lambda>c. tree_pages (rc_tree c)" c'] g(2) by (simp add: sr_pages_def evicts_def)
  next
    fix t
    show "ns s t = None \<longleftrightarrow> ns (sr_store salt c' s) t = None" using st(2) assms(2) by simp
  next
    fix t d d' assume d: "ns s t = Some d" "ns (sr_store salt c' s) t = Some d'"
    show "\<exists>f. evicts (L t) d d' f"
    proof (cases "t = salt")
      case True
      with d st(2) assms(2) g(2) show ?thesis by auto
    next
      case False
      with d st(2) have "d' = d" by simp
      moreover have "cache_ok (L t) d" using assms(1) d(1) by (simp add: salted_ok_def)
      ultimately show ?thesis using evicts_refl by blast
    qed
  qed
  with g show ?thesis by (intro exI [of _ got] exI [of _ c']) auto
qed

definition asked :: "salted_radix \<Rightarrow> nat \<Rightarrow> salt" where
  "asked s k = sr_order s ! (k mod length (sr_order s))"

lemma evict_pass_frees:
  assumes "salted_ok L s" "sr_order s \<noteq> []" "unat (sr_evict_cursor s) + n < 2 ^ 64" "taken < wanted"
  shows "\<exists>f pr ret s'. sr_evict_pass n wanted freed taken pr0 s = Some (freed @ f, taken + length f, pr, ret, s')
    \<and> sr_evicts L s s' f \<and> (ret \<longrightarrow> wanted \<le> taken + length f)
    \<and> (\<not> ret \<longrightarrow> taken + length f < wanted \<and> unat (sr_evict_cursor s') = unat (sr_evict_cursor s) + n \<and> (pr \<longleftrightarrow> pr0 \<or> f \<noteq> [])
        \<and> (f = [] \<longrightarrow> (\<forall>j < n. \<forall>c. ns s (asked s (unat (sr_evict_cursor s) + j)) = Some c \<longrightarrow> rc_evictable_size c = 0)))"
  using assms
proof (induction n arbitrary: s freed taken pr0)
  case 0
  then show ?case using sr_evicts_refl by (intro exI [of _ "[]"] exI [of _ pr0] exI [of _ False] exI [of _ s]) simp
next
  case (Suc n)
  let ?k = "unat (sr_evict_cursor s)"
  define salt where "salt = asked s ?k"
  define s1 where "s1 = s\<lparr>sr_evict_cursor := sr_evict_cursor s + 1\<rparr>"
  have s1: "salted_ok L s1" "sr_order s1 = sr_order s" "ns s1 = ns s" using Suc.prems(1) by (simp_all add: s1_def salted_cursor)
  have k1: "unat (sr_evict_cursor s1) = ?k + 1"
    using Suc.prems(3) by (simp add: s1_def unat_word_ariths)
  have "salt \<in> set (sr_order s)" using Suc.prems(2) by (simp add: salt_def asked_def)
  then have "salt \<in> fst ` set (sr_namespaces s)" using Suc.prems(1) by (simp add: salted_ok_def)
  then obtain c where c: "ns s salt = Some c" by (metis domD dom_map_of_conv_image_fst)
  show ?case
  proof (cases "rc_evictable_size c = 0")
    case True
    have "unat (sr_evict_cursor s1) + n < 2 ^ 64" using k1 Suc.prems(3) by simp
    from Suc.IH [OF s1(1) _ this Suc.prems(4), of freed pr0] s1(2) Suc.prems(2) obtain f pr ret s' where
      r: "sr_evict_pass n wanted freed taken pr0 s1 = Some (freed @ f, taken + length f, pr, ret, s')"
        "sr_evicts L s1 s' f" "ret \<longrightarrow> wanted \<le> taken + length f"
        "\<not> ret \<longrightarrow> taken + length f < wanted \<and> unat (sr_evict_cursor s') = unat (sr_evict_cursor s1) + n \<and> (pr \<longleftrightarrow> pr0 \<or> f \<noteq> [])
          \<and> (f = [] \<longrightarrow> (\<forall>j < n. \<forall>c. ns s1 (asked s1 (unat (sr_evict_cursor s1) + j)) = Some c \<longrightarrow> rc_evictable_size c = 0))"
      by auto
    have "sr_evict_pass (Suc n) wanted freed taken pr0 s = sr_evict_pass n wanted freed taken pr0 s1"
      using c True by (simp add: s1_def salt_def asked_def Let_def)
    moreover have "\<forall>j < Suc n. \<forall>d. ns s (asked s (?k + j)) = Some d \<longrightarrow> rc_evictable_size d = 0"
      if ret: "\<not> ret" "f = []"
    proof (intro allI impI)
      fix j d assume j: "j < Suc n" "ns s (asked s (?k + j)) = Some d"
      show "rc_evictable_size d = 0"
      proof (cases j)
        case 0
        with j c True show ?thesis by (simp add: salt_def)
      next
        case (Suc i)
        then have "i < n" "ns s1 (asked s1 (unat (sr_evict_cursor s1) + i)) = Some d"
          using j k1 by (simp_all add: s1(3) asked_def s1(2))
        with r(4) ret show ?thesis by blast
      qed
    qed
    moreover have "sr_evicts L s s' f" using r(2) by (simp add: s1_def sr_evicts_cursor)
    moreover have "\<not> ret \<longrightarrow> taken + length f < wanted \<and> unat (sr_evict_cursor s') = ?k + Suc n \<and> (pr \<longleftrightarrow> pr0 \<or> f \<noteq> [])"
      using r(4) k1 by simp
    ultimately show ?thesis using r(1,3) by (intro exI [of _ f] exI [of _ pr] exI [of _ ret] exI [of _ s']) metis
  next
    case False
    have "ns s1 salt = Some c" using c s1(3) by simp
    from evict_one [OF s1(1) this False] obtain got c' where g: "rc_evict 1 c = Some (got, c')" "got \<noteq> []"
      "sr_evicts L s1 (sr_store salt c' s1) got" by blast
    define s2 where "s2 = sr_store salt c' s1"
    have s2: "salted_ok L s2" "sr_order s2 = sr_order s" "sr_evict_cursor s2 = sr_evict_cursor s1"
      using g(3) s1(2) by (simp_all add: s2_def sr_evicts_def sr_store_def)
    have first: "sr_evicts L s s2 got" using g(3) by (simp add: s2_def s1_def sr_evicts_cursor)
    show ?thesis
    proof (cases "wanted \<le> taken + length got")
      case True
      have "sr_evict_pass (Suc n) wanted freed taken pr0 s = Some (freed @ got, taken + length got, True, True, s2)"
        using c False g(1) True by (simp add: s1_def s2_def salt_def asked_def Let_def)
      with first True show ?thesis by blast
    next
      case more: False
      have "unat (sr_evict_cursor s2) + n < 2 ^ 64" "taken + length got < wanted" using s2(3) k1 Suc.prems(3) more by simp_all
      from Suc.IH [OF s2(1) _ this, of "freed @ got" True] s2(2) Suc.prems(2) obtain f pr ret s' where
        r: "sr_evict_pass n wanted (freed @ got) (taken + length got) True s2 = Some ((freed @ got) @ f, taken + length got + length f, pr, ret, s')"
          "sr_evicts L s2 s' f" "ret \<longrightarrow> wanted \<le> taken + length got + length f"
          "\<not> ret \<longrightarrow> taken + length got + length f < wanted \<and> unat (sr_evict_cursor s') = unat (sr_evict_cursor s2) + n \<and> pr"
        by auto
      have "sr_evict_pass (Suc n) wanted freed taken pr0 s = sr_evict_pass n wanted (freed @ got) (taken + length got) True s2"
        using c False g(1) more by (simp add: s1_def s2_def salt_def asked_def Let_def)
      with r sr_evicts_trans [OF first r(2)] g(2) s2(3) k1 show ?thesis
        by (intro exI [of _ "got @ f"] exI [of _ pr] exI [of _ ret] exI [of _ s']) (auto simp: add_ac)
    qed
  qed
qed

text \<open>Consecutive cursors reach every namespace.\<close>

lemma cursor_reaches:
  assumes "i < (n :: nat)"
  shows "\<exists>j < n. (k + j) mod n = i"
proof -
  define j where "j = (i + (n - k mod n)) mod n"
  have "(k + j) mod n = (k + (i + (n - k mod n))) mod n" unfolding j_def by (simp add: mod_add_right_eq)
  also have "\<dots> = (k mod n + (i + (n - k mod n))) mod n" by (simp add: mod_add_left_eq)
  also have "k mod n + (i + (n - k mod n)) = i + n"
  proof -
    have "k mod n < n" using assms by simp
    then show ?thesis by linarith
  qed
  finally have "(k + j) mod n = i" using assms by simp
  moreover have "j < n" using assms by (simp add: j_def)
  ultimately show ?thesis by blast
qed

lemma asked_all:
  assumes "salted_ok L s" "\<forall>j < length (sr_order s). \<forall>c. ns s (asked s (k + j)) = Some c \<longrightarrow> rc_evictable_size c = 0"
  shows "sr_evictable_size s = 0"
proof -
  have "rc_evictable_size c = 0" if c: "(salt, c) \<in> set (sr_namespaces s)" for salt c
  proof -
    have "salt \<in> set (sr_order s)" using c assms(1) by (force simp: salted_ok_def)
    then obtain i where "i < length (sr_order s)" "sr_order s ! i = salt" by (auto simp: in_set_conv_nth)
    with cursor_reaches [of i "length (sr_order s)" k] obtain j where "j < length (sr_order s)" "asked s (k + j) = salt"
      by (auto simp: asked_def)
    with assms(2) c assms(1) show ?thesis by (auto simp: salted_ok_def)
  qed
  then show ?thesis unfolding sr_evictable_size_def by (auto simp: sum_list_eq_0_iff)
qed

lemma sr_evict_loop_frees:
  assumes "salted_ok L s" "sr_order s \<noteq> []" "taken < wanted"
    and "unat (sr_evict_cursor s) + (sr_evictable_size s + 1) * length (sr_order s) < 2 ^ 64"
  shows "\<exists>f s'. sr_evict_loop wanted freed taken s = Some (freed @ f, s') \<and> sr_evicts L s s' f
    \<and> (wanted \<le> taken + length f \<or> sr_evictable_size s' = 0)"
  using assms
proof (induction "sr_evictable_size s" arbitrary: s freed taken rule: less_induct)
  case less
  let ?n = "length (sr_order s)"
  have "unat (sr_evict_cursor s) + ?n < 2 ^ 64" using less.prems(4) by simp
  from evict_pass_frees [OF less.prems(1,2) this less.prems(3), of freed False] obtain f pr ret s1 where
    p: "sr_evict_pass ?n wanted freed taken False s = Some (freed @ f, taken + length f, pr, ret, s1)"
      "sr_evicts L s s1 f" "ret \<longrightarrow> wanted \<le> taken + length f"
      "\<not> ret \<longrightarrow> taken + length f < wanted \<and> unat (sr_evict_cursor s1) = unat (sr_evict_cursor s) + ?n \<and> (pr \<longleftrightarrow> f \<noteq> [])
        \<and> (f = [] \<longrightarrow> (\<forall>j < ?n. \<forall>c. ns s (asked s (unat (sr_evict_cursor s) + j)) = Some c \<longrightarrow> rc_evictable_size c = 0))"
    by auto
  consider "ret" | "\<not> ret" "f = []" | "\<not> ret" "f \<noteq> []" by blast
  then show ?case
  proof cases
    case 1
    with p(1-3) show ?thesis by (subst sr_evict_loop.simps) auto
  next
    case 2
    with p(4) have "sr_evictable_size s = 0" using asked_all [OF less.prems(1)] by blast
    with p(2) 2 have "sr_evictable_size s1 = 0" by (simp add: sr_evicts_def)
    with 2 p show ?thesis by (subst sr_evict_loop.simps) auto
  next
    case 3
    have s1: "salted_ok L s1" "sr_order s1 = sr_order s" "sr_evictable_size s = sr_evictable_size s1 + length f"
      using p(2) by (simp_all add: sr_evicts_def)
    have less_size: "sr_evictable_size s1 < sr_evictable_size s" using s1(3) 3(2) by simp
    have "(sr_evictable_size s1 + 1) * ?n + ?n \<le> (sr_evictable_size s + 1) * ?n"
      using mult_le_mono1 [of "sr_evictable_size s1 + 2" "sr_evictable_size s + 1" ?n] less_size by simp
    then have "unat (sr_evict_cursor s1) + (sr_evictable_size s1 + 1) * length (sr_order s1) < 2 ^ 64"
      using p(4) 3(1) less.prems(4) s1(2) by simp
    moreover have "sr_order s1 \<noteq> []" "taken + length f < wanted" using s1(2) less.prems(2) p(4) 3(1) by simp_all
    ultimately obtain g s2 where r: "sr_evict_loop wanted (freed @ f) (taken + length f) s1 = Some ((freed @ f) @ g, s2)"
      "sr_evicts L s1 s2 g" "wanted \<le> taken + length f + length g \<or> sr_evictable_size s2 = 0"
      using less.hyps [OF less_size s1(1)] by blast
    have "sr_evict_loop wanted freed taken s = sr_evict_loop wanted (freed @ f) (taken + length f) s1"
      using 3 p(1,4) by (subst sr_evict_loop.simps) simp
    with r sr_evicts_trans [OF p(2) r(2)] show ?thesis
      by (intro exI [of _ "f @ g"] exI [of _ s2]) (auto simp: add_ac)
  qed
qed

definition cursor_room :: "salted_radix \<Rightarrow> bool" where
  "cursor_room s \<longleftrightarrow> unat (sr_evict_cursor s) + (sr_evictable_size s + 1) * length (sr_order s) < 2 ^ 64"

lemma sr_evict_frees:
  assumes "salted_ok L s" "cursor_room s"
  shows "\<exists>freed s'. sr_evict wanted s = Some (freed, s') \<and> sr_evicts L s s' freed
    \<and> (wanted \<le> length freed \<or> sr_evictable_size s' = 0)"
proof (cases "wanted = 0 \<or> sr_order s = []")
  case True
  have "sr_evictable_size s = 0" if "sr_order s = []"
    using that assms(1) by (simp add: salted_ok_def sr_evictable_size_def)
  with True sr_evicts_refl [OF assms(1)] show ?thesis by (auto simp: sr_evict_def)
next
  case False
  with sr_evict_loop_frees [OF assms(1), of 0 wanted "[]"] assms(2) show ?thesis
    by (simp add: sr_evict_def cursor_room_def)
qed

text \<open>
  C40. An eviction over all namespaces always returns.  It frees as much as was asked for unless it
  frees everything evictable; it takes only unlocked nodes, and every page it takes is handed back.
\<close>

theorem evict_across_namespaces:
  assumes "salted_ok L s" "cursor_room s"
  shows "\<exists>freed s'. sr_evict wanted s = Some (freed, s') \<and> salted_ok L s'
    \<and> min wanted (sr_evictable_size s) \<le> length freed
    \<and> sr_evictable_size s = sr_evictable_size s' + length freed \<and> sr_protected_size s' = sr_protected_size s
    \<and> sr_pages s = sr_pages s' + mset freed
    \<and> (\<forall>salt c c' ts ws. ns s salt = Some c \<and> ns s' salt = Some c' \<and> held (rc_tree c') ts ws \<longrightarrow> held (rc_tree c) ts ws)
    \<and> (\<forall>salt c c'. ns s salt = Some c \<and> ns s' salt = Some c' \<longrightarrow>
        (\<forall>h \<in> set (L salt). rc_matched_indices c' h = rc_matched_indices c h))"
proof -
  from sr_evict_frees [OF assms, of wanted] obtain freed s' where r: "sr_evict wanted s = Some (freed, s')"
    "sr_evicts L s s' freed" "wanted \<le> length freed \<or> sr_evictable_size s' = 0" by blast
  have each: "\<exists>f. evicts (L salt) c c' f" if "ns s salt = Some c" "ns s' salt = Some c'" for salt c c'
    using r(2) that unfolding sr_evicts_def by blast
  have "rc_matched_indices c' h = rc_matched_indices c h"
    if "ns s salt = Some c" "ns s' salt = Some c'" "h \<in> set (L salt)" for salt c c' h
  proof -
    have "cache_ok (L salt) c" using assms(1) that(1) by (simp add: salted_ok_def)
    with each [OF that(1,2)] evicts_matched that(3) show ?thesis by blast
  qed
  moreover have "held (rc_tree c) ts ws" if "ns s salt = Some c" "ns s' salt = Some c'" "held (rc_tree c') ts ws" for salt c c' ts ws
    using each [OF that(1,2)] evicts_held that(3) by blast
  moreover have "min wanted (sr_evictable_size s) \<le> length freed" using r(2,3) by (auto simp: sr_evicts_def)
  ultimately show ?thesis using r(1,2) by (intro exI [of _ freed] exI [of _ s']) (auto simp: sr_evicts_def)
qed

section \<open>Callers kept apart\<close>

datatype salted_op =
    SaltedMatch salt "u32 list"
  | SaltedInsert salt "u32 list" "u32 list"
  | SaltedLock radix_handle
  | SaltedUnlock radix_handle
  | SaltedEvict nat

type_synonym salted_world = "salted_radix \<times> (salt \<Rightarrow> node_id list)"

fun salted_do :: "salted_op \<Rightarrow> salted_world \<Rightarrow> salted_world option" where
  "salted_do (SaltedMatch salt q) (s, L) = map_option (\<lambda>(_, s). (s, L)) (sr_match_prefix salt q s)"
| "salted_do (SaltedInsert salt ids idx) (s, L) = map_option (\<lambda>(_, s). (s, L)) (sr_insert_prefix salt ids idx s)"
| "salted_do (SaltedLock h) (s, L) = map_option (\<lambda>s. (s, L(rh_salt h := rh_node h # L (rh_salt h)))) (sr_lock h s)"
| "salted_do (SaltedUnlock h) (s, L) = map_option (\<lambda>s. (s, L(rh_salt h := remove1 (rh_node h) (L (rh_salt h))))) (sr_unlock h s)"
| "salted_do (SaltedEvict n) (s, L) = map_option (\<lambda>(_, s). (s, L)) (sr_evict n s)"

text \<open>As for one cache, and the eviction cursor is not about to wrap.\<close>

fun salted_polite :: "salted_op \<Rightarrow> salted_world \<Rightarrow> bool" where
  "salted_polite (SaltedMatch salt q) (s, L) \<longleftrightarrow> True"
| "salted_polite (SaltedInsert salt ids idx) (s, L) \<longleftrightarrow> length ids = length idx"
| "salted_polite (SaltedLock h) (s, L) \<longleftrightarrow>
     rh_node h = radix_root \<or> (case ns s (rh_salt h) of None \<Rightarrow> False | Some c \<Rightarrow> linked (rc_tree c) (rh_node h))"
| "salted_polite (SaltedUnlock h) (s, L) \<longleftrightarrow> rh_node h \<in> set (L (rh_salt h))"
| "salted_polite (SaltedEvict n) (s, L) \<longleftrightarrow> cursor_room s"

fun salted_run :: "salted_op list \<Rightarrow> salted_world \<Rightarrow> salted_world option" where
  "salted_run [] w = Some w"
| "salted_run (x # xs) w = Option.bind (salted_do x w) (salted_run xs)"

fun salted_polite_run :: "salted_op list \<Rightarrow> salted_world \<Rightarrow> bool" where
  "salted_polite_run [] w \<longleftrightarrow> True"
| "salted_polite_run (x # xs) w \<longleftrightarrow> salted_polite x w \<and> (case salted_do x w of None \<Rightarrow> True | Some w \<Rightarrow> salted_polite_run xs w)"

text \<open>What a caller has handed in so far.\<close>

definition given :: "salt \<Rightarrow> salted_op list \<Rightarrow> (u32 list \<times> u32 list) set" where
  "given salt xs = {(ids, idx). SaltedInsert salt ids idx \<in> set xs}"

definition own :: "(u32 list \<times> u32 list) set \<Rightarrow> radix_cache \<Rightarrow> bool" where
  "own G c \<longleftrightarrow> set_mset (tree_pages (rc_tree c)) \<subseteq> (\<Union>(ids, idx) \<in> G. set idx)
     \<and> (\<forall>ts vs. held (rc_tree c) ts vs \<longrightarrow> ts \<noteq> [] \<longrightarrow> (\<exists>(ids, idx) \<in> G. prefix ts ids))"

lemma own_mono: "own G c \<Longrightarrow> G \<subseteq> H \<Longrightarrow> own H c"
  unfolding own_def by blast

lemma own_sub:
  assumes "own G c" "set_mset (tree_pages (rc_tree c')) \<subseteq> set_mset (tree_pages (rc_tree c))"
    "\<And>ts vs. held (rc_tree c') ts vs \<Longrightarrow> held (rc_tree c) ts vs"
  shows "own G c'"
  using assms unfolding own_def by blast

lemma own_new: "0 < ps \<Longrightarrow> own G (the (radix_cache_new ps))"
  using new_ok(4,5) [OF new_some] by (simp add: own_def)

definition all_own :: "salted_op list \<Rightarrow> nat \<Rightarrow> salted_radix \<Rightarrow> bool" where
  "all_own xs k s \<longleftrightarrow> (\<forall>salt c. ns s salt = Some c \<longrightarrow> own (given salt xs) c \<and> arena (rc_tree c) \<le> k)"

lemma all_own_or_new:
  assumes "all_own xs k s" "salted_ok L s" "0 < k"
  shows "own (given salt xs) (ns_or_new s salt)" "arena (rc_tree (ns_or_new s salt)) \<le> k"
proof -
  have ps: "0 < sr_page_size s" using assms(2) by (simp add: salted_ok_def)
  show "own (given salt xs) (ns_or_new s salt)" "arena (rc_tree (ns_or_new s salt)) \<le> k"
    using assms(1,3) own_new [OF ps] new_ok(2) [OF new_some [OF ps]]
    by (auto simp: all_own_def ns_or_new_def split: option.splits)
qed

text \<open>An operation inside one namespace changes only that one.\<close>

lemma in_namespace:
  assumes "salted_ok L s" "all_own xs k s" "0 < k" "\<And>t. given t xs \<subseteq> given t ys"
    and c': "cache_ok hs c'" "rc_page_size c' = sr_page_size s" "own (given salt ys) c'" "arena (rc_tree c') \<le> k + 2"
  shows "\<exists>s1. sr_tree salt s = Some (ns_or_new s salt, s1) \<and> salted_ok (L(salt := hs)) (sr_store salt c' s1)
    \<and> all_own ys (k + 2) (sr_store salt c' s1) \<and> ns (sr_store salt c' s1) = (ns s)(salt \<mapsto> c')"
proof -
  from sr_tree_ok [OF assms(1), of salt] obtain s1 where s1: "sr_tree salt s = Some (ns_or_new s salt, s1)" "salted_ok L s1"
    "ns s1 = (ns s)(salt \<mapsto> ns_or_new s salt)" "sr_page_size s1 = sr_page_size s" by blast
  from sr_store_ok [OF s1(2) c'(1), of salt] c'(2) s1(3,4)
  have st: "salted_ok (L(salt := hs)) (sr_store salt c' s1)" "ns (sr_store salt c' s1) = (ns s)(salt \<mapsto> c')" by simp_all
  have "all_own ys (k + 2) (sr_store salt c' s1)"
    unfolding all_own_def st(2)
  proof (intro allI impI)
    fix t c assume t: "((ns s)(salt \<mapsto> c')) t = Some c"
    show "own (given t ys) c \<and> arena (rc_tree c) \<le> k + 2"
    proof (cases "t = salt")
      case True
      with t c'(3,4) show ?thesis by simp
    next
      case False
      with t assms(2) have "own (given t xs) c" "arena (rc_tree c) \<le> k" by (simp_all add: all_own_def)
      with own_mono [OF _ assms(4)] show ?thesis by simp
    qed
  qed
  with s1(1) st show ?thesis by blast
qed

lemma given_more: "given t xs \<subseteq> given t (xs @ [x])"
  by (auto simp: given_def)

lemma salted_do_ok:
  assumes ok: "salted_ok L s" and own: "all_own xs k s" and k: "0 < k" "k + 2 \<le> 2 ^ 32" and pol: "salted_polite x (s, L)"
  shows "\<exists>s' L'. salted_do x (s, L) = Some (s', L') \<and> salted_ok L' s' \<and> all_own (xs @ [x]) (k + 2) s'"
proof -
  note b = ns_or_new_ok [OF ok]
  note o = all_own_or_new [OF own ok k(1)]
  have own_here: "own (given salt (xs @ [x])) (ns_or_new s salt)" for salt using own_mono [OF o(1) given_more] .
  show ?thesis
  proof (cases x)
    case (SaltedMatch salt q)
    have "arena (rc_tree (ns_or_new s salt)) < 2 ^ 32" using o(2) [of salt] k(2) by simp
    from tree_walk_lands [OF b(1) this, of q] obtain i n c' where w: "rc_tree_walk q (ns_or_new s salt) = Some (i, n, c')"
      "cache_ok (L salt) c'" "keeps (rc_tree (ns_or_new s salt)) (rc_tree c')"
      "arena (rc_tree c') \<le> Suc (arena (rc_tree (ns_or_new s salt)))" by blast
    have "own (given salt (xs @ [x])) c'" using own_sub [OF own_here [of salt], of c'] w(3) by (simp add: keeps_def)
    moreover have "rc_page_size c' = sr_page_size s" using w(3) b(2) by (simp add: keeps_def rc_page_size_def)
    moreover have "arena (rc_tree c') \<le> k + 2" using w(4) o(2) [of salt] by simp
    ultimately obtain s1 where "sr_tree salt s = Some (ns_or_new s salt, s1)"
      "salted_ok (L(salt := L salt)) (sr_store salt c' s1)" "all_own (xs @ [x]) (k + 2) (sr_store salt c' s1)"
      using in_namespace [OF ok own k(1) given_more w(2), of salt x] by blast
    with w(1) show ?thesis by (simp add: SaltedMatch sr_match_prefix_def rc_match_prefix_def)
  next
    case (SaltedInsert salt ids idx)
    have len: "length ids = length idx" using pol SaltedInsert by simp
    have "arena (rc_tree (ns_or_new s salt)) + 2 \<le> 2 ^ 32" using o(2) [of salt] k(2) by simp
    from insert_lands [OF b(1) this len refl] obtain m i c' vs where r:
      "rc_insert_prefix ids idx (ns_or_new s salt) = Some (\<lparr>ir_cached_len = m, ir_node = i,
         ir_inserted_len = align_down (length ids) (rc_page_size (ns_or_new s salt))\<rparr>, c')"
      "cache_ok (L salt) c'" "rc_page_size c' = rc_page_size (ns_or_new s salt)"
      "\<forall>ts ws. held (rc_tree c') ts ws \<longleftrightarrow> held (rc_tree (ns_or_new s salt)) ts ws
        \<or> rc_page_size (ns_or_new s salt) dvd length ts \<and> prefix ts (take (align_down (length ids) (rc_page_size (ns_or_new s salt))) ids)
          \<and> ws = take (length ts) (vs @ drop m (take (align_down (length ids) (rc_page_size (ns_or_new s salt))) idx))"
      "tree_pages (rc_tree c') = tree_pages (rc_tree (ns_or_new s salt))
        + mset (drop m (take (align_down (length ids) (rc_page_size (ns_or_new s salt))) idx))"
      "arena (rc_tree c') \<le> arena (rc_tree (ns_or_new s salt)) + 2" by blast
    have mem: "(ids, idx) \<in> given salt (xs @ [x])" by (simp add: given_def SaltedInsert)
    have "own (given salt (xs @ [x])) c'"
      unfolding own_def
    proof (intro conjI allI impI)
      have "set (drop m (take n idx)) \<subseteq> set idx" for n using set_drop_subset set_take_subset by fastforce
      then show "set_mset (tree_pages (rc_tree c')) \<subseteq> (\<Union>(ids, idx) \<in> given salt (xs @ [x]). set idx)"
        using own_here [of salt] mem r(5) unfolding own_def by fastforce
    next
      fix ts ws assume h: "held (rc_tree c') ts ws" "ts \<noteq> []"
      show "\<exists>(ids, idx) \<in> given salt (xs @ [x]). prefix ts ids"
      proof (cases "held (rc_tree (ns_or_new s salt)) ts ws")
        case True
        with own_here [of salt] h(2) show ?thesis unfolding own_def by blast
      next
        case False
        with r(4) h(1) have "prefix ts ids" using prefix_order.trans take_is_prefix by blast
        with mem show ?thesis by blast
      qed
    qed
    moreover have "rc_page_size c' = sr_page_size s" using r(3) b(2) by simp
    moreover have "arena (rc_tree c') \<le> k + 2" using r(6) o(2) [of salt] by simp
    ultimately obtain s1 where "sr_tree salt s = Some (ns_or_new s (salt), s1)"
      "salted_ok (L(salt := L salt)) (sr_store (salt) c' s1)" "all_own (xs @ [x]) (k + 2) (sr_store (salt) c' s1)"
      using in_namespace [OF ok own k(1) given_more r(2), of salt x] by blast
    with r(1) show ?thesis by (simp add: SaltedInsert sr_insert_prefix_def)
  next
    case (SaltedLock h)
    let ?c = "ns_or_new s (rh_salt h)"
    have "rh_node h = 0 \<or> linked (rc_tree ?c) (rh_node h)"
      using pol by (auto simp: SaltedLock radix_root_def ns_or_new_def split: option.splits)
    from linked_path [OF cache_okD(1) [OF b(1)] this] obtain ks vs where "spells (rc_tree ?c) (rh_node h) ks vs" by blast
    from lock_ok [OF b(1) this] obtain c' where c': "rc_lock (rh_node h) ?c = Some c'"
      "cache_ok (rh_node h # L (rh_salt h)) c'" "refs_moved Suc (rh_node h) ?c c'" by blast
    note m = refs_moved_keeps [OF c'(3) cache_okD(1) [OF b(1)]]
    have "own (given (rh_salt h) (xs @ [x])) c'" using own_sub [OF own_here [of "rh_salt h"], of c'] m(3,6) by simp
    moreover have "arena (rc_tree c') \<le> k + 2" using m(4) o(2) [of "rh_salt h"] by simp
    moreover have "rc_page_size c' = sr_page_size s" using m(5) b(2) by simp
    ultimately obtain s1 where "sr_tree (rh_salt h) s = Some (ns_or_new s ((rh_salt h)), s1)"
      "salted_ok (L((rh_salt h) := rh_node h # L (rh_salt h))) (sr_store ((rh_salt h)) c' s1)" "all_own (xs @ [x]) (k + 2) (sr_store ((rh_salt h)) c' s1)"
      using in_namespace [OF ok own k(1) given_more c'(2), of "rh_salt h" x] by blast
    with c'(1) show ?thesis by (simp add: SaltedLock sr_lock_def)
  next
    case (SaltedUnlock h)
    let ?c = "ns_or_new s (rh_salt h)"
    have "rh_node h \<in> set (L (rh_salt h))" using pol by (simp add: SaltedUnlock)
    from unlock_ok [OF b(1) this] obtain c' where c': "rc_unlock (rh_node h) ?c = Some c'"
      "cache_ok (remove1 (rh_node h) (L (rh_salt h))) c'" "refs_moved (\<lambda>r. r - 1) (rh_node h) ?c c'" by blast
    note m = refs_moved_keeps [OF c'(3) cache_okD(1) [OF b(1)]]
    have "own (given (rh_salt h) (xs @ [x])) c'" using own_sub [OF own_here [of "rh_salt h"], of c'] m(3,6) by simp
    moreover have "arena (rc_tree c') \<le> k + 2" using m(4) o(2) [of "rh_salt h"] by simp
    moreover have "rc_page_size c' = sr_page_size s" using m(5) b(2) by simp
    ultimately obtain s1 where "sr_tree (rh_salt h) s = Some (ns_or_new s ((rh_salt h)), s1)"
      "salted_ok (L((rh_salt h) := remove1 (rh_node h) (L (rh_salt h)))) (sr_store ((rh_salt h)) c' s1)" "all_own (xs @ [x]) (k + 2) (sr_store ((rh_salt h)) c' s1)"
      using in_namespace [OF ok own k(1) given_more c'(2), of "rh_salt h" x] by blast
    with c'(1) show ?thesis by (simp add: SaltedUnlock sr_unlock_def)
  next
    case (SaltedEvict n)
    have "cursor_room s" using pol by (simp add: SaltedEvict)
    from sr_evict_frees [OF ok this, of n] obtain freed s' where r: "sr_evict n s = Some (freed, s')" "sr_evicts L s s' freed"
      by blast
    have "all_own (xs @ [x]) (k + 2) s'"
      unfolding all_own_def
    proof (intro allI impI)
      fix salt c' assume c': "ns s' salt = Some c'"
      with r(2) obtain c where c: "ns s salt = Some c" by (fastforce simp: sr_evicts_def)
      with c' r(2) obtain f where f: "evicts (L salt) c c' f" unfolding sr_evicts_def by blast
      from c own have "own (given salt xs) c" "arena (rc_tree c) \<le> k" by (simp_all add: all_own_def)
      moreover have "tree_pages (rc_tree c) = tree_pages (rc_tree c') + mset f" "arena (rc_tree c') = arena (rc_tree c)"
        using f by (simp_all add: evicts_def)
      ultimately show "own (given salt (xs @ [x])) c' \<and> arena (rc_tree c') \<le> k + 2"
        using own_sub [OF own_mono [OF _ given_more]] evicts_held [OF f] by simp
    qed
    moreover have "salted_ok L s'" using r(2) by (simp add: sr_evicts_def)
    ultimately show ?thesis using r(1) by (simp add: SaltedEvict)
  qed
qed

lemma salted_run_ok:
  assumes "salted_ok L s" "all_own ys k s" "0 < k" "k + 2 * length xs \<le> 2 ^ 32" "salted_polite_run xs (s, L)"
  shows "\<exists>s' L'. salted_run xs (s, L) = Some (s', L') \<and> salted_ok L' s' \<and> all_own (ys @ xs) (k + 2 * length xs) s'"
  using assms
proof (induction xs arbitrary: s L ys k)
  case (Cons x xs)
  have "k + 2 \<le> 2 ^ 32" "salted_polite x (s, L)" using Cons.prems(4,5) by simp_all
  from salted_do_ok [OF Cons.prems(1-3) this] obtain s1 L1 where d: "salted_do x (s, L) = Some (s1, L1)"
    "salted_ok L1 s1" "all_own (ys @ [x]) (k + 2) s1" by blast
  have "k + 2 + 2 * length xs \<le> 2 ^ 32" "salted_polite_run xs (s1, L1)" using Cons.prems(4,5) d(1) by simp_all
  from Cons.IH [OF d(2,3) _ this] d(1) show ?case by (auto simp: add_ac)
qed simp

lemma spells_pages: "spells t i ks vs \<Longrightarrow> set vs \<subseteq> set_mset (tree_pages t)"
proof (induction rule: spells.induct)
  case (spells_child p ks vs i)
  have "set (rn_value (nd t i)) \<subseteq> set_mset (tree_pages t)"
    using spells_child.hyps(2,3)
    by (auto simp: tree_pages_def tally_def set_mset_sum sum.remove [of _ i])
  with spells_child.IH show ?case by simp
qed simp

text \<open>
  C39. Callers are kept apart.  After any run, what a lookup under a salt finds was inserted under that
  salt: a caller that is told that a prefix is cached has itself handed in tokens that begin with it,
  and every page it is given is one it handed in.
\<close>

theorem salts_are_kept_apart:
  assumes "0 < ps" "salted_polite_run xs (salted_new ps, \<lambda>_. [])" "2 * length xs + 2 \<le> 2 ^ 32"
  shows "\<exists>s L. salted_run xs (salted_new ps, \<lambda>_. []) = Some (s, L)
    \<and> (\<exists>m s1 idx s2. sr_match_prefix salt q s = Some (m, s1) \<and> sr_matched_indices (sm_handle m) s1 = Some (idx, s2)
        \<and> length idx = sm_cached_len m
        \<and> set idx \<subseteq> (\<Union>(ids, idx) \<in> given salt xs. set idx)
        \<and> (0 < sm_cached_len m \<longrightarrow> (\<exists>(ids, idx) \<in> given salt xs. prefix (take (sm_cached_len m) q) ids)))"
proof -
  have "all_own [] 1 (salted_new ps)" by (simp add: all_own_def salted_new_def)
  from salted_run_ok [OF salted_new_ok [OF assms(1)] this _ _ assms(2)] assms(3) obtain s L where
    s: "salted_run xs (salted_new ps, \<lambda>_. []) = Some (s, L)" "salted_ok L s" "all_own xs (1 + 2 * length xs) s" by auto
  let ?c = "ns_or_new s salt"
  note b = ns_or_new_ok [OF s(2), of salt]
  have o: "own (given salt xs) ?c" "arena (rc_tree ?c) < 2 ^ 32"
    using all_own_or_new [OF s(3,2), of salt] assms(3) by simp_all
  from tree_walk_lands [OF b(1) o(2), of q] obtain i n c' vs where w: "rc_tree_walk q ?c = Some (i, n, c')"
    "cache_ok (L salt) c'" "longest_held (rc_tree ?c) q n" "spells (rc_tree c') i (take n q) vs"
    "keeps (rc_tree ?c) (rc_tree c')" by blast
  have ok': "tree_ok (rc_tree c')" using w(2) by (rule cache_okD)
  from sr_tree_ok [OF s(2), of salt] obtain s1 where s1: "sr_tree salt s = Some (?c, s1)" by blast
  let ?m = "\<lparr>sm_cached_len = n, sm_handle = \<lparr>rh_salt = salt, rh_node = i\<rparr>\<rparr>"
  have "sr_match_prefix salt q s = Some (?m, sr_store salt c' s1)"
    using s1 w(1) by (simp add: sr_match_prefix_def rc_match_prefix_def)
  moreover have "sr_matched_indices (sm_handle ?m) (sr_store salt c' s1) = Some (vs, sr_store salt c' s1)"
    using path_value_spells [OF w(4) ok']
    by (simp add: sr_matched_indices_def sr_tree_def sr_store_def key_update_lookup rc_matched_indices_def)
  moreover have n: "n \<le> length q" using w(3) by (simp add: longest_held_def)
  then have "length vs = n" using spells_lengths [OF w(4) ok'] by simp
  moreover have "set vs \<subseteq> (\<Union>(ids, idx) \<in> given salt xs. set idx)"
    using spells_pages [OF w(4)] o(1) w(5) by (auto simp: own_def keeps_def)
  moreover have "\<exists>(ids, idx) \<in> given salt xs. prefix (take n q) ids" if "0 < n"
  proof -
    have "held (rc_tree ?c) (take n q) vs" using spells_held [OF ok' w(4)] w(5) by (simp add: keeps_def)
    moreover have "take n q \<noteq> []" using that n by auto
    ultimately show ?thesis using o(1) unfolding own_def by blast
  qed
  ultimately show ?thesis using s(1) by (intro exI [of _ s] exI [of _ L] conjI exI [of _ ?m]
        exI [of _ "sr_store salt c' s1"] exI [of _ vs]) auto
qed

definition sample_callers :: "salted_op list" where
  "sample_callers = [SaltedInsert (Some 1) [1, 2, 3, 4] [10, 11, 12, 13], SaltedInsert None [1, 2, 9, 9] [20, 21, 22, 23],
     SaltedMatch (Some 2) [1, 2, 3, 4], SaltedLock \<lparr>rh_salt = Some 1, rh_node = 1\<rparr>]"

definition sample_salted :: salted_radix where
  "sample_salted = fst (the (salted_run sample_callers (salted_new 2, \<lambda>_. [])))"

theorem salts_are_kept_apart_witness:
  "\<exists>s L m s1 s2. salted_run sample_callers (salted_new 2, \<lambda>_. []) = Some (s, L)
    \<and> sr_match_prefix (Some 1) [1, 2, 9, 9] s = Some (m, s1) \<and> sr_matched_indices (sm_handle m) s1 = Some ([10, 11], s2)
    \<and> {10, 11} \<subseteq> (\<Union>(ids, idx) \<in> given (Some 1) sample_callers. set idx)"
proof -
  have "salted_polite_run sample_callers (salted_new 2, \<lambda>_. [])" "length sample_callers = 4" by code_simp+
  moreover have "Option.bind (salted_run sample_callers (salted_new 2, \<lambda>_. [])) (\<lambda>(s, L).
      Option.bind (sr_match_prefix (Some 1) [1, 2, 9, 9] s) (\<lambda>(m, s1).
        map_option fst (sr_matched_indices (sm_handle m) s1))) = Some [10, 11]" by code_simp
  ultimately show ?thesis
    using salts_are_kept_apart [of 2 sample_callers "Some 1" "[1, 2, 9, 9]"]
    by (auto simp: bind_eq_Some_conv)
qed

theorem evict_across_namespaces_witness:
  "\<exists>s'. sr_evict 5 sample_salted = Some ([20, 21, 22, 23], s') \<and> sr_evictable_size s' = 0 \<and> sr_protected_size s' = 4"
proof -
  have pol: "salted_polite_run sample_callers (salted_new 2, \<lambda>_. [])" "length sample_callers = 4" by code_simp+
  have "all_own [] 1 (salted_new 2)" by (simp add: all_own_def salted_new_def)
  from salted_run_ok [OF salted_new_ok this _ _ pol(1)] pol(2) obtain L where "salted_ok L sample_salted"
    by (auto simp: sample_salted_def)
  moreover have "unat (sr_evict_cursor sample_salted) = 0" "length (sr_order sample_salted) = 3" "sr_evictable_size sample_salted = 4" "sr_protected_size sample_salted = 4"
    "map_option fst (sr_evict 5 sample_salted) = Some [20, 21, 22, 23]"
    by code_simp+
  ultimately show ?thesis using evict_across_namespaces [of L sample_salted 5] by (auto simp: cursor_room_def)
qed

end
