(* ===== verification/Utf8_Stream.thy ===== *)
theory Utf8_Stream
  imports Std_Utf8
begin

text \<open>
  The decoder that holds the tail of an unfinished character between tokens
  (\<^verbatim>\<open>frink-server/src/utf8_stream.rs\<close>), against the decoding of the whole text at once.
  A \<open>String\<close> of the code is its bytes.
\<close>

section \<open>The code\<close>

definition replacement_character :: bytes where
  "replacement_character = [0xEF, 0xBF, 0xBD]"

text \<open>The loop of \<open>push\<close>: the text so far, and what is pending.\<close>

function us_loop :: "bytes \<Rightarrow> bytes \<Rightarrow> bytes \<times> bytes" where
  "us_loop out pending =
     (case from_utf8 0 pending of
        None \<Rightarrow> (out @ pending, [])
      | Some (valid, None) \<Rightarrow> (out @ take valid pending, drop valid pending)
      | Some (valid, Some bad) \<Rightarrow>
          us_loop (out @ take valid pending @ replacement_character) (drop (valid + bad) pending))"
  by pat_completeness auto

lemma from_utf8_bad: "from_utf8 n bs = Some (v, Some bad) \<Longrightarrow> 0 < bad \<and> v < n + length bs"
proof (induction n bs rule: from_utf8.induct)
  case (1 n bs)
  show ?case
    using "1.prems" "1.IH"
    by (auto simp: from_utf8.simps [of n bs] split: if_splits utf8_step.splits
        dest: first_char_Malformed dest!: first_char_Whole)
qed

termination us_loop
  by (relation "measure (\<lambda>(out, p). length p)") (auto dest!: from_utf8_bad)

declare us_loop.simps [simp del]

definition us_push :: "bytes \<Rightarrow> bytes \<Rightarrow> bytes \<times> bytes" where
  "us_push bytes pending = us_loop [] (pending @ bytes)"

definition us_flush :: "bytes \<Rightarrow> bytes \<times> bytes" where
  "us_flush pending = (if pending = [] then [] else replacement_character, [])"

section \<open>Decoding at once\<close>

text \<open>The characters of a text and what is left of a character at its end.\<close>

function settle :: "bytes \<Rightarrow> bytes \<times> bytes" where
  "settle bs =
     (if bs = [] then ([], [])
      else case first_char bs of
        Whole w \<Rightarrow> (let (out, rest) = settle (drop w bs) in (take w bs @ out, rest))
      | Truncated \<Rightarrow> ([], bs)
      | Malformed n \<Rightarrow> (let (out, rest) = settle (drop n bs) in (replacement_character @ out, rest)))"
  by pat_completeness auto
termination
  by (relation "measure length") (auto dest: first_char_Whole first_char_Malformed)

declare settle.simps [simp del]


lemma settle_Nil [simp]: "settle [] = ([], [])"
  by (simp add: settle.simps)

lemma settle_from_utf8:
  "settle bs =
     (case from_utf8 n bs of
        None \<Rightarrow> (bs, [])
      | Some (v, None) \<Rightarrow> (take (v - n) bs, drop (v - n) bs)
      | Some (v, Some bad) \<Rightarrow>
          (take (v - n) bs @ replacement_character @ fst (settle (drop (v - n + bad) bs)),
           snd (settle (drop (v - n + bad) bs))))"
proof (induction n bs rule: from_utf8.induct)
  case (1 n bs)
  show ?case
  proof (cases "bs = []")
    case False
    show ?thesis
    proof (cases "first_char bs")
      case (Whole w)
      have unfold: "settle bs = (take w bs @ fst (settle (drop w bs)), snd (settle (drop w bs)))"
        "from_utf8 n bs = from_utf8 (n + w) (drop w bs)"
        using False Whole by (simp_all add: settle.simps [of bs] from_utf8.simps [of n bs] split: prod.splits)
      note IH = "1.IH" [OF False Whole]
      show ?thesis
      proof (cases "from_utf8 (n + w) (drop w bs)")
        case None
        with unfold IH show ?thesis by simp
      next
        case (Some r)
        obtain v e where r: "r = (v, e)" by (cases r)
        have "n + w \<le> v" using from_utf8_bound Some r by blast
        then obtain u where v: "v = n + w + u" using le_Suc_ex by blast
        have t: "take w bs @ take u (drop w bs) = take (w + u) bs" by (simp add: take_add)
        show ?thesis
        proof (cases e)
          case None
          with unfold IH Some r show ?thesis by (simp add: v t add.commute [of u])
        next
          case (Some bad)
          have "drop (u + bad) (drop w bs) = drop (w + u + bad) bs" by (simp add: add.commute add.left_commute)
          then show ?thesis
            using unfold IH \<open>from_utf8 (n + w) (drop w bs) = Some r\<close> r Some t by (simp add: v del: drop_drop)
        qed
      qed
    qed (use False in \<open>simp_all add: settle.simps [of bs] from_utf8.simps [of n bs] split: prod.splits\<close>)
  qed (simp add: from_utf8.simps)
qed

lemma us_loop_settle: "us_loop out p = (out @ fst (settle p), snd (settle p))"
proof (induction out p rule: us_loop.induct)
  case (1 out p)
  show ?case
    using "1.IH" settle_from_utf8 [of p 0]
    by (cases "from_utf8 0 p") (auto simp: us_loop.simps [of out p] split: option.splits)
qed

text \<open>More bytes do not change what has been decided.\<close>

lemma check_conts_append: "check_conts n k a \<noteq> Truncated \<Longrightarrow> check_conts n k (a @ b) = check_conts n k a"
  by (induction n k a rule: check_conts.induct) (auto split: if_splits)

lemma check_conts_Truncated: "check_conts n k bs = Truncated \<Longrightarrow> length bs < k"
  by (induction n k bs rule: check_conts.induct) (auto split: if_splits)

lemma first_char_Truncated: "first_char bs = Truncated \<Longrightarrow> length bs \<le> 3"
  by (cases bs)
     (auto simp: Let_def char_width_def split: if_splits list.splits dest!: check_conts_Truncated)

lemma check_conts_Malformed_length: "check_conts n k bs = Malformed m \<Longrightarrow> m < n + length bs"
  by (induction n k bs rule: check_conts.induct) (auto split: if_splits)

lemma first_char_Malformed_length: "first_char bs = Malformed m \<Longrightarrow> m \<le> length bs"
  by (cases bs) (auto simp: Let_def split: if_splits list.splits dest!: check_conts_Malformed_length)

lemma check_conts_take: "check_conts n k bs = Whole m \<Longrightarrow> check_conts n k (take (m - n) bs) = Whole m"
proof (induction n k bs rule: check_conts.induct)
  case (3 n k b bs)
  then have step: "is_cont b" "check_conts (Suc n) k bs = Whole m" by (auto split: if_splits)
  then have "m = Suc n + k" using check_conts_Whole by blast
  with step 3 show ?case by (cases "m - n") auto
qed auto

lemma first_char_take: "first_char bs = Whole w \<Longrightarrow> first_char (take w bs) = Whole w"
proof (cases bs)
  case (Cons b cs)
  assume w: "first_char bs = Whole w"
  show ?thesis
  proof (cases "char_width b = 1")
    case True
    with w have "w = 1" using Cons by (simp add: Let_def)
    with True Cons show ?thesis by (simp add: Let_def)
  next
    case False
    with w Cons obtain c ds where c: "cs = c # ds" "second_ok b c" "char_width b \<noteq> 0"
      "check_conts 2 (char_width b - 2) ds = Whole w"
      by (auto simp: Let_def split: if_splits list.splits)
    have "w = 2 + (char_width b - 2)" using check_conts_Whole [OF c(4)] by simp
    then obtain k where k: "w = Suc (Suc k)" by (metis add_2_eq_Suc)
    show ?thesis using check_conts_take [OF c(4)] c False k Cons by (simp add: Let_def)
  qed
qed simp

lemma first_char_append: "first_char a \<noteq> Truncated \<Longrightarrow> first_char (a @ b) = first_char a"
  by (cases a) (auto simp: Let_def check_conts_append split: list.splits if_splits)

lemma settle_append:
  "settle (a @ b) = (fst (settle a) @ fst (settle (snd (settle a) @ b)), snd (settle (snd (settle a) @ b)))"
proof (induction a rule: settle.induct)
  case (1 a)
  show ?case
  proof (cases "a = []")
    case False
    show ?thesis
    proof (cases "first_char a")
      case (Whole w)
      have "w \<le> length a" "first_char (a @ b) = Whole w"
        using first_char_Whole [OF Whole] first_char_append [of a b] Whole by simp_all
      then show ?thesis
        using "1.IH"(1) [OF False Whole] False Whole
        by (simp add: settle.simps [of "a @ b"] settle.simps [of a] split: prod.splits)
    next
      case (Malformed n)
      have "n \<le> length a" using first_char_Malformed_length [OF Malformed] .
      moreover have "first_char (a @ b) = Malformed n" using first_char_append [of a b] Malformed by simp
      ultimately show ?thesis
        using "1.IH"(2) [OF False Malformed] False Malformed
        by (simp add: settle.simps [of "a @ b"] settle.simps [of a] split: prod.splits)
    next
      case Truncated
      with False have "settle a = ([], a)" by (simp add: settle.simps [of a])
      then show ?thesis by simp
    qed
  qed simp
qed

lemma settle_simps:
  "first_char bs = Whole w \<Longrightarrow> settle bs = (take w bs @ fst (settle (drop w bs)), snd (settle (drop w bs)))"
  "first_char bs = Malformed n \<Longrightarrow> settle bs = (replacement_character @ fst (settle (drop n bs)), snd (settle (drop n bs)))"
  "first_char bs = Truncated \<Longrightarrow> settle bs = ([], bs)"
  by (auto simp: settle.simps [of bs] split: prod.splits)

lemma snd_settle_length: "length (snd (settle bs)) \<le> 3"
proof (induction bs rule: settle.induct)
  case (1 bs)
  then show ?case
    by (cases "bs = []"; cases "first_char bs") (auto simp: settle_simps first_char_Truncated)
qed

text \<open>What has been decided is text.\<close>

lemma from_utf8_None_iff: "from_utf8 n bs = None \<longleftrightarrow> from_utf8 m bs = None"
proof (induction n bs arbitrary: m rule: from_utf8.induct)
  case (1 n bs)
  show ?case
  proof (cases "bs = []")
    case False
    show ?thesis
    proof (cases "first_char bs")
      case (Whole w)
      with False "1.IH" [OF False Whole, of "m + w"] show ?thesis
        by (simp add: from_utf8.simps [of n bs] from_utf8.simps [of m bs])
    qed (use False in \<open>simp_all add: from_utf8.simps [of _ bs]\<close>)
  qed (simp add: from_utf8.simps)
qed

lemma from_utf8_whole:
  assumes "first_char a = Whole (length a)" "from_utf8 0 bs = None"
  shows "from_utf8 0 (a @ bs) = None"
proof -
  have "a \<noteq> []" using assms(1) by auto
  moreover have "first_char (a @ bs) = Whole (length a)" using assms(1) first_char_append [of a bs] by simp
  ultimately show ?thesis
    using assms(2) from_utf8_None_iff [of "length a" bs 0] by (simp add: from_utf8.simps [of _ "a @ bs"])
qed

lemma settled_is_text: "from_utf8 0 (fst (settle bs)) = None"
proof (induction bs rule: settle.induct)
  case (1 bs)
  show ?case
  proof (cases "bs = []")
    case False
    show ?thesis
    proof (cases "first_char bs")
      case (Whole w)
      have "w \<le> length bs" using first_char_Whole [OF Whole] by simp
      then show ?thesis
        using from_utf8_whole [of "take w bs"] first_char_take [OF Whole] "1.IH"(1) [OF False Whole] Whole
        by (simp add: settle_simps min_absorb2)
    next
      case (Malformed n)
      have "first_char replacement_character = Whole (length replacement_character)" by code_simp
      then show ?thesis
        using from_utf8_whole "1.IH"(2) [OF False Malformed] Malformed by (simp add: settle_simps)
    qed (simp add: settle_simps from_utf8.simps)
  qed (simp add: from_utf8.simps)
qed

section \<open>A text in pieces\<close>

text \<open>The standard library's \<open>from_utf8_lossy\<close>: every character, and a replacement character for
  each run of bytes that is none.\<close>

function from_utf8_lossy :: "bytes \<Rightarrow> bytes" where
  "from_utf8_lossy bs =
     (if bs = [] then []
      else case first_char bs of
        Whole w \<Rightarrow> take w bs @ from_utf8_lossy (drop w bs)
      | Truncated \<Rightarrow> replacement_character
      | Malformed n \<Rightarrow> replacement_character @ from_utf8_lossy (drop n bs))"
  by pat_completeness auto
termination
  by (relation "measure length") (auto dest: first_char_Whole first_char_Malformed)

declare from_utf8_lossy.simps [simp del]

lemma from_utf8_lossy_settle: "from_utf8_lossy bs = fst (settle bs) @ fst (us_flush (snd (settle bs)))"
proof (induction bs rule: settle.induct)
  case (1 bs)
  then show ?case
    by (cases "bs = []"; cases "first_char bs")
       (auto simp: settle_simps us_flush_def from_utf8_lossy.simps [of bs] from_utf8_lossy.simps [of "[]"])
qed

text \<open>The tokens of an answer, pushed one by one.\<close>

fun us_feed :: "bytes list \<Rightarrow> bytes \<Rightarrow> bytes \<times> bytes" where
  "us_feed [] pending = ([], pending)"
| "us_feed (piece # pieces) pending =
     (let (out, pending) = us_push piece pending; (outs, pending) = us_feed pieces pending in (out @ outs, pending))"

lemma us_push_settle: "us_push piece pending = settle (pending @ piece)"
  by (simp add: us_push_def us_loop_settle)

lemma us_feed_Cons:
  "us_feed (piece # pieces) pending =
     (fst (us_push piece pending) @ fst (us_feed pieces (snd (us_push piece pending))),
      snd (us_feed pieces (snd (us_push piece pending))))"
  by (simp split: prod.splits)

lemma us_push_seen:
  "fst (settle (seen @ piece)) = fst (settle seen) @ fst (us_push piece (snd (settle seen)))"
  "snd (settle (seen @ piece)) = snd (us_push piece (snd (settle seen)))"
  using settle_append [of seen piece] by (simp_all add: us_push_settle)

lemma us_feed_settle:
  "snd (us_feed pieces (snd (settle seen))) = snd (settle (seen @ concat pieces))
    \<and> fst (settle (seen @ concat pieces)) = fst (settle seen) @ fst (us_feed pieces (snd (settle seen)))"
proof (induction pieces arbitrary: seen)
  case (Cons piece pieces)
  show ?case
    using Cons.IH [of "seen @ piece"] by (simp add: us_feed_Cons us_push_seen del: us_feed.simps)
qed simp

text \<open>
  C7. Cutting an answer into tokens does not change its text.  Whatever bytes the tokens decode to,
  what the stream gives out piece by piece, and its flush at the end, is the lossy decoding of all
  the bytes at once: a character split over tokens comes out whole, and broken bytes as the
  replacement characters they are.  Every piece it gives out is text, and it never holds back more
  than three bytes.
\<close>

theorem pieces_decode_as_one:
  "fst (us_feed pieces []) @ fst (us_flush (snd (us_feed pieces []))) = from_utf8_lossy (concat pieces)
    \<and> from_utf8 0 (fst (us_push piece pending)) = None
    \<and> length (snd (us_push piece pending)) \<le> 3"
  using us_feed_settle [where seen = "[]" and pieces = pieces]
  by (simp add: from_utf8_lossy_settle us_push_settle settled_is_text snd_settle_length)

end
