(* ===== verification/Stop_Matcher.thy ===== *)
theory Stop_Matcher
  imports Std_Utf8
begin

text \<open>
  Stop sequences in the streamed text: the held-back suffix (\<^verbatim>\<open>policy/detokenize.rs\<close>), the
  matcher (\<^verbatim>\<open>stop.rs\<close>) and the earliest match (\<^verbatim>\<open>sampling_loop.rs\<close>).  Strings are their
  bytes; slicing a string off a character boundary panics, which is \<open>None\<close>.
\<close>

section \<open>Splitting strings\<close>

definition is_char_boundary :: "nat \<Rightarrow> bytes \<Rightarrow> bool" where
  "is_char_boundary i text \<longleftrightarrow> i = 0 \<or> i = length text \<or> i < length text \<and> \<not> is_cont (text ! i)"

fun floor_from :: "bytes \<Rightarrow> nat \<Rightarrow> nat" where
  "floor_from text 0 = 0"
| "floor_from text (Suc i) = (if is_char_boundary (Suc i) text then Suc i else floor_from text i)"

definition floor_char_boundary :: "bytes \<Rightarrow> nat \<Rightarrow> nat" where
  "floor_char_boundary text at = floor_from text (min at (length text))"

definition stop_prefix_holdback :: "bytes \<Rightarrow> bytes list \<Rightarrow> nat" where
  "stop_prefix_holdback text stops =
     (let longest = foldr max (map (\<lambda>s. length s - 1) stops) 0; max_k = min longest (length text) in
      case find (\<lambda>k. \<exists>s \<in> set stops. k < length s \<and> take k s = drop (length text - k) text) (rev [1..<Suc max_k]) of
        Some k \<Rightarrow> k
      | None \<Rightarrow> 0)"

section \<open>The earliest match\<close>

text \<open>The standard library's \<open>find\<close> on strings, and the first of the least elements.\<close>

fun str_find :: "bytes \<Rightarrow> bytes \<Rightarrow> nat option" where
  "str_find needle [] = (if needle = [] then Some 0 else None)"
| "str_find needle (b # text) =
     (if take (length needle) (b # text) = needle then Some 0 else map_option Suc (str_find needle text))"

fun first_min :: "('a \<Rightarrow> 'a \<Rightarrow> bool) \<Rightarrow> 'a list \<Rightarrow> 'a option" where
  "first_min lt [] = None"
| "first_min lt (x # xs) = Some (foldl (\<lambda>best y. if lt y best then y else best) x xs)"

definition earliest_stop_match :: "bytes \<Rightarrow> bytes list \<Rightarrow> (nat \<times> bytes) option" where
  "earliest_stop_match text stops =
     first_min (\<lambda>(at, s) (at', s'). at < at' \<or> at = at' \<and> length s' < length s)
       (List.map_filter (\<lambda>s. map_option (\<lambda>at. (at, s)) (str_find s text)) (filter (\<lambda>s. s \<noteq> []) stops))"

section \<open>The matcher\<close>

datatype stop_step = Emit bytes | Matched bytes bytes

definition resolve_stop_tokens :: "bytes list \<Rightarrow> (bytes \<Rightarrow> nat list) \<Rightarrow> nat list" where
  "resolve_stop_tokens stops encode =
     foldl (\<lambda>ids stop. if stop = [] then ids
        else case encode stop of [i] \<Rightarrow> push_new i ids | _ \<Rightarrow> ids) [] stops"

record stop_matcher =
  sm_stops :: "bytes list"
  sm_stop_tokens :: "nat list"
  sm_pending :: bytes

definition stop_matcher_new :: "bytes list \<Rightarrow> nat list \<Rightarrow> stop_matcher" where
  "stop_matcher_new stops stop_tokens =
     \<lparr>sm_stops = filter (\<lambda>s. s \<noteq> []) stops, sm_stop_tokens = stop_tokens, sm_pending = []\<rparr>"

definition is_stop_token :: "nat \<Rightarrow> stop_matcher \<Rightarrow> bool" where
  "is_stop_token token m \<longleftrightarrow> token \<in> set (sm_stop_tokens m)"

definition sm_push :: "bytes \<Rightarrow> stop_matcher \<Rightarrow> (stop_step \<times> stop_matcher) option" where
  "sm_push piece m =
     (if sm_stops m = [] then Some (Emit piece, m)
      else
        let pending = sm_pending m @ piece in
        case earliest_stop_match pending (sm_stops m) of
          Some (at, stop) \<Rightarrow>
            if is_char_boundary at pending then Some (Matched (take at pending) stop, m\<lparr>sm_pending := []\<rparr>) else None
        | None \<Rightarrow>
            let keep = stop_prefix_holdback pending (sm_stops m);
                split = floor_char_boundary pending (length pending - keep) in
            if is_char_boundary split pending then Some (Emit (take split pending), m\<lparr>sm_pending := drop split pending\<rparr>)
            else None)"

definition sm_flush :: "stop_matcher \<Rightarrow> bytes \<times> stop_matcher" where
  "sm_flush m = (sm_pending m, m\<lparr>sm_pending := []\<rparr>)"

definition sm_flush_with :: "bytes \<Rightarrow> stop_matcher \<Rightarrow> bytes \<times> stop_matcher" where
  "sm_flush_with tail m = (sm_pending m @ tail, m\<lparr>sm_pending := []\<rparr>)"

text \<open>The pieces of an answer up to its end or the first match: what was emitted, the stop that
  matched and the matcher.\<close>

fun sm_feed :: "bytes list \<Rightarrow> stop_matcher \<Rightarrow> (bytes \<times> bytes option \<times> stop_matcher) option" where
  "sm_feed [] m = Some ([], None, m)"
| "sm_feed (piece # pieces) m =
     (case sm_push piece m of
        None \<Rightarrow> None
      | Some (Matched text stop, m) \<Rightarrow> Some (text, Some stop, m)
      | Some (Emit text, m) \<Rightarrow> map_option (\<lambda>(out, r). (text @ out, r)) (sm_feed pieces m))"

section \<open>Occurrences\<close>

definition occurs :: "bytes \<Rightarrow> nat \<Rightarrow> bytes \<Rightarrow> bool" where
  "occurs s i text \<longleftrightarrow> i + length s \<le> length text \<and> take (length s) (drop i text) = s"

definition first_stop :: "bytes list \<Rightarrow> bytes \<Rightarrow> nat \<Rightarrow> bytes \<Rightarrow> bool" where
  "first_stop stops text at s \<longleftrightarrow> s \<in> set stops \<and> s \<noteq> [] \<and> occurs s at text
     \<and> (\<forall>s' \<in> set stops. \<forall>i. s' \<noteq> [] \<and> occurs s' i text \<longrightarrow> at \<le> i \<and> (i = at \<longrightarrow> length s' \<le> length s))"

definition stop_free :: "bytes list \<Rightarrow> bytes \<Rightarrow> bool" where
  "stop_free stops text \<longleftrightarrow> (\<forall>s \<in> set stops. \<forall>i. s \<noteq> [] \<longrightarrow> \<not> occurs s i text)"

lemma occurs_Cons_Suc: "occurs s (Suc i) (b # text) \<longleftrightarrow> occurs s i text"
  by (simp add: occurs_def)

lemma occurs_0: "occurs s 0 text \<longleftrightarrow> take (length s) text = s"
  by (auto simp: occurs_def min_def dest: arg_cong [of _ _ length] split: if_splits)

lemma occurs_drop: "occurs s i (a @ b) \<longleftrightarrow> occurs s (i - length a) b" if "length a \<le> i"
  using that by (auto simp: occurs_def)

lemma occurs_append: "occurs s i a \<Longrightarrow> occurs s i (a @ b)"
  by (simp add: occurs_def)

lemma occurs_prefix: "occurs s i (a @ b) \<Longrightarrow> i + length s \<le> length a \<Longrightarrow> occurs s i a"
  by (simp add: occurs_def)

lemma str_find_Some: "str_find s text = Some i \<longleftrightarrow> occurs s i text \<and> (\<forall>j < i. \<not> occurs s j text)"
proof (induction s "text" arbitrary: i rule: str_find.induct)
  case (1 s)
  then show ?case by (auto simp: occurs_def)
next
  case (2 s b t)
  show ?case
  proof (cases "take (length s) (b # t) = s")
    case True
    then show ?thesis using occurs_0 [of s "b # t"] by (auto dest: neq0_conv [THEN iffD1])
  next
    case False
    then have no: "\<not> occurs s 0 (b # t)" by (simp add: occurs_0)
    show ?thesis
    proof (cases i)
      case 0
      with False no show ?thesis by simp
    next
      case (Suc k)
      have "(\<forall>j < Suc k. \<not> occurs s j (b # t)) \<longleftrightarrow> (\<forall>j < k. \<not> occurs s j t)"
        using no by (auto simp: occurs_Cons_Suc less_Suc_eq_0_disj)
      with False Suc 2 show ?thesis by (simp add: occurs_Cons_Suc)
    qed
  qed
qed

lemma str_find_None: "str_find s text = None \<longleftrightarrow> (\<forall>i. \<not> occurs s i text)"
proof
  assume "str_find s text = None"
  show "\<forall>i. \<not> occurs s i text"
  proof (rule ccontr)
    assume "\<not> ?thesis"
    then obtain i where "occurs s i text" by blast
    then have "occurs s (LEAST i. occurs s i text) text" "\<forall>j < (LEAST i. occurs s i text). \<not> occurs s j text"
      by (auto intro: LeastI dest: not_less_Least)
    then have "str_find s text = Some (LEAST i. occurs s i text)" using str_find_Some by blast
    with \<open>str_find s text = None\<close> show False by simp
  qed
next
  assume "\<forall>i. \<not> occurs s i text"
  then show "str_find s text = None" using str_find_Some [of s "text"] by (cases "str_find s text") auto
qed

text \<open>A linear preorder given by its strict part: the fold finds a least element.\<close>

lemma foldl_min:
  assumes "\<And>x y z. lt x y \<Longrightarrow> lt y z \<Longrightarrow> lt x z" "\<And>x. \<not> lt x x"
    "\<And>x y z. \<not> lt x y \<Longrightarrow> \<not> lt y z \<Longrightarrow> \<not> lt x z"
  shows "foldl (\<lambda>best y. if lt y best then y else best) x xs \<in> set (x # xs)
    \<and> (\<forall>y \<in> set (x # xs). \<not> lt y (foldl (\<lambda>best y. if lt y best then y else best) x xs))"
proof (induction xs arbitrary: x)
  case (Cons y ys)
  let ?b = "if lt y x then y else x"
  have b: "\<not> lt x ?b" "\<not> lt y ?b" using assms(1,2) by (metis (full_types))+
  let ?r = "foldl (\<lambda>best y. if lt y best then y else best) ?b ys"
  have IH: "?r \<in> set (?b # ys)" "\<forall>z \<in> set (?b # ys). \<not> lt z ?r" using Cons.IH [of ?b] by blast+
  then have "\<not> lt ?b ?r" by simp
  then have "\<not> lt x ?r" "\<not> lt y ?r" using b assms(3) by blast+
  with IH show ?case by (auto split: if_splits)
qed (simp add: assms(2))


lemma in_map_filter: "y \<in> set (List.map_filter f xs) \<longleftrightarrow> (\<exists>x \<in> set xs. f x = Some y)"
  by (induction xs) (auto simp: List.map_filter_def split: option.splits)

lemma first_min_None: "first_min lt xs = None \<longleftrightarrow> xs = []"
  by (cases xs) auto

lemma earliest_None: "earliest_stop_match t stops = None \<longleftrightarrow> stop_free stops t"
proof -
  have "earliest_stop_match t stops = None
      \<longleftrightarrow> (\<forall>s \<in> set stops. s \<noteq> [] \<longrightarrow> str_find s t = None)"
    by (auto simp: earliest_stop_match_def first_min_None List.map_filter_def filter_empty_conv)
  then show ?thesis by (auto simp: str_find_None stop_free_def)
qed

lemma earliest_first_stop:
  assumes "earliest_stop_match t stops = Some (at, s)"
  shows "first_stop stops t at s"
proof -
  let ?lt = "\<lambda>(at, s) (at', s'). at < at' \<or> at = at' \<and> length s' < length (s :: bytes)"
  let ?ms = "List.map_filter (\<lambda>s. map_option (\<lambda>at. (at, s)) (str_find s t)) (filter (\<lambda>s. s \<noteq> []) stops)"
  obtain x xs where ms: "?ms = x # xs"
    using assms by (cases ?ms) (simp_all add: earliest_stop_match_def)
  have r: "foldl (\<lambda>best y. if ?lt y best then y else best) x xs = (at, s)"
    using assms ms by (simp add: earliest_stop_match_def)
  have "(at, s) \<in> set ?ms \<and> (\<forall>y \<in> set ?ms. \<not> ?lt y (at, s))"
    unfolding ms r [symmetric] by (rule foldl_min) (auto split: prod.splits)
  then have mem: "s \<in> set stops" "s \<noteq> []" "str_find s t = Some at"
    and least: "\<And>s' i. s' \<in> set stops \<Longrightarrow> s' \<noteq> [] \<Longrightarrow> str_find s' t = Some i \<Longrightarrow> \<not> (i < at \<or> i = at \<and> length s < length s')"
    by (auto simp: in_map_filter)
  have "at \<le> i \<and> (i = at \<longrightarrow> length s' \<le> length s)" if "s' \<in> set stops" "s' \<noteq> []" "occurs s' i t" for s' i
  proof -
    note occ = that
    obtain j where j: "str_find s' t = Some j" using occ(3) str_find_None [of s' t] by (cases "str_find s' t") auto
    then have "j \<le> i" using occ(3) str_find_Some [of s' t j] by (meson not_le_imp_less)
    with least [OF occ(1,2) j] show ?thesis by auto
  qed
  with mem show ?thesis by (auto simp: first_stop_def str_find_Some)
qed

lemma first_stop_unique: "first_stop stops t at s \<Longrightarrow> first_stop stops t at' s' \<Longrightarrow> at = at' \<and> s = s'"
proof -
  assume a: "first_stop stops t at s" "first_stop stops t at' s'"
  then have "at \<le> at'" "at' \<le> at" by (auto simp: first_stop_def)
  then have at: "at = at'" by simp
  with a have "length s \<le> length s'" "length s' \<le> length s" by (auto simp: first_stop_def)
  with at a show ?thesis by (metis first_stop_def occurs_def le_antisym)
qed

lemma earliest_Some: "earliest_stop_match t stops = Some (at, s) \<longleftrightarrow> first_stop stops t at s"
proof
  assume f: "first_stop stops t at s"
  then have "\<not> stop_free stops t" by (auto simp: first_stop_def stop_free_def)
  then obtain at' s' where "earliest_stop_match t stops = Some (at', s')" using earliest_None [of t stops] by (cases "earliest_stop_match t stops") auto
  with f show "earliest_stop_match t stops = Some (at, s)" using earliest_first_stop first_stop_unique by blast
qed (rule earliest_first_stop)

section \<open>The held-back suffix\<close>

lemma find_rev_upt:
  assumes "find P (rev [a..<b]) = r"
  shows "case r of None \<Rightarrow> (\<forall>i. a \<le> i \<and> i < b \<longrightarrow> \<not> P i)
    | Some k \<Rightarrow> P k \<and> a \<le> k \<and> k < b \<and> (\<forall>i. k < i \<and> i < b \<longrightarrow> \<not> P i)"
  using assms
proof (induction b arbitrary: r)
  case (Suc b)
  show ?case
  proof (cases "a \<le> b")
    case True
    show ?thesis
    proof (cases "P b")
      case False
      then have "find P (rev [a..<b]) = r" using Suc.prems True by simp
      from Suc.IH [OF this] show ?thesis using False by (auto simp: less_Suc_eq split: option.splits)
    next
      case True
      then show ?thesis using Suc.prems \<open>a \<le> b\<close> by (auto split: option.splits)
    qed
  qed (use Suc.prems in auto)
qed auto

lemma foldr_max_ge: "x \<in> set xs \<Longrightarrow> x \<le> foldr max xs (n :: nat)"
  by (induction xs) auto

lemma holdback:
  fixes t stops
  defines "P \<equiv> \<lambda>k. \<exists>s \<in> set stops. k < length s \<and> take k s = drop (length t - k) t"
    and "m \<equiv> min (foldr max (map (\<lambda>s. length s - 1) stops) 0) (length t)"
    and "b \<equiv> stop_prefix_holdback t stops"
  shows "b \<le> m \<and> (b \<noteq> 0 \<longrightarrow> P b) \<and> (\<forall>i. b < i \<and> i < Suc m \<longrightarrow> \<not> P i)"
proof (cases "find P (rev [1..<Suc m])")
  case None
  then have "b = 0" by (simp add: b_def stop_prefix_holdback_def P_def m_def del: upt_Suc)
  moreover have "\<forall>i. 1 \<le> i \<and> i < Suc m \<longrightarrow> \<not> P i" using find_rev_upt [OF None] by simp
  ultimately show ?thesis by simp
next
  case (Some k)
  then have "b = k" by (simp add: b_def stop_prefix_holdback_def P_def m_def del: upt_Suc)
  with find_rev_upt [OF Some] show ?thesis by simp
qed

lemma holdback_le: "stop_prefix_holdback t stops \<le> length t"
  using holdback [of t stops] by (meson min.boundedE)

text \<open>A longer suffix is no proper prefix of a stop.\<close>

lemma holdback_longest:
  assumes "s \<in> set stops" "k < length s" "k \<le> length t" "take k s = drop (length t - k) t"
  shows "k \<le> stop_prefix_holdback t stops"
proof (rule ccontr)
  assume "\<not> ?thesis"
  have "length s - 1 \<le> foldr max (map (\<lambda>s. length s - 1) stops) 0"
    using assms(1) by (intro foldr_max_ge) auto
  then have "k < Suc (min (foldr max (map (\<lambda>s. length s - 1) stops) 0) (length t))" using assms(2,3) by simp
  with \<open>\<not> ?thesis\<close> have "\<not> (\<exists>s \<in> set stops. k < length s \<and> take k s = drop (length t - k) t)"
    using holdback [of t stops] by (meson not_le_imp_less)
  with assms show False by blast
qed

lemma floor_from: "floor_from t i \<le> i \<and> is_char_boundary (floor_from t i) t"
  by (induction t i rule: floor_from.induct) (auto simp: is_char_boundary_def)

lemma floor_char_boundary: "floor_char_boundary t i \<le> i" "is_char_boundary (floor_char_boundary t i) t"
  using floor_from [of t "min i (length t)"] by (auto simp: floor_char_boundary_def)

lemma text_first:
  assumes "from_utf8 0 s = None" "s \<noteq> []"
  shows "\<not> is_cont (hd s)"
proof
  assume "is_cont (hd s)"
  then have "\<not> hd s < 0x80" "hd s \<le> 0xBF" by (simp_all add: is_cont_def not_less)
  moreover from this(2) have "hd s < 0xC2" by (rule le_less_trans) simp
  ultimately have "char_width (hd s) = 0" by (simp add: char_width_def)
  then have "first_char s = Malformed 1" using assms(2) by (cases s) (simp_all add: Let_def)
  with assms show False by (simp add: from_utf8.simps [of 0 s])
qed

lemma match_on_boundary:
  assumes "first_stop stops t at s" "\<forall>s \<in> set stops. from_utf8 0 s = None"
  shows "is_char_boundary at t"
proof -
  have s: "s \<noteq> []" "at + length s \<le> length t" "take (length s) (drop at t) = s" "from_utf8 0 s = None"
    using assms by (auto simp: first_stop_def occurs_def)
  then have "at < length t" by (cases s) auto
  then have "drop at t = t ! at # drop (Suc at) t" by (simp add: Cons_nth_drop_Suc)
  with s(1,3) have "hd s = t ! at" by (cases s) auto
  with text_first [OF s(4,1)] s(1,2) show ?thesis by (auto simp: is_char_boundary_def)
qed


section \<open>What has been emitted stays\<close>

text \<open>\<open>e\<close> was emitted and \<open>t\<close> is held back: nothing that arrives later makes a stop begin in \<open>e\<close>.\<close>

definition out_of_reach :: "bytes list \<Rightarrow> bytes \<Rightarrow> bytes \<Rightarrow> bool" where
  "out_of_reach stops e t \<longleftrightarrow> (\<forall>u. \<forall>s \<in> set stops. \<forall>i. s \<noteq> [] \<and> occurs s i (e @ t @ u) \<longrightarrow> length e \<le> i)"

lemma out_of_reachD:
  "out_of_reach stops e t \<Longrightarrow> s \<in> set stops \<Longrightarrow> s \<noteq> [] \<Longrightarrow> occurs s i (e @ t @ u) \<Longrightarrow> length e \<le> i"
  by (auto simp: out_of_reach_def)

lemma out_of_reach_push: "out_of_reach stops e t \<Longrightarrow> out_of_reach stops e (t @ p)"
  unfolding out_of_reach_def [of stops e "t @ p"] by (metis append.assoc out_of_reachD)

lemma stop_free_shift:
  assumes "out_of_reach stops e t"
  shows "stop_free stops (e @ t) \<longleftrightarrow> stop_free stops t"
proof -
  have "(\<exists>i. occurs s i (e @ t)) \<longleftrightarrow> (\<exists>i. occurs s i t)" if "s \<in> set stops" "s \<noteq> []" for s
    using out_of_reachD [OF assms that, of _ "[]"] occurs_drop [of e _ s t]
    by (metis add_diff_cancel_left' append_Nil2 le_add1)
  then show ?thesis by (auto simp: stop_free_def)
qed

lemma first_stop_shift:
  assumes "out_of_reach stops e t" "first_stop stops t at s"
  shows "first_stop stops (e @ t) (length e + at) s"
  unfolding first_stop_def
proof (intro conjI ballI allI impI)
  show "s \<in> set stops" "s \<noteq> []" "occurs s (length e + at) (e @ t)"
    using assms(2) by (simp_all add: first_stop_def occurs_drop)
  fix s' i
  assume s': "s' \<in> set stops" "s' \<noteq> [] \<and> occurs s' i (e @ t)"
  then have i: "length e \<le> i" using out_of_reachD [OF assms(1), of s' i "[]"] by simp
  then have "occurs s' (i - length e) t" using s' by (simp add: occurs_drop)
  then have le: "at \<le> i - length e \<and> (i - length e = at \<longrightarrow> length s' \<le> length s)"
    using assms(2) s' unfolding first_stop_def by blast
  then show "length e + at \<le> i" using i by linarith
  show "length s' \<le> length s" if "i = length e + at" using le that by simp
qed

lemma emit_safe:
  assumes reach: "out_of_reach stops e t" and free: "stop_free stops t" and n: "n \<le> length t - stop_prefix_holdback t stops"
  shows "out_of_reach stops (e @ take n t) (drop n t)"
  unfolding out_of_reach_def
proof (intro allI ballI impI)
  fix u s i
  assume s: "s \<in> set stops" "s \<noteq> [] \<and> occurs s i ((e @ take n t) @ drop n t @ u)"
  have "(e @ take n t) @ drop n t @ u = e @ t @ u" by (metis append.assoc append_take_drop_id)
  with s have occ: "occurs s i (e @ t @ u)" by metis
  then have i: "length e \<le> i" using out_of_reachD [OF reach] s by blast
  then have at: "occurs s (i - length e) (t @ u)" using occ by (simp add: occurs_drop)
  show "length (e @ take n t) \<le> i"
  proof (rule ccontr)
    assume "\<not> ?thesis"
    then have lt: "i - length e < n" using i by auto
    let ?k = "length t - (i - length e)"
    have nt: "n \<le> length t" using n by simp
    show False
    proof (cases "i - length e + length s \<le> length t")
      case True
      then show False using occurs_prefix [OF at] free s by (auto simp: stop_free_def)
    next
      case False
      then have k: "?k < length s" using lt nt by linarith
      have "take ?k s = take ?k (take (length s) (drop (i - length e) (t @ u)))" using at by (simp add: occurs_def)
      also have "\<dots> = take ?k (drop (i - length e) (t @ u))" using k by (simp add: min_absorb1)
      also have "\<dots> = drop (i - length e) t" by simp
      also have "\<dots> = drop (length t - ?k) t" using lt nt by simp
      finally have "?k \<le> stop_prefix_holdback t stops" using holdback_longest [OF s(1) k] by simp
      with lt n nt show False by linarith
    qed
  qed
qed

lemma sm_push_steps:
  fixes p
  assumes "out_of_reach stops e (sm_pending m)" "sm_stops m = stops" "\<forall>s \<in> set stops. from_utf8 0 s = None"
    and "stops = [] \<longrightarrow> sm_pending m = []"
  defines "t \<equiv> sm_pending m @ p"
  shows "(\<exists>at s. first_stop stops (e @ t) (length e + at) s \<and> sm_push p m = Some (Matched (take at t) s, m\<lparr>sm_pending := []\<rparr>))
    \<or> stop_free stops (e @ t) \<and> (\<exists>n. sm_push p m = Some (Emit (take n t), m\<lparr>sm_pending := drop n t\<rparr>)
        \<and> out_of_reach stops (e @ take n t) (drop n t) \<and> (stops = [] \<longrightarrow> drop n t = []))"
proof -
  have reach: "out_of_reach stops e t" unfolding t_def by (rule out_of_reach_push [OF assms(1)])
  show ?thesis
  proof (cases "stops = []")
    case True
    then have "sm_push p m = Some (Emit (take (length t) t), m\<lparr>sm_pending := drop (length t) t\<rparr>)"
      using assms(2,4) by (simp add: sm_push_def t_def)
    moreover have "stop_free stops (e @ t)" "out_of_reach stops (e @ take (length t) t) (drop (length t) t)"
      using True by (simp_all add: stop_free_def out_of_reach_def)
    ultimately show ?thesis by (metis drop_all order_refl)
  next
    case False
    show ?thesis
    proof (cases "earliest_stop_match t stops")
      case (Some r)
      obtain at s where r: "r = (at, s)" by (cases r)
      then have f: "first_stop stops t at s" using Some by (simp add: earliest_Some)
      then have "sm_push p m = Some (Matched (take at t) s, m\<lparr>sm_pending := []\<rparr>)"
        using Some r False match_on_boundary [OF f assms(3)] assms(2) by (simp add: sm_push_def t_def [symmetric])
      with first_stop_shift [OF reach f] show ?thesis by blast
    next
      case None
      then have free: "stop_free stops t" by (simp add: earliest_None)
      define n where "n = floor_char_boundary t (length t - stop_prefix_holdback t stops)"
      have "sm_push p m = Some (Emit (take n t), m\<lparr>sm_pending := drop n t\<rparr>)"
        using None False assms(2) floor_char_boundary(2) [of t]
        by (simp add: sm_push_def t_def [symmetric] Let_def n_def)
      moreover have "out_of_reach stops (e @ take n t) (drop n t)"
        unfolding n_def by (rule emit_safe [OF reach free floor_char_boundary(1)])
      ultimately show ?thesis using free False stop_free_shift [OF reach] by blast
    qed
  qed
qed

section \<open>The answer\<close>

text \<open>What the client is to receive of the pieces, told without a buffer: at the first piece after
  which a stop has appeared, everything before the earliest one; without one, everything.\<close>

fun answer_of :: "bytes list \<Rightarrow> bytes \<Rightarrow> bytes list \<Rightarrow> bytes \<times> bytes option" where
  "answer_of stops seen [] = (seen, None)"
| "answer_of stops seen (piece # pieces) =
     (case earliest_stop_match (seen @ piece) stops of
        Some (at, s) \<Rightarrow> (take at (seen @ piece), Some s)
      | None \<Rightarrow> answer_of stops (seen @ piece) pieces)"

lemma sm_feed_answer:
  assumes "out_of_reach stops e (sm_pending m)" "sm_stops m = stops" "\<forall>s \<in> set stops. from_utf8 0 s = None"
    and "stops = [] \<longrightarrow> sm_pending m = []"
  shows "\<exists>out r m'. sm_feed pieces m = Some (out, r, m')
    \<and> answer_of stops (e @ sm_pending m) pieces = (e @ out @ sm_pending m', r)
    \<and> (r = None \<longrightarrow> out @ sm_pending m' = sm_pending m @ concat pieces \<and> out_of_reach stops (e @ out) (sm_pending m'))"
  using assms
proof (induction pieces arbitrary: e m)
  case (Cons p pieces)
  let ?t = "sm_pending m @ p"
  from sm_push_steps [OF Cons.prems, of p] consider
    (matched) at s where "first_stop stops (e @ ?t) (length e + at) s" "sm_push p m = Some (Matched (take at ?t) s, m\<lparr>sm_pending := []\<rparr>)"
  | (emit) n where "stop_free stops (e @ ?t)" "sm_push p m = Some (Emit (take n ?t), m\<lparr>sm_pending := drop n ?t\<rparr>)"
      "out_of_reach stops (e @ take n ?t) (drop n ?t)" "stops = [] \<longrightarrow> drop n ?t = []"
    by blast
  then show ?case
  proof cases
    case matched
    then have "earliest_stop_match ((e @ sm_pending m) @ p) stops = Some (length e + at, s)" by (simp add: earliest_Some)
    with matched show ?thesis by simp
  next
    case emit
    let ?m = "m\<lparr>sm_pending := drop n ?t\<rparr>"
    have none: "earliest_stop_match ((e @ sm_pending m) @ p) stops = None" using emit(1) by (simp add: earliest_None)
    have "sm_pending ?m = drop n ?t" "sm_stops ?m = stops" using Cons.prems(2) by simp_all
    then obtain out r m' where IH: "sm_feed pieces ?m = Some (out, r, m')"
      "answer_of stops ((e @ take n ?t) @ drop n ?t) pieces = ((e @ take n ?t) @ out @ sm_pending m', r)"
      "r = None \<longrightarrow> out @ sm_pending m' = drop n ?t @ concat pieces \<and> out_of_reach stops ((e @ take n ?t) @ out) (sm_pending m')"
      using Cons.IH [of "e @ take n ?t" ?m] emit(3,4) Cons.prems(3) by metis
    have "sm_feed (p # pieces) m = Some (take n ?t @ out, r, m')" using emit(2) IH(1) by simp
    moreover have "answer_of stops (e @ sm_pending m) (p # pieces) = (e @ (take n ?t @ out) @ sm_pending m', r)"
      using none IH(2) by (metis append.assoc append_take_drop_id answer_of.simps(2) option.simps(4))
    moreover have "r = None \<longrightarrow> (take n ?t @ out) @ sm_pending m' = sm_pending m @ concat (p # pieces)
        \<and> out_of_reach stops (e @ take n ?t @ out) (sm_pending m')"
      using IH(3) by (metis append.assoc append_take_drop_id concat.simps(2))
    ultimately show ?thesis by blast
  qed
qed simp



end
