(* ===== verification/Decode_Loop.thy ===== *)
theory Decode_Loop
  imports Utf8_Stream Stop_Matcher
begin

text \<open>
  The token loop of one completion (\<^verbatim>\<open>choice_stream.rs\<close>, \<^verbatim>\<open>sampling_loop.rs\<close>): a drawn
  token is committed through the two stop layers and fed forward; a speculative round drafts a
  block, verifies it against the sampler and commits what agreed.  The sampler, the tokenizer's
  decoding and the engine's forward passes are arguments.  \<open>None\<close> is a panic, \<open>Inl\<close> an error of
  the sampler.
\<close>

section \<open>State\<close>

datatype finish_reason = FinishStop | StopSequence bytes | FinishLength | Cancelled

datatype 'p step = Token nat "'p option" | GrammarComplete

datatype committed = Continue | Stopped finish_reason

record gen_params =
  gp_max_tokens :: nat
  gp_ignore_eos :: bool
  gp_keep_special_tokens :: bool
  gp_stop :: "bytes list"
  gp_stop_token_ids :: "nat list"

text \<open>The arguments of a step that no step changes: the parameters, the prompt, the model's end
  tokens, the decoding of a token, and the sampler, which may fail.\<close>

record ('s, 'l, 'p, 'err) step_context =
  cx_params :: gen_params
  cx_prompt :: "nat list"
  cx_is_eog :: "nat \<Rightarrow> bool"
  cx_decode :: "nat \<Rightarrow> bytes"
  cx_sample :: "'s \<Rightarrow> 'l \<Rightarrow> nat list \<Rightarrow> nat list \<Rightarrow> 'err + 'p step \<times> 's"

record ('s, 'l, 'p) choice_stream =
  cs_matcher :: stop_matcher
  cs_utf8 :: bytes
  cs_state :: 's
  cs_generated_ids :: "nat list"
  cs_finish :: finish_reason
  cs_per_token_probs :: "(nat \<times> 'p) list"
  cs_logits :: 'l
  cs_pos :: nat
  cs_done :: bool

definition choice_stream_new :: "'l \<Rightarrow> nat \<Rightarrow> 's \<Rightarrow> gen_params \<Rightarrow> ('s, 'l, 'p) choice_stream" where
  "choice_stream_new logits pos state params =
     \<lparr>cs_matcher = stop_matcher_new (gp_stop params) (gp_stop_token_ids params), cs_utf8 = [], cs_state = state,
      cs_generated_ids = [], cs_finish = FinishLength, cs_per_token_probs = [], cs_logits = logits,
      cs_pos = pos, cs_done = False\<rparr>"

definition cs_stop :: "finish_reason \<Rightarrow> ('s, 'l, 'p) choice_stream \<Rightarrow> ('s, 'l, 'p) choice_stream" where
  "cs_stop reason c = c\<lparr>cs_finish := reason, cs_done := True\<rparr>"

definition check_budget :: "gen_params \<Rightarrow> bool \<Rightarrow> ('s, 'l, 'p) choice_stream \<Rightarrow> bool \<times> ('s, 'l, 'p) choice_stream" where
  "check_budget params cancelled c =
     (if cs_done c then (False, c)
      else if gp_max_tokens params \<le> length (cs_generated_ids c) then (False, cs_stop FinishLength c)
      else if cancelled then (False, cs_stop Cancelled c)
      else (True, c))"

section \<open>Committing a token\<close>

text \<open>What \<open>emit\<close> is called with.\<close>

definition emitted :: "bytes \<Rightarrow> bytes list" where
  "emitted t = (if t = [] then [] else [t])"

definition commit ::
  "('s, 'l, 'p, 'err) step_context \<Rightarrow> nat \<Rightarrow> ('s, 'l, 'p) choice_stream
    \<Rightarrow> (bytes list \<times> committed \<times> ('s, 'l, 'p) choice_stream) option" where
  "commit cx next c =
     (if \<not> gp_ignore_eos (cx_params cx) \<and> cx_is_eog cx next then
        if gp_keep_special_tokens (cx_params cx) then
          let (piece, utf8) = us_push (cx_decode cx next) (cs_utf8 c);
              (out, matcher) = sm_flush_with piece (cs_matcher c) in
          Some (emitted out, Stopped FinishStop,
                c\<lparr>cs_generated_ids := cs_generated_ids c @ [next], cs_utf8 := utf8, cs_matcher := matcher\<rparr>)
        else Some ([], Stopped FinishStop, c)
      else if is_stop_token next (cs_matcher c) then Some ([], Stopped FinishStop, c)
      else
        let (piece, utf8) = us_push (cx_decode cx next) (cs_utf8 c);
            c = c\<lparr>cs_generated_ids := cs_generated_ids c @ [next], cs_utf8 := utf8\<rparr> in
        case sm_push piece (cs_matcher c) of
          None \<Rightarrow> None
        | Some (Emit out, matcher) \<Rightarrow> Some (emitted out, Continue, c\<lparr>cs_matcher := matcher\<rparr>)
        | Some (Matched out stop, matcher) \<Rightarrow>
            Some (emitted out, Stopped (StopSequence stop), c\<lparr>cs_matcher := matcher\<rparr>))"

definition cs_flush :: "('s, 'l, 'p) choice_stream \<Rightarrow> (bytes list \<times> ('s, 'l, 'p) choice_stream) option" where
  "cs_flush c =
     (let (partial, utf8) = us_flush (cs_utf8 c); c = c\<lparr>cs_utf8 := utf8\<rparr> in
      case (if partial = [] then Some ([], cs_matcher c)
            else map_option (\<lambda>(r, m). case r of Emit out \<Rightarrow> (emitted out, m) | Matched out _ \<Rightarrow> (emitted out, m))
              (sm_push partial (cs_matcher c))) of
        None \<Rightarrow> None
      | Some (outs, matcher) \<Rightarrow>
          let (tail, matcher) = sm_flush matcher in Some (outs @ emitted tail, c\<lparr>cs_matcher := matcher\<rparr>))"

section \<open>The engine\<close>

text \<open>The trait \<open>DecodeEngine\<close>, as the record of its operations on a state.  \<open>truncate\<close> may panic.\<close>

record ('e, 'l) decode_engine =
  de_step :: "nat \<Rightarrow> nat \<Rightarrow> 'e \<Rightarrow> 'l \<times> 'e"
  de_draft :: "nat list \<Rightarrow> nat list \<Rightarrow> nat \<Rightarrow> 'e \<Rightarrow> nat list \<times> 'e"
  de_batch :: "nat list \<Rightarrow> nat \<Rightarrow> 'e \<Rightarrow> 'l list option \<times> 'e"
  de_truncate :: "nat \<Rightarrow> 'e \<Rightarrow> 'e option"
  de_observe :: "nat \<Rightarrow> nat \<Rightarrow> 'e \<Rightarrow> 'e"

text \<open>A closure is an engine that never speculates.\<close>

definition closure_engine :: "(nat \<Rightarrow> nat \<Rightarrow> 'e \<Rightarrow> 'l \<times> 'e) \<Rightarrow> ('e, 'l) decode_engine" where
  "closure_engine f = \<lparr>de_step = f, de_draft = (\<lambda>_ _ _ e. ([], e)), de_batch = (\<lambda>_ _ e. (None, e)),
     de_truncate = (\<lambda>_ e. Some e), de_observe = (\<lambda>_ _ e. e)\<rparr>"

text \<open>A run that may panic or fail, with the texts it emitted.\<close>

type_synonym ('s, 'l, 'p, 'e, 'err) decode_run =
  "('err, bytes list \<times> ('s, 'l, 'p) choice_stream \<times> 'e) result option"

definition cs_step ::
  "('s, 'l, 'p, 'err) step_context \<Rightarrow> ('e, 'l) decode_engine \<Rightarrow> ('s, 'l, 'p) choice_stream \<Rightarrow> 'e
    \<Rightarrow> ('s, 'l, 'p, 'e, 'err) decode_run" where
  "cs_step cx eng c e =
     (case cx_sample cx (cs_state c) (cs_logits c) (cx_prompt cx) (cs_generated_ids c) of
        Inl err \<Rightarrow> Some (Inl err)
      | Inr (GrammarComplete, state) \<Rightarrow> Some (Inr ([], cs_stop FinishStop (c\<lparr>cs_state := state\<rparr>), e))
      | Inr (Token next probs, state) \<Rightarrow>
          (case commit cx next (c\<lparr>cs_state := state\<rparr>) of
             None \<Rightarrow> None
           | Some (outs, Stopped reason, c) \<Rightarrow> Some (Inr (outs, cs_stop reason c, e))
           | Some (outs, Continue, c) \<Rightarrow>
               let c = (case probs of None \<Rightarrow> c | Some p \<Rightarrow> c\<lparr>cs_per_token_probs := cs_per_token_probs c @ [(next, p)]\<rparr>);
                   (logits, e) = de_step eng next (cs_pos c) e in
               Some (Inr (outs, c\<lparr>cs_logits := logits, cs_pos := cs_pos c + 1\<rparr>, e))))"

section \<open>A speculative round\<close>

text \<open>The walk over a drafted block: the tokens the sampler drew, how many drafts agreed, whether
  the grammar completed, and the sampler's state.  \<open>rows\<close> are the logits after each draft.\<close>

fun verify_block ::
  "('s, 'l, 'p, 'err) step_context \<Rightarrow> 's \<Rightarrow> 'l \<Rightarrow> 'l list \<Rightarrow> nat list \<Rightarrow> nat list
    \<Rightarrow> ('err, nat list \<times> nat \<times> bool \<times> 's) result option" where
  "verify_block cx state logits rows draft history =
     (case cx_sample cx state logits (cx_prompt cx) history of
        Inl err \<Rightarrow> Some (Inl err)
      | Inr (GrammarComplete, state) \<Rightarrow> Some (Inr ([], 0, True, state))
      | Inr (Token t _, state) \<Rightarrow>
          (case draft of
             [] \<Rightarrow> Some (Inr ([t], 0, False, state))
           | d # draft \<Rightarrow>
               if t = d then
                 (case rows of
                    [] \<Rightarrow> None
                  | row # rows \<Rightarrow> bind_run (verify_block cx state row rows draft (history @ [t]))
                      (\<lambda>(tokens, accepted, done). Some (Inr (t # tokens, Suc accepted, done))))
               else Some (Inr ([t], 0, False, state))))"

text \<open>Committing the block: up to the token that stops, with its index.\<close>

fun commit_block ::
  "('s, 'l, 'p, 'err) step_context \<Rightarrow> nat list \<Rightarrow> ('s, 'l, 'p) choice_stream
    \<Rightarrow> (bytes list \<times> (nat \<times> finish_reason) option \<times> ('s, 'l, 'p) choice_stream) option" where
  "commit_block cx [] c = Some ([], None, c)"
| "commit_block cx (t # tokens) c =
     (case commit cx t c of
        None \<Rightarrow> None
      | Some (outs, Stopped reason, c) \<Rightarrow> Some (outs, Some (0, reason), c)
      | Some (outs, Continue, c) \<Rightarrow>
          map_option (\<lambda>(outs', stop, c). (outs @ outs', map_option (\<lambda>(i, r). (Suc i, r)) stop, c))
            (commit_block cx tokens c))"

text \<open>A round: whether it ran.\<close>

definition speculate ::
  "('s, 'l, 'p, 'err) step_context \<Rightarrow> ('e, 'l) decode_engine \<Rightarrow> nat \<Rightarrow> ('s, 'l, 'p) choice_stream \<Rightarrow> 'e
    \<Rightarrow> ('err, bool \<times> bytes list \<times> ('s, 'l, 'p) choice_stream \<times> 'e) result option" where
  "speculate cx eng draft_max c e =
     (let room = gp_max_tokens (cx_params cx) - length (cs_generated_ids c) - 1 in
      if room = 0 then Some (Inr (False, [], c, e))
      else
        let (draft, e) = de_draft eng (cx_prompt cx) (cs_generated_ids c) (min draft_max room) e in
        if draft = [] then Some (Inr (False, [], c, e))
        else case de_batch eng draft (cs_pos c) e of
          (None, e) \<Rightarrow> Some (Inr (False, [], c, e))
        | (Some rows, e) \<Rightarrow>
            bind_run (verify_block cx (cs_state c) (cs_logits c) rows draft (cs_generated_ids c))
              (\<lambda>(tokens, accepted, complete, state).
                let c = c\<lparr>cs_state := state\<rparr>; e = de_observe eng accepted (length draft) e in
                case (if accepted < length draft then de_truncate eng (cs_pos c + accepted) e else Some e) of
                  None \<Rightarrow> None
                | Some e \<Rightarrow>
                    let c = c\<lparr>cs_pos := cs_pos c + accepted\<rparr> in
                    case commit_block cx tokens c of
                      None \<Rightarrow> None
                    | Some (outs, Some (i, reason), c) \<Rightarrow>
                        let kept = cs_pos c - accepted + min i accepted in
                        map_option (\<lambda>e. Inr (True, outs, cs_stop reason (c\<lparr>cs_pos := kept\<rparr>), e)) (de_truncate eng kept e)
                    | Some (outs, None, c) \<Rightarrow>
                        if complete then Some (Inr (True, outs, cs_stop FinishStop c, e))
                        else if tokens = [] then Some (Inr (True, outs, c, e))
                        else
                          let (logits, e) = de_step eng (last tokens) (cs_pos c) e in
                          Some (Inr (True, outs, c\<lparr>cs_logits := logits, cs_pos := cs_pos c + 1\<rparr>, e))))"

section \<open>The loop\<close>

definition emits_before ::
  "bytes list \<Rightarrow> ('s, 'l, 'p, 'e, 'err) decode_run \<Rightarrow> ('s, 'l, 'p, 'e, 'err) decode_run" where
  "emits_before outs r = bind_run r (\<lambda>(outs', c, e). Some (Inr (outs @ outs', c, e)))"

text \<open>One turn, and the loop with its flush.  \<open>cancel\<close> tells at which turns the request is found
  cancelled.  Every turn commits a token or stops, so \<open>max_tokens + 1\<close> turns are enough.\<close>

definition decode_turn ::
  "('s, 'l, 'p, 'err) step_context \<Rightarrow> ('e, 'l) decode_engine \<Rightarrow> nat \<Rightarrow> ('s, 'l, 'p) choice_stream \<Rightarrow> 'e
    \<Rightarrow> ('s, 'l, 'p, 'e, 'err) decode_run" where
  "decode_turn cx eng draft_max c e =
     (if draft_max = 0 then cs_step cx eng c e
      else bind_run (speculate cx eng draft_max c e) (\<lambda>(ran, outs, c, e).
        if ran then Some (Inr (outs, c, e)) else cs_step cx eng c e))"

fun decode_loop ::
  "nat \<Rightarrow> ('s, 'l, 'p, 'err) step_context \<Rightarrow> ('e, 'l) decode_engine \<Rightarrow> nat \<Rightarrow> (nat \<Rightarrow> bool) \<Rightarrow> ('s, 'l, 'p) choice_stream \<Rightarrow> 'e
    \<Rightarrow> ('s, 'l, 'p, 'e, 'err) decode_run" where
  "decode_loop 0 cx eng draft_max cancel c e = None"
| "decode_loop (Suc fuel) cx eng draft_max cancel c e =
     (let (go, c) = check_budget (cx_params cx) (cancel 0) c in
      if go then
        bind_run (decode_turn cx eng draft_max c e) (\<lambda>(outs, c, e).
          emits_before outs (decode_loop fuel cx eng draft_max (\<lambda>n. cancel (Suc n)) c e))
      else Some (Inr ([], c, e)))"

definition sample_until_stop ::
  "('s, 'l, 'p, 'err) step_context \<Rightarrow> ('e, 'l) decode_engine \<Rightarrow> nat \<Rightarrow> (nat \<Rightarrow> bool) \<Rightarrow> 's \<Rightarrow> 'l \<Rightarrow> nat \<Rightarrow> 'e
    \<Rightarrow> ('s, 'l, 'p, 'e, 'err) decode_run" where
  "sample_until_stop cx eng draft_max cancel state logits pos e =
     bind_run (decode_loop (gp_max_tokens (cx_params cx) + 1) cx eng draft_max cancel
         (choice_stream_new logits pos state (cx_params cx)) e) (\<lambda>(outs, c, e).
       map_option (\<lambda>(outs', c). Inr (outs @ outs', c, e)) (cs_flush c))"

end
