(* ===== verification/Decode_Engine.thy ===== *)
theory Decode_Engine
  imports Decode_Loop
begin

section \<open>What an engine promises\<close>

text \<open>
  The contract of a \<open>DecodeEngine\<close>: its store holds the tokens fed so far (\<open>rep e ts f\<close>, with \<open>f\<close>
  the length it can be cut back to), the logits it returns are a function \<open>lm\<close> of those tokens, in a
  batch as in single steps, and a batch it accepts can be cut back.  (The code's own test pins the
  logits of a batch and of single steps together up to a rounding.)
\<close>

definition engine_ok ::
  "('e, 'l) decode_engine \<Rightarrow> ('e \<Rightarrow> nat list \<Rightarrow> nat \<Rightarrow> bool) \<Rightarrow> (nat list \<Rightarrow> 'l) \<Rightarrow> bool" where
  "engine_ok eng rep lm \<longleftrightarrow>
     (\<forall>e ts f. rep e ts f \<longrightarrow>
        (\<forall>t. fst (de_step eng t (length ts) e) = lm (ts @ [t])
           \<and> rep (snd (de_step eng t (length ts) e)) (ts @ [t]) (Suc (length ts)))
      \<and> (\<forall>p h m. length (fst (de_draft eng p h m e)) \<le> m \<and> rep (snd (de_draft eng p h m e)) ts f)
      \<and> (\<forall>d e'. de_batch eng d (length ts) e = (None, e') \<longrightarrow> rep e' ts f)
      \<and> (\<forall>d rows e'. de_batch eng d (length ts) e = (Some rows, e') \<longrightarrow>
          rows = map (\<lambda>i. lm (ts @ take (Suc i) d)) [0..<length d] \<and> rep e' (ts @ d) (length ts))
      \<and> (\<forall>n. f \<le> n \<and> n \<le> length ts \<longrightarrow> (\<exists>e'. de_truncate eng n e = Some e' \<and> rep e' (take n ts) f))
      \<and> (\<forall>a b. rep (de_observe eng a b e) ts f))"

lemma engine_step:
  assumes "engine_ok eng rep lm" "rep e ts f"
  obtains e' where "de_step eng t (length ts) e = (lm (ts @ [t]), e')" "rep e' (ts @ [t]) (Suc (length ts))"
proof -
  have "fst (de_step eng t (length ts) e) = lm (ts @ [t])" "rep (snd (de_step eng t (length ts) e)) (ts @ [t]) (Suc (length ts))"
    using assms unfolding engine_ok_def by blast+
  then show thesis by (cases "de_step eng t (length ts) e") (auto intro: that)
qed

lemma engine_draft:
  assumes "engine_ok eng rep lm" "rep e ts f" "de_draft eng p h m e = (d, e')"
  shows "length d \<le> m \<and> rep e' ts f"
proof -
  have "length (fst (de_draft eng p h m e)) \<le> m \<and> rep (snd (de_draft eng p h m e)) ts f"
    using assms(1,2) unfolding engine_ok_def by blast
  then show ?thesis using assms(3) by simp
qed

lemma engine_batch:
  assumes "engine_ok eng rep lm" "rep e ts f"
  shows "de_batch eng d (length ts) e = (None, e') \<Longrightarrow> rep e' ts f"
    and "de_batch eng d (length ts) e = (Some rows, e') \<Longrightarrow>
      rows = map (\<lambda>i. lm (ts @ take (Suc i) d)) [0..<length d] \<and> rep e' (ts @ d) (length ts)"
  using assms unfolding engine_ok_def by blast+

lemma engine_truncate:
  assumes "engine_ok eng rep lm" "rep e ts f" "f \<le> n" "n \<le> length ts"
  obtains e' where "de_truncate eng n e = Some e'" "rep e' (take n ts) f"
  using assms unfolding engine_ok_def by blast

lemma engine_observe: "engine_ok eng rep lm \<Longrightarrow> rep e ts f \<Longrightarrow> rep (de_observe eng a b e) ts f"
  unfolding engine_ok_def by blast

section \<open>A commit looks at the matcher, the decoder and the ids only\<close>

definition core :: "('s, 'l, 'p) choice_stream \<Rightarrow> stop_matcher \<times> bytes \<times> nat list" where
  "core c = (cs_matcher c, cs_utf8 c, cs_generated_ids c)"

definition with_core :: "stop_matcher \<times> bytes \<times> nat list \<Rightarrow> ('s, 'l, 'p) choice_stream \<Rightarrow> ('s, 'l, 'p) choice_stream" where
  "with_core k c = c\<lparr>cs_matcher := fst k, cs_utf8 := fst (snd k), cs_generated_ids := snd (snd k)\<rparr>"

lemma core_with_core [simp]: "core (with_core k c) = k"
  by (simp add: core_def with_core_def)

lemma core_ids [simp]: "snd (snd (core c)) = cs_generated_ids c"
  by (simp add: core_def)

lemma with_core_fields [simp]:
  "cs_state (with_core k c) = cs_state c" "cs_finish (with_core k c) = cs_finish c"
  "cs_per_token_probs (with_core k c) = cs_per_token_probs c" "cs_logits (with_core k c) = cs_logits c"
  "cs_pos (with_core k c) = cs_pos c" "cs_done (with_core k c) = cs_done c" "cs_generated_ids (with_core k c) = snd (snd k)"
  by (simp_all add: with_core_def)

lemma core_update [simp]:
  "core (c\<lparr>cs_state := s\<rparr>) = core c" "core (c\<lparr>cs_finish := r\<rparr>) = core c" "core (c\<lparr>cs_per_token_probs := p\<rparr>) = core c"
  "core (c\<lparr>cs_logits := l\<rparr>) = core c" "core (c\<lparr>cs_pos := n\<rparr>) = core c" "core (c\<lparr>cs_done := b\<rparr>) = core c"
  "core (cs_stop r c) = core c"
  by (simp_all add: core_def cs_stop_def)

lemma cs_stop_fields [simp]:
  "cs_done (cs_stop r c)" "cs_finish (cs_stop r c) = r" "cs_pos (cs_stop r c) = cs_pos c"
  "cs_generated_ids (cs_stop r c) = cs_generated_ids c" "cs_matcher (cs_stop r c) = cs_matcher c"
  by (simp_all add: cs_stop_def)

text \<open>A commit, on the core.\<close>

definition commit_core ::
  "('s, 'l, 'p, 'err) step_context \<Rightarrow> nat \<Rightarrow> stop_matcher \<times> bytes \<times> nat list
    \<Rightarrow> (bytes list \<times> committed \<times> stop_matcher \<times> bytes \<times> nat list) option" where
  "commit_core cx next k = map_option (\<lambda>(outs, r, c). (outs, r, core c))
     (commit cx next (with_core k (undefined :: ('s, 'l, 'p) choice_stream)))"

lemma commit_by_core:
  fixes cx :: "('s, 'l, 'p, 'err) step_context" and c :: "('s, 'l, 'p) choice_stream"
  shows "commit cx next c = map_option (\<lambda>(outs, r, k). (outs, r, with_core k c)) (commit_core cx next (core c))"
  by (cases c)
     (auto simp: commit_def commit_core_def Let_def core_def with_core_def sm_flush_with_def
       split: prod.splits option.splits stop_step.splits)

lemma commit_continue:
  assumes "commit_core cx next k = Some (outs, Continue, k')"
  shows "snd (snd k') = snd (snd k) @ [next]"
  using assms
  by (cases k) (auto simp: commit_def commit_core_def Let_def core_def with_core_def
      split: prod.splits option.splits stop_step.splits if_splits)

fun commit_block_core ::
  "('s, 'l, 'p, 'err) step_context \<Rightarrow> nat list \<Rightarrow> stop_matcher \<times> bytes \<times> nat list
    \<Rightarrow> (bytes list \<times> (nat \<times> finish_reason) option \<times> stop_matcher \<times> bytes \<times> nat list) option" where
  "commit_block_core cx [] k = Some ([], None, k)"
| "commit_block_core cx (t # tokens) k =
     (case commit_core cx t k of
        None \<Rightarrow> None
      | Some (outs, Stopped reason, k) \<Rightarrow> Some (outs, Some (0, reason), k)
      | Some (outs, Continue, k) \<Rightarrow>
          map_option (\<lambda>(outs', stop, k). (outs @ outs', map_option (\<lambda>(i, r). (Suc i, r)) stop, k))
            (commit_block_core cx tokens k))"

lemma with_core_with_core [simp]: "with_core k (with_core k' c) = with_core k c"
  by (simp add: with_core_def)

lemma with_core_core [simp]: "with_core (core c) c = c"
  by (simp add: with_core_def core_def)

lemma commit_block_by_core:
  "commit_block cx tokens c = map_option (\<lambda>(outs, s, k). (outs, s, with_core k c)) (commit_block_core cx tokens (core c))"
proof (induction tokens arbitrary: c)
  case (Cons t tokens)
  show ?case
  proof (cases "commit_core cx t (core c)")
    case (Some x)
    then obtain outs r k where x: "commit_core cx t (core c) = Some (outs, r, k)" by (cases x) auto
    then show ?thesis
      using Cons.IH [of "with_core k c"]
      by (cases r) (auto simp: commit_by_core [of cx t c] option.map_comp comp_def split: prod.splits intro!: option.map_cong)
  qed (simp add: commit_by_core)
qed simp


section \<open>Plain turns that follow a verified block\<close>

abbreviation never :: "nat \<Rightarrow> bool" where
  "never \<equiv> \<lambda>_. False"

lemma emits_before_simps [simp]:
  "emits_before [] r = r" "emits_before a (emits_before b r) = emits_before (a @ b) r"
  "emits_before a None = None" "emits_before a (Some (Inl err)) = Some (Inl err)"
  "emits_before a (Some (Inr (outs, c, e))) = Some (Inr (a @ outs, c, e))"
  by (auto simp: emits_before_def bind_run_def split: option.splits sum.splits)

lemma decode_loop_step:
  assumes "\<not> cs_done c" "length (cs_generated_ids c) < gp_max_tokens (cx_params cx)"
    and "decode_turn cx eng dm c e = Some (Inr (outs, c1, e1))"
  shows "decode_loop (Suc fuel) cx eng dm never c e = emits_before outs (decode_loop fuel cx eng dm never c1 e1)"
  using assms by (simp add: check_budget_def)

text \<open>Where the plain loop stands when it has drawn the block \<open>ts\<close> and committed it.\<close>

definition after_block ::
  "('l \<times> nat list \<times> nat list \<times> bool \<times> 's \<times> (nat \<times> finish_reason) option \<times> stop_matcher \<times> bytes \<times> nat list)
    \<Rightarrow> ('e \<Rightarrow> nat list \<Rightarrow> nat \<Rightarrow> bool) \<Rightarrow> ('s, 'l, 'p) choice_stream \<Rightarrow> ('s, 'l, 'p) choice_stream \<Rightarrow> 'e \<Rightarrow> bool" where
  "after_block blk rep c c' e' = (case blk of (l, us, ts, complete, st, stop, k) \<Rightarrow>
     core c' = k \<and>
     (case stop of
        Some (i, reason) \<Rightarrow> cs_done c' \<and> cs_finish c' = reason \<and> cs_pos c' = length us + i \<and> (\<exists>f. rep e' (us @ take i ts) f)
      | None \<Rightarrow> cs_pos c' = length us + length ts \<and> (\<exists>f. rep e' (us @ ts) f)
          \<and> (if complete then cs_done c' \<and> cs_finish c' = FinishStop
             else \<not> cs_done c' \<and> cs_finish c' = cs_finish c \<and> cs_state c' = st \<and> cs_logits c' = l)))"

lemma plain_turn:
  fixes cx :: "('s, 'l, 'p, 'err) step_context" and c :: "('s, 'l, 'p) choice_stream"
  assumes eng: "engine_ok eng rep lm"
    and draw: "cx_sample cx (cs_state c) (cs_logits c) (cx_prompt cx) (cs_generated_ids c) = Inr (Token t p, st)"
    and com: "commit_core cx t (core c) = Some (outs, r, k)"
    and "rep e us f" "cs_pos c = length us" "\<not> cs_done c"
  shows "\<exists>c' e'. decode_turn cx eng 0 c e = Some (Inr (outs, c', e')) \<and> core c' = k
    \<and> (case r of
        Stopped reason \<Rightarrow> cs_done c' \<and> cs_finish c' = reason \<and> cs_pos c' = length us \<and> rep e' us f
      | Continue \<Rightarrow> cs_pos c' = Suc (length us) \<and> rep e' (us @ [t]) (Suc (length us)) \<and> \<not> cs_done c'
          \<and> cs_finish c' = cs_finish c \<and> cs_state c' = st \<and> cs_logits c' = lm (us @ [t]))"
proof -
  have c: "commit cx t (c\<lparr>cs_state := st\<rparr>) = Some (outs, r, with_core k (c\<lparr>cs_state := st\<rparr>))"
    using com by (simp add: commit_by_core)
  show ?thesis
  proof (cases r)
    case (Stopped reason)
    with draw c assms(4-6) show ?thesis by (simp add: decode_turn_def cs_step_def)
  next
    case Continue
    obtain e' where e': "de_step eng t (length us) e = (lm (us @ [t]), e')" "rep e' (us @ [t]) (Suc (length us))"
      by (rule engine_step [OF eng assms(4)])
    show ?thesis
    proof (cases p)
      case None
      then show ?thesis using draw c Continue e' assms(5,6) by (simp add: decode_turn_def cs_step_def)
    next
      case (Some q)
      then show ?thesis using draw c Continue e' assms(5,6) by (simp add: decode_turn_def cs_step_def)
    qed
  qed
qed

lemma complete_follows:
  assumes "cx_sample cx (cs_state c) (cs_logits c) (cx_prompt cx) (cs_generated_ids c) = Inr (GrammarComplete, st)"
    and "rep e us f" "cs_pos c = length us" "\<not> cs_done c" "length (cs_generated_ids c) < gp_max_tokens (cx_params cx)"
  shows "\<exists>n c' e'. after_block (l, us, [], True, st, None, core c) rep c c' e'
    \<and> (\<forall>fuel. decode_loop (n + fuel) cx eng 0 never c e = decode_loop fuel cx eng 0 never c' e')"
proof -
  have turn: "decode_turn cx eng 0 c e = Some (Inr ([], cs_stop FinishStop (c\<lparr>cs_state := st\<rparr>), e))"
    using assms(1) by (simp add: decode_turn_def cs_step_def)
  have "after_block (l, us, [], True, st, None, core c) rep c (cs_stop FinishStop (c\<lparr>cs_state := st\<rparr>)) e"
    using assms(2,3) by (auto simp: after_block_def)
  moreover have "decode_loop (1 + fuel) cx eng 0 never c e
      = decode_loop fuel cx eng 0 never (cs_stop FinishStop (c\<lparr>cs_state := st\<rparr>)) e" for fuel
    using decode_loop_step [OF assms(4,5) turn] by simp
  ultimately show ?thesis by blast
qed

lemma single_follows:
  fixes cx :: "('s, 'l, 'p, 'err) step_context" and c :: "('s, 'l, 'p) choice_stream"
  assumes eng: "engine_ok eng rep lm"
    and draw: "cx_sample cx (cs_state c) (cs_logits c) (cx_prompt cx) (cs_generated_ids c) = Inr (Token t p, st)"
    and block: "commit_block_core cx [t] (core c) = Some (outs, stop, k)"
    and "rep e us f" "cs_pos c = length us" "\<not> cs_done c" "length (cs_generated_ids c) < gp_max_tokens (cx_params cx)"
  shows "(case stop of Some (i, _) \<Rightarrow> i < 1 | None \<Rightarrow> snd (snd k) = cs_generated_ids c @ [t])
    \<and> (\<exists>n c' e'. after_block (lm (us @ [t]), us, [t], False, st, stop, k) rep c c' e'
        \<and> (\<forall>fuel. decode_loop (n + fuel) cx eng 0 never c e = emits_before outs (decode_loop fuel cx eng 0 never c' e')))"
proof -
  obtain outs1 r k1 where com: "commit_core cx t (core c) = Some (outs1, r, k1)"
    using block by (cases "commit_core cx t (core c)") auto
  from plain_turn [OF eng draw com assms(4-6)] obtain c' e' where turn: "decode_turn cx eng 0 c e = Some (Inr (outs1, c', e'))"
    "core c' = k1" and after: "case r of
        Stopped reason \<Rightarrow> cs_done c' \<and> cs_finish c' = reason \<and> cs_pos c' = length us \<and> rep e' us f
      | Continue \<Rightarrow> cs_pos c' = Suc (length us) \<and> rep e' (us @ [t]) (Suc (length us)) \<and> \<not> cs_done c'
          \<and> cs_finish c' = cs_finish c \<and> cs_state c' = st \<and> cs_logits c' = lm (us @ [t])" by blast
  have blk: "outs = outs1" "k = k1" "stop = (case r of Stopped reason \<Rightarrow> Some (0, reason) | Continue \<Rightarrow> None)"
    using block com by (cases r; simp)+
  have "after_block (lm (us @ [t]), us, [t], False, st, stop, k) rep c c' e'"
    using blk turn(2) after by (cases r) (auto simp: after_block_def)
  moreover have "decode_loop (1 + fuel) cx eng 0 never c e = emits_before outs (decode_loop fuel cx eng 0 never c' e')" for fuel
    using decode_loop_step [OF assms(6,7) turn(1)] blk by simp
  moreover have "case stop of Some (i, _) \<Rightarrow> i < 1 | None \<Rightarrow> snd (snd k) = cs_generated_ids c @ [t]"
    using blk com commit_continue [of cx t "core c" outs1 k1] by (cases r) (auto simp: core_def)
  ultimately show ?thesis by blast
qed

lemma verify_block_shape:
  "verify_block cx st l rows ds hist = Some (Inr (ts, acc, complete, st')) \<Longrightarrow>
    acc \<le> length ds \<and> take acc ts = take acc ds \<and> length ts = (if complete then acc else Suc acc)"
proof (induction ds arbitrary: st l rows hist ts acc)
  case Nil
  then show ?case by (auto split: sum.splits step.splits prod.splits)
next
  case (Cons d ds)
  show ?case
  proof (cases "cx_sample cx st l (cx_prompt cx) hist")
    case (Inr x)
    obtain s st1 where x: "x = (s, st1)" by (cases x)
    show ?thesis
    proof (cases s)
      case (Token t p)
      show ?thesis
      proof (cases "t = d")
        case True
        with Cons.prems Inr x Token obtain row rows' ts' acc' where
          "verify_block cx st1 row rows' ds (hist @ [t]) = Some (Inr (ts', acc', complete, st'))" "ts = t # ts'" "acc = Suc acc'"
          by (auto simp: bind_run_ok_iff split: list.splits)
        with Cons.IH True show ?thesis by fastforce
      qed (use Cons.prems Inr x Token in auto)
    qed (use Cons.prems Inr x in auto)
  qed (use Cons.prems in simp)
qed

lemma verify_agree:
  "cx_sample cx st l (cx_prompt cx) hist = Inr (Token d p, st1) \<Longrightarrow>
     verify_block cx st l (row # rows) (d # ds) hist =
       bind_run (verify_block cx st1 row rows ds (hist @ [d])) (\<lambda>(tokens, accepted, done). Some (Inr (d # tokens, Suc accepted, done)))"
  by (subst verify_block.simps) simp

lemma plain_follows:
  fixes cx :: "('s, 'l, 'p, 'err) step_context" and c :: "('s, 'l, 'p) choice_stream"
  assumes eng: "engine_ok eng rep lm"
    and "verify_block cx (cs_state c) (cs_logits c) (map (\<lambda>i. lm (us @ take (Suc i) ds)) [0..<length ds]) ds (cs_generated_ids c)
      = Some (Inr (ts, acc, complete, st))"
    and "commit_block_core cx ts (core c) = Some (outs, stop, k)"
    and "rep e us f" "cs_pos c = length us" "\<not> cs_done c"
    and "length (cs_generated_ids c) + length ds < gp_max_tokens (cx_params cx)"
  shows "acc \<le> length ds \<and> take acc ts = take acc ds \<and> length ts = (if complete then acc else Suc acc)
    \<and> (case stop of Some (i, _) \<Rightarrow> i < length ts | None \<Rightarrow> snd (snd k) = cs_generated_ids c @ ts)
    \<and> (\<exists>n c' e'. after_block (lm (us @ ts), us, ts, complete, st, stop, k) rep c c' e'
        \<and> (\<forall>fuel. decode_loop (n + fuel) cx eng 0 never c e = emits_before outs (decode_loop fuel cx eng 0 never c' e')))"
  using assms(2-)
proof (induction ds arbitrary: c us e f ts acc outs stop)
  case Nil
  show ?case
  proof (cases "cx_sample cx (cs_state c) (cs_logits c) (cx_prompt cx) (cs_generated_ids c)")
    case (Inr x)
    then show ?thesis
    proof (cases "fst x")
      case (Token t p)
      then have x: "cx_sample cx (cs_state c) (cs_logits c) (cx_prompt cx) (cs_generated_ids c) = Inr (Token t p, snd x)"
        using Inr by (cases x) simp
      with Nil.prems(1) have blk: "ts = [t]" "acc = 0" "\<not> complete" "st = snd x" by auto
      have "length (cs_generated_ids c) < gp_max_tokens (cx_params cx)" using Nil.prems(6) by simp
      note S = single_follows [OF eng x Nil.prems(2) [unfolded blk] Nil.prems(3-5) this]
      then show ?thesis using blk by (cases stop) auto
    next
      case GrammarComplete
      then have x: "cx_sample cx (cs_state c) (cs_logits c) (cx_prompt cx) (cs_generated_ids c) = Inr (GrammarComplete, snd x)"
        using Inr by (cases x) simp
      with Nil.prems(1) have blk: "ts = []" "acc = 0" "complete" "st = snd x" by auto
      then show ?thesis using complete_follows [where rep = rep and e = e and us = us and f = f, OF x Nil.prems(3-5)] Nil.prems(2,6) by auto
    qed
  qed (use Nil.prems(1) in simp)
next
  case (Cons d ds)
  have room: "length (cs_generated_ids c) < gp_max_tokens (cx_params cx)" using Cons.prems(6) by simp
  have rows: "map (\<lambda>i. lm (us @ take (Suc i) (d # ds))) [0..<length (d # ds)]
      = lm (us @ [d]) # map (\<lambda>i. lm ((us @ [d]) @ take (Suc i) ds)) [0..<length ds]"
    by (simp add: upt_conv_Cons map_Suc_upt [symmetric] del: upt_Suc)
  show ?case
  proof (cases "cx_sample cx (cs_state c) (cs_logits c) (cx_prompt cx) (cs_generated_ids c)")
    case (Inr x)
    then show ?thesis
    proof (cases "fst x")
      case (Token t p)
      then have x: "cx_sample cx (cs_state c) (cs_logits c) (cx_prompt cx) (cs_generated_ids c) = Inr (Token t p, snd x)"
        using Inr by (cases x) simp
      show ?thesis
      proof (cases "t = d")
        case False
        with Cons.prems(1) x have blk: "ts = [t]" "acc = 0" "\<not> complete" "st = snd x" by (auto simp: rows)
        note S = single_follows [OF eng x Cons.prems(2) [unfolded blk] Cons.prems(3-5) room]
        then show ?thesis using blk by (cases stop) auto
      next
        case True
        note agree = verify_agree [OF x [unfolded True], of "lm (us @ [d])" "map (\<lambda>i. lm ((us @ [d]) @ take (Suc i) ds)) [0..<length ds]" ds]
        have "bind_run (verify_block cx (snd x) (lm (us @ [d])) (map (\<lambda>i. lm ((us @ [d]) @ take (Suc i) ds)) [0..<length ds]) ds
            (cs_generated_ids c @ [d])) (\<lambda>(tokens, accepted, done). Some (Inr (d # tokens, Suc accepted, done)))
          = Some (Inr (ts, acc, complete, st))"
          using Cons.prems(1) unfolding rows agree .
        with True obtain ts' acc' where v: "ts = t # ts'" "acc = Suc acc'"
          "verify_block cx (snd x) (lm (us @ [t])) (map (\<lambda>i. lm ((us @ [t]) @ take (Suc i) ds)) [0..<length ds]) ds
            (cs_generated_ids c @ [t]) = Some (Inr (ts', acc', complete, st))"
          by (auto simp: bind_run_ok_iff simp del: verify_block.simps)
        obtain outs1 r k1 where com: "commit_core cx t (core c) = Some (outs1, r, k1)"
          using Cons.prems(2) v(1) by (cases "commit_core cx t (core c)") auto
        from plain_turn [OF eng x com Cons.prems(3-5)] obtain c1 e1 where turn: "decode_turn cx eng 0 c e = Some (Inr (outs1, c1, e1))"
          "core c1 = k1" and after: "case r of
              Stopped reason \<Rightarrow> cs_done c1 \<and> cs_finish c1 = reason \<and> cs_pos c1 = length us \<and> rep e1 us f
            | Continue \<Rightarrow> cs_pos c1 = Suc (length us) \<and> rep e1 (us @ [t]) (Suc (length us)) \<and> \<not> cs_done c1
                \<and> cs_finish c1 = cs_finish c \<and> cs_state c1 = snd x \<and> cs_logits c1 = lm (us @ [t])" by blast
        note loop = decode_loop_step [OF Cons.prems(5) room turn(1)]
        show ?thesis
        proof (cases r)
          case (Stopped reason)
          with Cons.prems(2) v(1) com have blk: "stop = Some (0, reason)" "outs = outs1" "k = k1" by simp_all
          note shape = verify_block_shape [OF v(3)]
          have "after_block (lm (us @ ts), us, ts, complete, st, stop, k) rep c c1 e1"
            using blk turn(2) after Stopped by (auto simp: after_block_def)
          moreover have "decode_loop (1 + fuel) cx eng 0 never c e = emits_before outs (decode_loop fuel cx eng 0 never c1 e1)" for fuel
            using loop blk by simp
          ultimately have ex: "\<exists>n c' e'. after_block (lm (us @ ts), us, ts, complete, st, stop, k) rep c c' e'
            \<and> (\<forall>fuel. decode_loop (n + fuel) cx eng 0 never c e = emits_before outs (decode_loop fuel cx eng 0 never c' e'))"
            by blast
          then show ?thesis using shape blk v(1,2) True by auto
        next
          case Continue
          with Cons.prems(2) v(1) com obtain outs2 stop' where c2: "commit_block_core cx ts' k1 = Some (outs2, stop', k)"
            "outs = outs1 @ outs2" "stop = map_option (\<lambda>(i, r). (Suc i, r)) stop'"
            by auto
          have ids: "cs_generated_ids c1 = cs_generated_ids c @ [t]"
            using commit_continue com Continue turn(2) by (fastforce simp: core_def)
          have "length (cs_generated_ids c1) + length ds < gp_max_tokens (cx_params cx)" using Cons.prems(6) ids by simp
          moreover have "verify_block cx (cs_state c1) (cs_logits c1) (map (\<lambda>i. lm ((us @ [t]) @ take (Suc i) ds)) [0..<length ds]) ds
              (cs_generated_ids c1) = Some (Inr (ts', acc', complete, st))"
            using v(3) after Continue ids by simp
          moreover have "commit_block_core cx ts' (core c1) = Some (outs2, stop', k)" using c2(1) turn(2) by simp
          moreover have "rep e1 (us @ [t]) (Suc (length us))" "cs_pos c1 = length (us @ [t])" "\<not> cs_done c1" "cs_finish c1 = cs_finish c"
            using after Continue by simp_all
          ultimately have IH: "acc' \<le> length ds \<and> take acc' ts' = take acc' ds \<and> length ts' = (if complete then acc' else Suc acc')"
            "case stop' of Some (i, _) \<Rightarrow> i < length ts' | None \<Rightarrow> snd (snd k) = cs_generated_ids c1 @ ts'"
            "\<exists>n c' e'. after_block (lm ((us @ [t]) @ ts'), us @ [t], ts', complete, st, stop', k) rep c1 c' e'
              \<and> (\<forall>fuel. decode_loop (n + fuel) cx eng 0 never c1 e1 = emits_before outs2 (decode_loop fuel cx eng 0 never c' e'))"
            using Cons.IH [where c = c1 and us = "us @ [t]" and ts = ts' and acc = acc' and outs = outs2 and e = e1 and f = "Suc (length us)" and stop = stop'] by blast+
          then obtain n c' e' where after': "after_block (lm ((us @ [t]) @ ts'), us @ [t], ts', complete, st, stop', k) rep c1 c' e'"
            "\<And>fuel. decode_loop (n + fuel) cx eng 0 never c1 e1 = emits_before outs2 (decode_loop fuel cx eng 0 never c' e')"
            by blast
          have "after_block (lm (us @ ts), us, ts, complete, st, stop, k) rep c c' e'"
            using after'(1) \<open>cs_finish c1 = cs_finish c\<close> v(1) c2(3) by (cases stop') (auto simp: after_block_def)
          moreover have "decode_loop (Suc n + fuel) cx eng 0 never c e = emits_before outs (decode_loop fuel cx eng 0 never c' e')" for fuel
            using loop [of "n + fuel"] after'(2) c2(2) by simp
          ultimately have ex: "\<exists>n c' e'. after_block (lm (us @ ts), us, ts, complete, st, stop, k) rep c c' e'
            \<and> (\<forall>fuel. decode_loop (n + fuel) cx eng 0 never c e = emits_before outs (decode_loop fuel cx eng 0 never c' e'))"
            by blast
          have "case stop of Some (i, _) \<Rightarrow> i < length ts | None \<Rightarrow> snd (snd k) = cs_generated_ids c @ ts"
            using IH(2) c2(3) ids v(1) by (cases stop') auto
          then show ?thesis using IH(1) ex v(1,2) True by auto
        qed
      qed
    next
      case GrammarComplete
      then have x: "cx_sample cx (cs_state c) (cs_logits c) (cx_prompt cx) (cs_generated_ids c) = Inr (GrammarComplete, snd x)"
        using Inr by (cases x) simp
      with Cons.prems(1) have blk: "ts = []" "acc = 0" "complete" "st = snd x" by auto
      then show ?thesis using complete_follows [where rep = rep and e = e and us = us and f = f, OF x Cons.prems(3-5)] Cons.prems(2,6) by auto
    qed
  qed (use Cons.prems(1) in simp)
qed

end
