(* ===== verification/Decode_Lockstep.thy ===== *)
theory Decode_Lockstep
  imports Decode_Engine
begin

section \<open>Nothing panics\<close>

definition matcher_ok :: "stop_matcher \<Rightarrow> bool" where
  "matcher_ok m \<longleftrightarrow> (\<exists>e. out_of_reach (sm_stops m) e (sm_pending m))
     \<and> (\<forall>s \<in> set (sm_stops m). from_utf8 0 s = None) \<and> (sm_stops m = [] \<longrightarrow> sm_pending m = [])"

lemma matcher_ok_cleared: "matcher_ok m \<Longrightarrow> matcher_ok (m\<lparr>sm_pending := []\<rparr>)"
  by (auto simp: matcher_ok_def out_of_reach_def intro: exI [of _ "[]"])

lemma matcher_ok_new: "\<forall>s \<in> set stops. from_utf8 0 s = None \<Longrightarrow> matcher_ok (stop_matcher_new stops tokens)"
  by (auto simp: matcher_ok_def stop_matcher_new_def out_of_reach_def intro: exI [of _ "[]"])

lemma matcher_push:
  assumes "matcher_ok m"
  obtains r m' where "sm_push p m = Some (r, m')" "matcher_ok m'"
proof -
  obtain e where e: "out_of_reach (sm_stops m) e (sm_pending m)" using assms by (auto simp: matcher_ok_def)
  have ok: "\<forall>s \<in> set (sm_stops m). from_utf8 0 s = None" "sm_stops m = [] \<longrightarrow> sm_pending m = []"
    using assms by (simp_all add: matcher_ok_def)
  from sm_push_steps [OF e refl ok, of p] show thesis
  proof (elim disjE exE conjE)
    fix at s assume "sm_push p m = Some (Matched (take at (sm_pending m @ p)) s, m\<lparr>sm_pending := []\<rparr>)"
    then show thesis using matcher_ok_cleared [OF assms] by (rule that)
  next
    fix n assume "sm_push p m = Some (Emit (take n (sm_pending m @ p)), m\<lparr>sm_pending := drop n (sm_pending m @ p)\<rparr>)"
      "out_of_reach (sm_stops m) (e @ take n (sm_pending m @ p)) (drop n (sm_pending m @ p))"
      "sm_stops m = [] \<longrightarrow> drop n (sm_pending m @ p) = []"
    then show thesis using ok by (intro that) (auto simp: matcher_ok_def)
  qed
qed

lemma commit_core_ok:
  fixes cx :: "('s, 'l, 'p, 'err) step_context"
  assumes "matcher_ok (fst k)"
  obtains outs r k' where "commit_core cx t k = Some (outs, r, k')" "matcher_ok (fst k')"
proof -
  obtain m u ids where k: "k = (m, u, ids)" by (cases k)
  obtain r m' where push: "sm_push (fst (us_push (cx_decode cx t) u)) m = Some (r, m')" "matcher_ok m'"
    using matcher_push assms k by (metis fst_conv)
  have "\<exists>outs r k'. commit_core cx t k = Some (outs, r, k') \<and> matcher_ok (fst k')"
    using push assms k matcher_ok_cleared [of m]
    by (cases r) (auto simp: commit_core_def commit_def core_def with_core_def Let_def sm_flush_with_def split: prod.splits)
  then show thesis using that by blast
qed

lemma commit_block_core_ok:
  fixes cx :: "('s, 'l, 'p, 'err) step_context"
  assumes "matcher_ok (fst k)"
  shows "\<exists>outs stop k'. commit_block_core cx ts k = Some (outs, stop, k') \<and> matcher_ok (fst k')
    \<and> (case stop of None \<Rightarrow> snd (snd k') = snd (snd k) @ ts | Some (i, _) \<Rightarrow> i < length ts)"
  using assms
proof (induction ts arbitrary: k)
  case (Cons t ts)
  obtain outs r k' where c: "commit_core cx t k = Some (outs, r, k')" "matcher_ok (fst k')"
    using commit_core_ok [OF Cons.prems] .
  show ?case
  proof (cases r)
    case Continue
    from Cons.IH [OF c(2)] obtain outs' stop k2 where r: "commit_block_core cx ts k' = Some (outs', stop, k2)"
      "matcher_ok (fst k2)" "case stop of None \<Rightarrow> snd (snd k2) = snd (snd k') @ ts | Some (i, _) \<Rightarrow> i < length ts" by blast
    then show ?thesis using c Continue commit_continue [of cx t k outs k'] by (cases stop) auto
  qed (use c in auto)
qed simp

lemma cs_flush_core:
  fixes c :: "('s, 'l, 'p) choice_stream"
  assumes "matcher_ok (cs_matcher c)"
  obtains outs k where "\<forall>c' :: ('s, 'l, 'p) choice_stream. core c' = core c \<longrightarrow> cs_flush c' = Some (outs, with_core k c')" "snd (snd k) = cs_generated_ids c"
proof -
  obtain r m where push: "sm_push (fst (us_flush (cs_utf8 c))) (cs_matcher c) = Some (r, m)" using matcher_push [OF assms] .
  define k where "k = (if fst (us_flush (cs_utf8 c)) = [] then (snd (sm_flush (cs_matcher c)), snd (us_flush (cs_utf8 c)), cs_generated_ids c)
    else (snd (sm_flush m), snd (us_flush (cs_utf8 c)), cs_generated_ids c))"
  have "\<exists>outs. \<forall>c' :: ('s, 'l, 'p) choice_stream. core c' = core c \<longrightarrow> cs_flush c' = Some (outs, with_core k c')"
    using push by (cases r) (auto simp: cs_flush_def Let_def k_def core_def with_core_def sm_flush_def split: prod.splits)
  moreover have "snd (snd k) = cs_generated_ids c" by (simp add: k_def)
  ultimately show thesis using that by blast
qed

section \<open>A speculative round\<close>

text \<open>Only the sampler fails.\<close>

definition sampler_fails :: "('s, 'l, 'p, 'err) step_context \<Rightarrow> bool" where
  "sampler_fails cx \<longleftrightarrow> (\<exists>s l h err. cx_sample cx s l (cx_prompt cx) h = Inl err)"

lemma verify_block_fails: "verify_block cx st l rows ds hist = Some (Inl err) \<Longrightarrow> sampler_fails cx"
proof (induction ds arbitrary: st l rows hist)
  case Nil
  then show ?case
    by (cases "cx_sample cx st l (cx_prompt cx) hist") (auto simp: sampler_fails_def split: step.splits prod.splits)
next
  case (Cons d ds)
  show ?case
  proof (cases "cx_sample cx st l (cx_prompt cx) hist")
    case (Inr x)
    obtain s st1 where x: "x = (s, st1)" by (cases x)
    show ?thesis
    proof (cases s)
      case (Token t p)
      with Cons.prems Inr x obtain row rows' where rows: "t = d" "rows = row # rows'"
        by (auto split: if_splits list.splits)
      note agree = verify_agree [of cx st l hist t p st1 row rows' ds]
      have "bind_run (verify_block cx st1 row rows' ds (hist @ [t])) (\<lambda>(tokens, accepted, done). Some (Inr (t # tokens, Suc accepted, done)))
          = Some (Inl err)"
        using Cons.prems agree Inr x Token unfolding rows by simp
      then have "verify_block cx st1 row rows' ds (hist @ [t]) = Some (Inl err)"
        by (cases "verify_block cx st1 row rows' ds (hist @ [t])") (auto simp: bind_run_def split: sum.splits)
      then show ?thesis by (rule Cons.IH)
    qed (use Cons.prems Inr x in simp)
  qed (auto simp: sampler_fails_def)
qed

lemma verify_block_returns: "length rows = length ds \<Longrightarrow> \<exists>r. verify_block cx st l rows ds hist = Some r"
proof (induction ds arbitrary: st l rows hist)
  case Nil
  then show ?case by (auto split: sum.splits step.splits prod.splits)
next
  case (Cons d ds)
  then obtain row rows' where rows: "rows = row # rows'" "length rows' = length ds" by (cases rows) auto
  show ?case
  proof (cases "cx_sample cx st l (cx_prompt cx) hist")
    case (Inr x)
    obtain s st1 where x: "x = (s, st1)" by (cases x)
    show ?thesis
    proof (cases s)
      case (Token t p)
      obtain r where "verify_block cx st1 row rows' ds (hist @ [t]) = Some r" using Cons.IH [OF rows(2)] by blast
      then show ?thesis using Inr x Token rows(1) by (cases r) auto
    qed (use Inr x in simp)
  qed simp
qed

text \<open>The end of a round, after the verification.\<close>

definition commit_verified ::
  "('s, 'l, 'p, 'err) step_context \<Rightarrow> ('e, 'l) decode_engine \<Rightarrow> nat list \<Rightarrow> ('s, 'l, 'p) choice_stream
    \<Rightarrow> nat list \<times> nat \<times> bool \<times> 's \<Rightarrow> 'e \<Rightarrow> ('err, bool \<times> bytes list \<times> ('s, 'l, 'p) choice_stream \<times> 'e) result option" where
  "commit_verified cx eng draft c x e = (case x of (tokens, accepted, complete, state) \<Rightarrow>
     let c = c\<lparr>cs_state := state\<rparr>; e = de_observe eng accepted (length draft) e in
     case (if accepted < length draft then de_truncate eng (cs_pos c + accepted) e else Some e) of
       None \<Rightarrow> None
     | Some e \<Rightarrow>
         let c = c\<lparr>cs_pos := cs_pos c + accepted\<rparr> in
         case commit_block cx tokens c of
           None \<Rightarrow> None
         | Some (outs, Some (i, reason), c) \<Rightarrow>
             let kept = cs_pos c - accepted + min i accepted in
             map_option (\<lambda>e. Inr (True, outs, cs_stop reason (c\<lparr>cs_pos := kept\<rparr>), e)) (de_truncate eng kept e)
         | Some (outs, None, c) \<Rightarrow>
             if complete then Some (Inr (True, outs, cs_stop FinishStop c, e))
             else if tokens = [] then Some (Inr (True, outs, c, e))
             else
               let (logits, e) = de_step eng (last tokens) (cs_pos c) e in
               Some (Inr (True, outs, c\<lparr>cs_logits := logits, cs_pos := cs_pos c + 1\<rparr>, e)))"

lemma commit_verified_ok:
  fixes cx :: "('s, 'l, 'p, 'err) step_context" and c :: "('s, 'l, 'p) choice_stream"
  assumes eng: "engine_ok eng rep lm" and e: "rep e (us @ ds) (length us)" and "cs_pos c = length us" "\<not> cs_done c" "matcher_ok (cs_matcher c)"
    and shape: "acc \<le> length ds \<and> take acc ts = take acc ds \<and> length ts = (if complete then acc else Suc acc)"
  shows "\<exists>outs stop k c1 e1. commit_verified cx eng ds c (ts, acc, complete, st) e = Some (Inr (True, outs, c1, e1))
    \<and> commit_block_core cx ts (core c) = Some (outs, stop, k) \<and> after_block (lm (us @ ts), us, ts, complete, st, stop, k) rep c c1 e1"
proof -
  have obs: "rep (de_observe eng acc (length ds) e) (us @ ds) (length us)" by (rule engine_observe [OF eng e])
  obtain e1 where e1: "(if acc < length ds then de_truncate eng (length us + acc) (de_observe eng acc (length ds) e)
      else Some (de_observe eng acc (length ds) e)) = Some e1" "rep e1 (us @ take acc ts) (length us)"
  proof (cases "acc < length ds")
    case True
    then obtain e1 where "de_truncate eng (length us + acc) (de_observe eng acc (length ds) e) = Some e1"
      "rep e1 (take (length us + acc) (us @ ds)) (length us)"
      using engine_truncate [OF eng obs, of "length us + acc"] by auto
    with True shape show thesis by (intro that) simp_all
  next
    case False
    with shape have "take acc ts = ds" by auto
    with False obs show thesis by (intro that [of "de_observe eng acc (length ds) e"]) simp_all
  qed
  have "matcher_ok (fst (core c))" using assms(5) by (simp add: core_def)
  from commit_block_core_ok [OF this, of cx ts] obtain outs stop k where
    com: "commit_block_core cx ts (core c) = Some (outs, stop, k)" and stop: "case stop of None \<Rightarrow> True | Some (i, _) \<Rightarrow> i < length ts"
    by (fastforce split: option.splits)
  define c' where "c' = with_core k (c\<lparr>cs_state := st, cs_pos := length us + acc\<rparr>)"
  have block: "commit_block cx ts (c\<lparr>cs_state := st, cs_pos := length us + acc\<rparr>) = Some (outs, stop, c')"
    using com by (simp add: commit_block_by_core c'_def)
  have c': "cs_pos c' = length us + acc" "core c' = k" "cs_state c' = st" "cs_finish c' = cs_finish c" "\<not> cs_done c'"
    using assms(4) by (simp_all add: c'_def)
  have "\<exists>c1 e2. commit_verified cx eng ds c (ts, acc, complete, st) e = Some (Inr (True, outs, c1, e2))
    \<and> after_block (lm (us @ ts), us, ts, complete, st, stop, k) rep c c1 e2"
  proof (cases stop)
    case (Some p)
    obtain i reason where p: "p = (i, reason)" by (cases p)
    with stop Some shape have i: "i \<le> acc" by (auto split: if_splits)
    then have "length us + i \<le> length (us @ take acc ts)" using shape by (auto split: if_splits)
    then obtain e2 where e2: "de_truncate eng (length us + i) e1 = Some e2" "rep e2 (take (length us + i) (us @ take acc ts)) (length us)"
      using engine_truncate [OF eng e1(2), of "length us + i"] by auto
    have "commit_verified cx eng ds c (ts, acc, complete, st) e
        = Some (Inr (True, outs, cs_stop reason (c'\<lparr>cs_pos := length us + i\<rparr>), e2))"
      using block e1(1) e2(1) i assms(3) Some p c'(1)
      by (cases "acc < length ds") (simp_all add: commit_verified_def Let_def min_absorb1)
    moreover have "after_block (lm (us @ ts), us, ts, complete, st, stop, k) rep c (cs_stop reason (c'\<lparr>cs_pos := length us + i\<rparr>)) e2"
      using e2(2) i c' Some p by (auto simp: after_block_def min_absorb1)
    ultimately show ?thesis by blast
  next
    case None
    show ?thesis
    proof (cases complete)
      case True
      then have "commit_verified cx eng ds c (ts, acc, complete, st) e = Some (Inr (True, outs, cs_stop FinishStop c', e1))"
        using block e1(1) assms(3) None by (cases "acc < length ds") (simp_all add: commit_verified_def Let_def)
      moreover have "after_block (lm (us @ ts), us, ts, complete, st, stop, k) rep c (cs_stop FinishStop c') e1"
        using e1(2) True c' None shape by (auto simp: after_block_def)
      ultimately show ?thesis by blast
    next
      case False
      then have ts: "ts \<noteq> []" "length ts = Suc acc" using shape by auto
      then have split: "take acc ts @ [last ts] = ts" by (metis append_butlast_last_id butlast_conv_take diff_Suc_1)
      have len: "length (us @ take acc ts) = length us + acc" using ts by simp
      obtain e2 where e2: "de_step eng (last ts) (length us + acc) e1 = (lm (us @ ts), e2)" "rep e2 (us @ ts) (Suc (length us + acc))"
        using engine_step [OF eng e1(2), of "last ts"] len split by (metis append.assoc)
      have "commit_verified cx eng ds c (ts, acc, complete, st) e
          = Some (Inr (True, outs, c'\<lparr>cs_logits := lm (us @ ts), cs_pos := length us + acc + 1\<rparr>, e2))"
        using block e1(1) e2(1) assms(3) None False ts(1) c'(1) by (cases "acc < length ds") (simp_all add: commit_verified_def Let_def)
      moreover have "after_block (lm (us @ ts), us, ts, complete, st, stop, k) rep c (c'\<lparr>cs_logits := lm (us @ ts), cs_pos := length us + acc + 1\<rparr>) e2"
        using e2(2) False c' None ts(2) by (auto simp: after_block_def)
      ultimately show ?thesis by blast
    qed
  qed
  with com show ?thesis by blast
qed

lemma speculate_round:
  fixes cx :: "('s, 'l, 'p, 'err) step_context" and c :: "('s, 'l, 'p) choice_stream"
  assumes eng: "engine_ok eng rep lm" and "rep e us f" "cs_pos c = length us" "\<not> cs_done c" "matcher_ok (cs_matcher c)"
  shows "(\<exists>err. speculate cx eng dm c e = Some (Inl err) \<and> sampler_fails cx)
    \<or> (\<exists>e'. speculate cx eng dm c e = Some (Inr (False, [], c, e')) \<and> rep e' us f)
    \<or> (\<exists>outs c1 e1 ds ts acc complete st stop k. speculate cx eng dm c e = Some (Inr (True, outs, c1, e1))
        \<and> verify_block cx (cs_state c) (cs_logits c) (map (\<lambda>i. lm (us @ take (Suc i) ds)) [0..<length ds]) ds (cs_generated_ids c)
            = Some (Inr (ts, acc, complete, st))
        \<and> commit_block_core cx ts (core c) = Some (outs, stop, k)
        \<and> length (cs_generated_ids c) + length ds < gp_max_tokens (cx_params cx)
        \<and> after_block (lm (us @ ts), us, ts, complete, st, stop, k) rep c c1 e1)"
proof -
  let ?room = "gp_max_tokens (cx_params cx) - length (cs_generated_ids c) - 1"
  show ?thesis
  proof (cases "?room = 0")
    case True
    then have "speculate cx eng dm c e = Some (Inr (False, [], c, e))" by (simp add: speculate_def)
    with assms(2) show ?thesis by blast
  next
    case False
    obtain ds e1 where d: "de_draft eng (cx_prompt cx) (cs_generated_ids c) (min dm ?room) e = (ds, e1)" by fastforce
    then have ds: "length ds \<le> ?room" "rep e1 us f" using engine_draft [OF eng assms(2) d] by simp_all
    show ?thesis
    proof (cases "ds = []")
      case True
      then have "speculate cx eng dm c e = Some (Inr (False, [], c, e1))" using False d by (simp add: speculate_def Let_def)
      with ds(2) show ?thesis by blast
    next
      case nonempty: False
      obtain b e2 where b: "de_batch eng ds (cs_pos c) e1 = (b, e2)" by fastforce
      show ?thesis
      proof (cases b)
        case None
        then have "speculate cx eng dm c e = Some (Inr (False, [], c, e2))"
          using False d nonempty b by (simp add: speculate_def Let_def)
        moreover have "rep e2 us f" using engine_batch(1) [OF eng ds(2)] b None assms(3) by simp
        ultimately show ?thesis by blast
      next
        case (Some rows)
        then have batch: "rows = map (\<lambda>i. lm (us @ take (Suc i) ds)) [0..<length ds]" "rep e2 (us @ ds) (length us)"
          using engine_batch(2) [OF eng ds(2)] b assms(3) by simp_all
        obtain r where v: "verify_block cx (cs_state c) (cs_logits c) rows ds (cs_generated_ids c) = Some r"
          using verify_block_returns [of rows ds] batch(1) by fastforce
        have unroll: "speculate cx eng dm c e = (case r of Inl err \<Rightarrow> Some (Inl err)
          | Inr x \<Rightarrow> commit_verified cx eng ds c x e2)"
          using False d nonempty b Some v
          by (cases r) (simp_all add: speculate_def Let_def commit_verified_def split: prod.splits)
        show ?thesis
        proof (cases r)
          case (Inl err)
          with unroll v verify_block_fails show ?thesis by simp
        next
          case (Inr x)
          obtain ts acc complete st where x: "x = (ts, acc, complete, st)" by (cases x) auto
          have vb: "verify_block cx (cs_state c) (cs_logits c) (map (\<lambda>i. lm (us @ take (Suc i) ds)) [0..<length ds]) ds (cs_generated_ids c)
            = Some (Inr (ts, acc, complete, st))" using v Inr x batch(1) by simp
          have room: "length (cs_generated_ids c) + length ds < gp_max_tokens (cx_params cx)"
            using ds(1) False by linarith
          obtain outs stop k c1 e1 where cv: "commit_verified cx eng ds c (ts, acc, complete, st) e2 = Some (Inr (True, outs, c1, e1))"
            and "commit_block_core cx ts (core c) = Some (outs, stop, k)" "after_block (lm (us @ ts), us, ts, complete, st, stop, k) rep c c1 e1"
            using commit_verified_ok [OF eng batch(2) assms(3-5) verify_block_shape [OF vb]] by blast
          moreover have "speculate cx eng dm c e = Some (Inr (True, outs, c1, e1))" using unroll Inr x cv by simp
          ultimately show ?thesis using vb room by (intro disjI2 exI conjI)
        qed
      qed
    qed
  qed
qed


section \<open>In lockstep\<close>

text \<open>Two streams over two engines that have come to the same point.\<close>

definition lockstep ::
  "('e \<Rightarrow> nat list \<Rightarrow> nat \<Rightarrow> bool) \<Rightarrow> nat list \<Rightarrow> ('s, 'l, 'p) choice_stream \<Rightarrow> 'e \<Rightarrow> ('s, 'l, 'p) choice_stream \<Rightarrow> 'e \<Rightarrow> bool" where
  "lockstep rep us c e c' e' \<longleftrightarrow> core c' = core c \<and> cs_pos c = length us \<and> cs_pos c' = length us
     \<and> (\<exists>f. rep e us f) \<and> (\<exists>f. rep e' us f) \<and> cs_done c' = cs_done c \<and> cs_finish c' = cs_finish c
     \<and> (\<not> cs_done c \<longrightarrow> cs_state c' = cs_state c \<and> cs_logits c' = cs_logits c)"

lemma lockstep_core: "lockstep rep us c e c' e' \<Longrightarrow> cs_generated_ids c' = cs_generated_ids c \<and> cs_matcher c' = cs_matcher c \<and> cs_utf8 c' = cs_utf8 c"
  by (auto simp: lockstep_def core_def)

lemma after_block_lockstep:
  assumes "after_block blk rep c c1 e1" "after_block blk rep c' c1' e1'" "cs_finish c' = cs_finish c"
    and "blk = (l, us, ts, complete, st, stop, k)" "case stop of None \<Rightarrow> True | Some (i, _) \<Rightarrow> i < length ts"
  shows "\<exists>us. lockstep rep us c1 e1 c1' e1'"
proof (cases stop)
  case None
  then show ?thesis
    using assms by (intro exI [of _ "us @ ts"]) (cases complete; auto simp: after_block_def lockstep_def)
next
  case (Some p)
  then obtain i reason where "stop = Some (i, reason)" by (cases p) auto
  then show ?thesis
    using assms by (intro exI [of _ "us @ take i ts"]) (auto simp: after_block_def lockstep_def)
qed

lemma cs_step_lockstep:
  assumes eng: "engine_ok eng rep lm" and lock: "lockstep rep us c e c' e'" "\<not> cs_done c" "matcher_ok (cs_matcher c)"
  shows "(\<exists>err. cs_step cx eng c e = Some (Inl err) \<and> sampler_fails cx)
    \<or> (\<exists>outs c1 e1 c1' e1' vs. cs_step cx eng c e = Some (Inr (outs, c1, e1)) \<and> cs_step cx eng c' e' = Some (Inr (outs, c1', e1'))
        \<and> lockstep rep vs c1 e1 c1' e1' \<and> matcher_ok (cs_matcher c1)
        \<and> (\<not> cs_done c1 \<longrightarrow> length (cs_generated_ids c) < length (cs_generated_ids c1)))"
proof -
  have same: "core c' = core c" "cs_pos c = length us" "cs_pos c' = length us" "\<not> cs_done c'" "cs_finish c' = cs_finish c"
    "cs_state c' = cs_state c" "cs_logits c' = cs_logits c" "cs_generated_ids c' = cs_generated_ids c"
    using lock lockstep_core [OF lock(1)] by (simp_all add: lockstep_def)
  obtain f f' where rep: "rep e us f" "rep e' us f'" using lock(1) by (auto simp: lockstep_def)
  show ?thesis
  proof (cases "cx_sample cx (cs_state c) (cs_logits c) (cx_prompt cx) (cs_generated_ids c)")
    case (Inl err)
    then show ?thesis by (auto simp: cs_step_def sampler_fails_def)
  next
    case (Inr x)
    obtain s st where x: "x = (s, st)" by (cases x)
    show ?thesis
    proof (cases s)
      case GrammarComplete
      have "lockstep rep us (cs_stop FinishStop (c\<lparr>cs_state := st\<rparr>)) e (cs_stop FinishStop (c'\<lparr>cs_state := st\<rparr>)) e'"
        using lock(1) by (simp add: lockstep_def)
      then show ?thesis using Inr x GrammarComplete same lock(3) by (auto simp: cs_step_def)
    next
      case (Token t p)
      have draw: "cx_sample cx (cs_state c) (cs_logits c) (cx_prompt cx) (cs_generated_ids c) = Inr (Token t p, st)"
        "cx_sample cx (cs_state c') (cs_logits c') (cx_prompt cx) (cs_generated_ids c') = Inr (Token t p, st)"
        using Inr x Token same by simp_all
      have "matcher_ok (fst (core c))" using lock(3) by (simp add: core_def)
      then obtain outs r k where com: "commit_core cx t (core c) = Some (outs, r, k)" "matcher_ok (fst k)" by (rule commit_core_ok)
      then have com': "commit_core cx t (core c') = Some (outs, r, k)" using same(1) by simp
      from plain_turn [OF eng draw(1) com(1) rep(1) same(2) lock(2)] obtain c1 e1 where
        t1: "cs_step cx eng c e = Some (Inr (outs, c1, e1))" "core c1 = k" and a1: "case r of
            Stopped reason \<Rightarrow> cs_done c1 \<and> cs_finish c1 = reason \<and> cs_pos c1 = length us \<and> rep e1 us f
          | Continue \<Rightarrow> cs_pos c1 = Suc (length us) \<and> rep e1 (us @ [t]) (Suc (length us)) \<and> \<not> cs_done c1
              \<and> cs_finish c1 = cs_finish c \<and> cs_state c1 = st \<and> cs_logits c1 = lm (us @ [t])"
        unfolding decode_turn_def by auto
      from plain_turn [OF eng draw(2) com' rep(2) same(3,4)] obtain c1' e1' where
        t2: "cs_step cx eng c' e' = Some (Inr (outs, c1', e1'))" "core c1' = k" and a2: "case r of
            Stopped reason \<Rightarrow> cs_done c1' \<and> cs_finish c1' = reason \<and> cs_pos c1' = length us \<and> rep e1' us f'
          | Continue \<Rightarrow> cs_pos c1' = Suc (length us) \<and> rep e1' (us @ [t]) (Suc (length us)) \<and> \<not> cs_done c1'
              \<and> cs_finish c1' = cs_finish c' \<and> cs_state c1' = st \<and> cs_logits c1' = lm (us @ [t])"
        unfolding decode_turn_def by auto
      have "lockstep rep (case r of Stopped _ \<Rightarrow> us | Continue \<Rightarrow> us @ [t]) c1 e1 c1' e1'"
        using t1(2) t2(2) a1 a2 same(5) by (cases r) (auto simp: lockstep_def)
      moreover have "matcher_ok (cs_matcher c1)" using com(2) t1(2) by (auto simp: core_def)
      moreover have "\<not> cs_done c1 \<longrightarrow> length (cs_generated_ids c) < length (cs_generated_ids c1)"
      proof (cases r)
        case Continue
        then have "cs_generated_ids c1 = cs_generated_ids c @ [t]" using commit_continue [of cx t "core c" outs k] com(1) t1(2) core_ids [of c1] by simp
        then show ?thesis by simp
      qed (use a1 in simp)
      ultimately show ?thesis using t1(1) t2(1) by blast
    qed
  qed
qed

text \<open>A turn of the speculating loop, and the plain turns that make up for it.\<close>

lemma turn_lockstep:
  fixes cx :: "('s, 'l, 'p, 'err) step_context"
  assumes eng: "engine_ok eng rep lm" and lock: "lockstep rep us c e c' e'" "\<not> cs_done c" "matcher_ok (cs_matcher c)"
    and room: "length (cs_generated_ids c) < gp_max_tokens (cx_params cx)"
  shows "(\<exists>err. decode_turn cx eng dm c e = Some (Inl err) \<and> sampler_fails cx)
    \<or> (\<exists>outs c1 e1 c1' e1' vs n. decode_turn cx eng dm c e = Some (Inr (outs, c1, e1))
        \<and> (\<forall>fuel. decode_loop (n + fuel) cx eng 0 never c' e' = emits_before outs (decode_loop fuel cx eng 0 never c1' e1'))
        \<and> lockstep rep vs c1 e1 c1' e1' \<and> matcher_ok (cs_matcher c1)
        \<and> (\<not> cs_done c1 \<longrightarrow> length (cs_generated_ids c) < length (cs_generated_ids c1)))"
proof -
  have plain: "(\<exists>err. cs_step cx eng c e0 = Some (Inl err) \<and> sampler_fails cx)
    \<or> (\<exists>outs c1 e1 c1' e1' vs n. cs_step cx eng c e0 = Some (Inr (outs, c1, e1))
        \<and> (\<forall>fuel. decode_loop (n + fuel) cx eng 0 never c' e' = emits_before outs (decode_loop fuel cx eng 0 never c1' e1'))
        \<and> lockstep rep vs c1 e1 c1' e1' \<and> matcher_ok (cs_matcher c1)
        \<and> (\<not> cs_done c1 \<longrightarrow> length (cs_generated_ids c) < length (cs_generated_ids c1)))"
    if "rep e0 us f0" for e0 f0
  proof -
    have "lockstep rep us c e0 c' e'" using lock(1) that by (auto simp: lockstep_def)
    from cs_step_lockstep [OF eng this lock(2,3), of cx] show ?thesis
    proof (elim disjE exE conjE)
      fix outs c1 e1 c1' e1' vs
      assume s: "cs_step cx eng c e0 = Some (Inr (outs, c1, e1))" "cs_step cx eng c' e' = Some (Inr (outs, c1', e1'))"
        "lockstep rep vs c1 e1 c1' e1'" "matcher_ok (cs_matcher c1)" "\<not> cs_done c1 \<longrightarrow> length (cs_generated_ids c) < length (cs_generated_ids c1)"
      have "decode_turn cx eng 0 c' e' = Some (Inr (outs, c1', e1'))" using s(2) by (simp add: decode_turn_def)
      then have "decode_loop (1 + fuel) cx eng 0 never c' e' = emits_before outs (decode_loop fuel cx eng 0 never c1' e1')" for fuel
        using decode_loop_step [of c' cx eng 0 e' outs c1' e1' fuel] lock(1,2) room lockstep_core [OF lock(1)]
        by (simp add: lockstep_def)
      with s show ?thesis by blast
    qed blast
  qed
  obtain f f' where rep: "rep e us f" "rep e' us f'" using lock(1) by (auto simp: lockstep_def)
  show ?thesis
  proof (cases "dm = 0")
    case True
    then show ?thesis using plain [OF rep(1)] by (simp add: decode_turn_def)
  next
    case False
    have pos: "cs_pos c = length us" "cs_pos c' = length us" "\<not> cs_done c'" "core c' = core c" "cs_finish c' = cs_finish c"
      "cs_state c' = cs_state c" "cs_logits c' = cs_logits c" "cs_generated_ids c' = cs_generated_ids c"
      using lock(1,2) lockstep_core [OF lock(1)] by (auto simp: lockstep_def)
    from speculate_round [OF eng rep(1) pos(1) lock(2,3), of cx dm] show ?thesis
    proof (elim disjE exE conjE)
      fix err assume "speculate cx eng dm c e = Some (Inl err)" "sampler_fails cx"
      then show ?thesis using False by (simp add: decode_turn_def)
    next
      fix e0 assume "speculate cx eng dm c e = Some (Inr (False, [], c, e0))" "rep e0 us f"
      then show ?thesis using False plain [of e0 f] by (simp add: decode_turn_def)
    next
      fix outs c1 e1 ds ts acc complete st stop k
      assume s: "speculate cx eng dm c e = Some (Inr (True, outs, c1, e1))"
        and v: "verify_block cx (cs_state c) (cs_logits c) (map (\<lambda>i. lm (us @ take (Suc i) ds)) [0..<length ds]) ds (cs_generated_ids c)
            = Some (Inr (ts, acc, complete, st))"
        and com: "commit_block_core cx ts (core c) = Some (outs, stop, k)"
        and len: "length (cs_generated_ids c) + length ds < gp_max_tokens (cx_params cx)"
        and after: "after_block (lm (us @ ts), us, ts, complete, st, stop, k) rep c c1 e1"
      have v': "verify_block cx (cs_state c') (cs_logits c') (map (\<lambda>i. lm (us @ take (Suc i) ds)) [0..<length ds]) ds (cs_generated_ids c')
          = Some (Inr (ts, acc, complete, st))" "commit_block_core cx ts (core c') = Some (outs, stop, k)"
        "length (cs_generated_ids c') + length ds < gp_max_tokens (cx_params cx)"
        using v com len pos by simp_all
      from plain_follows [OF eng v'(1,2) rep(2) pos(2,3) v'(3)] obtain n c1' e1' where
        shape: "length ts = (if complete then acc else Suc acc)"
          "case stop of Some (i, _) \<Rightarrow> i < length ts | None \<Rightarrow> snd (snd k) = cs_generated_ids c' @ ts"
        and p: "after_block (lm (us @ ts), us, ts, complete, st, stop, k) rep c' c1' e1'"
          "\<forall>fuel. decode_loop (n + fuel) cx eng 0 never c' e' = emits_before outs (decode_loop fuel cx eng 0 never c1' e1')"
        by blast
      have i: "case stop of None \<Rightarrow> True | Some (i, _) \<Rightarrow> i < length ts" using shape(2) by (auto split: option.splits)
      obtain vs where "lockstep rep vs c1 e1 c1' e1'" using after_block_lockstep [OF after p(1) pos(5) refl i] by blast
      moreover have "matcher_ok (cs_matcher c1)"
        using commit_block_core_ok [of "core c" cx ts] com lock(3) after by (auto simp: core_def after_block_def)
      moreover have "\<not> cs_done c1 \<longrightarrow> length (cs_generated_ids c) < length (cs_generated_ids c1)"
        using after shape pos(8) core_ids [of c1] by (auto simp: after_block_def split: option.splits if_splits)
      moreover have "decode_turn cx eng dm c e = Some (Inr (outs, c1, e1))" using s False by (simp add: decode_turn_def)
      ultimately show ?thesis using p(2) by blast
    qed
  qed
qed


section \<open>The loop\<close>

lemma decode_loop_mono: "decode_loop m cx eng dm cancel c e = Some r \<Longrightarrow> m \<le> n \<Longrightarrow> decode_loop n cx eng dm cancel c e = Some r"
proof (induction m arbitrary: n cancel c e r)
  case (Suc m)
  then obtain n' where n: "n = Suc n'" "m \<le> n'" by (cases n) auto
  show ?case
  proof (cases "check_budget (cx_params cx) (cancel 0) c")
    case (Pair go c1)
    show ?thesis
    proof (cases "go \<and> (\<exists>x. decode_turn cx eng dm c1 e = Some (Inr x))")
      case True
      then obtain outs c2 e2 where t: "go" "decode_turn cx eng dm c1 e = Some (Inr (outs, c2, e2))" by auto
      with Suc.prems(1) Pair have "emits_before outs (decode_loop m cx eng dm (\<lambda>n. cancel (Suc n)) c2 e2) = Some r" by simp
      moreover from this obtain r' where "decode_loop m cx eng dm (\<lambda>n. cancel (Suc n)) c2 e2 = Some r'"
        by (cases "decode_loop m cx eng dm (\<lambda>n. cancel (Suc n)) c2 e2") auto
      ultimately show ?thesis using Suc.IH [OF _ n(2)] t Pair n(1) by simp
    next
      case False
      then show ?thesis using Suc.prems(1) Pair n(1) by (auto simp: bind_run_def split: option.splits sum.splits)
    qed
  qed
qed simp

lemma loop_lockstep:
  fixes cx :: "('s, 'l, 'p, 'err) step_context"
  assumes eng: "engine_ok eng rep lm"
  shows "lockstep rep us c e c' e' \<Longrightarrow> matcher_ok (cs_matcher c) \<Longrightarrow>
    gp_max_tokens (cx_params cx) - length (cs_generated_ids c) < fuel \<Longrightarrow>
    (\<exists>err. decode_loop fuel cx eng dm never c e = Some (Inl err)
        \<and> sampler_fails cx)
    \<or> (\<exists>outs c1 e1 c1' e1' vs n. decode_loop fuel cx eng dm never c e = Some (Inr (outs, c1, e1))
        \<and> decode_loop n cx eng 0 never c' e' = Some (Inr (outs, c1', e1'))
        \<and> lockstep rep vs c1 e1 c1' e1' \<and> matcher_ok (cs_matcher c1))"
proof (induction fuel arbitrary: us c e c' e')
  case (Suc fuel)
  note lock = Suc.prems(1)
  have c': "cs_done c' = cs_done c" "cs_generated_ids c' = cs_generated_ids c"
    using lock lockstep_core [OF lock] by (simp_all add: lockstep_def)
  show ?case
  proof (cases "cs_done c \<or> gp_max_tokens (cx_params cx) \<le> length (cs_generated_ids c)")
    case True
    let ?stopped = "\<lambda>c. if cs_done c then c else cs_stop FinishLength c"
    have "decode_loop (Suc fuel) cx eng dm never c e = Some (Inr ([], ?stopped c, e))"
      "decode_loop (Suc 0) cx eng 0 never c' e' = Some (Inr ([], ?stopped c', e'))"
      using True c' by (auto simp: check_budget_def)
    moreover have "lockstep rep us (?stopped c) e (?stopped c') e'" using lock c'(1) by (auto simp: lockstep_def)
    moreover have "matcher_ok (cs_matcher (?stopped c))" using Suc.prems(2) by simp
    ultimately show ?thesis by blast
  next
    case False
    then have going: "\<not> cs_done c" "length (cs_generated_ids c) < gp_max_tokens (cx_params cx)" by auto
    from turn_lockstep [OF eng lock going(1) Suc.prems(2) going(2), of dm] show ?thesis
    proof (elim disjE exE conjE)
      fix err assume t: "decode_turn cx eng dm c e = Some (Inl err)" "sampler_fails cx"
      then have "decode_loop (Suc fuel) cx eng dm never c e = Some (Inl err)" using going by (simp add: check_budget_def)
      with t(2) show ?thesis by blast
    next
      fix outs c1 e1 c1' e1' vs n
      assume t: "decode_turn cx eng dm c e = Some (Inr (outs, c1, e1))"
        "\<forall>fuel. decode_loop (n + fuel) cx eng 0 never c' e' = emits_before outs (decode_loop fuel cx eng 0 never c1' e1')"
        "lockstep rep vs c1 e1 c1' e1'" "matcher_ok (cs_matcher c1)"
        "\<not> cs_done c1 \<longrightarrow> length (cs_generated_ids c) < length (cs_generated_ids c1)"
      note loop = decode_loop_step [OF going t(1), of fuel]
      have stepped: ?thesis if "(\<exists>err. decode_loop fuel cx eng dm never c1 e1 = Some (Inl err)
          \<and> sampler_fails cx)
        \<or> (\<exists>outs c2 e2 c2' e2' vs n. decode_loop fuel cx eng dm never c1 e1 = Some (Inr (outs, c2, e2))
            \<and> decode_loop n cx eng 0 never c1' e1' = Some (Inr (outs, c2', e2'))
            \<and> lockstep rep vs c2 e2 c2' e2' \<and> matcher_ok (cs_matcher c2))"
        using that
      proof (elim disjE exE)
        fix err assume "decode_loop fuel cx eng dm never c1 e1 = Some (Inl err) \<and> sampler_fails cx"
        then show ?thesis using loop by simp
      next
        fix outs2 c2 e2 c2' e2' vs2 n2
        assume r: "decode_loop fuel cx eng dm never c1 e1 = Some (Inr (outs2, c2, e2))
          \<and> decode_loop n2 cx eng 0 never c1' e1' = Some (Inr (outs2, c2', e2'))
          \<and> lockstep rep vs2 c2 e2 c2' e2' \<and> matcher_ok (cs_matcher c2)"
        then have "decode_loop (Suc fuel) cx eng dm never c e = Some (Inr (outs @ outs2, c2, e2))"
          "decode_loop (n + n2) cx eng 0 never c' e' = Some (Inr (outs @ outs2, c2', e2'))"
          using loop t(2) by simp_all
        with r show ?thesis by blast
      qed
      show ?thesis
      proof (cases "cs_done c1")
        case True
        have "decode_loop fuel cx eng dm never c1 e1 = Some (Inr ([], c1, e1))" if "0 < fuel"
          using True that by (cases fuel) (auto simp: check_budget_def)
        moreover have "0 < fuel" using Suc.prems(3) going(2) by linarith
        moreover have "decode_loop (Suc 0) cx eng 0 never c1' e1' = Some (Inr ([], c1', e1'))"
          using True t(3) by (simp add: check_budget_def lockstep_def)
        ultimately show ?thesis using stepped t(3,4) by blast
      next
        case False
        then have "gp_max_tokens (cx_params cx) - length (cs_generated_ids c1) < fuel"
          using t(5) Suc.prems(3) going(2) by linarith
        from stepped [OF Suc.IH [OF t(3,4) this]] show ?thesis .
      qed
    qed
  qed
qed simp

end
