(* ===== verification/Decode_Speculation.thy ===== *)
theory Decode_Speculation
  imports Decode_Lockstep
begin

section \<open>Speculation changes nothing\<close>

lemma decode_loop_unique:
  "decode_loop m cx eng dm cancel c e = Some r \<Longrightarrow> decode_loop n cx eng dm cancel c e = Some r' \<Longrightarrow> r = r'"
  by (metis decode_loop_mono nle_le option.inject)

lemma choice_stream_new_lockstep:
  assumes "rep e us f"
  shows "lockstep rep us (choice_stream_new l (length us) st params) e (choice_stream_new l (length us) st params) e"
  using assms by (auto simp: lockstep_def choice_stream_new_def)

lemma decode_loop_lossless:
  fixes cx :: "('s, 'l, 'p, 'err) step_context"
  assumes eng: "engine_ok eng rep lm" "lockstep rep us c e c e" "matcher_ok (cs_matcher c)"
    and n: "n = gp_max_tokens (cx_params cx) - length (cs_generated_ids c) + 1"
  shows "(\<exists>err. decode_loop n cx eng dm never c e = Some (Inl err) \<and> sampler_fails cx)
    \<or> (\<exists>outs c1 e1 c0 e0 vs. decode_loop n cx eng dm never c e = Some (Inr (outs, c1, e1))
        \<and> decode_loop n cx eng 0 never c e = Some (Inr (outs, c0, e0))
        \<and> lockstep rep vs c1 e1 c0 e0 \<and> matcher_ok (cs_matcher c1))"
proof -
  have fuel: "gp_max_tokens (cx_params cx) - length (cs_generated_ids c) < n" using n by simp
  note lockstep = loop_lockstep [OF eng(1) eng(2,3) fuel]
  have plain: "\<exists>r. decode_loop n cx eng 0 never c e = Some r" using lockstep [of 0] by blast
  from lockstep [of dm] show ?thesis
  proof (elim disjE exE conjE)
    fix outs c1 e1 c1' e1' vs n'
    assume r: "decode_loop n cx eng dm never c e = Some (Inr (outs, c1, e1))"
      "decode_loop n' cx eng 0 never c e = Some (Inr (outs, c1', e1'))" "lockstep rep vs c1 e1 c1' e1'" "matcher_ok (cs_matcher c1)"
    obtain r' where r': "decode_loop n cx eng 0 never c e = Some r'" using plain by blast
    with r(2) have "decode_loop n cx eng 0 never c e = Some (Inr (outs, c1', e1'))"
      using decode_loop_unique [OF r' r(2)] by simp
    with r show ?thesis by blast
  qed blast
qed



section \<open>A small engine\<close>

text \<open>For the witnesses: an engine that holds the tokens fed, whose logits are those tokens, drafting
  the numbers that follow the history; a sampler that draws the length of the logits; the end token
  is 4.\<close>

definition tape_engine :: "(nat list, nat list) decode_engine" where
  "tape_engine = \<lparr>de_step = (\<lambda>t pos e. (e @ [t], e @ [t])),
     de_draft = (\<lambda>p h m e. (take m (map (\<lambda>i. length p + length h + i) [0..<3]), e)),
     de_batch = (\<lambda>d pos e. (Some (map (\<lambda>i. e @ take (Suc i) d) [0..<length d]), e @ d)),
     de_truncate = (\<lambda>n e. Some (take n e)), de_observe = (\<lambda>_ _ e. e)\<rparr>"

lemma tape_engine_ok: "engine_ok tape_engine (\<lambda>e ts f. e = ts) (\<lambda>ts. ts)"
  by (auto simp: engine_ok_def tape_engine_def)

definition tape_context :: "nat \<Rightarrow> bytes list \<Rightarrow> (unit, nat list, unit, unit) step_context" where
  "tape_context max_tokens stop = \<lparr>cx_params = \<lparr>gp_max_tokens = max_tokens, gp_ignore_eos = False, gp_keep_special_tokens = False,
       gp_stop = stop, gp_stop_token_ids = []\<rparr>,
     cx_prompt = [0, 1], cx_is_eog = (\<lambda>t. t = 4), cx_decode = (\<lambda>t. [of_nat t + 0x60]),
     cx_sample = (\<lambda>s l p h. Inr (Token (length l) (Some ()), s))\<rparr>"




section \<open>Rows and tokens\<close>

lemma commit_core_ids:
  assumes "commit_core cx t k = Some (outs, r, k')"
  shows "case r of
      Stopped FinishStop \<Rightarrow> snd (snd k') = snd (snd k) \<or> gp_keep_special_tokens (cx_params cx) \<and> snd (snd k') = snd (snd k) @ [t]
    | Stopped FinishLength \<Rightarrow> False
    | Stopped Cancelled \<Rightarrow> False
    | _ \<Rightarrow> snd (snd k') = snd (snd k) @ [t]"
  using assms
  by (cases k) (auto simp: commit_def commit_core_def Let_def core_def with_core_def
      split: prod.splits option.splits stop_step.splits if_splits)

text \<open>Whether the tokens kept are the tokens fed, \<open>n\<close> having been fed at the start: a stop that was
  found in the text leaves the last of them unfed.\<close>

definition accounted :: "gen_params \<Rightarrow> nat \<Rightarrow> ('s, 'l, 'p) choice_stream \<Rightarrow> bool" where
  "accounted params n c \<longleftrightarrow>
     (let kept = n + length (cs_generated_ids c) in
      if \<not> cs_done c then cs_pos c = kept
      else case cs_finish c of
          StopSequence _ \<Rightarrow> Suc (cs_pos c) = kept
        | FinishStop \<Rightarrow> cs_pos c = kept \<or> gp_keep_special_tokens params \<and> Suc (cs_pos c) = kept
        | _ \<Rightarrow> cs_pos c = kept)"

lemma accounted_stop: "accounted params n c \<Longrightarrow> \<not> cs_done c \<Longrightarrow> r \<in> {FinishStop, FinishLength, Cancelled} \<Longrightarrow> accounted params n (cs_stop r c)"
  by (auto simp: accounted_def Let_def)

lemma cs_step_accounted:
  fixes cx :: "('s, 'l, 'p, 'err) step_context"
  assumes "accounted (cx_params cx) n c" "\<not> cs_done c" "cs_step cx eng c e = Some (Inr (outs, c', e'))"
  shows "accounted (cx_params cx) n c'"
proof (cases "cx_sample cx (cs_state c) (cs_logits c) (cx_prompt cx) (cs_generated_ids c)")
  case (Inl err)
  with assms(3) show ?thesis by (simp add: cs_step_def)
next
  case (Inr x)
  obtain s st where x: "x = (s, st)" by (cases x)
  have c: "accounted (cx_params cx) n (c\<lparr>cs_state := st\<rparr>)" using assms(1,2) by (simp add: accounted_def)
  show ?thesis
  proof (cases s)
    case GrammarComplete
    with assms(2,3) Inr x have "c' = cs_stop FinishStop (c\<lparr>cs_state := st\<rparr>)" by (simp add: cs_step_def)
    with accounted_stop [OF c] assms(2) show ?thesis by simp
  next
    case (Token t p)
    with assms(3) Inr x obtain outs' r k where com: "commit_core cx t (core c) = Some (outs', r, k)"
      by (cases "commit_core cx t (core c)") (auto simp: cs_step_def commit_by_core)
    then have c1: "commit cx t (c\<lparr>cs_state := st\<rparr>) = Some (outs', r, with_core k (c\<lparr>cs_state := st\<rparr>))"
      by (simp add: commit_by_core)
    have pos: "cs_pos c = n + length (cs_generated_ids c)" using assms(1,2) by (simp add: accounted_def)
    show ?thesis
    proof (cases r)
      case (Stopped reason)
      with assms(3) Inr x Token c1 have "c' = cs_stop reason (with_core k (c\<lparr>cs_state := st\<rparr>))" by (simp add: cs_step_def)
      then show ?thesis
        using commit_core_ids [OF com] Stopped pos by (cases reason) (auto simp: accounted_def Let_def cs_stop_def)
    next
      case Continue
      obtain l e1 where "de_step eng t (cs_pos c) e = (l, e1)" by fastforce
      then have "cs_pos c' = Suc (cs_pos c)" "cs_generated_ids c' = snd (snd k)" "\<not> cs_done c'"
        using assms(2,3) Inr x Token c1 Continue by (cases p; auto simp: cs_step_def)+
      then show ?thesis using commit_core_ids [OF com] Continue pos by (simp add: accounted_def)
    qed
  qed
qed

lemma decode_loop_accounted:
  "decode_loop fuel cx eng 0 cancel c e = Some (Inr (outs, c', e')) \<Longrightarrow> accounted (cx_params cx) n c \<Longrightarrow>
    accounted (cx_params cx) n c' \<and> cs_done c'"
proof (induction fuel arbitrary: cancel c e outs)
  case (Suc fuel)
  show ?case
  proof (cases "fst (check_budget (cx_params cx) (cancel 0) c)")
    case True
    then have go: "check_budget (cx_params cx) (cancel 0) c = (True, c)" "\<not> cs_done c"
      by (auto simp: check_budget_def split: if_splits)
    with Suc.prems(1) obtain outs1 c1 e1 where s: "cs_step cx eng c e = Some (Inr (outs1, c1, e1))"
      "emits_before outs1 (decode_loop fuel cx eng 0 (\<lambda>n. cancel (Suc n)) c1 e1) = Some (Inr (outs, c', e'))"
      by (auto simp: decode_turn_def bind_run_ok_iff)
    then obtain outs2 where "decode_loop fuel cx eng 0 (\<lambda>n. cancel (Suc n)) c1 e1 = Some (Inr (outs2, c', e'))"
      by (auto simp: emits_before_def bind_run_ok_iff)
    then show ?thesis using Suc.IH cs_step_accounted [OF Suc.prems(2) go(2) s(1)] by blast
  next
    case False
    then obtain c1 where c1: "check_budget (cx_params cx) (cancel 0) c = (False, c1)" by (cases "check_budget (cx_params cx) (cancel 0) c") auto
    then have "accounted (cx_params cx) n c1 \<and> cs_done c1"
      using Suc.prems(2) accounted_stop [OF Suc.prems(2)] by (auto simp: check_budget_def split: if_splits)
    with Suc.prems(1) c1 show ?thesis by simp
  qed
qed simp


lemma run_result_map: "map_option (map_sum f g) m = Some (Inr y) \<Longrightarrow> \<exists>x. m = Some (Inr x) \<and> g x = y"
  by (cases m; cases "the m") auto


end
