(* ===== verification/Round_Robin.thy ===== *)
theory Round_Robin
  imports Decode_Speculation
begin

text \<open>
  Several completions of one prompt, a token of each in turn (\<^verbatim>\<open>round_robin.rs\<close>).  Each choice
  has its own context, engine and stream; the texts carry the index of their choice.
\<close>

section \<open>The schedule\<close>

type_synonym ('s, 'l, 'p, 'e, 'err) choice_run =
  "('s, 'l, 'p, 'err) step_context \<times> ('e, 'l) decode_engine \<times> ('s, 'l, 'p) choice_stream \<times> 'e"

text \<open>One round: whether a choice was stepped, and the texts emitted.  \<open>cancel i\<close> tells whether choice
  \<open>i\<close> is found cancelled.\<close>

fun rr_round ::
  "(nat \<Rightarrow> bool) \<Rightarrow> nat \<Rightarrow> ('s, 'l, 'p, 'e, 'err) choice_run list
    \<Rightarrow> ('err, bool \<times> (nat \<times> bytes) list \<times> ('s, 'l, 'p, 'e, 'err) choice_run list) result option" where
  "rr_round cancel i [] = Some (Inr (False, [], []))"
| "rr_round cancel i ((cx, eng, c, e) # choices) =
     (let (go, c) = check_budget (cx_params cx) (cancel i) c in
      if \<not> go then
        bind_run (rr_round cancel (Suc i) choices) (\<lambda>(stepped, outs, choices).
          Some (Inr (stepped, outs, (cx, eng, c, e) # choices)))
      else
        bind_run (cs_step cx eng c e) (\<lambda>(texts, c, e).
        bind_run (rr_round cancel (Suc i) choices) (\<lambda>(_, outs, choices).
          Some (Inr (True, map (Pair i) texts @ outs, (cx, eng, c, e) # choices)))))"

fun rr_loop ::
  "nat \<Rightarrow> (nat \<Rightarrow> nat \<Rightarrow> bool) \<Rightarrow> ('s, 'l, 'p, 'e, 'err) choice_run list
    \<Rightarrow> ('err, (nat \<times> bytes) list \<times> ('s, 'l, 'p, 'e, 'err) choice_run list) result option" where
  "rr_loop 0 cancel choices = None"
| "rr_loop (Suc fuel) cancel choices =
     bind_run (rr_round (cancel 0) 0 choices) (\<lambda>(stepped, outs, choices).
       if \<not> stepped then Some (Inr (outs, choices))
       else bind_run (rr_loop fuel (\<lambda>n. cancel (Suc n)) choices) (\<lambda>(outs', choices). Some (Inr (outs @ outs', choices))))"

text \<open>The streams flushed, in their order.\<close>

fun rr_flush ::
  "nat \<Rightarrow> ('s, 'l, 'p, 'e, 'err) choice_run list
    \<Rightarrow> ((nat \<times> bytes) list \<times> ('s, 'l, 'p, 'e, 'err) choice_run list) option" where
  "rr_flush i [] = Some ([], [])"
| "rr_flush i ((cx, eng, c, e) # choices) =
     (case cs_flush c of
        None \<Rightarrow> None
      | Some (texts, c) \<Rightarrow> map_option (\<lambda>(outs, choices). (map (Pair i) texts @ outs, (cx, eng, c, e) # choices)) (rr_flush (Suc i) choices))"

text \<open>The whole: the lists must be of one length.  A round steps a choice or is the last, so the largest
  budget and one more are rounds enough.\<close>

definition sample_round_robin ::
  "(nat \<Rightarrow> nat \<Rightarrow> bool) \<Rightarrow> ('s, 'l, 'p) choice_stream list \<Rightarrow> (('e, 'l) decode_engine \<times> 'e) list \<Rightarrow> ('s, 'l, 'p, 'err) step_context list
    \<Rightarrow> ('err, (nat \<times> bytes) list \<times> ('s, 'l, 'p, 'e, 'err) choice_run list) result option" where
  "sample_round_robin cancel streams engines contexts =
     (if length streams \<noteq> length engines \<or> length streams \<noteq> length contexts then None
      else
        bind_run (rr_loop (foldr max (map (gp_max_tokens \<circ> cx_params) contexts) 0 + 1) cancel
            (map2 (\<lambda>cx ((eng, e), c). (cx, eng, c, e)) contexts (zip engines streams))) (\<lambda>(outs, choices).
          map_option (\<lambda>(outs', choices). Inr (outs @ outs', choices)) (rr_flush 0 choices)))"


section \<open>Each choice runs as if alone\<close>

text \<open>The texts of one choice, and the run of a choice by itself.\<close>

definition texts_of :: "nat \<Rightarrow> (nat \<times> bytes) list \<Rightarrow> bytes list" where
  "texts_of i outs = map snd (filter (\<lambda>(k, _). k = i) outs)"

lemma texts_of_simps [simp]:
  "texts_of i [] = []" "texts_of i (xs @ ys) = texts_of i xs @ texts_of i ys"
  "texts_of i (map (Pair k) ts) = (if k = i then ts else [])"
  by (auto simp: texts_of_def filter_map comp_def)

fun alone :: "nat \<Rightarrow> (nat \<Rightarrow> bool) \<Rightarrow> ('s, 'l, 'p, 'e, 'err) choice_run \<Rightarrow> bytes list \<Rightarrow> ('s, 'l, 'p, 'e, 'err) choice_run \<Rightarrow> bool" where
  "alone n cancel (cx, eng, c, e) outs r \<longleftrightarrow>
     (\<exists>c' e'. decode_loop n cx eng 0 cancel c e = Some (Inr (outs, c', e')) \<and> r = (cx, eng, c', e'))"

lemma alone_step:
  assumes "alone (Suc n) (\<lambda>m. cancel m i) (cx, eng, c, e) ts r"
  obtains (stop) c' where "check_budget (cx_params cx) (cancel 0 i) c = (False, c')" "cs_done c'" "ts = []" "r = (cx, eng, c', e)"
  | (go) texts c1 e1 ts' where "check_budget (cx_params cx) (cancel 0 i) c = (True, c)" "cs_step cx eng c e = Some (Inr (texts, c1, e1))"
      "alone n (\<lambda>m. cancel (Suc m) i) (cx, eng, c1, e1) ts' r" "ts = texts @ ts'"
proof (cases "check_budget (cx_params cx) (cancel 0 i) c")
  case (Pair go c')
  show ?thesis
  proof (cases go)
    case False
    have "cs_done c'" using Pair False by (auto simp: check_budget_def cs_stop_def split: if_splits)
    then show ?thesis using stop assms Pair False by simp
  next
    case True
    then have "c' = c" using Pair by (auto simp: check_budget_def split: if_splits)
    then show ?thesis using go assms Pair True
      by (fastforce simp: decode_turn_def bind_run_ok_iff emits_before_def)
  qed
qed

fun all_alone :: "nat \<Rightarrow> (nat \<Rightarrow> nat \<Rightarrow> bool) \<Rightarrow> nat \<Rightarrow> ('s, 'l, 'p, 'e, 'err) choice_run list
    \<Rightarrow> (bytes list \<times> ('s, 'l, 'p, 'e, 'err) choice_run) list \<Rightarrow> bool" where
  "all_alone n cancel i [] rs \<longleftrightarrow> rs = []"
| "all_alone n cancel i (x # xs) rs \<longleftrightarrow>
     (\<exists>ts r rs'. rs = (ts, r) # rs' \<and> alone n (\<lambda>m. cancel m i) x ts r \<and> all_alone n cancel (Suc i) xs rs')"

text \<open>The texts of a schedule put in front of those of each choice, the choices numbered from \<open>i\<close>.\<close>

fun prepend :: "nat \<Rightarrow> (nat \<times> bytes) list \<Rightarrow> (bytes list \<times> 'a) list \<Rightarrow> (bytes list \<times> 'a) list" where
  "prepend i outs [] = []"
| "prepend i outs ((ts, r) # rs) = (texts_of i outs @ ts, r) # prepend (Suc i) outs rs"

definition others_silent :: "nat \<Rightarrow> nat \<Rightarrow> (nat \<times> bytes) list \<Rightarrow> bool" where
  "others_silent i n outs \<longleftrightarrow> (\<forall>k. k < i \<or> i + n \<le> k \<longrightarrow> texts_of k outs = [])"

lemma prepend_skip [simp]: "k < i \<Longrightarrow> prepend i (map (Pair k) ts @ outs) rs = prepend i outs rs"
  by (induction i outs rs rule: prepend.induct) auto

lemma prepend_append: "prepend i (a @ b) rs = prepend i a (prepend i b rs)"
  by (induction i b rs rule: prepend.induct) auto

lemma prepend_nil [simp]: "prepend i [] rs = rs"
  by (induction i "[] :: (nat \<times> bytes) list" rs rule: prepend.induct) auto

lemma prepend_nth: "k < length rs \<Longrightarrow> prepend i outs rs ! k = (texts_of (i + k) outs @ fst (rs ! k), snd (rs ! k))"
  by (induction i outs rs arbitrary: k rule: prepend.induct) (auto simp: nth_Cons split: nat.splits)

lemma length_prepend [simp]: "length (prepend i outs rs) = length rs"
  by (induction i outs rs rule: prepend.induct) auto

lemma all_alone_length: "all_alone n cancel i xs rs \<Longrightarrow> length xs = length rs"
  by (induction xs arbitrary: i rs) auto

lemma all_stopped:
  assumes "all_alone (Suc 0) cancel i xs rs"
  shows "rr_round (cancel 0) i xs = Some (Inr (False, [], map snd rs)) \<and> (\<forall>(ts, r) \<in> set rs. ts = [])"
  using assms
proof (induction xs arbitrary: i rs)
  case (Cons x xs)
  obtain cx eng c e where x: "x = (cx, eng, c, e)" by (cases x)
  from Cons.prems obtain ts r rs' where rs: "rs = (ts, r) # rs'" "alone (Suc 0) (\<lambda>m. cancel m i) x ts r" "all_alone (Suc 0) cancel (Suc i) xs rs'"
    by auto
  from rs(2) [unfolded x] show ?case
    by (cases rule: alone_step) (use Cons.IH [OF rs(3)] rs(1) x in auto)
qed simp

lemma rr_round_alone:
  assumes "all_alone (Suc (Suc n)) cancel i xs rs"
  shows "\<exists>go outs mids rs'. rr_round (cancel 0) i xs = Some (Inr (go, outs, mids))
    \<and> all_alone (Suc n) (\<lambda>m. cancel (Suc m)) i mids rs' \<and> rs = prepend i outs rs' \<and> others_silent i (length xs) outs
    \<and> (\<not> go \<longrightarrow> outs = [] \<and> mids = map snd rs \<and> (\<forall>(ts, r) \<in> set rs. ts = []))"
  using assms
proof (induction xs arbitrary: i rs)
  case Nil
  then show ?case by (auto simp: others_silent_def)
next
  case (Cons x xs)
  obtain cx eng c e where x: "x = (cx, eng, c, e)" by (cases x)
  from Cons.prems obtain ts r rs1 where rs: "rs = (ts, r) # rs1" "alone (Suc (Suc n)) (\<lambda>m. cancel m i) x ts r"
    "all_alone (Suc (Suc n)) cancel (Suc i) xs rs1" by auto
  from Cons.IH [OF rs(3)] obtain go outs mids rs' where ih: "rr_round (cancel 0) (Suc i) xs = Some (Inr (go, outs, mids))"
    "all_alone (Suc n) (\<lambda>m. cancel (Suc m)) (Suc i) mids rs'" "rs1 = prepend (Suc i) outs rs'" "others_silent (Suc i) (length xs) outs"
    "\<not> go \<longrightarrow> outs = [] \<and> mids = map snd rs1 \<and> (\<forall>(ts, r) \<in> set rs1. ts = [])" by blast
  have silent: "texts_of i outs = []" "others_silent i (length (x # xs)) outs"
    using ih(4) by (auto simp: others_silent_def)
  from rs(2) [unfolded x] show ?case
  proof (cases rule: alone_step)
    case (stop c')
    then have "alone (Suc n) (\<lambda>m. cancel (Suc m) i) (cx, eng, c', e) [] r" by (simp add: check_budget_def)
    with stop ih rs(1) silent show ?thesis
      by (intro exI [of _ go] exI [of _ outs] exI [of _ "(cx, eng, c', e) # mids"] exI [of _ "([], r) # rs'"]) (simp add: x)
  next
    case (go texts c1 e1 ts')
    have "others_silent i (length (x # xs)) (map (Pair i) texts @ outs)"
      using silent(2) by (auto simp: others_silent_def)
    with go ih rs(1) silent(1) show ?thesis
      by (intro exI [of _ True] exI [of _ "map (Pair i) texts @ outs"] exI [of _ "(cx, eng, c1, e1) # mids"] exI [of _ "(ts', r) # rs'"])
        (simp add: x)
  qed
qed

lemma rr_loop_alone:
  "all_alone (Suc n) cancel 0 xs rs \<Longrightarrow>
    \<exists>outs. rr_loop (Suc n) cancel xs = Some (Inr (outs, map snd rs)) \<and> others_silent 0 (length xs) outs
      \<and> (\<forall>k < length xs. texts_of k outs = fst (rs ! k))"
proof (induction n arbitrary: cancel xs rs)
  case 0
  from all_stopped [OF 0] show ?case using all_alone_length [OF 0]
    by (force simp: others_silent_def case_prod_beta)
next
  case (Suc n)
  from rr_round_alone [OF Suc.prems] obtain go outs mids rs' where r: "rr_round (cancel 0) 0 xs = Some (Inr (go, outs, mids))"
    "all_alone (Suc n) (\<lambda>m. cancel (Suc m)) 0 mids rs'" "rs = prepend 0 outs rs'" "others_silent 0 (length xs) outs"
    "\<not> go \<longrightarrow> outs = [] \<and> mids = map snd rs \<and> (\<forall>(ts, r) \<in> set rs. ts = [])" by blast
  have len: "length xs = length rs" "length mids = length rs'" using all_alone_length [OF Suc.prems] all_alone_length [OF r(2)] by simp_all
  show ?case
  proof (cases go)
    case False
    with r len show ?thesis by (force simp: others_silent_def case_prod_beta)
  next
    case True
    from Suc.IH [OF r(2)] obtain outs' where o: "rr_loop (Suc n) (\<lambda>m. cancel (Suc m)) mids = Some (Inr (outs', map snd rs'))"
      "others_silent 0 (length mids) outs'" "\<forall>k < length mids. texts_of k outs' = fst (rs' ! k)" by blast
    have "map snd rs = map snd rs'" using r(3) by (auto intro!: nth_equalityI simp: prepend_nth)
    moreover have "\<forall>k < length xs. texts_of k (outs @ outs') = fst (rs ! k)"
      using r(3) o(3) len by (simp add: prepend_nth)
    moreover have "others_silent 0 (length xs) (outs @ outs')" using r(3,4) o(2) len by (simp add: others_silent_def)
    ultimately show ?thesis using True r(1) o(1) by (intro exI [of _ "outs @ outs'"]) (simp del: rr_loop.simps(2) add: rr_loop.simps(2) [of "Suc n"])
  qed
qed

lemma rr_flush_each:
  assumes "list_all2 (\<lambda>(cx, eng, c, e) (ts, cx', eng', c', e'). cs_flush c = Some (ts, c') \<and> cx' = cx \<and> eng' = eng \<and> e' = e) xs rs"
  shows "\<exists>outs. rr_flush i xs = Some (outs, map snd rs) \<and> others_silent i (length xs) outs
    \<and> (\<forall>k < length xs. texts_of (i + k) outs = fst (rs ! k))"
  using assms
proof (induction xs arbitrary: i rs)
  case Nil
  then show ?case by (simp add: others_silent_def)
next
  case (Cons x xs)
  obtain cx eng c e where x: "x = (cx, eng, c, e)" by (cases x)
  from Cons.prems obtain ts c' rs1 where rs: "rs = (ts, cx, eng, c', e) # rs1" "cs_flush c = Some (ts, c')"
    "list_all2 (\<lambda>(cx, eng, c, e) (ts, cx', eng', c', e'). cs_flush c = Some (ts, c') \<and> cx' = cx \<and> eng' = eng \<and> e' = e) xs rs1"
    by (auto simp: x list_all2_Cons1)
  from Cons.IH [OF rs(3), of "Suc i"] obtain outs where o: "rr_flush (Suc i) xs = Some (outs, map snd rs1)"
    "others_silent (Suc i) (length xs) outs" "\<forall>k < length xs. texts_of (Suc i + k) outs = fst (rs1 ! k)" by blast
  have "texts_of i outs = []" "others_silent i (length (x # xs)) (map (Pair i) ts @ outs)"
    using o(2) by (auto simp: others_silent_def)
  with rs o show ?case
    by (intro exI [of _ "map (Pair i) ts @ outs"]) (auto simp: x nth_Cons split: nat.splits)
qed

lemma all_alone_map:
  assumes "\<And>k. k < m \<Longrightarrow> alone n (\<lambda>t. cancel t (i + k)) (f (i + k)) (g (i + k)) (h (i + k))"
  shows "all_alone n cancel i (map f [i..<i + m]) (map (\<lambda>k. (g k, h k)) [i..<i + m])"
  using assms
proof (induction m arbitrary: i)
  case (Suc m)
  have "alone n (\<lambda>t. cancel t i) (f i) (g i) (h i)" using Suc.prems [of 0] by simp
  moreover have "all_alone n cancel (Suc i) (map f [Suc i..<Suc i + m]) (map (\<lambda>k. (g k, h k)) [Suc i..<Suc i + m])"
    by (rule Suc.IH) (use Suc.prems [of "Suc k" for k] in auto)
  moreover have "[i..<i + Suc m] = i # [Suc i..<Suc i + m]" by (simp add: upt_conv_Cons del: upt_Suc)
  ultimately show ?case by (simp del: upt_Suc)
qed simp

lemma sample_parts:
  assumes "sample_until_stop cx eng 0 cancel st l pos e = Some (Inr (outs, c, e'))"
  obtains outs1 c1 outs2 where "decode_loop (gp_max_tokens (cx_params cx) + 1) cx eng 0 cancel (choice_stream_new l pos st (cx_params cx)) e = Some (Inr (outs1, c1, e'))"
    "cs_flush c1 = Some (outs2, c)" "outs = outs1 @ outs2"
  using assms by (auto simp: sample_until_stop_def bind_run_ok_iff)

lemma le_foldr_max: "x \<in> set xs \<Longrightarrow> x \<le> foldr max xs (0 :: nat)"
  by (induction xs) auto

text \<open>
  C8. Each choice runs as if it were alone.  When every choice, run by itself to its end, returns an
  answer, the choices run a token at a time in turn return the same answers, streams and engines, and
  the texts that carry the index of a choice are exactly the pieces that choice emits by itself, in
  their order; a choice that ends early neither ends nor delays the others.
\<close>

theorem choices_run_as_alone:
  fixes cx :: "nat \<Rightarrow> ('s, 'l, 'p, 'err) step_context" and eng :: "nat \<Rightarrow> ('e, 'l) decode_engine"
  assumes run: "\<forall>i < n. sample_until_stop (cx i) (eng i) 0 (\<lambda>t. cancel t i) (st i) (l i) (pos i) (e i) = Some (Inr (outs i, c i, e' i))"
  shows "\<exists>texts. sample_round_robin cancel (map (\<lambda>i. choice_stream_new (l i) (pos i) (st i) (cx_params (cx i))) [0..<n])
        (map (\<lambda>i. (eng i, e i)) [0..<n]) (map cx [0..<n])
      = Some (Inr (texts, map (\<lambda>i. (cx i, eng i, c i, e' i)) [0..<n]))
    \<and> (\<forall>i < n. texts_of i texts = outs i) \<and> (\<forall>i \<ge> n. texts_of i texts = [])"
proof -
  let ?new = "\<lambda>i. choice_stream_new (l i) (pos i) (st i) (cx_params (cx i)) :: ('s, 'l, 'p) choice_stream"
  let ?N = "foldr max (map (gp_max_tokens \<circ> cx_params) (map cx [0..<n])) 0"
  have "\<forall>i < n. \<exists>o1 c1 o2. decode_loop (gp_max_tokens (cx_params (cx i)) + 1) (cx i) (eng i) 0 (\<lambda>t. cancel t i) (?new i) (e i) = Some (Inr (o1, c1, e' i))
      \<and> cs_flush c1 = Some (o2, c i) \<and> outs i = o1 @ o2"
    using run by (metis sample_parts)
  then obtain o1 c1 o2 where parts: "\<And>i. i < n \<Longrightarrow> decode_loop (gp_max_tokens (cx_params (cx i)) + 1) (cx i) (eng i) 0 (\<lambda>t. cancel t i) (?new i) (e i) = Some (Inr (o1 i, c1 i, e' i))"
      "\<And>i. i < n \<Longrightarrow> cs_flush (c1 i) = Some (o2 i, c i)" "\<And>i. i < n \<Longrightarrow> outs i = o1 i @ o2 i" by metis
  have "alone (Suc ?N) (\<lambda>t. cancel t i) (cx i, eng i, ?new i, e i) (o1 i) (cx i, eng i, c1 i, e' i)" if "i < n" for i
  proof -
    have "gp_max_tokens (cx_params (cx i)) + 1 \<le> Suc ?N" using le_foldr_max [of "gp_max_tokens (cx_params (cx i))"] that by simp
    from decode_loop_mono [OF parts(1) [OF that] this] show ?thesis by simp
  qed
  then have "all_alone (Suc ?N) cancel 0 (map (\<lambda>i. (cx i, eng i, ?new i, e i)) [0..<0 + n]) (map (\<lambda>i. (o1 i, cx i, eng i, c1 i, e' i)) [0..<0 + n])"
    by (intro all_alone_map) simp
  from rr_loop_alone [OF this] obtain texts1 where t1: "rr_loop (Suc ?N) cancel (map (\<lambda>i. (cx i, eng i, ?new i, e i)) [0..<n])
      = Some (Inr (texts1, map (\<lambda>i. (cx i, eng i, c1 i, e' i)) [0..<n]))"
    "others_silent 0 n texts1" "\<forall>k < n. texts_of k texts1 = o1 k" by (auto simp: comp_def)
  have "list_all2 (\<lambda>(cx, eng, c, e) (ts, cx', eng', c', e'). cs_flush c = Some (ts, c') \<and> cx' = cx \<and> eng' = eng \<and> e' = e)
      (map (\<lambda>i. (cx i, eng i, c1 i, e' i)) [0..<n]) (map (\<lambda>i. (o2 i, cx i, eng i, c i, e' i)) [0..<n])"
    using parts(2) by (simp add: list_all2_conv_all_nth)
  from rr_flush_each [OF this, of 0] obtain texts2 where t2: "rr_flush 0 (map (\<lambda>i. (cx i, eng i, c1 i, e' i)) [0..<n]) = Some (texts2, map (\<lambda>i. (cx i, eng i, c i, e' i)) [0..<n])"
    "others_silent 0 n texts2" "\<forall>k < n. texts_of k texts2 = o2 k" by (auto simp: comp_def)
  have zip: "map2 (\<lambda>cx ((eng, e), c). (cx, eng, c, e)) (map cx [0..<n]) (zip (map (\<lambda>i. (eng i, e i)) [0..<n]) (map ?new [0..<n]))
      = map (\<lambda>i. (cx i, eng i, ?new i, e i)) [0..<n]" by (auto intro!: nth_equalityI)
  show ?thesis
    using t1 t2 parts(3) by (intro exI [of _ "texts1 @ texts2"]) (simp add: sample_round_robin_def zip others_silent_def del: rr_loop.simps)
qed

text \<open>Two choices of which the second may keep one token only.\<close>

theorem choices_run_as_alone_witness:
  "\<exists>texts choices. sample_round_robin (\<lambda>_ _. False)
      (map (\<lambda>i. choice_stream_new [0, 1] 2 () (cx_params (tape_context (2 - i) []))) [0..<2])
      (map (\<lambda>i. (tape_engine, [0, 1])) [0..<2]) (map (\<lambda>i. tape_context (2 - i) []) [0..<2]) = Some (Inr (texts, choices))
    \<and> texts_of 0 texts = [[0x62], [0x63]] \<and> texts_of 1 texts = [[0x62]] \<and> texts_of 2 texts = []"
proof -
  have "map_option (map_sum id fst) (sample_until_stop (tape_context 2 []) tape_engine 0 (\<lambda>_. False) () [0, 1] 2 [0, 1]) = Some (Inr [[0x62], [0x63]])"
    "map_option (map_sum id fst) (sample_until_stop (tape_context 1 []) tape_engine 0 (\<lambda>_. False) () [0, 1] 2 [0, 1]) = Some (Inr [[0x62]])"
    by code_simp+
  from this [THEN run_result_map]
  have "\<exists>c e. sample_until_stop (tape_context 2 []) tape_engine 0 (\<lambda>_. False) () [0, 1] 2 [0, 1] = Some (Inr ([[0x62], [0x63]], c, e))"
    "\<exists>c e. sample_until_stop (tape_context 1 []) tape_engine 0 (\<lambda>_. False) () [0, 1] 2 [0, 1] = Some (Inr ([[0x62]], c, e))"
    by fastforce+
  then obtain c e c' e' where r: "sample_until_stop (tape_context 2 []) tape_engine 0 (\<lambda>_. False) () [0, 1] 2 [0, 1] = Some (Inr ([[0x62], [0x63]], c, e))"
    "sample_until_stop (tape_context 1 []) tape_engine 0 (\<lambda>_. False) () [0, 1] 2 [0, 1] = Some (Inr ([[0x62]], c', e'))" by blast
  have "\<forall>i < 2. sample_until_stop (tape_context (2 - i) []) tape_engine 0 (\<lambda>_. False) () [0, 1] 2 [0, 1]
      = Some (Inr (if i = 0 then [[0x62], [0x63]] else [[0x62]], if i = 0 then c else c', if i = 0 then e else e'))"
    using r by (auto simp: less_2_cases_iff)
  from choices_run_as_alone [OF this] show ?thesis by fastforce
qed

end
