(* ===== verification/Batch_Budget.thy ===== *)
theory Batch_Budget
  imports Decode_Lockstep Paged_Lease
begin

text \<open>
  What the batch scheduler decides admission on: the context ceiling of a request (\<^verbatim>\<open>budget.rs\<close>), the
  ledger of KV blocks (\<^verbatim>\<open>block_budget.rs\<close>), the gate of the queue (\<^verbatim>\<open>queue.rs\<close>), the choice of the
  next waiting job (\<^verbatim>\<open>cache_aware.rs\<close>) and the size of a prefill chunk (\<^verbatim>\<open>step_budget.rs\<close>).
  The byte figures and texts of the refusals are left out.
\<close>

section \<open>The context ceiling\<close>

text \<open>The errors of a request.  Details are texts of some type; of an exceeded budget the two numbers of
  positions are kept.\<close>

datatype 'err decode_error =
    TokenOutOfVocab nat nat
  | KvPoolExhausted_error
  | Unsupported 'err
  | QueueFull nat nat
  | KvBudgetExceeded nat nat
  | GrammarConstraint 'err
  | ReasoningBudget 'err

record context_ceiling =
  cl_limit :: "nat option"
  cl_refused :: nat

definition context_ceiling_new :: "nat option \<Rightarrow> context_ceiling" where
  "context_ceiling_new limit = \<lparr>cl_limit = limit, cl_refused = 0\<rparr>"

definition prompt_refusal :: "nat \<Rightarrow> context_ceiling \<Rightarrow> 'err decode_error option \<times> context_ceiling" where
  "prompt_refusal prompt_tokens c =
     (case cl_limit c of
        None \<Rightarrow> (None, c)
      | Some limit \<Rightarrow>
          if prompt_tokens < limit then (None, c)
          else (Some (KvBudgetExceeded prompt_tokens limit), c\<lparr>cl_refused := cl_refused c + 1\<rparr>))"

text \<open>The sum of prompt and budget must be a \<open>usize\<close>.\<close>

definition overflow_refusal :: "nat \<Rightarrow> nat \<Rightarrow> context_ceiling \<Rightarrow> 'err decode_error option \<times> context_ceiling" where
  "overflow_refusal prompt_tokens max_tokens c =
     (if prompt_tokens + max_tokens \<le> usize_max then (None, c)
      else (Some (KvBudgetExceeded usize_max (case cl_limit c of None \<Rightarrow> usize_max | Some limit \<Rightarrow> limit)),
            c\<lparr>cl_refused := cl_refused c + 1\<rparr>))"

definition ceiling_fit :: "nat \<Rightarrow> nat \<Rightarrow> context_ceiling \<Rightarrow> ('err decode_error, nat) result \<times> context_ceiling" where
  "ceiling_fit prompt_tokens max_tokens c =
     (case prompt_refusal prompt_tokens c of
        (Some err, c) \<Rightarrow> (Inl err, c)
      | (None, c) \<Rightarrow>
          (case overflow_refusal prompt_tokens max_tokens c of
             (Some err, c) \<Rightarrow> (Inl err, c)
           | (None, c) \<Rightarrow>
               (case cl_limit c of
                  Some limit \<Rightarrow> if prompt_tokens + max_tokens > limit then (Inr (limit - prompt_tokens), c) else (Inr max_tokens, c)
                | None \<Rightarrow> (Inr max_tokens, c))))"

definition ceiling_refusal :: "nat \<Rightarrow> context_ceiling \<Rightarrow> 'err decode_error option \<times> context_ceiling" where
  "ceiling_refusal positions c =
     (case cl_limit c of
        None \<Rightarrow> (None, c)
      | Some limit \<Rightarrow>
          if positions \<le> limit then (None, c)
          else (Some (KvBudgetExceeded positions limit), c\<lparr>cl_refused := cl_refused c + 1\<rparr>))"

section \<open>The block ledger\<close>

record block_budget =
  bb_block_size :: nat
  bb_ceiling :: context_ceiling
  bb_total :: "nat option"
  bb_free :: nat
  bb_rejected_too_large :: nat

definition block_budget_new :: "nat \<Rightarrow> nat option \<Rightarrow> context_ceiling \<Rightarrow> block_budget option" where
  "block_budget_new block_size blocks ceiling =
     (if block_size = 0 then None
      else Some \<lparr>bb_block_size = block_size, bb_ceiling = ceiling, bb_total = blocks,
        bb_free = (case blocks of None \<Rightarrow> 0 | Some t \<Rightarrow> t), bb_rejected_too_large = 0\<rparr>)"

definition blocks_for :: "nat \<Rightarrow> block_budget \<Rightarrow> nat" where
  "blocks_for positions b = max (div_ceil positions (bb_block_size b)) 1"

definition immovable_refusal :: "nat \<Rightarrow> nat \<Rightarrow> block_budget \<Rightarrow> 'err decode_error option \<times> block_budget" where
  "immovable_refusal requested positions b =
     (case ceiling_refusal requested (bb_ceiling b) of
        (Some err, c) \<Rightarrow> (Some err, b\<lparr>bb_ceiling := c\<rparr>)
      | (None, c) \<Rightarrow>
          (case bb_total b of
             None \<Rightarrow> (None, b)
           | Some blocks \<Rightarrow>
               if blocks_for positions b \<le> blocks then (None, b)
               else (Some (KvBudgetExceeded positions (blocks * bb_block_size b)), b\<lparr>bb_rejected_too_large := bb_rejected_too_large b + 1\<rparr>)))"

definition bb_try_reserve :: "nat \<Rightarrow> block_budget \<Rightarrow> bool \<times> block_budget" where
  "bb_try_reserve blocks b =
     (case bb_total b of
        None \<Rightarrow> (True, b)
      | Some _ \<Rightarrow> if blocks > bb_free b then (False, b) else (True, b\<lparr>bb_free := bb_free b - blocks\<rparr>))"

definition bb_release :: "nat \<Rightarrow> block_budget \<Rightarrow> block_budget" where
  "bb_release blocks b =
     (case bb_total b of None \<Rightarrow> b | Some n \<Rightarrow> b\<lparr>bb_free := min (bb_free b + blocks) n\<rparr>)"

definition free_blocks_now :: "block_budget \<Rightarrow> nat" where
  "free_blocks_now b = (case bb_total b of None \<Rightarrow> 0 | Some _ \<Rightarrow> bb_free b)"

section \<open>The gate of the queue\<close>

record queue_gate =
  qg_depth :: nat
  qg_cap :: nat
  qg_rejected :: nat

definition queue_gate_new :: "nat \<Rightarrow> queue_gate" where
  "queue_gate_new cap = \<lparr>qg_depth = 0, qg_cap = cap, qg_rejected = 0\<rparr>"

text \<open>One turn of the loop with the depth that was last read: refused, claimed, or to be tried again
  with the depth found.  A weak exchange may also fail for no reason.\<close>

datatype attempt = Refused nat | Claimed | Retry nat

definition reserve_attempt :: "nat \<Rightarrow> bool \<Rightarrow> queue_gate \<Rightarrow> attempt \<times> queue_gate" where
  "reserve_attempt current spurious g =
     (if current \<ge> qg_cap g then (Refused current, g\<lparr>qg_rejected := qg_rejected g + 1\<rparr>)
      else if qg_depth g = current \<and> \<not> spurious then (Claimed, g\<lparr>qg_depth := current + 1\<rparr>)
      else (Retry (qg_depth g), g))"

text \<open>The call when no other thread comes between.\<close>

definition qg_try_reserve :: "queue_gate \<Rightarrow> nat option \<times> queue_gate" where
  "qg_try_reserve g =
     (case reserve_attempt (qg_depth g) False g of (Refused current, g) \<Rightarrow> (Some current, g) | (_, g) \<Rightarrow> (None, g))"

definition qg_release :: "queue_gate \<Rightarrow> queue_gate" where
  "qg_release g = g\<lparr>qg_depth := (if qg_depth g = 0 then usize_max else qg_depth g - 1)\<rparr>"

definition qg_requeue :: "queue_gate \<Rightarrow> queue_gate" where
  "qg_requeue g = g\<lparr>qg_depth := qg_depth g + 1\<rparr>"

section \<open>Which job next, and how much of a prompt\<close>

definition choose_window :: nat where "choose_window = 8"
definition max_skips :: nat where "max_skips = 4"

text \<open>The scan: the deepest cached prefix, up to the first job that may not be overtaken.\<close>

fun choose_scan :: "nat \<Rightarrow> nat list \<Rightarrow> nat list \<Rightarrow> nat \<Rightarrow> nat \<Rightarrow> nat" where
  "choose_scan i [] skips best best_depth = best"
| "choose_scan i (d # depths) skips best best_depth =
     (if (if i < length skips then skips ! i else 0) \<ge> max_skips then best
      else if d > best_depth then choose_scan (i + 1) depths skips i d
      else choose_scan (i + 1) depths skips best best_depth)"

definition choose_next :: "nat list \<Rightarrow> nat list \<Rightarrow> nat" where
  "choose_next depths skips =
     (if length depths < 2 then 0
      else if (case skips of [] \<Rightarrow> 0 | s # _ \<Rightarrow> s) \<ge> max_skips then 0
      else choose_scan 1 (drop 1 (take choose_window depths)) skips 0 (hd depths))"

definition min_prefill_chunk :: nat where "min_prefill_chunk = 16"

definition prefill_budget :: "nat \<Rightarrow> nat \<Rightarrow> nat \<Rightarrow> nat" where
  "prefill_budget max_batch_tokens decode_rows configured_chunk =
     min (max (max_batch_tokens - decode_rows) min_prefill_chunk) (max configured_chunk min_prefill_chunk)"


section \<open>Laws\<close>

lemma release_after_reserve:
  assumes "bb_try_reserve n b = (True, b')" "\<forall>t. bb_total b = Some t \<longrightarrow> bb_free b \<le> t"
  shows "bb_release n b' = b"
  using assms by (auto simp: bb_try_reserve_def bb_release_def split: option.splits if_splits)


lemma choose_scan_skips:
  "best < i \<Longrightarrow> length skips = i + length depths \<Longrightarrow> \<forall>k < i. skips ! k < max_skips \<Longrightarrow>
    choose_scan i depths skips best depth < i + length depths \<and>
    (\<forall>k < choose_scan i depths skips best depth. skips ! k < max_skips)"
proof (induction depths arbitrary: i best depth)
  case (Cons d depths)
  show ?case
  proof (cases "skips ! i \<ge> max_skips")
    case True
    with Cons.prems show ?thesis by simp
  next
    case False
    then have below: "\<forall>k < i + 1. skips ! k < max_skips" using Cons.prems(3) by (simp add: less_Suc_eq)
    have len: "length skips = (i + 1) + length depths" "i + length (d # depths) = (i + 1) + length depths" using Cons.prems(2) by simp_all
    have scan: "choose_scan i (d # depths) skips best depth
        = (if d > depth then choose_scan (i + 1) depths skips i d else choose_scan (i + 1) depths skips best depth)"
      using False len(1) by simp
    show ?thesis
    proof (cases "d > depth")
      case True
      have "i < i + 1" by simp
      from Cons.IH [OF this len(1) below, of d] show ?thesis unfolding scan len(2) if_P [OF True] .
    next
      case False
      have "best < i + 1" using Cons.prems(1) by simp
      from Cons.IH [OF this len(1) below, of depth] show ?thesis unfolding scan len(2) if_not_P [OF False] .
    qed
  qed
qed simp

text \<open>The job chosen is waiting, and no job that was passed over \<open>max_skips\<close> times stands before it.\<close>

lemma choose_skips:
  assumes "length skips = length depths" "depths \<noteq> []" "length depths \<le> choose_window"
  shows "choose_next depths skips < length depths \<and> (\<forall>k < choose_next depths skips. skips ! k < max_skips)"
proof (cases "length depths < 2 \<or> (case skips of [] \<Rightarrow> 0 | s # _ \<Rightarrow> s) \<ge> max_skips")
  case True
  then have "choose_next depths skips = 0" by (auto simp: choose_next_def)
  then show ?thesis using assms(2) by simp
next
  case False
  then obtain s rest where s: "skips = s # rest" "s < max_skips" using assms by (cases skips) auto
  have "choose_scan 1 (drop 1 depths) skips 0 (hd depths) < 1 + length (drop 1 depths)
      \<and> (\<forall>k < choose_scan 1 (drop 1 depths) skips 0 (hd depths). skips ! k < max_skips)"
    by (rule choose_scan_skips) (use s assms in auto)
  moreover have "\<not> length depths < 2" using False by simp
  then have "1 + length (drop 1 depths) = length depths" by simp
  ultimately show ?thesis using False assms(3) by (simp add: choose_next_def)
qed

lemma prefill_budget_floor: "min_prefill_chunk \<le> prefill_budget m r c"
  by (simp add: prefill_budget_def)

text \<open>Threads at the gate: each has read nothing, or a depth.  Whatever the interleaving, claims never
  take the depth past the cap; only jobs that go back to the queue do.\<close>

inductive gate_step :: "queue_gate \<times> (nat \<Rightarrow> nat option) \<times> nat \<Rightarrow> queue_gate \<times> (nat \<Rightarrow> nat option) \<times> nat \<Rightarrow> bool" where
  load: "gate_step (g, T, n) (g, T(t := Some (qg_depth g)), n)"
| attempt: "T t = Some current \<Longrightarrow> reserve_attempt current spurious g = (r, g') \<Longrightarrow>
    gate_step (g, T, n) (g', T(t := (case r of Retry d \<Rightarrow> Some d | _ \<Rightarrow> None)), n)"
| release: "0 < qg_depth g \<Longrightarrow> gate_step (g, T, n) (qg_release g, T, n)"
| requeue: "gate_step (g, T, n) (qg_requeue g, T, n + 1)"

lemma gate_bounded:
  assumes "gate_step\<^sup>*\<^sup>* (queue_gate_new cap, (\<lambda>_. None), 0) (g, T, n)"
  shows "qg_depth g \<le> cap + n \<and> qg_cap g = cap"
  using assms
proof (induction "(g, T, n)" arbitrary: g T n rule: rtranclp_induct)
  case base
  then show ?case by (simp add: queue_gate_new_def)
next
  case (step y)
  obtain g1 T1 n1 where y: "y = (g1, T1, n1)" by (cases y)
  from step(2) step(3) [OF y] show ?case unfolding y
    by (auto simp: reserve_attempt_def qg_release_def qg_requeue_def elim!: gate_step.cases split: if_splits)
qed

end
