(* ===== verification/Batch_State.thy ===== *)
theory Batch_State
  imports Batch_Budget "HOL-Library.AList"
begin

text \<open>
  The batch scheduler's worker (\<^verbatim>\<open>serving/batch/\<close>): jobs wait, are admitted into a prefill, become a row,
  take decode steps together and leave with an answer.  A job, its reply channel and its cancellation
  are named by the id it was submitted with.  The sampler, the tokenizer's decoding, the forward
  passes and the page leases are arguments; the lines of the log and the clocks are left out.
  \<open>None\<close> is a panic.
\<close>

section \<open>State\<close>

record batch_params = gen_params +
  bp_seed :: nat
  bp_cache_salt :: "nat option"

record 's answer =
  an_sample :: 's
  an_generated_ids :: "nat list"
  an_visible :: bytes
  an_stops :: stop_matcher
  an_utf8 :: bytes
  an_prompt_tokens :: nat
  an_preemptions :: nat

datatype 'err batcher_event = Chunk bytes | Finished "('err decode_error, finish_reason \<times> nat list \<times> bytes) result"

record 's job =
  jb_prompt_tokens :: "nat list"
  jb_params :: batch_params
  jb_stop_tokens :: "nat list"
  jb_abort :: nat
  jb_blocks :: nat
  jb_skips :: nat
  jb_waited :: nat
  jb_answer :: "'s answer option"

record ('kv, 'v) prefill_state =
  ps_kv :: 'kv
  ps_tokens :: "nat list"
  ps_tokens_processed :: nat
  ps_logits :: "'v list"
  ps_chunk_size :: nat

record ('s, 'kv, 'v) prefill =
  pf_state :: "('kv, 'v) prefill_state"
  pf_params :: batch_params
  pf_stop_tokens :: "nat list"
  pf_abort :: nat
  pf_blocks :: nat
  pf_answer :: "'s answer"

record ('s, 'kv, 'v, 'err) batch_slot =
  sl_kv :: 'kv
  sl_pos :: nat
  sl_logits :: "'v list"
  sl_answer :: "'s answer"
  sl_prompt_ids :: "nat list"
  sl_max_tokens :: nat
  sl_stop_tokens :: "nat list"
  sl_params :: batch_params
  sl_finish :: "finish_reason option"
  sl_error :: "'err decode_error option"
  sl_abort :: nat
  sl_blocks :: nat

record ('s, 'kv, 'v, 'err) rows =
  rw_state :: "(nat \<times> ('s, 'kv, 'v, 'err) batch_slot) list"
  rw_order :: "nat list"
  rw_next_uid :: nat

record counters =
  ct_prefill_chunks :: nat
  ct_prefill_tokens :: nat
  ct_decode_steps :: nat
  ct_peak_blocks :: nat
  ct_preempted :: nat

record batcher_config =
  bf_max_seqs :: nat
  bf_prefill_chunk :: nat
  bf_max_batch_tokens :: nat
  bf_preempt_after_ticks :: "nat option"

text \<open>What the worker and its callers share, and what the worker keeps: the channel, the inbox of
  cancellations, the events sent, and the world the leases live in.\<close>

record ('s, 'kv, 'v, 'err, 'w) batcher =
  bt_channel :: "'s job list"
  bt_queue :: queue_gate
  bt_budget :: block_budget
  bt_inbox :: "nat list"
  bt_next_id :: nat
  bt_aborted :: nat
  bt_counters :: counters
  bt_waiting :: "'s job list"
  bt_prefills :: "('s, 'kv, 'v) prefill list"
  bt_rows :: "('s, 'kv, 'v, 'err) rows"
  bt_carried :: "nat list"
  bt_sent :: "(nat \<times> 'err batcher_event) list"
  bt_world :: 'w

record ('s, 'kv, 'v, 'err, 'w) batch_env =
  be_config :: batcher_config
  be_vocab_size :: nat
  be_paged :: bool
  be_radix :: bool
  be_paged_window :: "window_policy option"
  be_decode :: "nat \<Rightarrow> bytes"
  be_sample_new :: "nat \<Rightarrow> 's"
  be_sample :: "'s \<Rightarrow> 'v list \<Rightarrow> batch_params \<Rightarrow> nat list \<Rightarrow> nat list \<Rightarrow> 'err decode_error + unit step \<times> 's"
  be_new_kv :: 'kv
  be_acquire :: "nat list \<Rightarrow> nat \<Rightarrow> nat option \<Rightarrow> bool \<Rightarrow> 'w \<Rightarrow> 'kv option \<times> 'w"
  be_cached_len :: "nat option \<Rightarrow> nat list \<Rightarrow> 'w \<Rightarrow> nat"
  be_positions_written :: "'kv \<Rightarrow> nat"
  be_slides :: "'kv \<Rightarrow> bool"
  be_forward_prefill :: "nat list \<Rightarrow> nat \<Rightarrow> 'kv \<Rightarrow> 'w \<Rightarrow> ('v list \<times> 'kv \<times> 'w) option"
  be_before_step :: "nat \<Rightarrow> nat \<Rightarrow> 'kv \<Rightarrow> 'w \<Rightarrow> 'kv \<times> 'w"
  be_forward_multi :: "(nat \<times> nat \<times> 'kv) list \<Rightarrow> 'w \<Rightarrow> (('v list \<times> 'kv) list \<times> 'w) option"
  be_publish :: "'kv \<Rightarrow> nat list \<Rightarrow> 'w \<Rightarrow> 'w"
  be_drop_kv :: "'kv \<Rightarrow> 'w \<Rightarrow> 'w"

text \<open>A step for each element in turn, until one panics.\<close>

fun each :: "('a \<Rightarrow> 'b \<Rightarrow> 'b option) \<Rightarrow> 'a list \<Rightarrow> 'b \<Rightarrow> 'b option" where
  "each f [] s = Some s"
| "each f (x # xs) s = (case f x s of None \<Rightarrow> None | Some s \<Rightarrow> each f xs s)"

section \<open>Rows\<close>

definition rows_default :: "('s, 'kv, 'v, 'err) rows" where
  "rows_default = \<lparr>rw_state = [], rw_order = [], rw_next_uid = 0\<rparr>"

definition rows_insert :: "('s, 'kv, 'v, 'err) batch_slot \<Rightarrow> ('s, 'kv, 'v, 'err) rows \<Rightarrow> ('s, 'kv, 'v, 'err) rows" where
  "rows_insert sl r =
     \<lparr>rw_state = AList.update (rw_next_uid r) sl (rw_state r), rw_order = rw_order r @ [rw_next_uid r], rw_next_uid = rw_next_uid r + 1\<rparr>"

definition rows_count :: "('s, 'kv, 'v, 'err) rows \<Rightarrow> nat" where
  "rows_count r = length (rw_order r)"

definition blocks_held :: "('s, 'kv, 'v, 'err) rows \<Rightarrow> nat" where
  "blocks_held r = sum_list (map (sl_blocks \<circ> snd) (rw_state r))"

definition rows_get :: "nat \<Rightarrow> ('s, 'kv, 'v, 'err) rows \<Rightarrow> ('s, 'kv, 'v, 'err) batch_slot option" where
  "rows_get uid r = map_of (rw_state r) uid"

text \<open>What a caller of \<open>get_mut\<close> does with the row it is lent.\<close>

definition rows_set :: "nat \<Rightarrow> ('s, 'kv, 'v, 'err) batch_slot \<Rightarrow> ('s, 'kv, 'v, 'err) rows \<Rightarrow> ('s, 'kv, 'v, 'err) rows" where
  "rows_set uid sl r = r\<lparr>rw_state := AList.update uid sl (rw_state r)\<rparr>"

definition rows_remove :: "nat \<Rightarrow> ('s, 'kv, 'v, 'err) rows \<Rightarrow> ('s, 'kv, 'v, 'err) rows" where
  "rows_remove uid r = r\<lparr>rw_state := AList.delete uid (rw_state r), rw_order := removeAll uid (rw_order r)\<rparr>"

fun mark_cancelled :: "nat list \<Rightarrow> nat list \<Rightarrow> ('s, 'kv, 'v, 'err) rows \<Rightarrow> nat list \<times> ('s, 'kv, 'v, 'err) rows" where
  "mark_cancelled ids [] r = ([], r)"
| "mark_cancelled ids (uid # uids) r =
     (case rows_get uid r of
        None \<Rightarrow> mark_cancelled ids uids r
      | Some sl \<Rightarrow>
          if sl_abort sl \<in> set ids \<and> sl_finish sl = None then
            let (consumed, r) = mark_cancelled ids uids (rows_set uid (sl\<lparr>sl_finish := Some Cancelled\<rparr>) r) in
            (sl_abort sl # consumed, r)
          else mark_cancelled ids uids r)"

definition rows_ready :: "('s, 'kv, 'v, 'err) rows \<Rightarrow> nat list" where
  "rows_ready r = filter (\<lambda>uid. case rows_get uid r of
     None \<Rightarrow> False
   | Some s \<Rightarrow> sl_finish s = None \<and> length (an_generated_ids (sl_answer s)) < sl_max_tokens s) (rw_order r)"

definition slot_fail :: "'err decode_error \<Rightarrow> ('s, 'kv, 'v, 'err) batch_slot \<Rightarrow> ('s, 'kv, 'v, 'err) batch_slot" where
  "slot_fail err s = s\<lparr>sl_finish := Some FinishStop, sl_error := Some err\<rparr>"

text \<open>A row taken apart: its cache, and the job as the queue holds it.\<close>

definition into_parts :: "('s, 'kv, 'v, 'err) batch_slot \<Rightarrow> 'kv \<times> 's job \<times> finish_reason option \<times> 'err decode_error option" where
  "into_parts s =
     (sl_kv s,
      \<lparr>jb_prompt_tokens = sl_prompt_ids s, jb_params = sl_params s, jb_stop_tokens = sl_stop_tokens s, jb_abort = sl_abort s,
       jb_blocks = sl_blocks s, jb_skips = 0, jb_waited = 0, jb_answer = Some (sl_answer s)\<rparr>,
      sl_finish s, sl_error s)"

section \<open>Answers\<close>

definition answer_fresh :: "('s, 'kv, 'v, 'err, 'w) batch_env \<Rightarrow> batch_params \<Rightarrow> nat \<Rightarrow> 's answer" where
  "answer_fresh env params prompt_tokens =
     \<lparr>an_sample = be_sample_new env (bp_seed params), an_generated_ids = [], an_visible = [],
      an_stops = stop_matcher_new (gp_stop params) (gp_stop_token_ids params), an_utf8 = [],
      an_prompt_tokens = prompt_tokens, an_preemptions = 0\<rparr>"

text \<open>The events an answer is sent off with.  What \<open>push\<close> returns for the unfinished character is
  not looked at.\<close>

definition answer_reply :: "'s answer \<Rightarrow> finish_reason \<Rightarrow> 'err decode_error option \<Rightarrow> 'err batcher_event list option" where
  "answer_reply a finish err =
     (case err of
        Some e \<Rightarrow> Some [Finished (Inl e)]
      | None \<Rightarrow>
          let (partial, _) = us_flush (an_utf8 a) in
          case (if partial = [] then Some (an_stops a) else map_option snd (sm_push partial (an_stops a))) of
            None \<Rightarrow> None
          | Some stops \<Rightarrow>
              let (tail, _) = sm_flush stops in
              Some ((if tail = [] then [] else [Chunk tail]) @ [Finished (Inr (finish, an_generated_ids a, an_visible a @ tail))]))"

definition apply_stop_buffer ::
  "('s, 'kv, 'v, 'err) batch_slot \<Rightarrow> bytes \<Rightarrow> ('err batcher_event list \<times> bool \<times> ('s, 'kv, 'v, 'err) batch_slot) option" where
  "apply_stop_buffer s piece =
     (case sm_push piece (an_stops (sl_answer s)) of
        None \<Rightarrow> None
      | Some (Emit text, stops) \<Rightarrow>
          Some (if text = [] then [] else [Chunk text], False,
                s\<lparr>sl_answer := (sl_answer s)\<lparr>an_stops := stops, an_visible := an_visible (sl_answer s) @ text\<rparr>\<rparr>)
      | Some (Matched text stop, stops) \<Rightarrow>
          Some (if text = [] then [] else [Chunk text], True,
                s\<lparr>sl_answer := (sl_answer s)\<lparr>an_stops := stops, an_visible := an_visible (sl_answer s) @ text\<rparr>,
                  sl_finish := Some (StopSequence stop)\<rparr>))"

section \<open>Leaving\<close>

definition flush_row ::
  "('s, 'kv, 'v, 'err, 'w) batch_env \<Rightarrow> nat \<Rightarrow> ('s, 'kv, 'v, 'err, 'w) batcher \<Rightarrow> ('s, 'kv, 'v, 'err, 'w) batcher option" where
  "flush_row env uid b =
     (case rows_get uid (bt_rows b) of
        None \<Rightarrow> Some b
      | Some sl \<Rightarrow>
          case (sl_finish sl, answer_reply (sl_answer sl) (the (sl_finish sl)) (sl_error sl)) of
            (Some _, Some events) \<Rightarrow>
              Some (b\<lparr>bt_rows := rows_remove uid (bt_rows b), bt_budget := bb_release (sl_blocks sl) (bt_budget b),
                bt_world := be_drop_kv env (sl_kv sl)
                  (be_publish env (sl_kv sl) (sl_prompt_ids sl @ an_generated_ids (sl_answer sl)) (bt_world b)),
                bt_sent := bt_sent b @ map (Pair (sl_abort sl)) events\<rparr>)
          | _ \<Rightarrow> None)"

definition flush_finished ::
  "('s, 'kv, 'v, 'err, 'w) batch_env \<Rightarrow> ('s, 'kv, 'v, 'err, 'w) batcher \<Rightarrow> ('s, 'kv, 'v, 'err, 'w) batcher option" where
  "flush_finished env b =
     each (flush_row env)
       (filter (\<lambda>uid. case rows_get uid (bt_rows b) of None \<Rightarrow> False | Some s \<Rightarrow> sl_finish s \<noteq> None) (rw_order (bt_rows b))) b"

section \<open>Cancellations\<close>

definition abort_waiting :: "'s job \<Rightarrow> ('s, 'kv, 'v, 'err, 'w) batcher \<Rightarrow> ('s, 'kv, 'v, 'err, 'w) batcher option" where
  "abort_waiting job b =
     (if jb_abort job \<in> set (bt_carried b) then
        case (case jb_answer job of
                Some answer \<Rightarrow> answer_reply answer Cancelled None
              | None \<Rightarrow> Some [Finished (Inr (Cancelled, [], []))]) of
          None \<Rightarrow> None
        | Some events \<Rightarrow>
            Some (b\<lparr>bt_carried := removeAll (jb_abort job) (bt_carried b), bt_queue := qg_release (bt_queue b),
              bt_sent := bt_sent b @ map (Pair (jb_abort job)) events, bt_aborted := bt_aborted b + 1\<rparr>)
      else Some (b\<lparr>bt_waiting := bt_waiting b @ [job]\<rparr>))"

definition abort_prefill ::
  "('s, 'kv, 'v, 'err, 'w) batch_env \<Rightarrow> ('s, 'kv, 'v) prefill \<Rightarrow> ('s, 'kv, 'v, 'err, 'w) batcher \<Rightarrow> ('s, 'kv, 'v, 'err, 'w) batcher option" where
  "abort_prefill env p b =
     (if pf_abort p \<in> set (bt_carried b) then
        case answer_reply (pf_answer p) Cancelled None of
          None \<Rightarrow> None
        | Some events \<Rightarrow>
            Some (b\<lparr>bt_carried := removeAll (pf_abort p) (bt_carried b), bt_budget := bb_release (pf_blocks p) (bt_budget b),
              bt_sent := bt_sent b @ map (Pair (pf_abort p)) events, bt_aborted := bt_aborted b + 1,
              bt_world := be_drop_kv env (ps_kv (pf_state p)) (bt_world b)\<rparr>)
      else Some (b\<lparr>bt_prefills := bt_prefills b @ [p]\<rparr>))"

definition abort_rows :: "('s, 'kv, 'v, 'err, 'w) batcher \<Rightarrow> ('s, 'kv, 'v, 'err, 'w) batcher" where
  "abort_rows b =
     (let (consumed, r) = mark_cancelled (bt_carried b) (rw_order (bt_rows b)) (bt_rows b) in
      b\<lparr>bt_rows := r, bt_carried := filter (\<lambda>i. i \<notin> set consumed) (bt_carried b), bt_aborted := bt_aborted b + length consumed\<rparr>)"

definition apply_aborts ::
  "('s, 'kv, 'v, 'err, 'w) batch_env \<Rightarrow> ('s, 'kv, 'v, 'err, 'w) batcher \<Rightarrow> ('s, 'kv, 'v, 'err, 'w) batcher option" where
  "apply_aborts env b =
     (let b = b\<lparr>bt_carried := bt_carried b @ filter (\<lambda>i. i \<notin> set (bt_carried b)) (bt_inbox b), bt_inbox := []\<rparr> in
      if bt_carried b = [] then Some b
      else
        case each abort_waiting (bt_waiting b) (b\<lparr>bt_waiting := []\<rparr>) of
          None \<Rightarrow> None
        | Some b \<Rightarrow>
            (case each (abort_prefill env) (bt_prefills b) (b\<lparr>bt_prefills := []\<rparr>) of
               None \<Rightarrow> None
             | Some b \<Rightarrow> Some (abort_rows b)))"

end
