(* ===== verification/Batch_Worker.thy ===== *)
theory Batch_Worker
  imports Batch_State
begin

text \<open>
  The batch scheduler's tick: preemption (\<^verbatim>\<open>preempt.rs\<close>), admission, prefill chunks (\<^verbatim>\<open>prefill.rs\<close>) and
  the batched decode step (\<^verbatim>\<open>worker.rs\<close>), and the submission of a job (\<^verbatim>\<open>batcher.rs\<close>).
\<close>

section \<open>Preemption\<close>

definition u32_max :: nat where "u32_max = 2 ^ 32 - 1"

definition max_preemptions :: nat where "max_preemptions = 4"

definition preemptible :: "('s, 'kv, 'v, 'err, 'w) batch_env \<Rightarrow> ('s, 'kv, 'v, 'err) batch_slot \<Rightarrow> bool" where
  "preemptible env sl \<longleftrightarrow>
     sl_finish sl = None \<and> sl_error sl = None \<and> an_preemptions (sl_answer sl) < max_preemptions
     \<and> \<not> (be_paged env \<and> be_slides env (sl_kv sl))"

definition preempt ::
  "('s, 'kv, 'v, 'err, 'w) batch_env \<Rightarrow> ('s, 'kv, 'v, 'err) batch_slot \<Rightarrow> block_budget \<Rightarrow> 'w \<Rightarrow> ('s job \<times> block_budget \<times> 'w) option" where
  "preempt env sl budget w =
     (let (kv, job, _, _) = into_parts sl in
      case jb_answer job of
        None \<Rightarrow> None
      | Some answer \<Rightarrow>
          Some (job\<lparr>jb_answer := Some (answer\<lparr>an_preemptions := an_preemptions answer + 1\<rparr>)\<rparr>,
                bb_release (jb_blocks job) budget,
                be_drop_kv env kv (be_publish env kv (jb_prompt_tokens job @ an_generated_ids answer) w)))"

definition room_fits :: "nat \<Rightarrow> nat \<Rightarrow> block_budget \<Rightarrow> nat \<Rightarrow> nat \<Rightarrow> bool" where
  "room_fits max_seqs blocks budget free seats \<longleftrightarrow> seats < max_seqs \<and> (bb_total budget = None \<or> blocks \<le> free)"

text \<open>The rows to evict, newest first, with the blocks and the seats taken after that.\<close>

fun pick_victims ::
  "(('s, 'kv, 'v, 'err) batch_slot \<Rightarrow> bool) \<Rightarrow> (nat \<Rightarrow> nat \<Rightarrow> bool) \<Rightarrow> ('s, 'kv, 'v, 'err) rows \<Rightarrow> nat list \<Rightarrow> nat \<Rightarrow> nat
    \<Rightarrow> nat list \<times> nat \<times> nat" where
  "pick_victims evictable fits r [] free seats = ([], free, seats)"
| "pick_victims evictable fits r (uid # uids) free seats =
     (if fits free seats then ([], free, seats)
      else case rows_get uid r of
        None \<Rightarrow> pick_victims evictable fits r uids free seats
      | Some sl \<Rightarrow>
          if \<not> evictable sl then pick_victims evictable fits r uids free seats
          else
            let (victims, free, seats) = pick_victims evictable fits r uids (free + sl_blocks sl) (seats - 1) in
            (uid # victims, free, seats))"

definition evict_row ::
  "('s, 'kv, 'v, 'err, 'w) batch_env \<Rightarrow> nat \<Rightarrow> 's job list \<times> ('s, 'kv, 'v, 'err, 'w) batcher
    \<Rightarrow> ('s job list \<times> ('s, 'kv, 'v, 'err, 'w) batcher) option" where
  "evict_row env uid = (\<lambda>(jobs, b).
     case rows_get uid (bt_rows b) of
       None \<Rightarrow> None
     | Some sl \<Rightarrow>
         map_option (\<lambda>(job, budget, w). (jobs @ [job], b\<lparr>bt_rows := rows_remove uid (bt_rows b), bt_budget := budget, bt_world := w\<rparr>))
           (preempt env sl (bt_budget b) (bt_world b)))"

definition make_room ::
  "('s, 'kv, 'v, 'err, 'w) batch_env \<Rightarrow> 's job \<Rightarrow> ('s, 'kv, 'v, 'err, 'w) batcher
    \<Rightarrow> ('s job list \<times> ('s, 'kv, 'v, 'err, 'w) batcher) option" where
  "make_room env head b =
     (case bf_preempt_after_ticks (be_config env) of
        None \<Rightarrow> Some ([], b)
      | Some after \<Rightarrow>
          if jb_waited head < after then Some ([], b)
          else
            let fits = room_fits (bf_max_seqs (be_config env)) (jb_blocks head) (bt_budget b);
                (victims, free, seats) = pick_victims (preemptible env) fits (bt_rows b) (rev (rw_order (bt_rows b)))
                  (free_blocks_now (bt_budget b)) (rows_count (bt_rows b) + length (bt_prefills b)) in
            if victims = [] \<or> \<not> fits free seats then Some ([], b)
            else each (evict_row env) victims ([], b))"

section \<open>Admission\<close>

definition prefill_over ::
  "('s, 'kv, 'v, 'err, 'w) batch_env \<Rightarrow> 'kv \<Rightarrow> nat list \<Rightarrow> nat \<Rightarrow> ('kv, 'v) prefill_state option" where
  "prefill_over env kv prompt_tokens chunk_size =
     (if chunk_size = 0 then None
      else Some \<lparr>ps_kv = kv, ps_tokens = (if prompt_tokens = [] then [0] else prompt_tokens),
        ps_tokens_processed = be_positions_written env kv, ps_logits = [], ps_chunk_size = chunk_size\<rparr>)"

datatype ('s, 'kv, 'v) accepted_job = AcceptPrefill "('s, 'kv, 'v) prefill" | AcceptRefused | AcceptRequeue "'s job"

text \<open>The prompt as reported, the tokens to run, and the cache of the row.  A resumed job does not wait
  for pages.\<close>

definition reported_prompt :: "'s job \<Rightarrow> nat" where
  "reported_prompt job = (case jb_answer job of None \<Rightarrow> length (jb_prompt_tokens job) | Some a \<Rightarrow> an_prompt_tokens a)"

definition job_run :: "'s job \<Rightarrow> nat list" where
  "job_run job = jb_prompt_tokens job @ (case jb_answer job of None \<Rightarrow> [] | Some a \<Rightarrow> an_generated_ids a)"

definition acquire_kv :: "('s, 'kv, 'v, 'err, 'w) batch_env \<Rightarrow> 's job \<Rightarrow> 'w \<Rightarrow> 'kv option \<times> 'w" where
  "acquire_kv env job w =
     (if be_paged env
      then be_acquire env (job_run job) (reported_prompt job + gp_max_tokens (jb_params job)) (bp_cache_salt (jb_params job))
             (jb_answer job \<noteq> None) w
      else (Some (be_new_kv env), w))"

definition accept ::
  "('s, 'kv, 'v, 'err, 'w) batch_env \<Rightarrow> 's job \<Rightarrow> 'w
    \<Rightarrow> (('s, 'kv, 'v) accepted_job \<times> (nat \<times> 'err batcher_event) list \<times> 'w) option" where
  "accept env job w =
     (case find (\<lambda>t. t \<ge> be_vocab_size env) (jb_prompt_tokens job) of
        Some bad \<Rightarrow> Some (AcceptRefused, [(jb_abort job, Finished (Inl (TokenOutOfVocab bad (be_vocab_size env))))], w)
      | None \<Rightarrow>
          (case acquire_kv env job w of
            (None, w) \<Rightarrow>
              (case jb_answer job of
                 Some a \<Rightarrow> Some (AcceptRequeue (job\<lparr>jb_prompt_tokens := take (length (jb_prompt_tokens job)) (job_run job),
                     jb_skips := 0, jb_waited := 0\<rparr>), [], w)
               | None \<Rightarrow> Some (AcceptRefused, [(jb_abort job, Finished (Inl KvPoolExhausted_error))], w))
          | (Some kv, w) \<Rightarrow>
              (case prefill_over env kv (job_run job) (bf_prefill_chunk (be_config env)) of
                 None \<Rightarrow> None
               | Some state \<Rightarrow>
                   Some (AcceptPrefill \<lparr>pf_state = state, pf_params = jb_params job, pf_stop_tokens = jb_stop_tokens job,
                     pf_abort = jb_abort job, pf_blocks = jb_blocks job,
                     pf_answer = (case jb_answer job of Some a \<Rightarrow> a | None \<Rightarrow> answer_fresh env (jb_params job) (reported_prompt job))\<rparr>, [], w))))"

definition cache_aware_pick :: "('s, 'kv, 'v, 'err, 'w) batch_env \<Rightarrow> 's job list \<Rightarrow> 'w \<Rightarrow> nat" where
  "cache_aware_pick env waiting w =
     (if length waiting < 2 then 0
      else if \<not> (be_paged env \<and> be_radix env) then 0
      else
        let considered = take (min (length waiting) choose_window) waiting in
        choose_next (map (\<lambda>job. be_cached_len env (bp_cache_salt (jb_params job)) (jb_prompt_tokens job) w) considered)
          (map jb_skips considered))"

text \<open>What an iteration of the loop leaves to do: go on, or stop; with the jobs evicted so far.\<close>

definition admit_job ::
  "('s, 'kv, 'v, 'err, 'w) batch_env \<Rightarrow> nat \<Rightarrow> 's job list \<Rightarrow> ('s, 'kv, 'v, 'err, 'w) batcher
    \<Rightarrow> (bool \<times> 's job list \<times> ('s, 'kv, 'v, 'err, 'w) batcher) option" where
  "admit_job env pick evicted b =
     (if pick \<ge> length (bt_waiting b) then None
      else
        let job = bt_waiting b ! pick;
            waiting = map (\<lambda>j. j\<lparr>jb_skips := min (jb_skips j + 1) u32_max\<rparr>) (take pick (bt_waiting b)) @ drop (pick + 1) (bt_waiting b) in
        case accept env job (bt_world b) of
          None \<Rightarrow> None
        | Some (result, events, w) \<Rightarrow>
            let b = b\<lparr>bt_waiting := waiting, bt_queue := qg_release (bt_queue b), bt_sent := bt_sent b @ events, bt_world := w\<rparr> in
            case result of
              AcceptPrefill p \<Rightarrow> Some (True, evicted, b\<lparr>bt_prefills := bt_prefills b @ [p]\<rparr>)
            | AcceptRefused \<Rightarrow> Some (True, evicted, b\<lparr>bt_budget := bb_release (jb_blocks job) (bt_budget b)\<rparr>)
            | AcceptRequeue job' \<Rightarrow>
                Some (False, evicted, b\<lparr>bt_budget := bb_release (jb_blocks job) (bt_budget b),
                  bt_queue := qg_requeue (bt_queue b), bt_waiting := job' # bt_waiting b\<rparr>))"

definition admit_next ::
  "('s, 'kv, 'v, 'err, 'w) batch_env \<Rightarrow> 's job list \<Rightarrow> ('s, 'kv, 'v, 'err, 'w) batcher
    \<Rightarrow> (bool \<times> 's job list \<times> ('s, 'kv, 'v, 'err, 'w) batcher) option" where
  "admit_next env evicted b =
     (if bt_waiting b = [] then Some (False, evicted, b)
      else
        let seated = rows_count (bt_rows b) + length (bt_prefills b) < bf_max_seqs (be_config env) in
        if \<not> seated \<and> bf_preempt_after_ticks (be_config env) = None then Some (False, evicted, b)
        else
          let pick = cache_aware_pick env (bt_waiting b) (bt_world b) in
          if pick \<ge> length (bt_waiting b) then None
          else
            let job = bt_waiting b ! pick;
                (reserved, budget) = (if seated then bb_try_reserve (jb_blocks job) (bt_budget b) else (False, bt_budget b)) in
            if reserved then admit_job env pick evicted (b\<lparr>bt_budget := budget\<rparr>)
            else
              case make_room env job b of
                None \<Rightarrow> None
              | Some (made, b) \<Rightarrow>
                  if made = [] then Some (False, evicted, b)
                  else
                    let b = b\<lparr>bt_counters := (bt_counters b)\<lparr>ct_preempted := ct_preempted (bt_counters b) + length made\<rparr>\<rparr>;
                        (reserved, budget) = bb_try_reserve (jb_blocks job) (bt_budget b) in
                    if reserved then admit_job env pick (evicted @ made) (b\<lparr>bt_budget := budget\<rparr>)
                    else Some (False, evicted @ made, b))"

text \<open>Every iteration that goes on takes a job out of the queue, so there are no more than jobs.\<close>

fun admit_loop ::
  "nat \<Rightarrow> ('s, 'kv, 'v, 'err, 'w) batch_env \<Rightarrow> 's job list \<Rightarrow> ('s, 'kv, 'v, 'err, 'w) batcher
    \<Rightarrow> ('s job list \<times> ('s, 'kv, 'v, 'err, 'w) batcher) option" where
  "admit_loop 0 env evicted b = None"
| "admit_loop (Suc fuel) env evicted b =
     (case admit_next env evicted b of
        None \<Rightarrow> None
      | Some (go, evicted, b) \<Rightarrow> if go then admit_loop fuel env evicted b else Some (evicted, b))"

definition admit ::
  "('s, 'kv, 'v, 'err, 'w) batch_env \<Rightarrow> ('s, 'kv, 'v, 'err, 'w) batcher \<Rightarrow> ('s, 'kv, 'v, 'err, 'w) batcher option" where
  "admit env b =
     map_option (\<lambda>(evicted, b). b\<lparr>bt_waiting := rev evicted @ map (\<lambda>j. j\<lparr>jb_waited := min (jb_waited j + 1) u32_max\<rparr>) (bt_waiting b),
         bt_queue := (qg_requeue ^^ length evicted) (bt_queue b)\<rparr>)
       (admit_loop (length (bt_waiting b) + 1) env [] b)"

section \<open>Prefill\<close>

definition ps_is_done :: "('kv, 'v) prefill_state \<Rightarrow> bool" where
  "ps_is_done p \<longleftrightarrow> length (ps_tokens p) - ps_tokens_processed p = 0"

definition step_chunk ::
  "('s, 'kv, 'v, 'err, 'w) batch_env \<Rightarrow> nat \<Rightarrow> ('kv, 'v) prefill_state \<Rightarrow> 'w \<Rightarrow> (bool \<times> ('kv, 'v) prefill_state \<times> 'w) option" where
  "step_chunk env budget p w =
     (let last = min (ps_tokens_processed p + budget) (length (ps_tokens p)) in
      if ps_tokens_processed p \<ge> last then Some (ps_is_done p, p, w)
      else
        let pos = be_positions_written env (ps_kv p);
            chunk = drop (ps_tokens_processed p) (take last (ps_tokens p)) in
        map_option (\<lambda>(logits, kv, w).
            let p = p\<lparr>ps_logits := logits, ps_kv := kv, ps_tokens_processed := last\<rparr> in (ps_is_done p, p, w))
          (be_forward_prefill env chunk pos (ps_kv p) w))"

definition into_slot :: "('s, 'kv, 'v) prefill \<Rightarrow> ('s, 'kv, 'v, 'err) batch_slot" where
  "into_slot p =
     (let st = pf_state p;
          prompt_len = length (ps_tokens st) - length (an_generated_ids (pf_answer p)) in
      \<lparr>sl_kv = ps_kv st, sl_pos = ps_tokens_processed st, sl_logits = ps_logits st, sl_answer = pf_answer p,
       sl_prompt_ids = take prompt_len (ps_tokens st), sl_max_tokens = gp_max_tokens (pf_params p),
       sl_stop_tokens = pf_stop_tokens p, sl_params = pf_params p, sl_finish = None, sl_error = None,
       sl_abort = pf_abort p, sl_blocks = pf_blocks p\<rparr>)"

definition prefill_tick ::
  "('s, 'kv, 'v, 'err, 'w) batch_env \<Rightarrow> ('s, 'kv, 'v, 'err, 'w) batcher \<Rightarrow> ('s, 'kv, 'v, 'err, 'w) batcher option" where
  "prefill_tick env b =
     (case bt_prefills b of
        [] \<Rightarrow> Some b
      | p # prefills \<Rightarrow>
          let budget = prefill_budget (bf_max_batch_tokens (be_config env)) (rows_count (bt_rows b)) (ps_chunk_size (pf_state p)) in
          map_option (\<lambda>(done, st, w).
              let c = bt_counters b;
                  c = c\<lparr>ct_prefill_chunks := ct_prefill_chunks c + 1,
                    ct_prefill_tokens := ct_prefill_tokens c + (ps_tokens_processed st - ps_tokens_processed (pf_state p))\<rparr>;
                  p = p\<lparr>pf_state := st\<rparr>; b = b\<lparr>bt_world := w, bt_counters := c\<rparr> in
              if done then b\<lparr>bt_prefills := prefills, bt_rows := rows_insert (into_slot p) (bt_rows b)\<rparr>
              else b\<lparr>bt_prefills := prefills @ [p]\<rparr>)
            (step_chunk env budget (pf_state p) (bt_world b)))"

section \<open>The decode step\<close>

text \<open>A row draws its token: the rows that go on to the forward pass, and the worker.\<close>

definition sample_row ::
  "('s, 'kv, 'v, 'err, 'w) batch_env \<Rightarrow> nat \<Rightarrow> nat list \<times> ('s, 'kv, 'v, 'err, 'w) batcher
    \<Rightarrow> (nat list \<times> ('s, 'kv, 'v, 'err, 'w) batcher) option" where
  "sample_row env uid = (\<lambda>(active, b).
     case rows_get uid (bt_rows b) of
       None \<Rightarrow> Some (active, b)
     | Some sl \<Rightarrow>
         let a = sl_answer sl; put = (\<lambda>sl. b\<lparr>bt_rows := rows_set uid sl (bt_rows b)\<rparr>) in
         case be_sample env (an_sample a) (sl_logits sl) (sl_params sl) (sl_prompt_ids sl) (an_generated_ids a) of
           Inl err \<Rightarrow> Some (active, put (slot_fail err sl))
         | Inr (GrammarComplete, st) \<Rightarrow> Some (active, put (sl\<lparr>sl_answer := a\<lparr>an_sample := st\<rparr>, sl_finish := Some FinishStop\<rparr>))
         | Inr (Token next _, st) \<Rightarrow>
             let a = a\<lparr>an_sample := st\<rparr>; sl = sl\<lparr>sl_answer := a\<rparr> in
             if \<not> gp_ignore_eos (sl_params sl) \<and> next \<in> set (sl_stop_tokens sl) \<or> is_stop_token next (an_stops a) then
               Some (active, put (sl\<lparr>sl_finish := Some FinishStop\<rparr>))
             else
               let (piece, utf8) = us_push (be_decode env next) (an_utf8 a);
                   sl = sl\<lparr>sl_answer := a\<lparr>an_generated_ids := an_generated_ids a @ [next], an_utf8 := utf8\<rparr>\<rparr> in
               if piece = [] then Some (active @ [uid], put sl)
               else
                 map_option (\<lambda>(events, matched, sl).
                     (if matched then active else active @ [uid], (put sl)\<lparr>bt_sent := bt_sent b @ map (Pair (sl_abort sl)) events\<rparr>))
                   (apply_stop_buffer sl piece))"

text \<open>The caches leave their rows for the call, after the slide of each lease.\<close>

definition lift_row ::
  "('s, 'kv, 'v, 'err, 'w) batch_env \<Rightarrow> nat \<Rightarrow> (nat \<times> nat \<times> 'kv) list \<times> ('s, 'kv, 'v, 'err, 'w) batcher
    \<Rightarrow> ((nat \<times> nat \<times> 'kv) list \<times> ('s, 'kv, 'v, 'err, 'w) batcher) option" where
  "lift_row env uid = (\<lambda>(inputs, b).
     case rows_get uid (bt_rows b) of
       None \<Rightarrow> None
     | Some sl \<Rightarrow>
         if an_generated_ids (sl_answer sl) = [] then None
         else
           let token = last (an_generated_ids (sl_answer sl));
               (kv, w) = (if be_paged env then be_before_step env token (sl_pos sl) (sl_kv sl) (bt_world b) else (sl_kv sl, bt_world b)) in
           Some (inputs @ [(token, sl_pos sl, kv)], b\<lparr>bt_rows := rows_set uid (sl\<lparr>sl_kv := kv\<rparr>) (bt_rows b), bt_world := w\<rparr>))"

definition scatter_row ::
  "nat \<times> 'v list \<times> 'kv \<Rightarrow> ('s, 'kv, 'v, 'err, 'w) batcher \<Rightarrow> ('s, 'kv, 'v, 'err, 'w) batcher option" where
  "scatter_row = (\<lambda>(uid, logits, kv) b.
     case rows_get uid (bt_rows b) of
       None \<Rightarrow> None
     | Some sl \<Rightarrow>
         let sl = sl\<lparr>sl_kv := kv, sl_logits := logits, sl_pos := sl_pos sl + 1\<rparr>;
             sl = (if length (an_generated_ids (sl_answer sl)) \<ge> sl_max_tokens sl then sl\<lparr>sl_finish := Some FinishLength\<rparr> else sl) in
         Some (b\<lparr>bt_rows := rows_set uid sl (bt_rows b)\<rparr>))"

definition forward_rows ::
  "('s, 'kv, 'v, 'err, 'w) batch_env \<Rightarrow> nat list \<Rightarrow> ('s, 'kv, 'v, 'err, 'w) batcher \<Rightarrow> ('s, 'kv, 'v, 'err, 'w) batcher option" where
  "forward_rows env active b =
     (if active = [] then Some b
      else
        case each (lift_row env) active ([], b) of
          None \<Rightarrow> None
        | Some (inputs, b) \<Rightarrow>
            (case be_forward_multi env inputs (bt_world b) of
               None \<Rightarrow> None
             | Some (outputs, w) \<Rightarrow>
                 if length outputs \<noteq> length active then None
                 else each scatter_row (zip active outputs)
                   (b\<lparr>bt_world := w, bt_counters := (bt_counters b)\<lparr>ct_decode_steps := ct_decode_steps (bt_counters b) + 1\<rparr>\<rparr>)))"

definition decode_tick ::
  "('s, 'kv, 'v, 'err, 'w) batch_env \<Rightarrow> ('s, 'kv, 'v, 'err, 'w) batcher \<Rightarrow> ('s, 'kv, 'v, 'err, 'w) batcher option" where
  "decode_tick env b =
     (if rw_order (bt_rows b) = [] then Some b
      else
        case each (sample_row env) (rows_ready (bt_rows b)) ([], b) of
          None \<Rightarrow> None
        | Some (active, b) \<Rightarrow>
            (case forward_rows env active b of None \<Rightarrow> None | Some b \<Rightarrow> flush_finished env b))"

section \<open>The tick, and the callers\<close>

definition batcher_new :: "nat \<Rightarrow> block_budget \<Rightarrow> 'w \<Rightarrow> ('s, 'kv, 'v, 'err, 'w) batcher" where
  "batcher_new max_queue budget w =
     \<lparr>bt_channel = [], bt_queue = queue_gate_new max_queue, bt_budget = budget, bt_inbox = [], bt_next_id = 0, bt_aborted = 0,
      bt_counters = \<lparr>ct_prefill_chunks = 0, ct_prefill_tokens = 0, ct_decode_steps = 0, ct_peak_blocks = 0, ct_preempted = 0\<rparr>,
      bt_waiting = [], bt_prefills = [], bt_rows = rows_default, bt_carried = [], bt_sent = [], bt_world = w\<rparr>"

definition drain_channel :: "('s, 'kv, 'v, 'err, 'w) batcher \<Rightarrow> ('s, 'kv, 'v, 'err, 'w) batcher" where
  "drain_channel b = b\<lparr>bt_waiting := bt_waiting b @ bt_channel b, bt_channel := []\<rparr>"

definition batch_idle :: "('s, 'kv, 'v, 'err, 'w) batcher \<Rightarrow> bool" where
  "batch_idle b \<longleftrightarrow> rw_order (bt_rows b) = [] \<and> bt_prefills b = [] \<and> bt_waiting b = []"

definition note_peak :: "('s, 'kv, 'v, 'err, 'w) batcher \<Rightarrow> ('s, 'kv, 'v, 'err, 'w) batcher" where
  "note_peak b =
     (let held = blocks_held (bt_rows b) + sum_list (map pf_blocks (bt_prefills b)) in
      b\<lparr>bt_counters := (bt_counters b)\<lparr>ct_peak_blocks := max (ct_peak_blocks (bt_counters b)) held\<rparr>\<rparr>)"

text \<open>A turn of the worker's loop.  An idle worker with an empty channel waits.\<close>

definition worker_tick ::
  "('s, 'kv, 'v, 'err, 'w) batch_env \<Rightarrow> ('s, 'kv, 'v, 'err, 'w) batcher \<Rightarrow> ('s, 'kv, 'v, 'err, 'w) batcher option" where
  "worker_tick env b =
     (if batch_idle b \<and> bt_channel b = [] then Some b
      else do {
        b \<leftarrow> apply_aborts env (drain_channel b);
        b \<leftarrow> flush_finished env b;
        b \<leftarrow> admit env b;
        b \<leftarrow> prefill_tick env (note_peak b);
        decode_tick env b
      })"

text \<open>A caller submits a job, and gets the id it may be cancelled by.\<close>

definition submit ::
  "('s, 'kv, 'v, 'err, 'w) batch_env \<Rightarrow> nat list \<Rightarrow> batch_params \<Rightarrow> nat list \<Rightarrow> ('s, 'kv, 'v, 'err, 'w) batcher
    \<Rightarrow> ('err decode_error, nat) result \<times> ('s, 'kv, 'v, 'err, 'w) batcher" where
  "submit env prompt_tokens params stop_tokens b =
     (let budget = bt_budget b; (fit, ceiling) = ceiling_fit (length prompt_tokens) (gp_max_tokens params) (bb_ceiling budget);
          budget = budget\<lparr>bb_ceiling := ceiling\<rparr>; b = b\<lparr>bt_budget := budget\<rparr> in
      case fit of
        Inl err \<Rightarrow> (Inl err, b)
      | Inr max_tokens \<Rightarrow>
          let params = params\<lparr>gp_max_tokens := max_tokens\<rparr>;
              max_seq_len = min (length prompt_tokens + max_tokens) usize_max;
              positions = paged_hold_positions max_seq_len (length prompt_tokens) (bb_block_size budget) (be_paged_window env);
              blocks = blocks_for positions budget;
              (refusal, budget) = immovable_refusal max_seq_len positions budget;
              b = b\<lparr>bt_budget := budget\<rparr> in
          case refusal of
            Some err \<Rightarrow> (Inl err, b)
          | None \<Rightarrow>
              let (refused, gate) = qg_try_reserve (bt_queue b); b = b\<lparr>bt_queue := gate\<rparr> in
              case refused of
                Some queued \<Rightarrow> (Inl (QueueFull queued (qg_cap gate)), b)
              | None \<Rightarrow>
                  (Inr (bt_next_id b),
                   b\<lparr>bt_next_id := bt_next_id b + 1,
                     bt_channel := bt_channel b @ [\<lparr>jb_prompt_tokens = prompt_tokens, jb_params = params, jb_stop_tokens = stop_tokens,
                       jb_abort = bt_next_id b, jb_blocks = blocks, jb_skips = 0, jb_waited = 0, jb_answer = None\<rparr>]\<rparr>))"

definition enqueue_abort :: "nat \<Rightarrow> ('s, 'kv, 'v, 'err, 'w) batcher \<Rightarrow> ('s, 'kv, 'v, 'err, 'w) batcher" where
  "enqueue_abort i b = b\<lparr>bt_inbox := List.insert i (bt_inbox b)\<rparr>"

end
