(* ===== verification/Batch_Rows.thy ===== *)
theory Batch_Rows
  imports Batch_Worker "HOL-Library.Multiset"
begin

text \<open>
  The table of rows as a map from row ids to rows with an order of admission: what its operations keep
  and change.  Then the rule for a step that runs for each element of a list.
\<close>

section \<open>The table of rows\<close>

definition rows_ok :: "('s, 'kv, 'v, 'err) rows \<Rightarrow> bool" where
  "rows_ok r \<longleftrightarrow> distinct (map fst (rw_state r)) \<and> distinct (rw_order r)
     \<and> set (rw_order r) = fst ` set (rw_state r) \<and> (\<forall>uid \<in> set (rw_order r). uid < rw_next_uid r)"

lemma map_delete:
  "distinct (map fst al) \<Longrightarrow> map_of al k = Some v \<Longrightarrow>
    mset (map (f \<circ> snd) al) = add_mset (f v) (mset (map (f \<circ> snd) (AList.delete k al)))"
proof (induction al)
  case (Cons a al)
  obtain k' v' where a: "a = (k', v')" by (cases a)
  show ?case
  proof (cases "k' = k")
    case True
    then have "k \<notin> fst ` set al" using Cons.prems(1) a by simp
    then show ?thesis using True Cons.prems(2) a by (simp add: delete_id)
  next
    case False
    with Cons a show ?thesis by simp
  qed
qed simp

lemma map_update:
  "distinct (map fst al) \<Longrightarrow> map_of al k = Some v \<Longrightarrow> f v' = f v \<Longrightarrow> map (f \<circ> snd) (AList.update k v' al) = map (f \<circ> snd) al"
  by (induction al) auto

lemma rows_getD: "rows_get uid r = Some sl \<Longrightarrow> (uid, sl) \<in> set (rw_state r)"
  by (simp add: rows_get_def map_of_SomeD)

lemma rows_get_order: "rows_ok r \<Longrightarrow> uid \<in> set (rw_order r) \<longleftrightarrow> (\<exists>sl. rows_get uid r = Some sl)"
  by (metis rows_get_def rows_ok_def map_of_eq_None_iff not_None_eq)

lemma rows_default_ok: "rows_ok rows_default" by (simp add: rows_ok_def rows_default_def)

lemma rows_remove_mset:
  "rows_ok r \<Longrightarrow> rows_get uid r = Some sl \<Longrightarrow>
    mset (map (f \<circ> snd) (rw_state r)) = add_mset (f sl) (mset (map (f \<circ> snd) (rw_state (rows_remove uid r))))"
  using map_delete [of "rw_state r" uid sl f] by (simp add: rows_ok_def rows_get_def rows_remove_def del: mset_map)

lemma rows_remove:
  assumes "rows_ok r" "rows_get uid r = Some sl"
  shows "rows_ok (rows_remove uid r)" "rows_count r = Suc (rows_count (rows_remove uid r))"
    "blocks_held r = blocks_held (rows_remove uid r) + sl_blocks sl"
    "rows_get u (rows_remove uid r) = (if u = uid then None else rows_get u r)"
    "set (rw_state (rows_remove uid r)) \<subseteq> set (rw_state r)"
proof -
  have uid: "uid \<in> set (rw_order r)" using rows_get_order [OF assms(1)] assms(2) by blast
  show "rows_ok (rows_remove uid r)"
    using assms(1) AList.distinct_delete [of "rw_state r" uid]
    by (auto simp: rows_ok_def rows_remove_def distinct_removeAll AList.delete_eq image_iff)
  have "length (rw_order r) = Suc (length (removeAll uid (rw_order r)))"
    using uid assms(1) distinct_remove1_removeAll [of "rw_order r" uid]
    by (metis One_nat_def Suc_pred length_pos_if_in_set length_remove1 rows_ok_def)
  then show "rows_count r = Suc (rows_count (rows_remove uid r))" by (simp add: rows_count_def rows_remove_def)
  have "sum_mset (mset (map (sl_blocks \<circ> snd) (rw_state r)))
      = sl_blocks sl + sum_mset (mset (map (sl_blocks \<circ> snd) (rw_state (rows_remove uid r))))"
    by (simp only: rows_remove_mset [OF assms] sum_mset.add_mset)
  then show "blocks_held r = blocks_held (rows_remove uid r) + sl_blocks sl"
    by (simp only: blocks_held_def sum_mset_sum_list add.commute)
  show "rows_get u (rows_remove uid r) = (if u = uid then None else rows_get u r)"
    by (simp add: rows_get_def rows_remove_def delete_conv)
  show "set (rw_state (rows_remove uid r)) \<subseteq> set (rw_state r)" by (auto simp: rows_remove_def AList.delete_eq)
qed

lemma rows_set_map:
  "rows_ok r \<Longrightarrow> rows_get uid r = Some sl \<Longrightarrow> f sl' = f sl \<Longrightarrow> map (f \<circ> snd) (rw_state (rows_set uid sl' r)) = map (f \<circ> snd) (rw_state r)"
  by (simp add: rows_ok_def rows_get_def rows_set_def map_update)

lemma rows_set:
  assumes "rows_ok r" "rows_get uid r = Some sl"
  shows "rows_ok (rows_set uid sl' r)" "rows_count (rows_set uid sl' r) = rows_count r" "rw_order (rows_set uid sl' r) = rw_order r"
    "rw_next_uid (rows_set uid sl' r) = rw_next_uid r"
    "sl_blocks sl' = sl_blocks sl \<Longrightarrow> blocks_held (rows_set uid sl' r) = blocks_held r"
    "rows_get u (rows_set uid sl' r) = (if u = uid then Some sl' else rows_get u r)"
    "set (rw_state (rows_set uid sl' r)) \<subseteq> insert (uid, sl') (set (rw_state r))"
proof -
  have "uid \<in> set (rw_order r)" using rows_get_order [OF assms(1)] assms(2) by blast
  then show "rows_ok (rows_set uid sl' r)"
    using assms(1) by (auto simp: rows_ok_def rows_set_def distinct_update dom_update)
  show "rows_count (rows_set uid sl' r) = rows_count r" "rw_order (rows_set uid sl' r) = rw_order r"
    "rw_next_uid (rows_set uid sl' r) = rw_next_uid r" by (simp_all add: rows_set_def rows_count_def)
  show "blocks_held (rows_set uid sl' r) = blocks_held r" if "sl_blocks sl' = sl_blocks sl"
    using rows_set_map [OF assms, of sl_blocks sl'] that by (simp add: blocks_held_def)
  show "rows_get u (rows_set uid sl' r) = (if u = uid then Some sl' else rows_get u r)"
    by (simp add: rows_get_def rows_set_def update_conv')
  show "set (rw_state (rows_set uid sl' r)) \<subseteq> insert (uid, sl') (set (rw_state r))"
  proof -
    have "set (AList.update uid sl' al) \<subseteq> insert (uid, sl') (set al)" for al :: "(nat \<times> ('a, 'b, 'c, 'd) batch_slot) list"
      by (induction al) auto
    then show ?thesis by (simp add: rows_set_def)
  qed
qed

lemma rows_insert:
  assumes "rows_ok r"
  shows "rows_ok (rows_insert sl r)" "rows_count (rows_insert sl r) = Suc (rows_count r)"
    "blocks_held (rows_insert sl r) = blocks_held r + sl_blocks sl"
    "mset (map (f \<circ> snd) (rw_state (rows_insert sl r))) = add_mset (f sl) (mset (map (f \<circ> snd) (rw_state r)))"
    "set (rw_state (rows_insert sl r)) = insert (rw_next_uid r, sl) (set (rw_state r))"
    "u \<noteq> rw_next_uid r \<Longrightarrow> rows_get u (rows_insert sl r) = rows_get u r"
proof -
  have new: "rw_next_uid r \<notin> fst ` set (rw_state r)" using assms by (auto simp: rows_ok_def)
  have "k \<notin> fst ` set al \<Longrightarrow> AList.update k v al = al @ [(k, v)]" for k :: nat and v :: "('a, 'b, 'c, 'd) batch_slot" and al
    by (induction al) auto
  from this [OF new] have app: "rw_state (rows_insert sl r) = rw_state r @ [(rw_next_uid r, sl)]" by (simp add: rows_insert_def)
  show "rows_ok (rows_insert sl r)"
    using assms new app by (auto simp: rows_ok_def rows_insert_def less_SucI)
  show "rows_count (rows_insert sl r) = Suc (rows_count r)" by (simp add: rows_count_def rows_insert_def)
  show "blocks_held (rows_insert sl r) = blocks_held r + sl_blocks sl" by (simp add: blocks_held_def app)
  show "mset (map (f \<circ> snd) (rw_state (rows_insert sl r))) = add_mset (f sl) (mset (map (f \<circ> snd) (rw_state r)))" by (simp add: app)
  show "set (rw_state (rows_insert sl r)) = insert (rw_next_uid r, sl) (set (rw_state r))" by (simp add: app)
  show "rows_get u (rows_insert sl r) = rows_get u r" if "u \<noteq> rw_next_uid r"
    using that by (simp add: rows_get_def app map_of_append map_add_def split: option.splits)
qed

lemma each_append: "each f (xs @ ys) s = (case each f xs s of None \<Rightarrow> None | Some s \<Rightarrow> each f ys s)"
  by (induction xs arbitrary: s) (auto split: option.splits)

text \<open>A step that never panics under an invariant keeps it over a whole list.\<close>

lemma each_ok:
  assumes "I xs s" "\<And>x xs s. I (x # xs) s \<Longrightarrow> \<exists>s'. f x s = Some s' \<and> I xs s'"
  shows "\<exists>s'. each f xs s = Some s' \<and> I [] s'"
  using assms(1)
proof (induction xs arbitrary: s)
  case (Cons x xs)
  from assms(2) [OF Cons.prems] obtain s' where "f x s = Some s'" "I xs s'" by blast
  with Cons.IH show ?case by simp
qed simp

end
