(* ===== verification/Batch_Invariant.thy ===== *)
theory Batch_Invariant
  imports Batch_Rows
begin

text \<open>
  The invariant of the batch scheduler, and its preservation by the ways out: finished rows and
  cancellations.
\<close>

section \<open>The invariant\<close>

definition answer_ok :: "'s answer \<Rightarrow> bool" where
  "answer_ok a \<longleftrightarrow> matcher_ok (an_stops a) \<and> an_preemptions a \<le> max_preemptions"

definition job_ok :: "'s job \<Rightarrow> bool" where
  "job_ok j \<longleftrightarrow> (\<forall>s \<in> set (gp_stop (jb_params j)). from_utf8 0 s = None) \<and> jb_skips j \<le> max_skips
     \<and> (\<forall>a. jb_answer j = Some a \<longrightarrow> answer_ok a)"

definition prefill_ok :: "('s, 'kv, 'v) prefill \<Rightarrow> bool" where
  "prefill_ok p \<longleftrightarrow> answer_ok (pf_answer p) \<and> (\<forall>s \<in> set (gp_stop (pf_params p)). from_utf8 0 s = None)"

definition slot_ok :: "('s, 'kv, 'v, 'err) batch_slot \<Rightarrow> bool" where
  "slot_ok sl \<longleftrightarrow> answer_ok (sl_answer sl) \<and> (\<forall>s \<in> set (gp_stop (sl_params sl)). from_utf8 0 s = None)"

text \<open>The ids in the system, and those that have had their answer.\<close>

definition ids_in :: "('s, 'kv, 'v, 'err, 'w) batcher \<Rightarrow> nat multiset" where
  "ids_in b = mset (map jb_abort (bt_channel b)) + mset (map jb_abort (bt_waiting b))
     + mset (map pf_abort (bt_prefills b)) + mset (map (sl_abort \<circ> snd) (rw_state (bt_rows b)))"

fun is_finished :: "'err batcher_event \<Rightarrow> bool" where
  "is_finished (Finished _) = True"
| "is_finished (Chunk _) = False"

definition answered :: "(nat \<times> 'err batcher_event) list \<Rightarrow> nat multiset" where
  "answered sent = mset (map fst (filter (is_finished \<circ> snd) sent))"

definition blocks_out :: "('s, 'kv, 'v, 'err, 'w) batcher \<Rightarrow> nat" where
  "blocks_out b = blocks_held (bt_rows b) + sum_list (map pf_blocks (bt_prefills b))"

text \<open>The invariant, with the jobs that were evicted and wait aside for the end of the admission.\<close>


definition ids_ok :: "'s job list \<Rightarrow> ('s, 'kv, 'v, 'err, 'w) batcher \<Rightarrow> bool" where
  "ids_ok aside b \<longleftrightarrow> mset (map jb_abort aside) + ids_in b + answered (bt_sent b) = mset [0..<bt_next_id b]"

definition ledger_ok :: "('s, 'kv, 'v, 'err, 'w) batcher \<Rightarrow> bool" where
  "ledger_ok b \<longleftrightarrow> (\<forall>t. bb_total (bt_budget b) = Some t \<longrightarrow> bb_free (bt_budget b) + blocks_out b = t)"

definition gate_ok :: "('s, 'kv, 'v, 'err, 'w) batcher \<Rightarrow> bool" where
  "gate_ok b \<longleftrightarrow> qg_depth (bt_queue b) = length (bt_channel b) + length (bt_waiting b)"

definition seats_ok :: "('s, 'kv, 'v, 'err, 'w) batch_env \<Rightarrow> ('s, 'kv, 'v, 'err, 'w) batcher \<Rightarrow> bool" where
  "seats_ok env b \<longleftrightarrow> rows_count (bt_rows b) + length (bt_prefills b) \<le> bf_max_seqs (be_config env)"

definition requests_ok :: "'s job list \<Rightarrow> ('s, 'kv, 'v, 'err, 'w) batcher \<Rightarrow> bool" where
  "requests_ok aside b \<longleftrightarrow> (\<forall>j \<in> set aside \<union> set (bt_channel b) \<union> set (bt_waiting b). job_ok j)
     \<and> (\<forall>p \<in> set (bt_prefills b). prefill_ok p) \<and> (\<forall>x \<in> set (rw_state (bt_rows b)). slot_ok (snd x))"

definition batch_ok :: "('s, 'kv, 'v, 'err, 'w) batch_env \<Rightarrow> 's job list \<Rightarrow> ('s, 'kv, 'v, 'err, 'w) batcher \<Rightarrow> bool" where
  "batch_ok env aside b \<longleftrightarrow> ids_ok aside b \<and> ledger_ok b \<and> gate_ok b \<and> rows_ok (bt_rows b) \<and> seats_ok env b \<and> requests_ok aside b"

lemma batch_okD:
  assumes "batch_ok env aside b"
  shows "ids_ok aside b" "ledger_ok b" "gate_ok b" "rows_ok (bt_rows b)" "seats_ok env b" "requests_ok aside b"
  using assms by (simp_all add: batch_ok_def)

text \<open>What the forward passes promise: they return, with a row of logits for each input.\<close>

definition env_ok :: "('s, 'kv, 'v, 'err, 'w) batch_env \<Rightarrow> bool" where
  "env_ok env \<longleftrightarrow> 0 < bf_prefill_chunk (be_config env)
     \<and> (\<forall>chunk pos kv w. be_forward_prefill env chunk pos kv w \<noteq> None)
     \<and> (\<forall>inputs w. \<exists>outputs w'. be_forward_multi env inputs w = Some (outputs, w') \<and> length outputs = length inputs)"

lemma answered_simps [simp]:
  "answered (xs @ ys) = answered xs + answered ys" "answered [] = {#}"
  "answered (map (Pair i) events) = replicate_mset (length (filter is_finished events)) i"
  by (simp_all add: answered_def filter_map comp_def map_replicate_const)

lemma slot_okD: "batch_ok env aside b \<Longrightarrow> rows_get uid (bt_rows b) = Some sl \<Longrightarrow> slot_ok sl"
  using rows_getD by (fastforce simp: batch_ok_def requests_ok_def)

lemma answer_reply_ok:
  assumes "answer_ok a"
  obtains events where "answer_reply a finish err = Some events" "length (filter is_finished events) = 1"
proof -
  obtain partial u where u: "us_flush (an_utf8 a) = (partial, u)" by fastforce
  obtain r m where "sm_push partial (an_stops a) = Some (r, m)" using matcher_push assms by (metis answer_ok_def)
  then have "\<exists>events. answer_reply a finish err = Some events \<and> length (filter is_finished events) = 1"
    using u by (auto simp: answer_reply_def sm_flush_def Let_def split: option.splits)
  then show thesis using that by blast
qed

lemma release_free:
  "bb_total b = Some t \<Longrightarrow> bb_free b + n \<le> t \<Longrightarrow> bb_free (bb_release n b) = bb_free b + n"
  by (simp add: bb_release_def)

lemma release_total [simp]: "bb_total (bb_release n b) = bb_total b"
  by (simp add: bb_release_def split: option.splits)

lemma reserve_total: "bb_try_reserve n b = (r, b') \<Longrightarrow> bb_total b' = bb_total b"
  by (auto simp: bb_try_reserve_def split: option.splits if_splits)

lemma reserve_free: "bb_try_reserve n b = (True, b') \<Longrightarrow> bb_total b = Some t \<Longrightarrow> bb_free b = bb_free b' + n"
  by (auto simp: bb_try_reserve_def split: if_splits)

section \<open>Leaving\<close>

lemma ids_in_remove:
  assumes "rows_ok (bt_rows b)" "rows_get uid (bt_rows b) = Some sl"
  shows "ids_in b = add_mset (sl_abort sl) (ids_in (b\<lparr>bt_rows := rows_remove uid (bt_rows b)\<rparr>))"
  using rows_remove_mset [OF assms, of sl_abort] by (simp add: ids_in_def)

lemma blocks_out_remove:
  assumes "rows_ok (bt_rows b)" "rows_get uid (bt_rows b) = Some sl"
  shows "blocks_out b = blocks_out (b\<lparr>bt_rows := rows_remove uid (bt_rows b)\<rparr>) + sl_blocks sl"
  using rows_remove(3) [OF assms] by (simp add: blocks_out_def)

lemma flush_row_ok:
  assumes "batch_ok env aside b" "rows_get uid (bt_rows b) = Some sl" "sl_finish sl = Some reason"
  shows "\<exists>b'. flush_row env uid b = Some b' \<and> batch_ok env aside b' \<and> bt_rows b' = rows_remove uid (bt_rows b)"
proof -
  have ok: "rows_ok (bt_rows b)" using assms(1) by (simp add: batch_ok_def)
  obtain events where e: "answer_reply (sl_answer sl) (the (sl_finish sl)) (sl_error sl) = Some events" "length (filter is_finished events) = 1"
    using answer_reply_ok slot_okD [OF assms(1,2)] by (metis slot_ok_def)
  let ?b = "b\<lparr>bt_rows := rows_remove uid (bt_rows b), bt_budget := bb_release (sl_blocks sl) (bt_budget b),
      bt_world := be_drop_kv env (sl_kv sl) (be_publish env (sl_kv sl) (sl_prompt_ids sl @ an_generated_ids (sl_answer sl)) (bt_world b)),
      bt_sent := bt_sent b @ map (Pair (sl_abort sl)) events\<rparr>"
  have "flush_row env uid b = Some ?b" using assms(2,3) e(1) by (simp add: flush_row_def)
  moreover have "ids_ok aside ?b"
    using batch_okD(1) [OF assms(1)] ids_in_remove [OF ok assms(2)] e(2) by (simp add: ids_ok_def ids_in_def)
  moreover have "ledger_ok ?b" unfolding ledger_ok_def
  proof (intro allI impI)
    fix t assume "bb_total (bt_budget ?b) = Some t"
    then show "bb_free (bt_budget ?b) + blocks_out ?b = t"
      using batch_okD(2) [OF assms(1)] blocks_out_remove [OF ok assms(2)] release_free [of "bt_budget b" t "sl_blocks sl"]
      by (auto simp: ledger_ok_def blocks_out_def)
  qed
  moreover have "gate_ok ?b" using batch_okD(3) [OF assms(1)] by (simp add: gate_ok_def)
  moreover have "seats_ok env ?b" using batch_okD(5) [OF assms(1)] rows_remove(2) [OF ok assms(2)] by (simp add: seats_ok_def)
  moreover have "requests_ok aside ?b"
    using batch_okD(6) [OF assms(1)] rows_remove(5) [OF ok assms(2)] by (auto simp: requests_ok_def)
  ultimately show ?thesis using rows_remove(1) [OF ok assms(2)] by (intro exI [of _ ?b]) (simp add: batch_ok_def)
qed

lemma flush_finished_ok:
  assumes "batch_ok env aside b"
  obtains b' where "flush_finished env b = Some b'" "batch_ok env aside b'"
proof -
  define I where "I = (\<lambda>uids c. batch_ok env aside c \<and> distinct uids \<and> (\<forall>uid \<in> set uids. \<exists>sl r. rows_get uid (bt_rows c) = Some sl \<and> sl_finish sl = Some r))"
  let ?uids = "filter (\<lambda>uid. case rows_get uid (bt_rows b) of None \<Rightarrow> False | Some s \<Rightarrow> sl_finish s \<noteq> None) (rw_order (bt_rows b))"
  have "I ?uids b" using assms by (auto simp: I_def batch_ok_def rows_ok_def split: option.splits)
  moreover have "\<exists>c'. flush_row env uid c = Some c' \<and> I uids c'" if "I (uid # uids) c" for uid uids c
  proof -
    note I = that
    obtain sl r where sl: "rows_get uid (bt_rows c) = Some sl" "sl_finish sl = Some r" using I by (auto simp: I_def)
    have ok: "rows_ok (bt_rows c)" using that by (simp add: I_def batch_ok_def)
    from that have c: "batch_ok env aside c" by (simp add: I_def)
    from flush_row_ok [OF c sl] obtain c' where "flush_row env uid c = Some c'" "batch_ok env aside c'" "bt_rows c' = rows_remove uid (bt_rows c)" by blast
    with that show ?thesis by (intro exI [of _ c']) (auto simp: I_def rows_remove(4) [OF ok sl(1)])
  qed
  ultimately obtain b' where "flush_finished env b = Some b'" "I [] b'"
    unfolding flush_finished_def using each_ok [of I ?uids b "flush_row env"] by blast
  then show thesis using that by (simp add: I_def)
qed

section \<open>Rows that stay\<close>

text \<open>Changes of rows that move no block and lose no id.\<close>

definition same_rows :: "('s, 'kv, 'v, 'err) rows \<Rightarrow> ('s, 'kv, 'v, 'err) rows \<Rightarrow> bool" where
  "same_rows r r' \<longleftrightarrow> rows_ok r' \<and> rw_order r' = rw_order r \<and> rw_next_uid r' = rw_next_uid r \<and> blocks_held r' = blocks_held r
     \<and> mset (map (sl_abort \<circ> snd) (rw_state r')) = mset (map (sl_abort \<circ> snd) (rw_state r))
     \<and> ((\<forall>x \<in> set (rw_state r). slot_ok (snd x)) \<longrightarrow> (\<forall>x \<in> set (rw_state r'). slot_ok (snd x)))"

lemma same_rows_refl: "rows_ok r \<Longrightarrow> same_rows r r" by (simp add: same_rows_def)

lemma same_rowsD: "same_rows r r' \<Longrightarrow> rows_ok r'" by (simp only: same_rows_def)

lemma same_rows_trans: "same_rows r r' \<Longrightarrow> same_rows r' r'' \<Longrightarrow> same_rows r r''"
  unfolding same_rows_def by metis

lemma same_rows_set:
  assumes "rows_ok r" "rows_get uid r = Some sl" "sl_abort sl' = sl_abort sl" "sl_blocks sl' = sl_blocks sl" "slot_ok sl \<longrightarrow> slot_ok sl'"
  shows "same_rows r (rows_set uid sl' r)"
proof -
  have "\<forall>x \<in> set (rw_state (rows_set uid sl' r)). slot_ok (snd x)" if all: "\<forall>x \<in> set (rw_state r). slot_ok (snd x)"
  proof
    fix x assume "x \<in> set (rw_state (rows_set uid sl' r))"
    then have "x = (uid, sl') \<or> x \<in> set (rw_state r)" using rows_set(7) [OF assms(1,2)] by blast
    moreover have "slot_ok sl'" using all rows_getD [OF assms(2)] assms(5) by fastforce
    ultimately show "slot_ok (snd x)" using all by auto
  qed
  then show ?thesis
    unfolding same_rows_def rows_set_map [OF assms(1,2), where f = sl_abort, OF assms(3)]
    using rows_set(1,3,4,5) [OF assms(1,2)] assms(4) by blast
qed

lemma same_rows_ok:
  assumes "batch_ok env aside b" "same_rows (bt_rows b) r"
  shows "batch_ok env aside (b\<lparr>bt_rows := r\<rparr>)"
proof -
  have "ids_in (b\<lparr>bt_rows := r\<rparr>) = ids_in b" using assms(2) by (simp add: ids_in_def same_rows_def)
  then have "ids_ok aside (b\<lparr>bt_rows := r\<rparr>)" using batch_okD(1) [OF assms(1)] by (simp add: ids_ok_def)
  moreover have "ledger_ok (b\<lparr>bt_rows := r\<rparr>)" "gate_ok (b\<lparr>bt_rows := r\<rparr>)" "seats_ok env (b\<lparr>bt_rows := r\<rparr>)" "requests_ok aside (b\<lparr>bt_rows := r\<rparr>)"
    using batch_okD(2,3,5,6) [OF assms(1)] assms(2)
    by (simp_all add: ledger_ok_def gate_ok_def seats_ok_def requests_ok_def blocks_out_def same_rows_def rows_count_def)
  ultimately show ?thesis using assms(2) by (simp add: batch_ok_def same_rows_def)
qed

text \<open>Fields the invariant does not read.\<close>

lemmas batch_ok_defs = batch_ok_def ids_ok_def ledger_ok_def gate_ok_def seats_ok_def requests_ok_def ids_in_def blocks_out_def

lemma batch_ok_cong:
  assumes "bt_channel b' = bt_channel b" "bt_queue b' = bt_queue b" "bt_budget b' = bt_budget b" "bt_next_id b' = bt_next_id b"
    "bt_waiting b' = bt_waiting b" "bt_prefills b' = bt_prefills b" "bt_rows b' = bt_rows b" "bt_sent b' = bt_sent b"
  shows "batch_ok env aside b' = batch_ok env aside b"
  by (simp only: batch_ok_defs assms)

lemma batch_ok_update [simp]:
  "batch_ok env aside (b\<lparr>bt_inbox := x1\<rparr>) = batch_ok env aside b"
  "batch_ok env aside (b\<lparr>bt_carried := x2\<rparr>) = batch_ok env aside b"
  "batch_ok env aside (b\<lparr>bt_aborted := x3\<rparr>) = batch_ok env aside b"
  "batch_ok env aside (b\<lparr>bt_counters := x4\<rparr>) = batch_ok env aside b"
  "batch_ok env aside (b\<lparr>bt_world := x5\<rparr>) = batch_ok env aside b"
  by (rule batch_ok_cong; simp)+

lemma mark_cancelled_same:
  "mark_cancelled ids uids r = (consumed, r') \<Longrightarrow> rows_ok r \<Longrightarrow> same_rows r r'"
proof (induction ids uids r arbitrary: consumed r' rule: mark_cancelled.induct)
  case (1 ids r)
  then show ?case by (simp add: same_rows_refl)
next
  case (2 ids uid uids r)
  show ?case
  proof (cases "rows_get uid r")
    case None
    with 2 show ?thesis by simp
  next
    case (Some sl)
    let ?r = "rows_set uid (sl\<lparr>sl_finish := Some Cancelled\<rparr>) r"
    have same: "same_rows r ?r" using same_rows_set [OF "2.prems"(2) Some] by (simp add: slot_ok_def)
    show ?thesis
    proof (cases "sl_abort sl \<in> set ids \<and> sl_finish sl = None")
      case True
      obtain c r1 where m: "mark_cancelled ids uids ?r = (c, r1)" by fastforce
      have "same_rows ?r r1" by (rule "2.IH"(2) [OF Some True m same_rowsD [OF same]])
      with same have "same_rows r r1" by (rule same_rows_trans)
      then show ?thesis using "2.prems"(1) Some True m by (simp add: Let_def)
    next
      case False
      with 2 Some show ?thesis by simp
    qed
  qed
qed

section \<open>Cancellations\<close>

lemma abort_waiting_ok:
  assumes "batch_ok env [] (b\<lparr>bt_waiting := bt_waiting b @ job # jobs\<rparr>)"
  shows "\<exists>b'. abort_waiting job b = Some b' \<and> batch_ok env [] (b'\<lparr>bt_waiting := bt_waiting b' @ jobs\<rparr>) \<and> bt_prefills b' = bt_prefills b"
proof (cases "jb_abort job \<in> set (bt_carried b)")
  case True
  have "job_ok job" using batch_okD(6) [OF assms] by (simp add: requests_ok_def)
  then have "\<exists>events. (case jb_answer job of Some answer \<Rightarrow> answer_reply answer Cancelled None
      | None \<Rightarrow> Some [Finished (Inr (Cancelled, [], []))]) = Some events \<and> length (filter is_finished events) = 1"
    by (cases "jb_answer job") (simp_all add: job_ok_def, metis answer_reply_ok One_nat_def)
  then obtain events :: "'d batcher_event list" where e: "(case jb_answer job of Some answer \<Rightarrow> answer_reply answer Cancelled None
      | None \<Rightarrow> Some [Finished (Inr (Cancelled, [], []))]) = Some events" "length (filter is_finished events) = 1" by blast
  let ?b = "b\<lparr>bt_carried := removeAll (jb_abort job) (bt_carried b),
      bt_queue := qg_release (bt_queue b), bt_sent := bt_sent b @ map (Pair (jb_abort job)) events, bt_aborted := bt_aborted b + 1\<rparr>"
  let ?c = "?b\<lparr>bt_waiting := bt_waiting ?b @ jobs\<rparr>"
  have "abort_waiting job b = Some ?b" using True e(1) by (simp add: abort_waiting_def)
  moreover have "ids_ok [] ?c" using batch_okD(1) [OF assms] e(2) by (simp add: ids_ok_def ids_in_def)
  moreover have "ledger_ok ?c" using batch_okD(2) [OF assms] by (simp add: ledger_ok_def blocks_out_def)
  moreover have "gate_ok ?c" using batch_okD(3) [OF assms] by (simp add: gate_ok_def qg_release_def)
  moreover have "seats_ok env ?c" "rows_ok (bt_rows ?c)" using batch_okD(4,5) [OF assms] by (simp_all add: seats_ok_def)
  moreover have "requests_ok [] ?c" using batch_okD(6) [OF assms] by (simp add: requests_ok_def)
  ultimately show ?thesis unfolding batch_ok_def by (intro exI [of _ ?b]) simp
next
  case False
  with assms show ?thesis by (simp add: abort_waiting_def)
qed

lemma abort_prefill_ok:
  assumes "batch_ok env [] (b\<lparr>bt_prefills := bt_prefills b @ p # ps\<rparr>)"
  shows "\<exists>b'. abort_prefill env p b = Some b' \<and> batch_ok env [] (b'\<lparr>bt_prefills := bt_prefills b' @ ps\<rparr>)"
proof (cases "pf_abort p \<in> set (bt_carried b)")
  case True
  have "answer_ok (pf_answer p)" using batch_okD(6) [OF assms] by (simp add: requests_ok_def prefill_ok_def)
  then obtain events :: "'d batcher_event list" where e: "answer_reply (pf_answer p) Cancelled None = Some events" "length (filter is_finished events) = 1"
    by (rule answer_reply_ok)
  let ?budget = "bb_release (pf_blocks p) (bt_budget b)"
  let ?b = "b\<lparr>bt_carried := removeAll (pf_abort p) (bt_carried b), bt_budget := ?budget,
      bt_sent := bt_sent b @ map (Pair (pf_abort p)) events, bt_aborted := bt_aborted b + 1,
      bt_world := be_drop_kv env (ps_kv (pf_state p)) (bt_world b)\<rparr>"
  let ?c = "?b\<lparr>bt_prefills := bt_prefills ?b @ ps\<rparr>"
  have "abort_prefill env p b = Some ?b" using True e(1) by (simp add: abort_prefill_def)
  moreover have "ids_ok [] ?c" using batch_okD(1) [OF assms] e(2) by (simp add: ids_ok_def ids_in_def)
  moreover have "ledger_ok ?c" unfolding ledger_ok_def
  proof (intro allI impI)
    fix t assume "bb_total (bt_budget ?c) = Some t"
    then show "bb_free (bt_budget ?c) + blocks_out ?c = t"
      using batch_okD(2) [OF assms] release_free [of "bt_budget b" t "pf_blocks p"] by (auto simp: ledger_ok_def blocks_out_def)
  qed
  moreover have "gate_ok ?c" "seats_ok env ?c" "rows_ok (bt_rows ?c)"
    using batch_okD(3,4,5) [OF assms] by (simp_all add: gate_ok_def seats_ok_def)
  moreover have "requests_ok [] ?c" using batch_okD(6) [OF assms] by (simp add: requests_ok_def)
  ultimately show ?thesis unfolding batch_ok_def by (intro exI [of _ ?b]) simp
next
  case False
  with assms show ?thesis by (simp add: abort_prefill_def)
qed

lemma abort_rows_ok: "batch_ok env aside b \<Longrightarrow> batch_ok env aside (abort_rows b)"
proof -
  assume b: "batch_ok env aside b"
  obtain c r where m: "mark_cancelled (bt_carried b) (rw_order (bt_rows b)) (bt_rows b) = (c, r)" by fastforce
  have "same_rows (bt_rows b) r" using mark_cancelled_same [OF m] b by (simp add: batch_ok_def)
  from same_rows_ok [OF b this] show ?thesis by (simp add: abort_rows_def m)
qed

lemma apply_aborts_ok:
  assumes "batch_ok env [] b"
  obtains b' where "apply_aborts env b = Some b'" "batch_ok env [] b'"
proof -
  let ?b = "b\<lparr>bt_carried := bt_carried b @ filter (\<lambda>i. i \<notin> set (bt_carried b)) (bt_inbox b), bt_inbox := []\<rparr>"
  have b: "batch_ok env [] ?b" using assms by (simp only: batch_ok_update)
  show thesis
  proof (cases "bt_carried ?b = []")
    case True
    with that b show ?thesis by (simp add: apply_aborts_def)
  next
    case False
    have "\<exists>b1. each abort_waiting (bt_waiting ?b) (?b\<lparr>bt_waiting := []\<rparr>) = Some b1 \<and> batch_ok env [] (b1\<lparr>bt_waiting := bt_waiting b1 @ []\<rparr>)"
      by (rule each_ok) (use b abort_waiting_ok in \<open>simp, blast\<close>)
    then obtain b1 where b1: "each abort_waiting (bt_waiting ?b) (?b\<lparr>bt_waiting := []\<rparr>) = Some b1" "batch_ok env [] b1" by auto
    have "\<exists>b2. each (abort_prefill env) (bt_prefills b1) (b1\<lparr>bt_prefills := []\<rparr>) = Some b2 \<and> batch_ok env [] (b2\<lparr>bt_prefills := bt_prefills b2 @ []\<rparr>)"
      by (rule each_ok) (use b1(2) abort_prefill_ok in \<open>simp, blast\<close>)
    then obtain b2 where "each (abort_prefill env) (bt_prefills b1) (b1\<lparr>bt_prefills := []\<rparr>) = Some b2" and b2: "batch_ok env [] b2" by auto
    moreover have "apply_aborts env b = (case each abort_waiting (bt_waiting ?b) (?b\<lparr>bt_waiting := []\<rparr>) of None \<Rightarrow> None
        | Some b \<Rightarrow> (case each (abort_prefill env) (bt_prefills b) (b\<lparr>bt_prefills := []\<rparr>) of None \<Rightarrow> None | Some b \<Rightarrow> Some (abort_rows b)))"
      using False unfolding apply_aborts_def Let_def by (simp only: if_False)
    ultimately have "apply_aborts env b = Some (abort_rows b2)" by (simp only: b1(1) option.case)
    with abort_rows_ok [OF b2] that show ?thesis by blast
  qed
qed

end
