(* ===== verification/Batch_Admission.thy ===== *)
theory Batch_Admission
  imports Batch_Invariant
begin

text \<open>
  Admission keeps the invariant: the rows evicted to make room, the choice of the next job, and the loop,
  which ends within the number of waiting jobs.
\<close>

section \<open>Preemption\<close>

text \<open>What the scan picks: evictable rows of the list, in its order; the blocks and seats are those left
  when they are gone.\<close>

lemma pick_victims_spec:
  assumes "pick_victims evictable fits r uids free seats = (victims, free', seats')" "distinct uids"
  shows "set victims \<subseteq> set uids \<and> distinct victims
    \<and> (\<forall>uid \<in> set victims. \<exists>sl. rows_get uid r = Some sl \<and> evictable sl)
    \<and> seats' = seats - length victims \<and> free' = free + (\<Sum>uid \<leftarrow> victims. sl_blocks (the (rows_get uid r)))"
  using assms
proof (induction uids arbitrary: free seats victims free' seats')
  case (Cons uid uids)
  show ?case
  proof (cases "fits free seats \<or> (case rows_get uid r of None \<Rightarrow> True | Some sl \<Rightarrow> \<not> evictable sl)")
    case True
    then have "victims = [] \<and> free' = free \<and> seats' = seats \<or> pick_victims evictable fits r uids free seats = (victims, free', seats')"
      using Cons.prems(1) by (auto split: option.splits if_splits)
    then show ?thesis using Cons.IH [of free seats victims free' seats'] Cons.prems(2) by auto
  next
    case False
    then obtain sl where sl: "\<not> fits free seats" "rows_get uid r = Some sl" "evictable sl" by (auto split: option.splits)
    obtain vs f s where rest: "pick_victims evictable fits r uids (free + sl_blocks sl) (seats - 1) = (vs, f, s)"
      by (cases "pick_victims evictable fits r uids (free + sl_blocks sl) (seats - 1)") auto
    then have "victims = uid # vs" "free' = f" "seats' = s" using Cons.prems(1) sl by simp_all
    with Cons.IH [OF rest] Cons.prems(2) sl show ?thesis by auto
  qed
qed simp

lemma evict_row_ok:
  assumes "batch_ok env (aside @ jobs) b" "rows_get uid (bt_rows b) = Some sl" "preemptible env sl"
  shows "\<exists>job b'. evict_row env uid (jobs, b) = Some (jobs @ [job], b') \<and> batch_ok env (aside @ jobs @ [job]) b'
    \<and> bt_rows b' = rows_remove uid (bt_rows b) \<and> bt_prefills b' = bt_prefills b \<and> bt_waiting b' = bt_waiting b
    \<and> bt_queue b' = bt_queue b \<and> bb_total (bt_budget b') = bb_total (bt_budget b) \<and> jb_abort job = sl_abort sl
    \<and> (bb_total (bt_budget b) \<noteq> None \<longrightarrow> bb_free (bt_budget b') = bb_free (bt_budget b) + sl_blocks sl)"
proof -
  note ok = batch_okD [OF assms(1)]
  let ?a = "sl_answer sl"
  let ?job = "\<lparr>jb_prompt_tokens = sl_prompt_ids sl, jb_params = sl_params sl, jb_stop_tokens = sl_stop_tokens sl, jb_abort = sl_abort sl,
       jb_blocks = sl_blocks sl, jb_skips = 0, jb_waited = 0, jb_answer = Some (?a\<lparr>an_preemptions := an_preemptions ?a + 1\<rparr>)\<rparr>"
  let ?b = "b\<lparr>bt_rows := rows_remove uid (bt_rows b), bt_budget := bb_release (sl_blocks sl) (bt_budget b),
      bt_world := be_drop_kv env (sl_kv sl) (be_publish env (sl_kv sl) (sl_prompt_ids sl @ an_generated_ids ?a) (bt_world b))\<rparr>"
  have ev: "evict_row env uid (jobs, b) = Some (jobs @ [?job], ?b)"
    using assms(2) by (simp add: evict_row_def preempt_def into_parts_def)
  have "ids_ok (aside @ jobs @ [?job]) ?b" using ok(1) ids_in_remove [OF ok(4) assms(2)] by (simp add: ids_ok_def ids_in_def)
  moreover have free: "bb_free (bt_budget ?b) = bb_free (bt_budget b) + sl_blocks sl" if "bb_total (bt_budget b) = Some t" for t
    using ok(2) that blocks_out_remove [OF ok(4) assms(2)] release_free [of "bt_budget b" t "sl_blocks sl"] by (simp add: ledger_ok_def)
  moreover have "ledger_ok ?b"
    using ok(2) free blocks_out_remove [OF ok(4) assms(2)] by (auto simp: ledger_ok_def blocks_out_def)
  moreover have "gate_ok ?b" using ok(3) by (simp add: gate_ok_def)
  moreover have "seats_ok env ?b" using ok(5) rows_remove(2) [OF ok(4) assms(2)] by (simp add: seats_ok_def)
  moreover have "job_ok ?job"
    using slot_okD [OF assms(1,2)] assms(3) by (simp add: job_ok_def slot_ok_def answer_ok_def preemptible_def)
  then have "requests_ok (aside @ jobs @ [?job]) ?b"
    using ok(6) rows_remove(5) [OF ok(4) assms(2)] by (auto simp: requests_ok_def)
  ultimately have "batch_ok env (aside @ jobs @ [?job]) ?b"
    using rows_remove(1) [OF ok(4) assms(2)] by (simp add: batch_ok_def)
  with ev free show ?thesis by (intro exI [of _ ?job] exI [of _ ?b]) auto
qed

lemma evict_rows_ok:
  assumes "batch_ok env (aside @ jobs) b" "distinct victims"
    "\<forall>uid \<in> set victims. \<exists>sl. rows_get uid (bt_rows b) = Some sl \<and> preemptible env sl"
  shows "\<exists>made b'. each (evict_row env) victims (jobs, b) = Some (jobs @ made, b') \<and> batch_ok env (aside @ jobs @ made) b'
    \<and> length made = length victims \<and> rows_count (bt_rows b) = rows_count (bt_rows b') + length victims
    \<and> bt_prefills b' = bt_prefills b \<and> bt_waiting b' = bt_waiting b \<and> bt_queue b' = bt_queue b
    \<and> bb_total (bt_budget b') = bb_total (bt_budget b)
    \<and> (bb_total (bt_budget b) \<noteq> None \<longrightarrow>
        bb_free (bt_budget b') = bb_free (bt_budget b) + (\<Sum>uid \<leftarrow> victims. sl_blocks (the (rows_get uid (bt_rows b)))))"
  using assms
proof (induction victims arbitrary: jobs b)
  case (Cons uid victims)
  obtain sl where sl: "rows_get uid (bt_rows b) = Some sl" "preemptible env sl" using Cons.prems(3) by auto
  from evict_row_ok [OF Cons.prems(1) sl] obtain job b1 where b1: "evict_row env uid (jobs, b) = Some (jobs @ [job], b1)"
    "batch_ok env (aside @ jobs @ [job]) b1" "bt_rows b1 = rows_remove uid (bt_rows b)" "bt_prefills b1 = bt_prefills b"
    "bt_waiting b1 = bt_waiting b" "bt_queue b1 = bt_queue b" "bb_total (bt_budget b1) = bb_total (bt_budget b)"
    "bb_total (bt_budget b) \<noteq> None \<longrightarrow> bb_free (bt_budget b1) = bb_free (bt_budget b) + sl_blocks sl" by blast
  note rm = rows_remove [OF batch_okD(4) [OF Cons.prems(1)] sl(1)]
  have get: "rows_get u (bt_rows b1) = rows_get u (bt_rows b)" if "u \<in> set victims" for u
    using that Cons.prems(2) by (auto simp: b1(3) rm(4))
  then have vs: "\<forall>u \<in> set victims. \<exists>sl. rows_get u (bt_rows b1) = Some sl \<and> preemptible env sl" using Cons.prems(3) by simp
  have dist: "distinct victims" using Cons.prems(2) by simp
  have sum: "(\<Sum>u \<leftarrow> victims. sl_blocks (the (rows_get u (bt_rows b1)))) = (\<Sum>u \<leftarrow> victims. sl_blocks (the (rows_get u (bt_rows b))))"
    using get by (simp cong: map_cong)
  have len: "rows_count (bt_rows b) = Suc (rows_count (bt_rows b1))" using rm(2) b1(3) by simp
  have ok1: "batch_ok env (aside @ (jobs @ [job])) b1" using b1(2) by simp
  from Cons.IH [OF ok1 dist vs] obtain made b' where
    "each (evict_row env) victims (jobs @ [job], b1) = Some ((jobs @ [job]) @ made, b')" "batch_ok env (aside @ (jobs @ [job]) @ made) b'"
    "length made = length victims" "rows_count (bt_rows b1) = rows_count (bt_rows b') + length victims"
    "bt_prefills b' = bt_prefills b1" "bt_waiting b' = bt_waiting b1" "bt_queue b' = bt_queue b1"
    "bb_total (bt_budget b') = bb_total (bt_budget b1)"
    "bb_total (bt_budget b1) \<noteq> None \<longrightarrow> bb_free (bt_budget b') = bb_free (bt_budget b1) + (\<Sum>u \<leftarrow> victims. sl_blocks (the (rows_get u (bt_rows b1))))"
    by blast
  with b1 len sl(1) show ?case unfolding sum by (intro exI [of _ "job # made"] exI [of _ b']) simp
qed (use assms in auto)

text \<open>Room is made for a job or nothing happens.\<close>

lemma make_room_ok:
  assumes "batch_ok env aside b"
  shows "\<exists>made b'. make_room env head b = Some (made, b') \<and> batch_ok env (aside @ made) b' \<and> bt_waiting b' = bt_waiting b
    \<and> bt_queue b' = bt_queue b \<and> (made = [] \<longrightarrow> b' = b)
    \<and> (made \<noteq> [] \<longrightarrow> rows_count (bt_rows b') + length (bt_prefills b') < bf_max_seqs (be_config env)
        \<and> fst (bb_try_reserve (jb_blocks head) (bt_budget b')))"
proof -
  note ok = batch_okD [OF assms]
  let ?fits = "room_fits (bf_max_seqs (be_config env)) (jb_blocks head) (bt_budget b)"
  obtain victims free seats where pick: "pick_victims (preemptible env) ?fits (bt_rows b) (rev (rw_order (bt_rows b)))
      (free_blocks_now (bt_budget b)) (rows_count (bt_rows b) + length (bt_prefills b)) = (victims, free, seats)"
    by (cases "pick_victims (preemptible env) ?fits (bt_rows b) (rev (rw_order (bt_rows b)))
      (free_blocks_now (bt_budget b)) (rows_count (bt_rows b) + length (bt_prefills b))") auto
  show ?thesis
  proof (cases "(case bf_preempt_after_ticks (be_config env) of None \<Rightarrow> True | Some after \<Rightarrow> jb_waited head < after) \<or> victims = [] \<or> \<not> ?fits free seats")
    case True
    then have "make_room env head b = Some ([], b)"
      using pick by (auto simp: make_room_def Let_def split: option.splits)
    with assms show ?thesis by simp
  next
    case False
    have "distinct (rev (rw_order (bt_rows b)))" using ok(4) by (simp add: rows_ok_def)
    note spec = pick_victims_spec [OF pick this]
    have e: "batch_ok env (aside @ []) b" using assms by simp
    from evict_rows_ok [OF e, of victims] spec obtain made b' where m: "each (evict_row env) victims ([], b) = Some (made, b')"
      "batch_ok env (aside @ made) b'" "length made = length victims" "rows_count (bt_rows b) = rows_count (bt_rows b') + length victims"
      "bt_prefills b' = bt_prefills b" "bt_waiting b' = bt_waiting b" "bt_queue b' = bt_queue b"
      "bb_total (bt_budget b') = bb_total (bt_budget b)"
      "bb_total (bt_budget b) \<noteq> None \<longrightarrow> bb_free (bt_budget b') = bb_free (bt_budget b) + (\<Sum>uid \<leftarrow> victims. sl_blocks (the (rows_get uid (bt_rows b))))"
      by auto
    have "make_room env head b = Some (made, b')"
      using False pick m(1) by (auto simp: make_room_def Let_def split: option.splits)
    moreover have "made \<noteq> []" using m(3) False by auto
    moreover have "rows_count (bt_rows b') + length (bt_prefills b') < bf_max_seqs (be_config env)"
      using False spec m(4,5) by (auto simp: room_fits_def)
    moreover have "fst (bb_try_reserve (jb_blocks head) (bt_budget b'))"
      using False spec m(8,9) by (auto simp: room_fits_def bb_try_reserve_def free_blocks_now_def split: option.splits)
    ultimately show ?thesis using m(2,6,7) by blast
  qed
qed

section \<open>Admission\<close>

lemma cache_aware_pick_ok:
  assumes "waiting \<noteq> []"
  shows "cache_aware_pick env waiting w < length waiting \<and> (\<forall>k < cache_aware_pick env waiting w. jb_skips (waiting ! k) < max_skips)"
proof (cases "length waiting < 2 \<or> \<not> (be_paged env \<and> be_radix env)")
  case True
  then have "cache_aware_pick env waiting w = 0" by (auto simp: cache_aware_pick_def)
  with assms show ?thesis by simp
next
  case False
  let ?c = "take (min (length waiting) choose_window) waiting"
  let ?d = "map (\<lambda>job. be_cached_len env (bp_cache_salt (jb_params job)) (jb_prompt_tokens job) w) ?c"
  have pick: "cache_aware_pick env waiting w = choose_next ?d (map jb_skips ?c)"
    using False by (simp add: cache_aware_pick_def Let_def)
  have "choose_next ?d (map jb_skips ?c) < length ?d \<and> (\<forall>k < choose_next ?d (map jb_skips ?c). map jb_skips ?c ! k < max_skips)"
    by (rule choose_skips) (use assms in \<open>simp_all add: choose_window_def\<close>)
  then show ?thesis unfolding pick by auto
qed

lemma accept_ok:
  assumes "job_ok job" "env_ok env"
  shows "\<exists>r events w'. accept env job w = Some (r, events, w') \<and> (case r of
      AcceptPrefill p \<Rightarrow> prefill_ok p \<and> pf_abort p = jb_abort job \<and> pf_blocks p = jb_blocks job \<and> answered events = {#}
    | AcceptRefused \<Rightarrow> answered events = {#jb_abort job#}
    | AcceptRequeue j \<Rightarrow> job_ok j \<and> jb_abort j = jb_abort job \<and> answered events = {#})"
proof -
  have fresh: "answer_ok (answer_fresh env (jb_params job) n)" for n
    using assms(1) matcher_ok_new by (auto simp: answer_ok_def answer_fresh_def job_ok_def)
  have chunk: "0 < bf_prefill_chunk (be_config env)" using assms(2) by (simp add: env_ok_def)
  show ?thesis
  proof (cases "find (\<lambda>t. t \<ge> be_vocab_size env) (jb_prompt_tokens job)")
    case None
    obtain kv w' where kv: "acquire_kv env job w = (kv, w')" by fastforce
    show ?thesis
    proof (cases kv)
      case None': None
      with None kv assms(1) show ?thesis
        by (cases "jb_answer job") (simp_all add: accept_def job_ok_def answered_def)
    next
      case (Some k)
      obtain st where st: "prefill_over env k (job_run job) (bf_prefill_chunk (be_config env)) = Some st"
        using chunk by (simp add: prefill_over_def)
      let ?p = "\<lparr>pf_state = st, pf_params = jb_params job, pf_stop_tokens = jb_stop_tokens job, pf_abort = jb_abort job,
          pf_blocks = jb_blocks job,
          pf_answer = (case jb_answer job of Some a \<Rightarrow> a | None \<Rightarrow> answer_fresh env (jb_params job) (reported_prompt job))\<rparr>"
      have "accept env job w = Some (AcceptPrefill ?p, [], w')"
        using None kv Some st by (simp add: accept_def)
      moreover have "prefill_ok ?p"
        using assms(1) fresh by (auto simp: prefill_ok_def job_ok_def split: option.splits)
      ultimately show ?thesis by (intro exI [of _ "AcceptPrefill ?p"] exI [of _ "[]"] exI [of _ w']) simp
    qed
  next
    case (Some bad)
    then show ?thesis by (simp add: accept_def answered_def)
  qed
qed

text \<open>The queue without the job taken: the jobs passed over are one skip older.\<close>

definition taken_out :: "nat \<Rightarrow> 's job list \<Rightarrow> 's job list" where
  "taken_out pick js = map (\<lambda>j. j\<lparr>jb_skips := min (jb_skips j + 1) u32_max\<rparr>) (take pick js) @ drop (pick + 1) js"

lemma taken_out:
  assumes "pick < length js"
  shows "mset (map jb_abort js) = add_mset (jb_abort (js ! pick)) (mset (map jb_abort (taken_out pick js)))"
    "Suc (length (taken_out pick js)) = length js"
proof -
  have "map jb_abort js = map jb_abort (take pick js) @ jb_abort (js ! pick) # map jb_abort (drop (pick + 1) js)"
    by (metis (no_types) Suc_eq_plus1 assms id_take_nth_drop list.simps(9) map_append)
  then show "mset (map jb_abort js) = add_mset (jb_abort (js ! pick)) (mset (map jb_abort (taken_out pick js)))"
    by (simp add: taken_out_def comp_def)
  show "Suc (length (taken_out pick js)) = length js" using assms by (simp add: taken_out_def)
qed

lemma taken_out_ok:
  assumes "\<forall>j \<in> set js. job_ok j" "\<forall>k < pick. jb_skips (js ! k) < max_skips" "pick < length js"
  shows "\<forall>j \<in> set (taken_out pick js). job_ok j"
proof
  fix j assume "j \<in> set (taken_out pick js)"
  then consider i where "i \<in> set (take pick js)" "j = i\<lparr>jb_skips := min (jb_skips i + 1) u32_max\<rparr>" | "j \<in> set (drop (pick + 1) js)"
    by (auto simp: taken_out_def)
  then show "job_ok j"
  proof cases
    case 1
    then obtain k where "k < pick" "i = js ! k" by (auto simp: in_set_conv_nth)
    then have "jb_skips i < max_skips" "job_ok i" using assms nth_mem [of k js] by auto
    with 1 show ?thesis by (simp add: job_ok_def)
  next
    case 2
    with assms(1) show ?thesis by (auto dest: in_set_dropD)
  qed
qed

lemma admit_job_ok:
  assumes b: "batch_ok env aside b" and pick: "pick < length (bt_waiting b)" "\<forall>k < pick. jb_skips (bt_waiting b ! k) < max_skips"
    and seat: "rows_count (bt_rows b) + length (bt_prefills b) < bf_max_seqs (be_config env)" and env: "env_ok env"
    and res: "bb_try_reserve (jb_blocks (bt_waiting b ! pick)) (bt_budget b) = (True, budget)"
  shows "\<exists>go b'. admit_job env pick aside (b\<lparr>bt_budget := budget\<rparr>) = Some (go, aside, b') \<and> batch_ok env aside b'
    \<and> (go \<longrightarrow> Suc (length (bt_waiting b')) = length (bt_waiting b))"
proof -
  note ok = batch_okD [OF b]
  let ?job = "bt_waiting b ! pick" and ?w = "taken_out pick (bt_waiting b)"
  have job: "job_ok ?job" "\<forall>j \<in> set ?w. job_ok j"
    using ok(6) pick taken_out_ok [OF _ pick(2,1)] by (auto simp: requests_ok_def)
  note out = taken_out [OF pick(1)]
  have total: "bb_total budget = bb_total (bt_budget b)" using reserve_total [OF res] .
  have budget: "bb_free budget + jb_blocks ?job + blocks_out b = t" if "bb_total budget = Some t" for t
    using ok(2) that total reserve_free [OF res] by (simp add: ledger_ok_def)
  have gate: "qg_depth (qg_release (bt_queue b)) = length (bt_channel b) + length ?w"
    using ok(3) pick(1) by (simp add: gate_ok_def qg_release_def flip: out(2))
  obtain r events w' where acc: "accept env ?job (bt_world b) = Some (r, events, w')" and r: "case r of
      AcceptPrefill p \<Rightarrow> prefill_ok p \<and> pf_abort p = jb_abort ?job \<and> pf_blocks p = jb_blocks ?job \<and> answered events = {#}
    | AcceptRefused \<Rightarrow> answered events = {#jb_abort ?job#}
    | AcceptRequeue j \<Rightarrow> job_ok j \<and> jb_abort j = jb_abort ?job \<and> answered events = {#}"
    using accept_ok [OF job(1) env] by blast
  let ?b = "b\<lparr>bt_budget := budget, bt_waiting := ?w, bt_queue := qg_release (bt_queue b), bt_sent := bt_sent b @ events, bt_world := w'\<rparr>"
  have run: "admit_job env pick aside (b\<lparr>bt_budget := budget\<rparr>) = Some (case r of
      AcceptPrefill p \<Rightarrow> (True, aside, ?b\<lparr>bt_prefills := bt_prefills ?b @ [p]\<rparr>)
    | AcceptRefused \<Rightarrow> (True, aside, ?b\<lparr>bt_budget := bb_release (jb_blocks ?job) (bt_budget ?b)\<rparr>)
    | AcceptRequeue j \<Rightarrow> (False, aside, ?b\<lparr>bt_budget := bb_release (jb_blocks ?job) (bt_budget ?b),
        bt_queue := qg_requeue (bt_queue ?b), bt_waiting := j # bt_waiting ?b\<rparr>))"
    using pick(1) acc by (cases r) (simp_all add: admit_job_def Let_def taken_out_def)
  have released: "ledger_ok (?b\<lparr>bt_budget := bb_release (jb_blocks ?job) budget\<rparr>)"
    unfolding ledger_ok_def
  proof (intro allI impI)
    fix t assume "bb_total (bt_budget (?b\<lparr>bt_budget := bb_release (jb_blocks ?job) budget\<rparr>)) = Some t"
    then have t: "bb_total budget = Some t" by simp
    then show "bb_free (bt_budget (?b\<lparr>bt_budget := bb_release (jb_blocks ?job) budget\<rparr>)) + blocks_out (?b\<lparr>bt_budget := bb_release (jb_blocks ?job) budget\<rparr>) = t"
      using budget [OF t] release_free [OF t, of "jb_blocks ?job"] by (simp add: blocks_out_def)
  qed
  show ?thesis
  proof (cases r)
    case (AcceptPrefill p)
    let ?c = "?b\<lparr>bt_prefills := bt_prefills ?b @ [p]\<rparr>"
    have p: "prefill_ok p" "pf_abort p = jb_abort ?job" "pf_blocks p = jb_blocks ?job" "answered events = {#}" using r AcceptPrefill by simp_all
    have "ids_ok aside ?c" using ok(1) out(1) p by (simp add: ids_ok_def ids_in_def)
    moreover have "ledger_ok ?c" using budget p(3) by (auto simp: ledger_ok_def blocks_out_def)
    moreover have "gate_ok ?c" using gate by (simp add: gate_ok_def)
    moreover have "seats_ok env ?c" using seat by (simp add: seats_ok_def)
    moreover have "requests_ok aside ?c" using ok(6) job(2) p(1) by (auto simp: requests_ok_def)
    ultimately have "batch_ok env aside ?c" using ok(4) by (simp add: batch_ok_def)
    with run AcceptPrefill out(2) show ?thesis by auto
  next
    case AcceptRefused
    let ?c = "?b\<lparr>bt_budget := bb_release (jb_blocks ?job) budget\<rparr>"
    have "ids_ok aside ?c" using ok(1) out(1) r AcceptRefused by (simp add: ids_ok_def ids_in_def)
    moreover have "gate_ok ?c" using gate by (simp add: gate_ok_def)
    moreover have "seats_ok env ?c" using ok(5) by (simp add: seats_ok_def)
    moreover have "requests_ok aside ?c" using ok(6) job(2) by (auto simp: requests_ok_def)
    ultimately have "batch_ok env aside ?c" using ok(4) released by (simp add: batch_ok_def)
    with run AcceptRefused out(2) show ?thesis by auto
  next
    case (AcceptRequeue j)
    let ?c = "?b\<lparr>bt_budget := bb_release (jb_blocks ?job) budget, bt_queue := qg_requeue (bt_queue ?b), bt_waiting := j # bt_waiting ?b\<rparr>"
    have j: "job_ok j" "jb_abort j = jb_abort ?job" "answered events = {#}" using r AcceptRequeue by simp_all
    have "ids_ok aside ?c" using ok(1) out(1) j by (simp add: ids_ok_def ids_in_def)
    moreover have "ledger_ok ?c" using released by (simp add: ledger_ok_def blocks_out_def)
    moreover have "gate_ok ?c" using gate by (simp add: gate_ok_def qg_requeue_def)
    moreover have "seats_ok env ?c" using ok(5) by (simp add: seats_ok_def)
    moreover have "requests_ok aside ?c" using ok(6) job(2) j(1) by (auto simp: requests_ok_def)
    ultimately have "batch_ok env aside ?c" using ok(4) by (simp add: batch_ok_def)
    with run AcceptRequeue show ?thesis by auto
  qed
qed

lemma admit_next_ok:
  assumes b: "batch_ok env aside b" and env: "env_ok env"
  shows "\<exists>go made b'. admit_next env aside b = Some (go, aside @ made, b') \<and> batch_ok env (aside @ made) b'
    \<and> (go \<longrightarrow> Suc (length (bt_waiting b')) = length (bt_waiting b))"
proof -
  let ?seated = "rows_count (bt_rows b) + length (bt_prefills b) < bf_max_seqs (be_config env)"
  let ?pick = "cache_aware_pick env (bt_waiting b) (bt_world b)"
  let ?job = "bt_waiting b ! ?pick"
  show ?thesis
  proof (cases "bt_waiting b = [] \<or> \<not> ?seated \<and> bf_preempt_after_ticks (be_config env) = None")
    case True
    then have "admit_next env aside b = Some (False, aside @ [], b)" by (auto simp: admit_next_def)
    with b show ?thesis by auto
  next
    case False
    then have w: "bt_waiting b \<noteq> []" by simp
    note pick = cache_aware_pick_ok [OF w, of env "bt_world b"]
    obtain reserved budget where res: "(if ?seated then bb_try_reserve (jb_blocks ?job) (bt_budget b) else (False, bt_budget b)) = (reserved, budget)"
      by fastforce
    have flags: "(bt_waiting b = []) = False" "(\<not> ?seated \<and> bf_preempt_after_ticks (be_config env) = None) = False"
      "(length (bt_waiting b) \<le> ?pick) = False" using False pick by auto
    have step: "admit_next env aside b = (if reserved then admit_job env ?pick aside (b\<lparr>bt_budget := budget\<rparr>)
        else case make_room env ?job b of
          None \<Rightarrow> None
        | Some (made, b) \<Rightarrow>
            if made = [] then Some (False, aside, b)
            else case bb_try_reserve (jb_blocks ?job) (bt_budget (b\<lparr>bt_counters := (bt_counters b)\<lparr>ct_preempted := ct_preempted (bt_counters b) + length made\<rparr>\<rparr>)) of
              (reserved, budget) \<Rightarrow>
                if reserved then admit_job env ?pick (aside @ made)
                  (b\<lparr>bt_counters := (bt_counters b)\<lparr>ct_preempted := ct_preempted (bt_counters b) + length made\<rparr>, bt_budget := budget\<rparr>)
                else Some (False, aside @ made, b\<lparr>bt_counters := (bt_counters b)\<lparr>ct_preempted := ct_preempted (bt_counters b) + length made\<rparr>\<rparr>))"
      by (simp only: admit_next_def Let_def flags if_False res prod.case)
    show ?thesis
    proof (cases reserved)
      case True
      then have seat: ?seated and r: "bb_try_reserve (jb_blocks ?job) (bt_budget b) = (True, budget)" using res by (simp_all split: if_splits)
      have "admit_next env aside b = admit_job env ?pick aside (b\<lparr>bt_budget := budget\<rparr>)"
        using True by (simp add: step)
      with admit_job_ok [OF b _ _ seat env r] pick show ?thesis by (metis append_Nil2)
    next
      case not_reserved: False
      obtain made b1 where m: "make_room env ?job b = Some (made, b1)" "batch_ok env (aside @ made) b1" "bt_waiting b1 = bt_waiting b"
        "made \<noteq> [] \<longrightarrow> rows_count (bt_rows b1) + length (bt_prefills b1) < bf_max_seqs (be_config env)
          \<and> fst (bb_try_reserve (jb_blocks ?job) (bt_budget b1))"
        using make_room_ok [OF b, of ?job] by blast
      show ?thesis
      proof (cases "made = []")
        case True
        have "admit_next env aside b = Some (False, aside @ made, b1)"
          using not_reserved m(1) True by (simp add: step)
        with m(2) show ?thesis by blast
      next
        case some: False
        let ?b = "b1\<lparr>bt_counters := (bt_counters b1)\<lparr>ct_preempted := ct_preempted (bt_counters b1) + length made\<rparr>\<rparr>"
        obtain budget' where r: "bb_try_reserve (jb_blocks ?job) (bt_budget b1) = (True, budget')"
          using m(4) some by (cases "bb_try_reserve (jb_blocks ?job) (bt_budget b1)") auto
        have "admit_next env aside b = admit_job env ?pick (aside @ made) (?b\<lparr>bt_budget := budget'\<rparr>)"
          using not_reserved m(1) some r by (simp add: step)
        moreover have "batch_ok env (aside @ made) ?b" using m(2) by (simp only: batch_ok_update)
        from admit_job_ok [OF this _ _ _ env, of ?pick budget'] have "\<exists>go b'. admit_job env ?pick (aside @ made) (?b\<lparr>bt_budget := budget'\<rparr>) = Some (go, aside @ made, b')
            \<and> batch_ok env (aside @ made) b' \<and> (go \<longrightarrow> Suc (length (bt_waiting b')) = length (bt_waiting ?b))"
          using pick m(3,4) some r by simp
        ultimately show ?thesis using m(3) by auto
      qed
    qed
  qed
qed

lemma admit_loop_ok:
  assumes "batch_ok env aside b" "env_ok env" "length (bt_waiting b) < n"
  shows "\<exists>made b'. admit_loop n env aside b = Some (aside @ made, b') \<and> batch_ok env (aside @ made) b'"
  using assms
proof (induction n arbitrary: aside b)
  case (Suc n)
  from admit_next_ok [OF Suc.prems(1,2)] obtain go made b' where a: "admit_next env aside b = Some (go, aside @ made, b')"
    "batch_ok env (aside @ made) b'" "go \<longrightarrow> Suc (length (bt_waiting b')) = length (bt_waiting b)" by blast
  show ?case
  proof (cases go)
    case True
    then have "length (bt_waiting b') < n" using a(3) Suc.prems(3) by simp
    from Suc.IH [OF a(2) Suc.prems(2) this] show ?thesis using a(1) True by auto
  qed (use a in simp)
qed simp

lemma requeue_many: "(qg_requeue ^^ n) g = g\<lparr>qg_depth := qg_depth g + n\<rparr>"
  by (induction n) (simp_all add: qg_requeue_def)

lemma job_ok_waited: "job_ok (j\<lparr>jb_waited := n\<rparr>) = job_ok j" by (simp add: job_ok_def)

lemma admit_ok:
  assumes "batch_ok env [] b" "env_ok env"
  obtains b' where "admit env b = Some b'" "batch_ok env [] b'"
proof -
  have "length (bt_waiting b) < length (bt_waiting b) + 1" by simp
  from admit_loop_ok [OF assms this] obtain made b1 where a: "admit_loop (length (bt_waiting b) + 1) env [] b = Some (made, b1)" "batch_ok env made b1" by auto
  note ok = batch_okD [OF a(2)]
  let ?c = "b1\<lparr>bt_waiting := rev made @ map (\<lambda>j. j\<lparr>jb_waited := min (jb_waited j + 1) u32_max\<rparr>) (bt_waiting b1),
      bt_queue := (qg_requeue ^^ length made) (bt_queue b1)\<rparr>"
  have "admit env b = Some ?c" using a(1) by (simp only: admit_def option.map prod.case)
  moreover have "ids_ok [] ?c" using ok(1) by (simp add: ids_ok_def ids_in_def comp_def ac_simps)
  moreover have "ledger_ok ?c" "seats_ok env ?c" using ok(2,5) by (simp_all add: ledger_ok_def blocks_out_def seats_ok_def)
  moreover have "gate_ok ?c" using ok(3) by (simp add: gate_ok_def requeue_many)
  moreover have "requests_ok [] ?c" using ok(6) by (auto simp: requests_ok_def job_ok_waited)
  ultimately show thesis using that [of ?c] ok(4) by (simp add: batch_ok_def)
qed

end
