(* ===== verification/Batch_Ticks.thy ===== *)
theory Batch_Ticks
  imports Batch_Admission
begin

text \<open>
  The rest of a turn keeps the invariant: the prefill chunk, the batched decode step, the submissions; so
  every run does.
\<close>

section \<open>Prefill\<close>

lemma env_ok_prefill: "env_ok env \<Longrightarrow> \<exists>r. be_forward_prefill env chunk pos kv w = Some r"
  unfolding env_ok_def by blast

lemma env_ok_multi: "env_ok env \<Longrightarrow> \<exists>outputs w'. be_forward_multi env inputs w = Some (outputs, w') \<and> length outputs = length inputs"
  unfolding env_ok_def by blast

lemma step_chunk_returns:
  assumes "env_ok env"
  obtains fin st w' where "step_chunk env budget p w = Some (fin, st, w')"
proof -
  obtain r where "be_forward_prefill env (drop (ps_tokens_processed p) (take (min (ps_tokens_processed p + budget) (length (ps_tokens p))) (ps_tokens p)))
      (be_positions_written env (ps_kv p)) (ps_kv p) w = Some r" using env_ok_prefill [OF assms] by blast
  then have "\<exists>r. step_chunk env budget p w = Some r" by (simp add: step_chunk_def Let_def split: prod.splits)
  then show thesis using that by (metis prod_cases3)
qed

lemma into_slot_fields [simp]:
  "sl_abort (into_slot p) = pf_abort p" "sl_blocks (into_slot p) = pf_blocks p"
  "sl_answer (into_slot p) = pf_answer p" "sl_params (into_slot p) = pf_params p"
  by (simp_all add: into_slot_def Let_def)

lemma prefill_tick_ok:
  assumes b: "batch_ok env aside b" and env: "env_ok env"
  obtains b' where "prefill_tick env b = Some b'" "batch_ok env aside b'"
proof (cases "bt_prefills b")
  case Nil
  with that b show ?thesis by (simp add: prefill_tick_def)
next
  case (Cons p ps)
  note ok = batch_okD [OF b]
  obtain fin st w' where s: "step_chunk env (prefill_budget (bf_max_batch_tokens (be_config env)) (rows_count (bt_rows b)) (ps_chunk_size (pf_state p)))
      (pf_state p) (bt_world b) = Some (fin, st, w')" using step_chunk_returns [OF env] .
  let ?c = "(bt_counters b)\<lparr>ct_prefill_chunks := ct_prefill_chunks (bt_counters b) + 1,
      ct_prefill_tokens := ct_prefill_tokens (bt_counters b) + (ps_tokens_processed st - ps_tokens_processed (pf_state p))\<rparr>"
  let ?p = "p\<lparr>pf_state := st\<rparr>"
  let ?b1 = "b\<lparr>bt_prefills := ps, bt_rows := rows_insert (into_slot ?p) (bt_rows b)\<rparr>" and ?b2 = "b\<lparr>bt_prefills := ps @ [?p]\<rparr>"
  have "prefill_tick env b = Some ((if fin then ?b1 else ?b2)\<lparr>bt_world := w', bt_counters := ?c\<rparr>)"
    using Cons s by (simp add: prefill_tick_def Let_def)
  moreover have "batch_ok env aside (if fin then ?b1 else ?b2)"
  proof (cases fin)
    case True
    note ins = rows_insert [OF ok(4), where sl = "into_slot ?p"]
    have "ids_ok aside ?b1" using ok(1) Cons ins(4) [where f = sl_abort] by (simp add: ids_ok_def ids_in_def)
    moreover have "ledger_ok ?b1" using ok(2) Cons ins(3) by (auto simp: ledger_ok_def blocks_out_def)
    moreover have "gate_ok ?b1" using ok(3) by (simp add: gate_ok_def)
    moreover have "seats_ok env ?b1" using ok(5) Cons ins(2) by (simp add: seats_ok_def)
    moreover have "requests_ok aside ?b1" using ok(6) Cons ins(5) by (auto simp: requests_ok_def prefill_ok_def slot_ok_def)
    ultimately show ?thesis using True ins(1) by (simp add: batch_ok_def)
  next
    case False
    have "ids_ok aside ?b2" using ok(1) Cons by (simp add: ids_ok_def ids_in_def)
    moreover have "ledger_ok ?b2" using ok(2) Cons by (auto simp: ledger_ok_def blocks_out_def)
    moreover have "gate_ok ?b2" "seats_ok env ?b2" using ok(3,5) Cons by (simp_all add: gate_ok_def seats_ok_def)
    moreover have "requests_ok aside ?b2" using ok(6) Cons by (auto simp: requests_ok_def prefill_ok_def)
    ultimately show ?thesis using False ok(4) by (simp add: batch_ok_def)
  qed
  ultimately show thesis using that by (simp only: batch_ok_update)
qed

section \<open>The decode step\<close>

lemma batch_ok_put:
  assumes "batch_ok env aside b" "rows_get uid (bt_rows b) = Some sl" "sl_abort sl' = sl_abort sl" "sl_blocks sl' = sl_blocks sl"
    "slot_ok sl \<longrightarrow> slot_ok sl'" "answered events = {#}"
  shows "batch_ok env aside (b\<lparr>bt_rows := rows_set uid sl' (bt_rows b), bt_sent := bt_sent b @ events\<rparr>)"
proof -
  have "same_rows (bt_rows b) (rows_set uid sl' (bt_rows b))"
    using same_rows_set [OF batch_okD(4) [OF assms(1)] assms(2-5)] .
  note b = batch_okD [OF same_rows_ok [OF assms(1) this]]
  then show ?thesis using assms(6)
    by (simp add: batch_ok_def ids_ok_def ids_in_def ledger_ok_def blocks_out_def gate_ok_def seats_ok_def requests_ok_def)
qed

lemma batch_ok_put_silent:
  assumes "batch_ok env aside b" "rows_get uid (bt_rows b) = Some sl" "sl_abort sl' = sl_abort sl" "sl_blocks sl' = sl_blocks sl"
    "slot_ok sl \<longrightarrow> slot_ok sl'"
  shows "batch_ok env aside (b\<lparr>bt_rows := rows_set uid sl' (bt_rows b)\<rparr>)"
  using same_rows_ok [OF assms(1) same_rows_set [OF batch_okD(4) [OF assms(1)] assms(2-5)]] .

lemma apply_stop_buffer_ok:
  assumes "slot_ok sl"
  shows "\<exists>events matched sl'. apply_stop_buffer sl piece = Some (events, matched, sl') \<and> slot_ok sl' \<and> filter is_finished events = []
    \<and> sl_abort sl' = sl_abort sl \<and> sl_blocks sl' = sl_blocks sl \<and> an_generated_ids (sl_answer sl') = an_generated_ids (sl_answer sl)"
proof -
  obtain r m where "sm_push piece (an_stops (sl_answer sl)) = Some (r, m)" "matcher_ok m"
    using matcher_push assms by (metis answer_ok_def slot_ok_def)
  with assms show ?thesis by (cases r) (auto simp: apply_stop_buffer_def slot_ok_def answer_ok_def)
qed

definition drawn :: "('s, 'kv, 'v, 'err, 'w) batch_env \<Rightarrow> nat list \<Rightarrow> nat list \<times> ('s, 'kv, 'v, 'err, 'w) batcher \<Rightarrow> bool" where
  "drawn env uids = (\<lambda>(active, b). batch_ok env [] b \<and> distinct (active @ uids)
     \<and> (\<forall>u \<in> set active. \<exists>sl. rows_get u (bt_rows b) = Some sl \<and> an_generated_ids (sl_answer sl) \<noteq> []))"

lemma drawn_put:
  assumes "drawn env (uid # uids) (active, b)" "rows_get uid (bt_rows b) = Some sl" "batch_ok env [] b'"
    "bt_rows b' = rows_set uid sl' (bt_rows b)"
  shows "drawn env uids (active, b')"
    and "an_generated_ids (sl_answer sl') \<noteq> [] \<Longrightarrow> drawn env uids (active @ [uid], b')"
proof -
  have get: "rows_get u (bt_rows b') = (if u = uid then Some sl' else rows_get u (bt_rows b))" for u
    using rows_set(6) [OF _ assms(2)] batch_okD(4) [of env "[]" b] assms(1,4) by (simp add: drawn_def)
  have "\<forall>u \<in> set active. u \<noteq> uid" using assms(1) by (auto simp: drawn_def)
  then show "drawn env uids (active, b')" using assms(1,3) get by (auto simp: drawn_def)
  then show "drawn env uids (active @ [uid], b')" if "an_generated_ids (sl_answer sl') \<noteq> []"
    using assms(1,3) get that by (auto simp: drawn_def)
qed

lemma sample_row_ok:
  assumes "drawn env (uid # uids) s"
  shows "\<exists>s'. sample_row env uid s = Some s' \<and> drawn env uids s'"
proof -
  obtain active b where s: "s = (active, b)" by (cases s)
  note d = assms [unfolded s]
  have b: "batch_ok env [] b" using d by (simp add: drawn_def)
  show ?thesis
  proof (cases "rows_get uid (bt_rows b)")
    case None
    with d show ?thesis by (simp add: s sample_row_def drawn_def)
  next
    case (Some sl)
    let ?a = "sl_answer sl"
    have keep: "\<exists>s'. Some (active, b\<lparr>bt_rows := rows_set uid sl' (bt_rows b)\<rparr>) = Some s' \<and> drawn env uids s'"
      if "sl_abort sl' = sl_abort sl" "sl_blocks sl' = sl_blocks sl" "slot_ok sl \<longrightarrow> slot_ok sl'" for sl'
      using drawn_put(1) [OF d Some batch_ok_put_silent [OF b Some that]] by simp
    show ?thesis
    proof (cases "be_sample env (an_sample ?a) (sl_logits sl) (sl_params sl) (sl_prompt_ids sl) (an_generated_ids ?a)")
      case (Inl err)
      with Some keep [of "slot_fail err sl"] show ?thesis
        by (simp add: s sample_row_def slot_fail_def slot_ok_def Let_def)
    next
      case (Inr x)
      obtain t st where x: "x = (t, st)" by (cases x)
      show ?thesis
      proof (cases t)
        case GrammarComplete
        with Some Inr x keep [of "sl\<lparr>sl_answer := ?a\<lparr>an_sample := st\<rparr>, sl_finish := Some FinishStop\<rparr>"] show ?thesis
          by (simp add: s sample_row_def slot_ok_def answer_ok_def)
      next
        case (Token token p)
        let ?sl1 = "sl\<lparr>sl_answer := ?a\<lparr>an_sample := st\<rparr>\<rparr>"
        show ?thesis
        proof (cases "\<not> gp_ignore_eos (sl_params sl) \<and> token \<in> set (sl_stop_tokens sl) \<or> is_stop_token token (an_stops ?a)")
          case True
          with Some Inr x Token keep [of "?sl1\<lparr>sl_finish := Some FinishStop\<rparr>"] show ?thesis
            by (simp add: s sample_row_def slot_ok_def answer_ok_def Let_def)
        next
          case False
          obtain piece utf8 where push: "us_push (be_decode env token) (an_utf8 ?a) = (piece, utf8)" by fastforce
          let ?sl2 = "?sl1\<lparr>sl_answer := ?a\<lparr>an_sample := st, an_generated_ids := an_generated_ids ?a @ [token], an_utf8 := utf8\<rparr>\<rparr>"
          have ok: "slot_ok ?sl2" using slot_okD [OF b Some] by (simp add: slot_ok_def answer_ok_def)
          show ?thesis
          proof (cases "piece = []")
            case True
            let ?b = "b\<lparr>bt_rows := rows_set uid ?sl2 (bt_rows b)\<rparr>"
            have "batch_ok env [] ?b" by (rule batch_ok_put_silent [OF b Some]) (use ok in simp_all)
            from drawn_put(2) [OF d Some this] have "drawn env uids (active @ [uid], ?b)" by simp
            moreover have "sample_row env uid s = Some (active @ [uid], ?b)"
              using Some Inr x Token False push True by (auto simp: s sample_row_def Let_def)
            ultimately show ?thesis by blast
          next
            case some: False
            obtain events matched sl' where st: "apply_stop_buffer ?sl2 piece = Some (events, matched, sl')" "slot_ok sl'"
              "filter is_finished events = []" "sl_abort sl' = sl_abort sl" "sl_blocks sl' = sl_blocks sl" "an_generated_ids (sl_answer sl') \<noteq> []"
              using apply_stop_buffer_ok [OF ok, of piece] by auto
            let ?b = "b\<lparr>bt_rows := rows_set uid sl' (bt_rows b), bt_sent := bt_sent b @ map (Pair (sl_abort sl')) events\<rparr>"
            have "batch_ok env [] ?b" by (rule batch_ok_put [OF b Some]) (use st in simp_all)
            note put = drawn_put [OF d Some this, of sl']
            have "drawn env uids (if matched then active else active @ [uid], ?b)" using put st(6) by simp
            moreover have "sample_row env uid s = Some (if matched then active else active @ [uid], ?b)"
              using Some Inr x Token False push some st(1) by (auto simp: s sample_row_def Let_def)
            ultimately show ?thesis by blast
          qed
        qed
      qed
    qed
  qed
qed

lemma lift_row_ok:
  assumes "batch_ok env [] b" "\<forall>u \<in> set (uid # uids). \<exists>sl. rows_get u (bt_rows b) = Some sl \<and> an_generated_ids (sl_answer sl) \<noteq> []"
  shows "\<exists>inputs' b'. lift_row env uid (inputs, b) = Some (inputs', b') \<and> batch_ok env [] b' \<and> length inputs' = Suc (length inputs)
    \<and> (\<forall>u. (\<exists>sl. rows_get u (bt_rows b) = Some sl \<and> an_generated_ids (sl_answer sl) \<noteq> [])
        \<longrightarrow> (\<exists>sl. rows_get u (bt_rows b') = Some sl \<and> an_generated_ids (sl_answer sl) \<noteq> []))"
proof -
  obtain sl where sl: "rows_get uid (bt_rows b) = Some sl" "an_generated_ids (sl_answer sl) \<noteq> []" using assms(2) by auto
  obtain kv w where kv: "(if be_paged env then be_before_step env (last (an_generated_ids (sl_answer sl))) (sl_pos sl) (sl_kv sl) (bt_world b)
      else (sl_kv sl, bt_world b)) = (kv, w)" by fastforce
  let ?b = "b\<lparr>bt_rows := rows_set uid (sl\<lparr>sl_kv := kv\<rparr>) (bt_rows b)\<rparr>"
  have "batch_ok env [] ?b" by (rule batch_ok_put_silent [OF assms(1) sl(1)]) (simp_all add: slot_ok_def)
  moreover have "lift_row env uid (inputs, b) = Some (inputs @ [(last (an_generated_ids (sl_answer sl)), sl_pos sl, kv)], ?b\<lparr>bt_world := w\<rparr>)"
    using sl kv by (simp add: lift_row_def Let_def)
  moreover have "batch_ok env [] (?b\<lparr>bt_world := w\<rparr>) = batch_ok env [] ?b" by (rule batch_ok_update(5))
  ultimately show ?thesis
    using sl rows_set(6) [OF batch_okD(4) [OF assms(1)] sl(1)]
    by (intro exI [of _ "inputs @ [(last (an_generated_ids (sl_answer sl)), sl_pos sl, kv)]"] exI [of _ "?b\<lparr>bt_world := w\<rparr>"]) auto
qed

lemma lift_rows_ok:
  assumes "batch_ok env [] b" "\<forall>u \<in> set uids. \<exists>sl. rows_get u (bt_rows b) = Some sl \<and> an_generated_ids (sl_answer sl) \<noteq> []"
  shows "\<exists>inputs' b'. each (lift_row env) uids (inputs, b) = Some (inputs', b') \<and> batch_ok env [] b' \<and> length inputs' = length inputs + length uids
    \<and> (\<forall>u. (\<exists>sl. rows_get u (bt_rows b) = Some sl \<and> an_generated_ids (sl_answer sl) \<noteq> [])
        \<longrightarrow> (\<exists>sl. rows_get u (bt_rows b') = Some sl \<and> an_generated_ids (sl_answer sl) \<noteq> []))"
  using assms
proof (induction uids arbitrary: inputs b)
  case (Cons uid uids)
  from lift_row_ok [OF Cons.prems] obtain inputs1 b1 where l: "lift_row env uid (inputs, b) = Some (inputs1, b1)" "batch_ok env [] b1"
    "length inputs1 = Suc (length inputs)" "\<forall>u. (\<exists>sl. rows_get u (bt_rows b) = Some sl \<and> an_generated_ids (sl_answer sl) \<noteq> [])
        \<longrightarrow> (\<exists>sl. rows_get u (bt_rows b1) = Some sl \<and> an_generated_ids (sl_answer sl) \<noteq> [])" by blast
  have "\<forall>u \<in> set uids. \<exists>sl. rows_get u (bt_rows b1) = Some sl \<and> an_generated_ids (sl_answer sl) \<noteq> []" using Cons.prems(2) l(4) by simp
  from Cons.IH [OF l(2) this, of inputs1] l show ?case by fastforce
qed simp

lemma scatter_rows_ok:
  assumes "batch_ok env [] b" "\<forall>u \<in> fst ` set xs. \<exists>sl. rows_get u (bt_rows b) = Some sl"
  shows "\<exists>b'. each scatter_row xs b = Some b' \<and> batch_ok env [] b'"
  using assms
proof (induction xs arbitrary: b)
  case (Cons x xs)
  obtain uid logits kv where x: "x = (uid, logits, kv)" by (cases x)
  obtain sl where sl: "rows_get uid (bt_rows b) = Some sl" using Cons.prems(2) x by auto
  let ?sl = "sl\<lparr>sl_kv := kv, sl_logits := logits, sl_pos := sl_pos sl + 1\<rparr>"
  let ?sl' = "if length (an_generated_ids (sl_answer ?sl)) \<ge> sl_max_tokens ?sl then ?sl\<lparr>sl_finish := Some FinishLength\<rparr> else ?sl"
  let ?b = "b\<lparr>bt_rows := rows_set uid ?sl' (bt_rows b)\<rparr>"
  have "batch_ok env [] ?b" by (rule batch_ok_put_silent [OF Cons.prems(1) sl]) (simp_all add: slot_ok_def)
  moreover have "\<forall>u \<in> fst ` set xs. \<exists>sl. rows_get u (bt_rows ?b) = Some sl"
    using Cons.prems(2) rows_set(6) [OF batch_okD(4) [OF Cons.prems(1)] sl] by auto
  moreover have "scatter_row x b = Some ?b" using sl by (simp add: scatter_row_def x Let_def)
  ultimately show ?case using Cons.IH by simp
qed simp

lemma decode_tick_ok:
  assumes b: "batch_ok env [] b" and env: "env_ok env"
  obtains b' where "decode_tick env b = Some b'" "batch_ok env [] b'"
proof (cases "rw_order (bt_rows b) = []")
  case True
  with that b show ?thesis by (simp add: decode_tick_def)
next
  case False
  have "drawn env (rows_ready (bt_rows b)) ([], b)"
    using b batch_okD(4) [OF b] by (simp add: drawn_def rows_ready_def rows_ok_def)
  from each_ok [where I = "drawn env" and f = "sample_row env", OF this] sample_row_ok [of env] obtain active b1 where s: "each (sample_row env) (rows_ready (bt_rows b)) ([], b) = Some (active, b1)"
    "drawn env [] (active, b1)" by auto
  then have b1: "batch_ok env [] b1" "\<forall>u \<in> set active. \<exists>sl. rows_get u (bt_rows b1) = Some sl \<and> an_generated_ids (sl_answer sl) \<noteq> []"
    by (simp_all add: drawn_def)
  obtain b2 where f: "forward_rows env active b1 = Some b2" "batch_ok env [] b2"
  proof (cases "active = []")
    case True
    with that b1 show ?thesis by (simp add: forward_rows_def)
  next
    case some: False
    from lift_rows_ok [OF b1, of "[]"] obtain inputs c where l: "each (lift_row env) active ([], b1) = Some (inputs, c)" "batch_ok env [] c"
      "length inputs = length active" "\<forall>u. (\<exists>sl. rows_get u (bt_rows b1) = Some sl \<and> an_generated_ids (sl_answer sl) \<noteq> [])
        \<longrightarrow> (\<exists>sl. rows_get u (bt_rows c) = Some sl \<and> an_generated_ids (sl_answer sl) \<noteq> [])" by auto
    obtain outputs w where fwd: "be_forward_multi env inputs (bt_world c) = Some (outputs, w)" "length outputs = length inputs"
      using env_ok_multi [OF env] by blast
    let ?c = "c\<lparr>bt_world := w, bt_counters := (bt_counters c)\<lparr>ct_decode_steps := ct_decode_steps (bt_counters c) + 1\<rparr>\<rparr>"
    have "batch_ok env [] ?c" using l(2) by (simp only: batch_ok_update)
    moreover have "\<forall>u \<in> fst ` set (zip active outputs). \<exists>sl. rows_get u (bt_rows ?c) = Some sl"
    proof
      fix u assume "u \<in> fst ` set (zip active outputs)"
      then have "u \<in> set active" by (auto dest: set_zip_leftD)
      then show "\<exists>sl. rows_get u (bt_rows ?c) = Some sl" using l(4) b1(2) by fastforce
    qed
    ultimately obtain b2 where "each scatter_row (zip active outputs) ?c = Some b2" "batch_ok env [] b2" using scatter_rows_ok by blast
    then show ?thesis using that some l(1,3) fwd by (simp add: forward_rows_def)
  qed
  obtain b3 where "flush_finished env b2 = Some b3" "batch_ok env [] b3" using flush_finished_ok [OF f(2)] .
  then show thesis using that False s(1) f(1) by (simp add: decode_tick_def)
qed

section \<open>The worker and its callers\<close>

lemma drain_ok: "batch_ok env [] b \<Longrightarrow> batch_ok env [] (drain_channel b)"
  by (auto simp: batch_ok_def ids_ok_def ids_in_def ledger_ok_def blocks_out_def gate_ok_def seats_ok_def requests_ok_def drain_channel_def ac_simps)

lemma worker_tick_ok:
  assumes b: "batch_ok env [] b" and env: "env_ok env"
  obtains b' where "worker_tick env b = Some b'" "batch_ok env [] b'"
proof (cases "batch_idle b \<and> bt_channel b = []")
  case True
  with that b show ?thesis by (simp add: worker_tick_def)
next
  case False
  obtain b1 where b1: "apply_aborts env (drain_channel b) = Some b1" "batch_ok env [] b1" using apply_aborts_ok [OF drain_ok [OF b]] .
  obtain b2 where b2: "flush_finished env b1 = Some b2" "batch_ok env [] b2" using flush_finished_ok [OF b1(2)] .
  obtain b3 where b3: "admit env b2 = Some b3" "batch_ok env [] b3" using admit_ok [OF b2(2) env] .
  have "batch_ok env [] (note_peak b3)" using b3(2) by (simp only: note_peak_def Let_def batch_ok_update)
  from prefill_tick_ok [OF this env] obtain b4 where b4: "prefill_tick env (note_peak b3) = Some b4" "batch_ok env [] b4" .
  obtain b5 where "decode_tick env b4 = Some b5" "batch_ok env [] b5" using decode_tick_ok [OF b4(2) env] .
  moreover have "worker_tick env b = decode_tick env b4"
  proof -
    have "(batch_idle b \<and> bt_channel b = []) = False" using False by blast
    then show ?thesis by (simp only: worker_tick_def if_False b1(1) b2(1) b3(1) b4(1) option.simps bind.simps Option.bind.bind_lunit)
  qed
  ultimately show thesis using that by simp
qed

lemma ceiling_keeps:
  "ceiling_fit p m c = (r, c') \<Longrightarrow> cl_limit c' = cl_limit c"
  "ceiling_refusal n c = (r', c') \<Longrightarrow> cl_limit c' = cl_limit c"
  by (auto simp: ceiling_fit_def prompt_refusal_def overflow_refusal_def ceiling_refusal_def split: option.splits prod.splits if_splits)

text \<open>Fields of the ledger the invariant does not read, and the claims of the gate.\<close>

lemma batch_ok_budget:
  "batch_ok env aside b \<Longrightarrow> bb_total budget = bb_total (bt_budget b) \<Longrightarrow> bb_free budget = bb_free (bt_budget b) \<Longrightarrow>
    batch_ok env aside (b\<lparr>bt_budget := budget\<rparr>)"
  by (simp add: batch_ok_def ids_ok_def ids_in_def ledger_ok_def blocks_out_def gate_ok_def seats_ok_def requests_ok_def)

lemma immovable_keeps:
  "immovable_refusal n k budget = (r, budget') \<Longrightarrow> bb_total budget' = bb_total budget \<and> bb_free budget' = bb_free budget"
  by (auto simp: immovable_refusal_def split: option.splits prod.splits if_splits)

lemma qg_try_reserve_depth:
  "qg_try_reserve g = (r, g') \<Longrightarrow> qg_depth g' = (if r = None then qg_depth g + 1 else qg_depth g)"
  by (auto simp: qg_try_reserve_def reserve_attempt_def split: if_splits)

lemma submit_ok:
  assumes b: "batch_ok env [] b" and stops: "\<forall>s \<in> set (gp_stop params). from_utf8 0 s = None"
  shows "batch_ok env [] (snd (submit env prompt params stop_tokens b))"
proof -
  let ?p = "length prompt"
  obtain fit ceiling where fit: "(ceiling_fit ?p (gp_max_tokens params) (bb_ceiling (bt_budget b)) :: ('d decode_error, nat) result \<times> _) = (fit, ceiling)"
    by fastforce
  let ?budget = "(bt_budget b)\<lparr>bb_ceiling := ceiling\<rparr>"
  have b1: "batch_ok env [] (b\<lparr>bt_budget := ?budget\<rparr>)" by (rule batch_ok_budget [OF b]) simp_all
  show ?thesis
  proof (cases fit)
    case (Inl err)
    with b1 fit show ?thesis by (simp add: submit_def Let_def)
  next
    case (Inr n)
    let ?len = "min (?p + n) usize_max"
    let ?positions = "paged_hold_positions ?len ?p (bb_block_size ?budget) (be_paged_window env)"
    obtain refusal budget where imm: "(immovable_refusal ?len ?positions ?budget :: 'd decode_error option \<times> _) = (refusal, budget)" by fastforce
    have b2: "batch_ok env [] (b\<lparr>bt_budget := budget\<rparr>)"
      by (rule batch_ok_budget [OF b]) (use immovable_keeps [OF imm] in simp_all)
    show ?thesis
    proof (cases refusal)
      case (Some err)
      with b2 fit Inr imm show ?thesis by (simp add: submit_def Let_def)
    next
      case None
      obtain refused gate where g: "qg_try_reserve (bt_queue b) = (refused, gate)" by fastforce
      note depth = qg_try_reserve_depth [OF g]
      let ?job = "\<lparr>jb_prompt_tokens = prompt, jb_params = params\<lparr>gp_max_tokens := n\<rparr>, jb_stop_tokens = stop_tokens,
          jb_abort = bt_next_id b, jb_blocks = blocks_for ?positions ?budget, jb_skips = 0, jb_waited = 0, jb_answer = None\<rparr>"
      let ?b = "b\<lparr>bt_budget := budget, bt_queue := gate\<rparr>"
      show ?thesis
      proof (cases refused)
        case (Some queued)
        have "snd (submit env prompt params stop_tokens b) = ?b"
          using fit Inr imm None g Some by (simp add: submit_def Let_def)
        moreover have "batch_ok env [] ?b"
          using b2 depth Some by (simp add: batch_ok_def ids_ok_def ids_in_def ledger_ok_def blocks_out_def gate_ok_def seats_ok_def requests_ok_def)
        ultimately show ?thesis by simp
      next
        case none: None
        let ?c = "?b\<lparr>bt_next_id := bt_next_id b + 1, bt_channel := bt_channel b @ [?job]\<rparr>"
        have "snd (submit env prompt params stop_tokens b) = ?c"
          using fit Inr imm None g none by (simp add: submit_def Let_def)
        moreover have "batch_ok env [] ?c"
        proof -
          note ok = batch_okD [OF b2]
          have "ids_ok [] ?c" using ok(1) by (simp add: ids_ok_def ids_in_def)
          moreover have "ledger_ok ?c" using ok(2) by (simp add: ledger_ok_def blocks_out_def)
          moreover have "gate_ok ?c" using ok(3) depth none by (simp add: gate_ok_def)
          moreover have "seats_ok env ?c" using ok(5) by (simp add: seats_ok_def)
          moreover have "requests_ok [] ?c" using ok(6) stops by (auto simp: requests_ok_def job_ok_def)
          ultimately show ?thesis using ok(4) by (simp add: batch_ok_def)
        qed
        ultimately show ?thesis by simp
      qed
    qed
  qed
qed

section \<open>Runs\<close>

datatype batch_op = Submit "nat list" batch_params "nat list" | CancelJob nat | Tick

text \<open>What callers and worker do, in any order; the worker's loop is cut at the top of a turn.\<close>

fun batch_do ::
  "('s, 'kv, 'v, 'err, 'w) batch_env \<Rightarrow> batch_op \<Rightarrow> ('s, 'kv, 'v, 'err, 'w) batcher \<Rightarrow> ('s, 'kv, 'v, 'err, 'w) batcher option" where
  "batch_do env (Submit prompt params stop_tokens) b = Some (snd (submit env prompt params stop_tokens b))"
| "batch_do env (CancelJob i) b = Some (enqueue_abort i b)"
| "batch_do env Tick b = worker_tick env b"

definition batch_run ::
  "('s, 'kv, 'v, 'err, 'w) batch_env \<Rightarrow> batch_op list \<Rightarrow> ('s, 'kv, 'v, 'err, 'w) batcher \<Rightarrow> ('s, 'kv, 'v, 'err, 'w) batcher option" where
  "batch_run env = each (batch_do env)"

fun stops_text :: "batch_op \<Rightarrow> bool" where
  "stops_text (Submit prompt params stop_tokens) = (\<forall>s \<in> set (gp_stop params). from_utf8 0 s = None)"
| "stops_text _ = True"

definition stops_are_text :: "batch_op list \<Rightarrow> bool" where
  "stops_are_text = list_all stops_text"

lemma batch_run_ok:
  assumes "batch_ok env [] b" "env_ok env" "stops_are_text ops"
  shows "\<exists>b'. batch_run env ops b = Some b' \<and> batch_ok env [] b'"
  using assms
proof (induction ops arbitrary: b)
  case (Cons op ops)
  have "\<exists>b'. batch_do env op b = Some b' \<and> batch_ok env [] b'"
  proof (cases op)
    case (Submit prompt params stop_tokens)
    then have "\<forall>s \<in> set (gp_stop params). from_utf8 0 s = None" using Cons.prems(3) by (simp add: stops_are_text_def)
    from submit_ok [OF Cons.prems(1) this] Submit show ?thesis by simp
  next
    case (CancelJob i)
    with Cons.prems(1) show ?thesis by (simp add: enqueue_abort_def)
  next
    case Tick
    with worker_tick_ok [OF Cons.prems(1,2)] show ?thesis by (metis batch_do.simps(3))
  qed
  moreover have "stops_are_text ops" using Cons.prems(3) by (simp add: stops_are_text_def)
  ultimately show ?case using Cons.IH Cons.prems(2) by (fastforce simp: batch_run_def)
qed (simp add: batch_run_def)

lemma batcher_new_ok:
  "\<forall>t. bb_total budget = Some t \<longrightarrow> bb_free budget = t \<Longrightarrow> batch_ok env [] (batcher_new max_queue budget w)"
  by (simp add: batch_ok_def ids_ok_def ids_in_def ledger_ok_def blocks_out_def gate_ok_def seats_ok_def requests_ok_def
      batcher_new_def queue_gate_new_def rows_ok_def rows_default_def rows_count_def blocks_held_def)

end
