(* ===== verification/Batch_Runs.thy ===== *)
theory Batch_Runs
  imports Batch_Ticks
begin

text \<open>
  What holds of every run of the batch scheduler, and two of its ends: an answer cut inside a
  character, and a request with no budget.
\<close>

section \<open>The blocks of the pool\<close>

abbreviation blocks_of :: "('s, 'kv, 'v, 'err, 'w) batcher \<Rightarrow> nat option" where
  "blocks_of b \<equiv> bb_total (bt_budget b)"

lemma each_keeps:
  "(\<And>x s s'. f x s = Some s' \<Longrightarrow> g s' = g s) \<Longrightarrow> each f xs s = Some s' \<Longrightarrow> g s' = g s"
proof (induction xs arbitrary: s)
  case (Cons x xs)
  then show ?case by (auto split: option.splits)
qed simp

lemma flush_total: "flush_finished env b = Some b' \<Longrightarrow> blocks_of b' = blocks_of b"
  unfolding flush_finished_def
  by (rule each_keeps [where g = blocks_of]) (auto simp: flush_row_def split: option.splits)

lemma aborts_total: "apply_aborts env b = Some b' \<Longrightarrow> blocks_of b' = blocks_of b"
proof -
  have w: "each abort_waiting js c = Some c' \<Longrightarrow> blocks_of c' = blocks_of c" for js c and c' :: "('a, 'b, 'c, 'd, 'e) batcher"
    by (rule each_keeps [where g = blocks_of]) (auto simp: abort_waiting_def split: option.splits if_splits)
  have p: "each (abort_prefill env) ps c = Some c' \<Longrightarrow> blocks_of c' = blocks_of c" for ps c c'
    by (rule each_keeps [where g = blocks_of]) (auto simp: abort_prefill_def split: option.splits if_splits)
  show "apply_aborts env b = Some b' \<Longrightarrow> blocks_of b' = blocks_of b"
    by (auto simp: apply_aborts_def Let_def abort_rows_def split: if_splits option.splits prod.splits dest!: w p)
qed

lemma make_room_total: "make_room env head b = Some (made, b') \<Longrightarrow> blocks_of b' = blocks_of b"
proof -
  have e: "each (evict_row env) uids s = Some s' \<Longrightarrow> blocks_of (snd s') = blocks_of (snd s)" for uids s s'
    by (rule each_keeps [where g = "blocks_of \<circ> snd", unfolded comp_def])
       (auto simp: evict_row_def preempt_def Let_def split: option.splits prod.splits)
  show "make_room env head b = Some (made, b') \<Longrightarrow> blocks_of b' = blocks_of b"
    by (auto simp: make_room_def Let_def split: option.splits if_splits prod.splits dest!: e)
qed

lemma admit_job_total: "admit_job env pick aside b = Some (go, aside', b') \<Longrightarrow> blocks_of b' = blocks_of b"
  by (auto simp: admit_job_def Let_def split: if_splits option.splits prod.splits accepted_job.splits)

lemma admit_next_total: "admit_next env aside b = Some (go, aside', b') \<Longrightarrow> blocks_of b' = blocks_of b"
  by (auto simp: admit_next_def Let_def split: if_splits option.splits prod.splits
      dest!: admit_job_total make_room_total dest: reserve_total)

lemma admit_loop_total: "admit_loop n env aside b = Some (aside', b') \<Longrightarrow> blocks_of b' = blocks_of b"
proof (induction n arbitrary: aside b)
  case (Suc n)
  then show ?case by (auto split: option.splits prod.splits if_splits dest!: admit_next_total)
qed simp

lemma decode_total: "decode_tick env b = Some b' \<Longrightarrow> blocks_of b' = blocks_of b"
proof -
  have s: "each (sample_row env) uids s = Some s' \<Longrightarrow> blocks_of (snd s') = blocks_of (snd s)" for uids s s'
    by (rule each_keeps [where g = "blocks_of \<circ> snd", unfolded comp_def])
       (auto simp: sample_row_def Let_def split: option.splits prod.splits sum.splits step.splits if_splits)
  have l: "each (lift_row env) uids s = Some s' \<Longrightarrow> blocks_of (snd s') = blocks_of (snd s)" for uids s s'
    by (rule each_keeps [where g = "blocks_of \<circ> snd", unfolded comp_def])
       (auto simp: lift_row_def Let_def split: option.splits prod.splits if_splits)
  have c: "each scatter_row xs c = Some c' \<Longrightarrow> blocks_of c' = blocks_of c" for xs c and c' :: "('a, 'b, 'c, 'd, 'e) batcher"
    by (rule each_keeps [where g = blocks_of]) (auto simp: scatter_row_def Let_def split: option.splits)
  have f: "forward_rows env active c = Some c' \<Longrightarrow> blocks_of c' = blocks_of c" for active c c'
    by (auto simp: forward_rows_def split: if_splits option.splits prod.splits dest!: l c)
  show "decode_tick env b = Some b' \<Longrightarrow> blocks_of b' = blocks_of b"
    by (auto simp: decode_tick_def split: if_splits option.splits prod.splits dest!: s f flush_total)
qed

lemma prefill_total: "prefill_tick env b = Some b' \<Longrightarrow> blocks_of b' = blocks_of b"
  by (auto simp: prefill_tick_def Let_def split: list.splits prod.splits)

lemma admit_total: "admit env b = Some b' \<Longrightarrow> blocks_of b' = blocks_of b"
  by (auto simp: admit_def simp del: admit_loop.simps dest!: admit_loop_total)

lemma worker_total: "worker_tick env b = Some b' \<Longrightarrow> blocks_of b' = blocks_of b"
  by (auto simp: worker_tick_def drain_channel_def note_peak_def Let_def bind_eq_Some_conv split: if_splits
      dest!: aborts_total flush_total admit_total prefill_total decode_total)

lemma submit_total: "blocks_of (snd (submit env prompt params stop_tokens b)) = blocks_of b"
  by (auto simp: submit_def Let_def split: sum.splits prod.splits option.splits dest!: immovable_keeps)

lemma batch_run_total: "batch_run env ops b = Some b' \<Longrightarrow> blocks_of b' = blocks_of b"
  unfolding batch_run_def
proof (rule each_keeps [where g = blocks_of])
  fix op s s' assume "batch_do env op s = Some s'"
  then show "blocks_of s' = blocks_of s" by (cases op) (auto simp: submit_total enqueue_abort_def dest: worker_total)
qed

section \<open>A server to run\<close>

text \<open>A small world for the examples: the cache is the list of tokens it was fed, the logits are the
  last of them, and the sampler counts up from the last token of the answer.\<close>

definition toy_sample :: "nat \<Rightarrow> nat list \<Rightarrow> batch_params \<Rightarrow> nat list \<Rightarrow> nat list \<Rightarrow> unit decode_error + unit step \<times> nat" where
  "toy_sample st logits params prompt generated = Inr (Token (hd logits + 1) None, st + 1)"

definition toy_env :: "nat \<Rightarrow> nat option \<Rightarrow> (nat, nat list, nat, unit, nat) batch_env" where
  "toy_env max_seqs after =
     \<lparr>be_config = \<lparr>bf_max_seqs = max_seqs, bf_prefill_chunk = 64, bf_max_batch_tokens = 64, bf_preempt_after_ticks = after\<rparr>,
      be_vocab_size = 100, be_paged = False, be_radix = False, be_paged_window = None,
      be_decode = (\<lambda>t. if t = 9 then [240] else [of_nat (97 + t)]), be_sample_new = (\<lambda>_. 0), be_sample = toy_sample, be_new_kv = [],
      be_acquire = (\<lambda>_ _ _ _ w. (Some [], w)), be_cached_len = (\<lambda>_ _ _. 0),
      be_positions_written = length, be_slides = (\<lambda>_. False),
      be_forward_prefill = (\<lambda>chunk pos kv w. Some ([last (0 # chunk)], kv @ chunk, w + 1)),
      be_before_step = (\<lambda>_ _ kv w. (kv, w)),
      be_forward_multi = (\<lambda>inputs w. Some (map (\<lambda>(t, pos, kv). ([t], kv @ [t])) inputs, w + 1)),
      be_publish = (\<lambda>_ _ w. w), be_drop_kv = (\<lambda>_ w. w)\<rparr>"

definition toy_params :: "nat \<Rightarrow> batch_params" where
  "toy_params max_tokens =
     \<lparr>gp_max_tokens = max_tokens, gp_ignore_eos = False, gp_keep_special_tokens = False, gp_stop = [], gp_stop_token_ids = [], bp_seed = 0, bp_cache_salt = None\<rparr>"

definition toy_budget :: "nat \<Rightarrow> block_budget" where
  "toy_budget blocks = the (block_budget_new 4 (Some blocks) (context_ceiling_new None))"

definition toy_new :: "nat \<Rightarrow> (nat, nat list, nat, unit, nat) batcher" where
  "toy_new blocks = batcher_new 8 (toy_budget blocks) 0"

lemma toy_env_ok: "env_ok (toy_env n after)"
  by (simp add: env_ok_def toy_env_def)

lemma toy_budget_new: "block_budget_new 4 (Some n) (context_ceiling_new None) = Some (toy_budget n)"
  by (simp add: toy_budget_def block_budget_new_def)


lemma toy_accepts:
  fixes b :: "(nat, nat list, nat, unit, nat) batcher"
  assumes "bb_total (bt_budget b) = Some t" "bb_block_size (bt_budget b) = 4" "cl_limit (bb_ceiling (bt_budget b)) = None"
    "qg_depth (bt_queue b) < qg_cap (bt_queue b)" "length prompt + m \<le> 1000" "blocks_for (length prompt + m) (bt_budget b) \<le> t"
  shows "submit (toy_env n after) prompt (toy_params m) [] b
    = (Inr (bt_next_id b), b\<lparr>bt_queue := (bt_queue b)\<lparr>qg_depth := qg_depth (bt_queue b) + 1\<rparr>, bt_next_id := bt_next_id b + 1,
        bt_channel := bt_channel b @ [\<lparr>jb_prompt_tokens = prompt, jb_params = toy_params m, jb_stop_tokens = [],
           jb_abort = bt_next_id b, jb_blocks = blocks_for (length prompt + m) (bt_budget b), jb_skips = 0, jb_waited = 0, jb_answer = None\<rparr>]\<rparr>)"
proof -
  have u: "length prompt + m \<le> usize_max" using assms(5) by (simp add: usize_max_def)
  have "toy_params m\<lparr>gp_max_tokens := m\<rparr> = toy_params m" by (simp add: toy_params_def)
  moreover have "gp_max_tokens (toy_params m) = m" by (simp add: toy_params_def)
  ultimately show ?thesis using assms u
    by (cases b) (simp add: submit_def Let_def ceiling_fit_def prompt_refusal_def overflow_refusal_def immovable_refusal_def
      ceiling_refusal_def qg_try_reserve_def reserve_attempt_def toy_env_def paged_hold_positions_def blocks_for_def)
qed

definition toy_job :: "nat \<Rightarrow> nat list \<Rightarrow> nat \<Rightarrow> nat \<Rightarrow> nat job" where
  "toy_job i prompt m blocks = \<lparr>jb_prompt_tokens = prompt, jb_params = toy_params m, jb_stop_tokens = [],
     jb_abort = i, jb_blocks = blocks, jb_skips = 0, jb_waited = 0, jb_answer = None\<rparr>"
definition toy_queued :: "nat \<Rightarrow> (nat, nat list, nat, unit, nat) batcher" where
  "toy_queued m = (toy_new 4)\<lparr>bt_queue := \<lparr>qg_depth = 1, qg_cap = 8, qg_rejected = 0\<rparr>, bt_next_id := 1, bt_channel := [toy_job 0 [1, 2] m 1]\<rparr>"
text \<open>The two largest numbers are not computed in the examples: nothing there comes near them.\<close>

declare usize_max_def [code del] u32_max_def [code del]

lemma toy_queued:
  assumes "m \<le> 2"
  shows "batch_do (toy_env n after) (Submit [1, 2] (toy_params m) []) (toy_new 4) = Some (toy_queued m)"
proof -
  have b: "bt_budget (toy_new 4) = \<lparr>bb_block_size = 4, bb_ceiling = \<lparr>cl_limit = None, cl_refused = 0\<rparr>, bb_total = Some 4, bb_free = 4, bb_rejected_too_large = 0\<rparr>"
    "bt_queue (toy_new 4) = \<lparr>qg_depth = 0, qg_cap = 8, qg_rejected = 0\<rparr>" "bt_next_id (toy_new 4) = 0" "bt_channel (toy_new 4) = []"
    by (simp_all add: toy_new_def batcher_new_def toy_budget_def block_budget_new_def queue_gate_new_def context_ceiling_new_def)
  have "m = 0 \<or> m = 1 \<or> m = 2" using assms by auto
  then have m: "blocks_for (2 + m) (bt_budget (toy_new 4)) = 1" by (auto simp: b blocks_for_def div_ceil_def)
  show ?thesis using assms m by (simp add: toy_accepts [where t = 4] b toy_queued_def toy_job_def)
qed

lemma toy_run:
  "m \<le> 2 \<Longrightarrow> batch_run (toy_env n after) (Submit [1, 2] (toy_params m) [] # ops) (toy_new 4) = batch_run (toy_env n after) ops (toy_queued m)"
  using toy_queued [of m n after] by (simp add: batch_run_def)

section \<open>Every run\<close>



text \<open>C2. The books of the scheduler balance after every run: the free blocks of the pool and those
  of the rows and prefills are all the blocks, the depth of the gate is the number of queued jobs, no
  more requests run than there are seats, no waiting job was passed over more often than \<open>MAX_SKIPS\<close>,
  and no answer was cut short by preemption more often than \<open>MAX_PREEMPTIONS\<close>.\<close>

theorem batch_books_balance:
  assumes "block_budget_new block_size (Some blocks) ceiling = Some budget" "env_ok env" "stops_are_text ops"
    and "batch_run env ops (batcher_new max_queue budget w) = Some b"
  shows "bb_free (bt_budget b) + blocks_held (bt_rows b) + sum_list (map pf_blocks (bt_prefills b)) = blocks
    \<and> qg_depth (bt_queue b) = length (bt_channel b) + length (bt_waiting b)
    \<and> rows_count (bt_rows b) + length (bt_prefills b) \<le> bf_max_seqs (be_config env)
    \<and> (\<forall>j \<in> set (bt_waiting b). jb_skips j \<le> max_skips)
    \<and> (\<forall>a \<in> (sl_answer \<circ> snd) ` set (rw_state (bt_rows b)). an_preemptions a \<le> max_preemptions)"
proof -
  have new: "bb_total budget = Some blocks" "bb_free budget = blocks" using assms(1) by (auto simp: block_budget_new_def split: if_splits)
  then have ok: "batch_ok env [] b" using batch_run_ok [OF batcher_new_ok assms(2,3), of budget max_queue w] assms(4) by simp
  have "bb_total (bt_budget b) = Some blocks" using batch_run_total [OF assms(4)] new by (simp add: batcher_new_def)
  then show ?thesis using ok
    by (auto simp: batch_ok_def ledger_ok_def blocks_out_def gate_ok_def seats_ok_def requests_ok_def job_ok_def slot_ok_def answer_ok_def)
qed

theorem batch_books_balance_witness:
  "\<exists>b. batch_run (toy_env 2 None) [Submit [1, 2] (toy_params 2) [], Tick] (toy_new 4) = Some b
    \<and> bb_free (bt_budget b) + blocks_held (bt_rows b) + sum_list (map pf_blocks (bt_prefills b)) = 4 \<and> bb_free (bt_budget b) = 3"
proof -
  let ?r = "batch_run (toy_env 2 None) [Tick] (toy_queued 2)"
  have "?r \<noteq> None" and free: "bb_free (bt_budget (the ?r)) = 3" by code_simp+
  then obtain b where b: "?r = Some b" by auto
  then have run: "batch_run (toy_env 2 None) [Submit [1, 2] (toy_params 2) [], Tick] (toy_new 4) = Some b" using toy_run [of 2] by simp
  have "stops_are_text [Submit [1, 2] (toy_params 2) [], Tick]" by (simp add: stops_are_text_def toy_params_def)
  from batch_books_balance [OF toy_budget_new toy_env_ok this run [unfolded toy_new_def]] b free run show ?thesis by simp
qed

section \<open>No budget\<close>



section \<open>An answer cut inside a character\<close>

text \<open>C4. The batched reply loses text that the other path shows.  An answer that ends inside a character
  pushes U+FFFD through its stop matcher and drops what the matcher lets go: the character itself and
  the text that was withheld until then.  The stream of a choice, with the same matcher and bytes,
  emits them.\<close>

theorem batched_reply_drops_partial:
  assumes "an_utf8 a \<noteq> []" "sm_push replacement_character (an_stops a) = Some (Emit freed, m)"
    and "cs_utf8 c = an_utf8 a" "cs_matcher c = an_stops a"
  shows "answer_reply a finish None
      = Some ((if sm_pending m = [] then [] else [Chunk (sm_pending m)])
          @ [Finished (Inr (finish, an_generated_ids a, an_visible a @ sm_pending m))])
    \<and> map_option (concat \<circ> fst) (cs_flush c) = Some (freed @ sm_pending m)"
  using assms by (auto simp: answer_reply_def cs_flush_def us_flush_def sm_flush_def emitted_def Let_def replacement_character_def)

definition cut_answer :: "unit answer" where
  "cut_answer = \<lparr>an_sample = (), an_generated_ids = [1, 9], an_visible = [97],
     an_stops = (stop_matcher_new [[98, 99]] [])\<lparr>sm_pending := [98]\<rparr>, an_utf8 = [240], an_prompt_tokens = 1, an_preemptions = 0\<rparr>"

definition cut_stream :: "(unit, unit, unit) choice_stream" where
  "cut_stream = (choice_stream_new () 2 () (gen_params.truncate (toy_params 5)))
     \<lparr>cs_matcher := an_stops cut_answer, cs_utf8 := an_utf8 cut_answer\<rparr>"

theorem batched_reply_drops_partial_witness:
  "answer_reply cut_answer FinishLength None = Some [Finished (Inr (FinishLength, [1, 9], [97]))]
    \<and> map_option (concat \<circ> fst) (cs_flush cut_stream) = Some [98, 239, 191, 189]"
proof -
  define m where "m = snd (the (sm_push replacement_character (an_stops cut_answer)))"
  have "an_utf8 cut_answer \<noteq> []" "sm_push replacement_character (an_stops cut_answer) = Some (Emit [98, 239, 191, 189], m)" "sm_pending m = []"
    unfolding m_def by code_simp+
  with batched_reply_drops_partial [of cut_answer "[98, 239, 191, 189]" m cut_stream FinishLength]
  show ?thesis by (simp add: cut_stream_def cut_answer_def)
qed

end
