(* ===== verification/Spec2Isabelle.thy ===== *)
theory Spec2Isabelle
  imports Grammar_Sampler Grammar_Literal Paged_Lease Paged_Forward Salted_Radix Round_Robin Batch_Runs
begin

text \<open>
  A verification development for frink.  (Header written at the end of the sitting.)
\<close>

end
